(* ===== verification/Prelude.thy ===== *)
theory Prelude
  imports Main "HOL-Library.Word"
begin

text \<open>
  Shared vocabulary of the development: outcomes of fallible Rust code, byte slices with
  their bounds checks, fixed-width arithmetic on \<^typ>\<open>nat\<close>, and little-endian bytes.

  A Rust function that returns a \<^verbatim>\<open>Result\<close> and may also panic is a function into
  \<open>('e, 'a) outcome\<close>.  A \<^verbatim>\<open>usize\<close> is a \<^typ>\<open>nat\<close>; the target is 64-bit
  and little-endian.  Where the source relies on the width (\<^verbatim>\<open>checked_add\<close>,
  \<^verbatim>\<open>wrapping_sub\<close>, \<^verbatim>\<open>as u16\<close>, hashing) the width is written out.
  A subtraction that would go below zero and a slice index out of range panic.
\<close>

named_theorems slice_simps \<open>evaluation of slice operations whose bounds hold\<close>
named_theorems const_defs \<open>numeric constants of the source\<close>

section \<open>Outcomes\<close>

text \<open>
  \<open>Ok\<close> and \<open>Err\<close> are the two constructors of Rust's \<^verbatim>\<open>Result\<close>, \<open>Panic\<close> is a failed
  assertion, a slice index out of range or an arithmetic underflow, and \<open>Diverge\<close> is a
  loop whose fuel ran out.
\<close>

datatype ('e, 'a) outcome = Ok 'a | Err 'e | Panic | Diverge

fun obind :: "('e, 'a) outcome \<Rightarrow> ('a \<Rightarrow> ('e, 'b) outcome) \<Rightarrow> ('e, 'b) outcome" where
  "obind (Ok x) f = f x"
| "obind (Err e) f = Err e"
| "obind Panic f = Panic"
| "obind Diverge f = Diverge"

fun map_err :: "('e \<Rightarrow> 'f) \<Rightarrow> ('e, 'a) outcome \<Rightarrow> ('f, 'a) outcome" where
  "map_err g (Ok x) = Ok x"
| "map_err g (Err e) = Err (g e)"
| "map_err g Panic = Panic"
| "map_err g Diverge = Diverge"

text \<open>The code returned to its caller: no panic, no divergence.\<close>

fun returns :: "('e, 'a) outcome \<Rightarrow> bool" where
  "returns (Ok x) = True"
| "returns (Err e) = True"
| "returns Panic = False"
| "returns Diverge = False"

lemma obind_cong [fundef_cong]:
  "m = m' \<Longrightarrow> (\<And>x. m' = Ok x \<Longrightarrow> f x = f' x) \<Longrightarrow> obind m f = obind m' f'"
  by (cases m') auto

lemma obind_Ok_iff: "obind m f = Ok y \<longleftrightarrow> (\<exists>x. m = Ok x \<and> f x = Ok y)"
  by (cases m) auto

lemma obind_Err_iff: "obind m f = Err e \<longleftrightarrow> m = Err e \<or> (\<exists>x. m = Ok x \<and> f x = Err e)"
  by (cases m) auto

lemma obind_assoc: "obind (obind m f) g = obind m (\<lambda>x. obind (f x) g)"
  by (cases m) auto

lemma obind_if: "obind (if b then m else m') f = (if b then obind m f else obind m' f)"
  by simp

lemma map_err_obind: "map_err g (obind m f) = obind (map_err g m) (\<lambda>x. map_err g (f x))"
  by (cases m) auto

lemma map_err_Ok_iff: "map_err g m = Ok x \<longleftrightarrow> m = Ok x"
  by (cases m) auto

lemma map_err_Err_iff: "map_err g m = Err e \<longleftrightarrow> (\<exists>e'. m = Err e' \<and> e = g e')"
  by (cases m) auto

lemma returns_map_err [simp]: "returns (map_err g m) = returns m"
  by (cases m) auto

lemma returns_obind: "returns m \<Longrightarrow> (\<And>x. m = Ok x \<Longrightarrow> returns (f x)) \<Longrightarrow> returns (obind m f)"
  by (cases m) auto

section \<open>Slices\<close>

type_synonym byte = "8 word"
type_synonym bytes = "byte list"

text \<open>\<open>xs[i]\<close>, \<open>xs[a..b]\<close>, and \<open>xs[a..a + bs.len()].copy_from_slice(bs)\<close>.\<close>

definition idx_get :: "'a list \<Rightarrow> nat \<Rightarrow> ('e, 'a) outcome" where
  "idx_get xs i = (if i < length xs then Ok (xs ! i) else Panic)"

definition sub_slice :: "'a list \<Rightarrow> nat \<Rightarrow> nat \<Rightarrow> ('e, 'a list) outcome" where
  "sub_slice xs a b = (if a \<le> b \<and> b \<le> length xs then Ok (take (b - a) (drop a xs)) else Panic)"

definition blit :: "'a list \<Rightarrow> nat \<Rightarrow> 'a list \<Rightarrow> 'a list" where
  "blit xs a bs = take a xs @ bs @ drop (a + length bs) xs"

definition write_at :: "'a list \<Rightarrow> nat \<Rightarrow> 'a list \<Rightarrow> ('e, 'a list) outcome" where
  "write_at xs a bs = (if a + length bs \<le> length xs then Ok (blit xs a bs) else Panic)"

text \<open>\<open>xs[a..b].copy_from_slice(bs)\<close>, which also panics when the two lengths differ.\<close>

definition copy_into :: "'a list \<Rightarrow> nat \<Rightarrow> nat \<Rightarrow> 'a list \<Rightarrow> ('e, 'a list) outcome" where
  "copy_into xs a b bs =
     (if a \<le> b \<and> b \<le> length xs \<and> b - a = length bs then Ok (blit xs a bs) else Panic)"

text \<open>\<open>usize\<close> subtraction with overflow checks.\<close>

definition usub :: "nat \<Rightarrow> nat \<Rightarrow> ('e, nat) outcome" where
  "usub a b = (if b \<le> a then Ok (a - b) else Panic)"

lemma idx_get_ok [slice_simps]: "i < length xs \<Longrightarrow> idx_get xs i = Ok (xs ! i)"
  by (simp add: idx_get_def)

lemma sub_slice_ok [slice_simps]:
  "a \<le> b \<Longrightarrow> b \<le> length xs \<Longrightarrow> sub_slice xs a b = Ok (take (b - a) (drop a xs))"
  by (simp add: sub_slice_def)

lemma write_at_ok [slice_simps]:
  "a + length bs \<le> length xs \<Longrightarrow> write_at xs a bs = Ok (blit xs a bs)"
  by (simp add: write_at_def)

lemma copy_into_ok [slice_simps]:
  "a \<le> b \<Longrightarrow> b \<le> length xs \<Longrightarrow> b - a = length bs \<Longrightarrow> copy_into xs a b bs = Ok (blit xs a bs)"
  by (simp add: copy_into_def)

lemma usub_ok [slice_simps]: "b \<le> a \<Longrightarrow> usub a b = Ok (a - b)"
  by (simp add: usub_def)

lemma length_blit [simp]: "a + length bs \<le> length xs \<Longrightarrow> length (blit xs a bs) = length xs"
  by (simp add: blit_def)

lemma nth_blit:
  "a + length bs \<le> length xs \<Longrightarrow> i < length xs \<Longrightarrow>
   blit xs a bs ! i = (if a \<le> i \<and> i < a + length bs then bs ! (i - a) else xs ! i)"
  by (auto simp: blit_def nth_append min_def)

lemma take_blit: "a \<le> length xs \<Longrightarrow> take (a + length bs) (blit xs a bs) = take a xs @ bs"
  by (simp add: blit_def min_def)

lemma take_blit_before: "n \<le> a \<Longrightarrow> a \<le> length xs \<Longrightarrow> take n (blit xs a bs) = take n xs"
  by (simp add: blit_def min_def)

lemma blit_Nil [simp]: "blit xs a [] = xs"
  by (simp add: blit_def)

section \<open>Fixed-width arithmetic on naturals\<close>

definition usize_max :: nat where [const_defs]: "usize_max = 2 ^ 64 - 1"
definition isize_max :: nat where [const_defs]: "isize_max = 2 ^ 63 - 1"
definition u32_max :: nat where [const_defs]: "u32_max = 2 ^ 32 - 1"
definition u16_max :: nat where [const_defs]: "u16_max = 2 ^ 16 - 1"

definition checked_add :: "nat \<Rightarrow> nat \<Rightarrow> nat option" where
  "checked_add a b = (if a + b \<le> usize_max then Some (a + b) else None)"

definition wrapping_sub :: "nat \<Rightarrow> nat \<Rightarrow> nat" where
  "wrapping_sub a b = (a + 2 ^ 64 - b) mod 2 ^ 64"

lemma wrapping_sub_ge: "b \<le> a \<Longrightarrow> a < 2 ^ 64 \<Longrightarrow> wrapping_sub a b = a - b"
  by (simp add: wrapping_sub_def) (metis Nat.add_diff_assoc2 less_imp_diff_less mod_add_self2 mod_less)

lemma wrapping_sub_lt: "a < b \<Longrightarrow> b \<le> 2 ^ 64 \<Longrightarrow> wrapping_sub a b = a + 2 ^ 64 - b"
  by (simp add: wrapping_sub_def)

section \<open>Little-endian bytes\<close>

text \<open>\<^verbatim>\<open>from_le_bytes\<close> and \<^verbatim>\<open>to_le_bytes\<close> of an integer of \<open>n\<close> bytes, on naturals.\<close>

primrec le_nat :: "bytes \<Rightarrow> nat" where
  "le_nat [] = 0"
| "le_nat (b # bs) = unat b + 256 * le_nat bs"

primrec le_bytes :: "nat \<Rightarrow> nat \<Rightarrow> bytes" where
  "le_bytes 0 v = []"
| "le_bytes (Suc n) v = word_of_nat (v mod 256) # le_bytes n (v div 256)"

lemma unat_byte_lt [simp]: "unat (b :: byte) < 256"
  using unsigned_less [of b] by simp

lemma unat_byte_le [simp]: "unat (b :: byte) \<le> 255"
  using unat_byte_lt [of b] by linarith

lemma unat_of_nat_byte [simp]: "unat (word_of_nat n :: byte) = n mod 256"
  by (simp add: unat_of_nat)

lemma length_le_bytes [simp]: "length (le_bytes n v) = n"
  by (induction n arbitrary: v) auto

lemma le_nat_bound: "le_nat bs < 256 ^ length bs"
proof (induction bs)
  case Nil
  then show ?case by simp
next
  case (Cons b bs)
  have "unat b + 256 * le_nat bs < 256 * Suc (le_nat bs)" by simp
  also have "\<dots> \<le> 256 * 256 ^ length bs"
    using Cons.IH by (intro mult_le_mono) auto
  finally show ?case by simp
qed

lemma le_nat_le_bytes: "le_nat (le_bytes n v) = v mod 256 ^ n"
proof (induction n arbitrary: v)
  case 0
  then show ?case by simp
next
  case (Suc n)
  then show ?case by (simp add: mod_mult2_eq add.commute)
qed

lemma le_bytes_le_nat: "le_bytes (length bs) (le_nat bs) = bs"
proof (induction bs)
  case Nil
  then show ?case by simp
next
  case (Cons b bs)
  then show ?case by simp
qed

lemma le_nat_inj: "length xs = length ys \<Longrightarrow> le_nat xs = le_nat ys \<longleftrightarrow> xs = ys"
  by (metis le_bytes_le_nat)

section \<open>Lists\<close>

lemma drop_nth_Cons: "i < length xs \<Longrightarrow> drop i xs = xs ! i # drop (Suc i) xs"
  by (simp add: Cons_nth_drop_Suc)

lemma take_nth_drop_2:
  "Suc i < length xs \<Longrightarrow> take 2 (drop i xs) = [xs ! i, xs ! Suc i]"
  by (simp add: numeral_2_eq_2 drop_nth_Cons)

end
