(* ===== verification/Periodic.thy ===== *)
theory Periodic
  imports Prelude
begin

text \<open>
  Match copies.  A match of length \<open>n\<close> at distance \<open>off\<close> repeats, byte by byte, the last
  \<open>off\<close> bytes of the history: \<open>match_expand\<close> is that definition, the one the block format
  gives.  The routines of the program copy whole chunks and may write past the end of
  the match; \<open>extends_match\<close> says what such a copy leaves in the buffer, and
  \<open>extends_match_take\<close> that its first \<open>n\<close> bytes are the match.
\<close>

section \<open>The byte-by-byte copy\<close>

fun match_expand :: "'a list \<Rightarrow> nat \<Rightarrow> nat \<Rightarrow> 'a list" where
  "match_expand h off 0 = h"
| "match_expand h off (Suc n) = match_expand (h @ [h ! (length h - off)]) off n"

lemma length_match_expand [simp]: "length (match_expand h off n) = length h + n"
  by (induction h off n rule: match_expand.induct) auto

lemma match_expand_Suc:
  "match_expand h off (Suc n) =
   match_expand h off n @ [match_expand h off n ! (length h + n - off)]"
  by (induction h off n rule: match_expand.induct) auto

declare match_expand.simps(2) [simp del]

lemma match_expand_add:
  "match_expand (match_expand h off m) off n = match_expand h off (m + n)"
  by (induction m arbitrary: h) (auto simp: match_expand.simps(2))

lemma take_match_expand:
  "k \<le> n \<Longrightarrow> take (length h + k) (match_expand h off n) = match_expand h off k"
proof (induction n)
  case 0
  then show ?case by simp
next
  case (Suc n)
  then show ?case
    by (cases "k = Suc n") (simp_all add: match_expand_Suc)
qed

lemma take_match_expand_hist [simp]: "take (length h) (match_expand h off n) = h"
  using take_match_expand [of 0 n h off] by simp

lemma match_expand_hist: "i < length h \<Longrightarrow> match_expand h off n ! i = h ! i"
  by (metis nth_take take_match_expand_hist)

lemma match_expand_eq_append: "match_expand h off n = h @ drop (length h) (match_expand h off n)"
  by (metis append_take_drop_id take_match_expand_hist)

text \<open>Closed form: the history's last \<open>off\<close> bytes, cyclically.\<close>

lemma match_expand_nth:
  assumes "0 < off" "off \<le> length h" "i < n"
  shows "match_expand h off n ! (length h + i) = h ! (length h - off + i mod off)"
  using assms(3)
proof (induction n arbitrary: i)
  case 0
  then show ?case by simp
next
  case (Suc n)
  show ?case
  proof (cases "i < n")
    case True
    then show ?thesis using Suc.IH by (simp add: match_expand_Suc nth_append)
  next
    case False
    with Suc.prems have i: "i = n" by simp
    have *: "match_expand h off (Suc n) ! (length h + i) =
             match_expand h off n ! (length h + n - off)"
      by (simp add: match_expand_Suc nth_append i)
    show ?thesis
    proof (cases "n < off")
      case True
      with assms have "match_expand h off n ! (length h + n - off) = h ! (length h + n - off)"
        by (intro match_expand_hist) simp
      with * True i assms show ?thesis by simp
    next
      case False
      then have "length h + n - off = length h + (n - off)" by simp
      moreover have "n - off < n" using False assms by simp
      ultimately have "match_expand h off n ! (length h + n - off) =
          h ! (length h - off + (n - off) mod off)"
        using Suc.IH by simp
      with * False i show ?thesis by (simp add: le_mod_geq)
    qed
  qed
qed

text \<open>Only the last \<open>off\<close> bytes of the history matter.\<close>

lemma match_expand_append_hist:
  assumes "off \<le> length h" "0 < off"
  shows "match_expand (p @ h) off n = p @ match_expand h off n"
  using assms
proof (induction n arbitrary: h)
  case 0
  then show ?case by simp
next
  case (Suc n)
  have "length p + length h - off = length p + (length h - off)"
    using Suc.prems by simp
  then have "(p @ h) ! (length p + length h - off) = h ! (length h - off)"
    by simp
  with Suc show ?case by (simp add: match_expand.simps(2))
qed

text \<open>A match no longer than its distance is a plain copy.\<close>

lemma match_expand_nonoverlap:
  assumes "n \<le> off" "off \<le> length h" "0 < off"
  shows "match_expand h off n = h @ take n (drop (length h - off) h)"
proof (rule nth_equalityI)
  show "length (match_expand h off n) = length (h @ take n (drop (length h - off) h))"
    using assms by simp
next
  fix i assume i: "i < length (match_expand h off n)"
  show "match_expand h off n ! i = (h @ take n (drop (length h - off) h)) ! i"
  proof (cases "i < length h")
    case True
    then show ?thesis by (simp add: match_expand_hist nth_append)
  next
    case False
    define j where "j = i - length h"
    have "i = length h + j" "j < n" using False i by (auto simp: j_def)
    then show ?thesis
      using assms match_expand_nth [of off h j n] by (simp add: nth_append)
  qed
qed

section \<open>Copies in a buffer\<close>

text \<open>
  Buffer \<open>b\<close> is \<open>b0\<close> with exactly the \<open>n\<close> bytes from \<open>dst\<close> replaced by the cyclic
  continuation of the \<open>off\<close> bytes before \<open>dst\<close>.
\<close>

definition extends_match :: "'a list \<Rightarrow> nat \<Rightarrow> nat \<Rightarrow> nat \<Rightarrow> 'a list \<Rightarrow> bool" where
  "extends_match b0 dst off n b \<longleftrightarrow>
     length b = length b0 \<and> dst + n \<le> length b0 \<and>
     (\<forall>j < length b0. j < dst \<or> dst + n \<le> j \<longrightarrow> b ! j = b0 ! j) \<and>
     (\<forall>i < n. b ! (dst + i) = b0 ! (dst - off + i mod off))"

lemma extends_match_length: "extends_match b0 dst off n b \<Longrightarrow> length b = length b0"
  by (simp add: extends_match_def)

lemma extends_match_refl: "dst \<le> length b0 \<Longrightarrow> extends_match b0 dst off 0 b0"
  by (simp add: extends_match_def)

lemma extends_match_take:
  assumes "extends_match b0 dst off n b" "k \<le> n" "0 < off" "off \<le> dst"
  shows "take (dst + k) b = match_expand (take dst b0) off k"
proof (rule nth_equalityI)
  have len: "length (take dst b0) = dst" using assms(1) by (simp add: extends_match_def)
  show "length (take (dst + k) b) = length (match_expand (take dst b0) off k)"
    using assms len by (simp add: extends_match_def)
  fix i assume "i < length (take (dst + k) b)"
  then have i: "i < dst + k" by simp
  show "take (dst + k) b ! i = match_expand (take dst b0) off k ! i"
  proof (cases "i < dst")
    case True
    then have "match_expand (take dst b0) off k ! i = b0 ! i"
      using len by (simp add: match_expand_hist)
    moreover have "b ! i = b0 ! i" using assms(1) True by (simp add: extends_match_def)
    ultimately show ?thesis using i by simp
  next
    case False
    define j where "j = i - dst"
    have ij: "i = dst + j" "j < k" using False i by (auto simp: j_def)
    have "match_expand (take dst b0) off k ! (dst + j) = take dst b0 ! (dst - off + j mod off)"
      using match_expand_nth [of off "take dst b0" j k] assms(3,4) ij len by simp
    moreover have "dst - off + j mod off < dst"
      using mod_less_divisor [OF assms(3), of j] assms(4) by linarith
    moreover have "b ! (dst + j) = b0 ! (dst - off + j mod off)"
      using assms(1,2) ij by (simp add: extends_match_def)
    ultimately show ?thesis using i ij by simp
  qed
qed

lemma extends_match_drop:
  "extends_match b0 dst off n b \<Longrightarrow> drop (dst + n) b = drop (dst + n) b0"
  by (rule nth_equalityI) (auto simp: extends_match_def)

text \<open>Outside the written part the buffer is unchanged; inside it is the cyclic pattern.\<close>

lemma extends_match_old:
  "extends_match b0 dst off n b \<Longrightarrow> j < length b0 \<Longrightarrow> j < dst \<or> dst + n \<le> j \<Longrightarrow> b ! j = b0 ! j"
  unfolding extends_match_def by blast

lemma extends_match_new:
  "extends_match b0 dst off n b \<Longrightarrow> i < n \<Longrightarrow> b ! (dst + i) = b0 ! (dst - off + i mod off)"
  unfolding extends_match_def by blast

lemma extends_match_fits: "extends_match b0 dst off n b \<Longrightarrow> dst + n \<le> length b0"
  by (simp add: extends_match_def)

lemma extends_matchI:
  "length b = length b0 \<Longrightarrow> dst + n \<le> length b0 \<Longrightarrow>
   (\<And>j. j < length b0 \<Longrightarrow> j < dst \<or> dst + n \<le> j \<Longrightarrow> b ! j = b0 ! j) \<Longrightarrow>
   (\<And>i. i < n \<Longrightarrow> b ! (dst + i) = b0 ! (dst - off + i mod off)) \<Longrightarrow>
   extends_match b0 dst off n b"
  by (simp add: extends_match_def)

text \<open>The value a cyclic copy reads at distance \<open>off\<close>.\<close>

lemma extends_match_back:
  assumes E: "extends_match b0 dst off n b" and off: "0 < off" "off \<le> dst"
    and i: "i < n + off"
  shows "b ! (dst + i - off) = b0 ! (dst - off + i mod off)"
proof (cases "i < off")
  case True
  then have "dst + i - off < dst" using off by simp
  then have "b ! (dst + i - off) = b0 ! (dst + i - off)"
    using extends_match_old [OF E] extends_match_fits [OF E] by simp
  with True off show ?thesis by simp
next
  case False
  then have "dst + i - off = dst + (i - off)" "i - off < n" using i by auto
  then have "b ! (dst + i - off) = b0 ! (dst - off + (i - off) mod off)"
    using extends_match_new [OF E] by simp
  with False show ?thesis by (simp add: le_mod_geq)
qed

text \<open>
  One chunk: copying \<open>c \<le> off\<close> bytes from distance \<open>off\<close> to the end of the written part
  extends it by \<open>c\<close> bytes.
\<close>

lemma extends_match_chunk:
  assumes E: "extends_match b0 dst off n b" and c: "c \<le> off" and off: "0 < off" "off \<le> dst"
    and len: "dst + n + c \<le> length b0"
  shows "extends_match b0 dst off (n + c) (blit b (dst + n) (take c (drop (dst + n - off) b)))"
    (is "extends_match _ _ _ _ (blit b _ ?bs)")
proof -
  have lb: "length b = length b0" using E by (rule extends_match_length)
  have lbs: "length ?bs = c" using lb len off by simp
  have nb: "blit b (dst + n) ?bs ! j = (if dst + n \<le> j \<and> j < dst + n + c then ?bs ! (j - (dst + n)) else b ! j)"
    if "j < length b0" for j
    using nth_blit [of "dst + n" ?bs b j] that lb lbs len by simp
  have frame: "blit b (dst + n) ?bs ! j = b0 ! j"
    if "j < length b0" "j < dst \<or> dst + (n + c) \<le> j" for j
    using nb [OF that(1)] that extends_match_old [OF E that(1)] by auto
  have new: "blit b (dst + n) ?bs ! (dst + i) = b0 ! (dst - off + i mod off)" if "i < n + c" for i
  proof (cases "i < n")
    case True
    then show ?thesis using nb [of "dst + i"] len extends_match_new [OF E] by simp
  next
    case False
    then have "blit b (dst + n) ?bs ! (dst + i) = ?bs ! (i - n)"
      using nb [of "dst + i"] len that by simp
    also have "\<dots> = b ! (dst + i - off)"
      using False that lb len off by (simp add: add.commute)
    also have "\<dots> = b0 ! (dst - off + i mod off)"
      using extends_match_back [OF E off, of i] that c by simp
    finally show ?thesis .
  qed
  show ?thesis
    by (rule extends_matchI) (use lb lbs len frame new in simp_all)
qed

text \<open>
  One pattern store: writing \<open>c\<close> bytes of the cyclic pattern from a position that is a
  multiple of the period, possibly over bytes already written.
\<close>

lemma extends_match_pattern:
  assumes E: "extends_match b0 dst off n b" and off: "0 < off" "off \<le> dst"
    and len: "dst + m + c \<le> length b0" and m: "off dvd m" "m \<le> n" "n \<le> m + c"
    and p: "length p = c" "\<And>i. i < c \<Longrightarrow> p ! i = b0 ! (dst - off + i mod off)"
  shows "extends_match b0 dst off (m + c) (blit b (dst + m) p)"
proof -
  have lb: "length b = length b0" using E by (rule extends_match_length)
  have nb: "blit b (dst + m) p ! j = (if dst + m \<le> j \<and> j < dst + m + c then p ! (j - (dst + m)) else b ! j)"
    if "j < length b0" for j
    using nth_blit [of "dst + m" p b j] that lb p(1) len by simp
  have frame: "blit b (dst + m) p ! j = b0 ! j"
    if "j < length b0" "j < dst \<or> dst + (m + c) \<le> j" for j
    using nb [OF that(1)] that m extends_match_old [OF E that(1)] by auto
  have new: "blit b (dst + m) p ! (dst + i) = b0 ! (dst - off + i mod off)" if "i < m + c" for i
  proof (cases "i < m")
    case True
    then show ?thesis using nb [of "dst + i"] len m extends_match_new [OF E] by simp
  next
    case False
    have "(i - m) mod off = i mod off"
    proof -
      from m(1) obtain q where "m = off * q" by (auto simp: dvd_def)
      with False show ?thesis by (metis le_add_diff_inverse mod_mult_self4 not_less)
    qed
    with False that show ?thesis using nb [of "dst + i"] len p(2) [of "i - m"] by simp
  qed
  show ?thesis
    by (rule extends_matchI) (use lb p(1) len frame new in simp_all)
qed

text \<open>A window of a larger buffer.\<close>

lemma extends_match_window:
  assumes E: "extends_match w0 off off n w" and "length pre = dst - off" "off \<le> dst" "0 < off"
  shows "extends_match (pre @ w0 @ post) dst off n (pre @ w @ post)"
proof -
  have lw: "length w = length w0" "off + n \<le> length w0"
    using extends_match_length [OF E] extends_match_fits [OF E] by auto
  have frame: "(pre @ w @ post) ! j = (pre @ w0 @ post) ! j"
    if "j < dst \<or> dst + n \<le> j" for j
  proof -
    have "w ! k = w0 ! k" if "j = length pre + k" "k < length w0" for k
    proof (rule extends_match_old [OF E that(2)])
      show "k < off \<or> off + n \<le> k"
        using that \<open>j < dst \<or> dst + n \<le> j\<close> assms(2,3) by linarith
    qed
    from this [of "j - length pre"] show ?thesis
      using lw by (auto simp: nth_append)
  qed
  have new: "(pre @ w @ post) ! (dst + i) = (pre @ w0 @ post) ! (dst - off + i mod off)"
    if "i < n" for i
  proof -
    have im: "i mod off < length w0" using assms(4) lw mod_less_divisor [of off i] by linarith
    have "(pre @ w @ post) ! (dst + i) = w ! (off + i)"
      using nth_append_length_plus [of pre "w @ post" "off + i"] assms lw that by (simp add: nth_append)
    also have "\<dots> = w0 ! (i mod off)" using extends_match_new [OF E that] by simp
    also have "\<dots> = (pre @ w0 @ post) ! (dst - off + i mod off)"
      using nth_append_length_plus [of pre "w0 @ post" "i mod off"] assms(2) im
      by (simp add: nth_append)
    finally show ?thesis .
  qed
  show ?thesis
    by (rule extends_matchI) (use lw assms frame new in auto)
qed

end
