(* ===== verification/Core_Crate.thy ===== *)
theory Core_Crate
  imports Periodic
begin

text \<open>
  The crate \<^verbatim>\<open>lz4rip-core\<close>: the constants of the block format, the two error types, the
  small-slice copy \<^verbatim>\<open>slice_copy\<close> and the output sink \<^verbatim>\<open>SliceSink\<close> behind the
  trait \<^verbatim>\<open>Sink\<close>.  The trait is the locale \<open>sink\<close>; \<open>SliceSink\<close> interprets it.
\<close>

section \<open>Constants and errors\<close>

definition WINDOW_SIZE :: nat where [simp, const_defs]: "WINDOW_SIZE = 64 * 1024"
definition MFLIMIT :: nat where [simp, const_defs]: "MFLIMIT = 12"
definition LAST_LITERALS :: nat where [simp, const_defs]: "LAST_LITERALS = 5"
definition END_OFFSET :: nat where [simp, const_defs]: "END_OFFSET = LAST_LITERALS + 1"
definition LZ4_MIN_LENGTH :: nat where [simp, const_defs]: "LZ4_MIN_LENGTH = MFLIMIT + 1"
definition MAX_DISTANCE :: nat where [simp, const_defs]: "MAX_DISTANCE = 2 ^ 16 - 1"
definition MINMATCH :: nat where [simp, const_defs]: "MINMATCH = 4"

datatype DecompressError =
    OutputTooSmall nat nat
  | LiteralOutOfBounds
  | ExpectedAnotherByte
  | OffsetZero
  | OffsetOutOfBounds
  | DecodedSizeMismatch nat nat

datatype CompressError = CompressOutputTooSmall | InputTooLarge

section \<open>Copy of small slices\<close>

text \<open>\<^verbatim>\<open>dst[0..SIZE]\<close> and \<^verbatim>\<open>dst[src.len() - SIZE..]\<close> are copied; they may overlap.\<close>

definition double_copy_trick :: "nat \<Rightarrow> 'a list \<Rightarrow> 'a list \<Rightarrow> ('e, 'a list) outcome" where
  "double_copy_trick SIZE src dst =
     obind (sub_slice src 0 SIZE) (\<lambda>front.
     obind (copy_into dst 0 SIZE front) (\<lambda>dst.
     obind (usub (length src) SIZE) (\<lambda>from.
     obind (sub_slice src from (length src)) (\<lambda>back.
     copy_into dst from (length dst) back))))"

definition short_copy :: "'a list \<Rightarrow> 'a list \<Rightarrow> ('e, 'a list) outcome" where
  "short_copy src dst =
     obind (idx_get src 0) (\<lambda>x.
     obind (copy_into dst 0 1 [x]) (\<lambda>dst.
     if 2 \<le> length src then double_copy_trick 2 src dst else Ok dst))"

text \<open>\<open>avx\<close> is the compile-time feature of that name; it adds one size class.\<close>

definition slice_copy :: "bool \<Rightarrow> 'a list \<Rightarrow> 'a list \<Rightarrow> ('e, 'a list) outcome" where
  "slice_copy avx src dst =
     (if length src \<noteq> length dst then Panic
      else if src = [] then Ok dst
      else if length src < 4 then short_copy src dst
      else if length src < 8 then double_copy_trick 4 src dst
      else if length src \<le> 16 then double_copy_trick 8 src dst
      else if length src \<le> 32 then double_copy_trick 16 src dst
      else if avx \<and> length src \<le> 64 then double_copy_trick 32 src dst
      else copy_into dst 0 (length dst) src)"

lemma double_copy_trick_eq:
  assumes "length src = length dst" "SIZE \<le> length src" "length src \<le> 2 * SIZE"
  shows "double_copy_trick SIZE src dst = Ok src"
proof -
  let ?f = "length src - SIZE"
  let ?d = "blit dst 0 (take SIZE src)"
  have "blit ?d ?f (drop ?f src) = src"
  proof (rule nth_equalityI)
    show "length (blit ?d ?f (drop ?f src)) = length src" using assms by simp
    fix i assume "i < length (blit ?d ?f (drop ?f src))"
    then have i: "i < length src" using assms by simp
    have "blit ?d ?f (drop ?f src) ! i = (if ?f \<le> i then drop ?f src ! (i - ?f) else ?d ! i)"
      using nth_blit [of ?f "drop ?f src" ?d i] assms i by simp
    moreover have "?d ! i = src ! i" if "i < SIZE"
      using nth_blit [of 0 "take SIZE src" dst i] assms that by simp
    ultimately show "blit ?d ?f (drop ?f src) ! i = src ! i"
      using assms i by (cases "?f \<le> i") auto
  qed
  then show ?thesis
    using assms by (simp add: double_copy_trick_def slice_simps)
qed

lemma short_copy_eq:
  assumes "length src = length dst" "src \<noteq> []" "length src < 4"
  shows "short_copy src dst = Ok src"
proof (cases "2 \<le> length src")
  case True
  with assms show ?thesis
    by (auto simp: short_copy_def idx_get_def slice_simps double_copy_trick_eq)
next
  case False
  with assms obtain x y where "src = [x]" "dst = [y]"
    by (cases src; cases dst) (auto simp: not_le less_Suc_eq)
  then show ?thesis by (simp add: short_copy_def slice_simps blit_def)
qed

text \<open>Whatever the size class, the copy is a copy.\<close>

lemma slice_copy_eq: "slice_copy avx src dst = (if length src = length dst then Ok src else Panic)"
proof (cases "length src = length dst \<and> src \<noteq> []")
  case True
  then show ?thesis
    by (auto simp: slice_copy_def short_copy_eq double_copy_trick_eq slice_simps blit_def)
qed (auto simp: slice_copy_def)

section \<open>The output sink\<close>

record SliceSink =
  sink_output :: bytes
  sink_pos :: nat

definition SliceSink_new :: "bytes \<Rightarrow> nat \<Rightarrow> ('e, SliceSink) outcome" where
  "SliceSink_new output pos =
     obind (sub_slice output 0 pos) (\<lambda>_. Ok \<lparr>sink_output = output, sink_pos = pos\<rparr>)"

definition SliceSink_push :: "SliceSink \<Rightarrow> byte \<Rightarrow> ('e, SliceSink) outcome" where
  "SliceSink_push s b =
     obind (write_at (sink_output s) (sink_pos s) [b]) (\<lambda>out.
     Ok (s\<lparr>sink_output := out, sink_pos := sink_pos s + 1\<rparr>))"

definition SliceSink_capacity :: "SliceSink \<Rightarrow> nat" where
  "SliceSink_capacity s = length (sink_output s)"

definition SliceSink_extend_from_slice_wild ::
  "bool \<Rightarrow> SliceSink \<Rightarrow> bytes \<Rightarrow> nat \<Rightarrow> ('e, SliceSink) outcome" where
  "SliceSink_extend_from_slice_wild avx s data copy_len =
     (if copy_len \<le> length data then
        obind (sub_slice (sink_output s) (sink_pos s) (sink_pos s + length data)) (\<lambda>dst.
        obind (slice_copy avx data dst) (\<lambda>dst.
        obind (write_at (sink_output s) (sink_pos s) dst) (\<lambda>out.
        Ok (s\<lparr>sink_output := out, sink_pos := sink_pos s + copy_len\<rparr>))))
      else Panic)"

definition SliceSink_extend_from_slice :: "bool \<Rightarrow> SliceSink \<Rightarrow> bytes \<Rightarrow> ('e, SliceSink) outcome" where
  "SliceSink_extend_from_slice avx s data = SliceSink_extend_from_slice_wild avx s data (length data)"

text \<open>\<^verbatim>\<open>out.copy_within(a..b, to)\<close>: the source range is read before it is written.\<close>

definition copy_within :: "'a list \<Rightarrow> nat \<Rightarrow> nat \<Rightarrow> nat \<Rightarrow> ('e, 'a list) outcome" where
  "copy_within xs a b dest = obind (sub_slice xs a b) (\<lambda>chunk. write_at xs dest chunk)"

text \<open>
  The doubling loop of \<^verbatim>\<open>extend_from_within_overlapping\<close>.  Each round copies the bytes
  written so far; \<open>copied\<close> is at least 1, so the loop ends.  With \<open>copied = 0\<close> (an offset of
  0, which every caller excludes) the loop would not end.
\<close>

function sink_double :: "bytes \<Rightarrow> nat \<Rightarrow> nat \<Rightarrow> nat \<Rightarrow> ('e, bytes) outcome" where
  "sink_double out pos num_bytes copied =
     (if copied < num_bytes then
        if copied = 0 then Diverge
        else let n = min copied (num_bytes - copied) in
          obind (copy_within out pos (pos + n) (pos + copied)) (\<lambda>out.
          sink_double out pos num_bytes (copied + n))
      else Ok out)"
  by pat_completeness auto
termination
  by (relation "measure (\<lambda>(out, pos, num_bytes, copied). num_bytes - copied)") auto

declare sink_double.simps [simp del]

definition SliceSink_extend_from_within_overlapping ::
  "SliceSink \<Rightarrow> nat \<Rightarrow> nat \<Rightarrow> ('e, SliceSink) outcome" where
  "SliceSink_extend_from_within_overlapping s start num_bytes =
     (let out = sink_output s; pos = sink_pos s in
      obind (usub pos start) (\<lambda>offset.
      obind
        (if offset = 1 then
           obind (idx_get out start) (\<lambda>val. write_at out pos (replicate num_bytes val))
         else
           let initial = min offset num_bytes in
           obind (copy_within out start (start + initial) pos) (\<lambda>out.
           sink_double out pos num_bytes initial))
        (\<lambda>out. Ok \<lparr>sink_output = out, sink_pos = pos + num_bytes\<rparr>)))"

definition sink_content :: "SliceSink \<Rightarrow> bytes" where
  "sink_content s = take (sink_pos s) (sink_output s)"

definition sink_ok :: "SliceSink \<Rightarrow> bool" where
  "sink_ok s \<longleftrightarrow> sink_pos s \<le> length (sink_output s)"

text \<open>The doubling loop continues the pattern while the part written is a multiple of it.\<close>

lemma sink_double_extends:
  assumes "extends_match b0 pos off copied out" "0 < off" "off \<le> pos" "0 < copied"
    "off dvd copied \<or> num_bytes \<le> copied" "copied \<le> num_bytes" "pos + num_bytes \<le> length b0"
  shows "\<exists>out'. sink_double out pos num_bytes copied = (Ok out' :: ('e, bytes) outcome) \<and>
           extends_match b0 pos off num_bytes out'"
  using assms
proof (induction "num_bytes - copied" arbitrary: out copied rule: less_induct)
  case less
  show ?case
  proof (cases "copied < num_bytes")
    case False
    with less.prems have "num_bytes = copied" by simp
    with less.prems(1) show ?thesis
      by (simp add: sink_double.simps [of out pos copied copied])
  next
    case True
    define n where "n = min copied (num_bytes - copied)"
    define p where "p = take n (drop pos out)"
    have lo: "length out = length b0" using less.prems(1) by (rule extends_match_length)
    have n: "0 < n" "n \<le> copied" "copied + n \<le> num_bytes" using True less.prems by (auto simp: n_def)
    have lp: "length p = n" using n lo less.prems by (simp add: p_def)
    have dvd: "off dvd copied" using less.prems(5) True by auto
    have "p ! i = b0 ! (pos - off + i mod off)" if "i < n" for i
      using that n extends_match_new [OF less.prems(1), of i] lo less.prems(7) by (simp add: p_def)
    then have E: "extends_match b0 pos off (copied + n) (blit out (pos + copied) p)"
      using extends_match_pattern [OF less.prems(1,2,3) _ dvd _ _ lp] n less.prems(7) by simp
    have "off dvd copied + n \<or> num_bytes \<le> copied + n"
      using dvd by (auto simp: n_def min_def)
    moreover have "num_bytes - (copied + n) < num_bytes - copied" using True n by simp
    ultimately obtain out' where "extends_match b0 pos off num_bytes out'"
      "sink_double (blit out (pos + copied) p) pos num_bytes (copied + n) = (Ok out' :: ('e, bytes) outcome)"
      using less.hyps [of "copied + n" "blit out (pos + copied) p"] less.prems E n by auto
    moreover have "copy_within out pos (pos + n) (pos + copied) =
        (Ok (blit out (pos + copied) p) :: ('e, bytes) outcome)"
      using n lo less.prems(7) lp by (simp add: copy_within_def slice_simps p_def)
    ultimately show ?thesis
      using True less.prems(4)
      by (simp add: sink_double.simps [of out pos num_bytes copied] n_def [symmetric])
  qed
qed

lemma extends_match_first:
  assumes "off \<le> dst" "0 < off" "dst + n \<le> length b" "n \<le> off"
  shows "extends_match b dst off n (blit b dst (take n (drop (dst - off) b)))"
  using extends_match_chunk [OF extends_match_refl [of dst b off], of n] assms by simp

lemma extends_match_fill:
  assumes "1 \<le> dst" "dst + n \<le> length b"
  shows "extends_match b dst 1 n (blit b dst (replicate n (b ! (dst - 1))))"
  by (rule extends_matchI) (use assms in \<open>auto simp: nth_blit\<close>)

lemma extend_from_within_overlapping_spec:
  assumes "start < sink_pos s" "sink_pos s + num_bytes \<le> length (sink_output s)"
  shows "\<exists>out'. SliceSink_extend_from_within_overlapping s start num_bytes =
             (Ok \<lparr>sink_output = out', sink_pos = sink_pos s + num_bytes\<rparr> :: ('e, SliceSink) outcome) \<and>
           extends_match (sink_output s) (sink_pos s) (sink_pos s - start) num_bytes out'"
proof -
  define out where "out = sink_output s"
  define pos where "pos = sink_pos s"
  define off where "off = pos - start"
  have fit: "pos + num_bytes \<le> length out" and start: "start < pos"
    using assms by (simp_all add: out_def pos_def)
  have off: "0 < off" "off \<le> pos" "pos - off = start" using start by (auto simp: off_def)
  show ?thesis
  proof (cases "off = 1")
    case True
    then have "extends_match out pos off num_bytes (blit out pos (replicate num_bytes (out ! start)))"
      using extends_match_fill [of pos num_bytes out] fit off by simp
    with True fit start show ?thesis
      by (simp add: SliceSink_extend_from_within_overlapping_def slice_simps
          out_def [symmetric] pos_def [symmetric] off_def [symmetric])
  next
    case False
    define n where "n = min off num_bytes"
    define b where "b = blit out pos (take n (drop start out))"
    have E: "extends_match out pos off n b"
      using extends_match_first [of off pos n out] off fit by (simp add: n_def b_def)
    have cw: "copy_within out start (start + n) pos = (Ok b :: ('e, bytes) outcome)"
      using fit start by (simp add: copy_within_def slice_simps b_def n_def off_def)
    have "\<exists>out'. sink_double b pos num_bytes n = (Ok out' :: ('e, bytes) outcome) \<and>
        extends_match out pos off num_bytes out'"
    proof (cases "num_bytes = 0")
      case True
      with E show ?thesis by (auto simp: n_def sink_double.simps [of b pos 0 0])
    next
      case False
      then have "0 < n" "off dvd n \<or> num_bytes \<le> n" "n \<le> num_bytes"
        using off by (auto simp: n_def min_def)
      with E off fit show ?thesis by (intro sink_double_extends) auto
    qed
    with cw False start show ?thesis
      by (auto simp: SliceSink_extend_from_within_overlapping_def slice_simps Let_def n_def [symmetric]
          out_def [symmetric] pos_def [symmetric] off_def [symmetric])
  qed
qed

section \<open>The trait as an interface\<close>

text \<open>
  What the encoder relies on: a push appends one byte, an extension appends a slice, both as
  long as there is room, and the capacity never changes.
\<close>

locale sink =
  fixes push :: "'s \<Rightarrow> byte \<Rightarrow> ('e, 's) outcome"
    and extend :: "'s \<Rightarrow> bytes \<Rightarrow> ('e, 's) outcome"
    and within :: "'s \<Rightarrow> nat \<Rightarrow> nat \<Rightarrow> ('e, 's) outcome"
    and capacity :: "'s \<Rightarrow> nat"
    and content :: "'s \<Rightarrow> bytes"
    and invar :: "'s \<Rightarrow> bool"
  assumes push_ok: "invar s \<Longrightarrow> length (content s) < capacity s \<Longrightarrow>
      \<exists>s'. push s b = Ok s' \<and> invar s' \<and> content s' = content s @ [b] \<and> capacity s' = capacity s"
    and push_full: "invar s \<Longrightarrow> length (content s) = capacity s \<Longrightarrow> push s b = Panic"
    and extend_ok: "invar s \<Longrightarrow> length (content s) + length d \<le> capacity s \<Longrightarrow>
      \<exists>s'. extend s d = Ok s' \<and> invar s' \<and> content s' = content s @ d \<and> capacity s' = capacity s"
    and within_ok: "invar s \<Longrightarrow> start < length (content s) \<Longrightarrow> length (content s) + n \<le> capacity s \<Longrightarrow>
      \<exists>s'. within s start n = Ok s' \<and> invar s' \<and> capacity s' = capacity s \<and>
        content s' = match_expand (content s) (length (content s) - start) n"
    and content_fits: "invar s \<Longrightarrow> length (content s) \<le> capacity s"
begin

text \<open>A run of pushes appends its bytes, and panics exactly when they do not fit.\<close>

primrec push_all :: "'s \<Rightarrow> bytes \<Rightarrow> ('e, 's) outcome" where
  "push_all s [] = Ok s"
| "push_all s (b # bs) = obind (push s b) (\<lambda>s'. push_all s' bs)"

lemma push_all_fits:
  "invar s \<Longrightarrow> length (content s) + length bs \<le> capacity s \<Longrightarrow>
   \<exists>s'. push_all s bs = Ok s' \<and> invar s' \<and> content s' = content s @ bs \<and> capacity s' = capacity s"
proof (induction bs arbitrary: s)
  case Nil
  then show ?case by simp
next
  case (Cons b bs)
  then obtain s1 where s1: "push s b = Ok s1" "invar s1" "content s1 = content s @ [b]"
    "capacity s1 = capacity s"
    using push_ok [of s b] by auto
  with Cons.prems obtain s2 where "push_all s1 bs = Ok s2" "invar s2"
    "content s2 = content s1 @ bs" "capacity s2 = capacity s1"
    using Cons.IH [of s1] by auto
  with s1 show ?case by simp
qed

lemma push_all_full:
  "invar s \<Longrightarrow> capacity s < length (content s) + length bs \<Longrightarrow> push_all s bs = Panic"
proof (induction bs arbitrary: s)
  case Nil
  then show ?case using content_fits [of s] by simp
next
  case (Cons b bs)
  show ?case
  proof (cases "length (content s) = capacity s")
    case True
    then show ?thesis using push_full Cons.prems by simp
  next
    case False
    with Cons.prems obtain s1 where "push s b = Ok s1" "invar s1" "content s1 = content s @ [b]"
      "capacity s1 = capacity s"
      using push_ok [of s b] content_fits [of s] by (meson le_neq_implies_less)
    with Cons show ?thesis by simp
  qed
qed

end

interpretation slice_sink: sink
  SliceSink_push "SliceSink_extend_from_slice avx" SliceSink_extend_from_within_overlapping
  SliceSink_capacity sink_content sink_ok
proof (unfold_locales, goal_cases)
  case (1 s b)
  then show ?case
    by (auto simp: SliceSink_push_def slice_simps sink_content_def sink_ok_def
        SliceSink_capacity_def take_blit [of _ _ "[b]", simplified])
next
  case (2 s b)
  then show ?case
    by (auto simp: SliceSink_push_def write_at_def sink_content_def sink_ok_def SliceSink_capacity_def)
next
  case (3 s d)
  then show ?case
    by (auto simp: SliceSink_extend_from_slice_def SliceSink_extend_from_slice_wild_def slice_copy_eq
        slice_simps sink_content_def sink_ok_def SliceSink_capacity_def take_blit)
next
  case (4 s start n)
  then have st: "start < sink_pos s" "sink_pos s + n \<le> length (sink_output s)"
    by (auto simp: sink_content_def sink_ok_def SliceSink_capacity_def)
  then obtain out' where
    r: "SliceSink_extend_from_within_overlapping s start n =
          (Ok \<lparr>sink_output = out', sink_pos = sink_pos s + n\<rparr> :: ('a, SliceSink) outcome)"
    and E: "extends_match (sink_output s) (sink_pos s) (sink_pos s - start) n out'"
    using extend_from_within_overlapping_spec [OF st] by blast
  have "take (sink_pos s + n) out' = match_expand (take (sink_pos s) (sink_output s)) (sink_pos s - start) n"
    using extends_match_take [OF E order.refl] st by simp
  with r st extends_match_length [OF E] show ?case
    by (simp add: sink_content_def sink_ok_def SliceSink_capacity_def)
next
  case (5 s)
  then show ?case by (simp add: sink_content_def sink_ok_def SliceSink_capacity_def)
qed


section \<open>Properties\<close>

text \<open>
  Whatever the size class and with or without AVX, \<open>slice_copy\<close> copies the source, and
  it panics only on slices of different lengths.
\<close>

lemma slice_copy_copies: "slice_copy avx src dst = (if length src = length dst then Ok src else Panic)"
  by (rule slice_copy_eq)

text \<open>
  The overlapping copy of the sink continues its content by the match, byte by byte, as
  long as it fits.
\<close>

lemma sink_within_expands:
  assumes "sink_ok s" "start < sink_pos s" "sink_pos s + n \<le> SliceSink_capacity s"
  shows "\<exists>s'. SliceSink_extend_from_within_overlapping s start n = (Ok s' :: ('e, SliceSink) outcome) \<and>
    sink_content s' = match_expand (sink_content s) (sink_pos s - start) n \<and> sink_ok s' \<and>
    SliceSink_capacity s' = SliceSink_capacity s"
proof -
  have "length (sink_content s) = sink_pos s" using assms(1) by (simp add: sink_content_def sink_ok_def)
  then show ?thesis
    using slice_sink.within_ok [of s start n, where ?'a = 'e] assms by auto
qed

end
