(* ===== verification/Hash_Table.thy ===== *)
theory Hash_Table
  imports Core_Crate
begin

text \<open>
  \<^verbatim>\<open>crates/encode/src/hashtable.rs\<close>: reading words from a slice, counting equal bytes, and
  the hash tables of the match search.

  The trait \<^verbatim>\<open>HashTable\<close> is a record of its operations, which the encoder gets as an argument.
  Its contract is the locale \<open>hash_table\<close>; both table types interpret it, for any number of
  entries.
\<close>

unbundle bit_operations_syntax

section \<open>Words in memory\<close>

text \<open>\<^verbatim>\<open>from_ne_bytes\<close> on a little-endian target, and \<^verbatim>\<open>first_chunk\<close>.\<close>

definition word_of_bytes :: "bytes \<Rightarrow> 'a :: len word" where
  "word_of_bytes bs = word_of_nat (le_nat bs)"

definition first_chunk :: "nat \<Rightarrow> 'a list \<Rightarrow> 'a list option" where
  "first_chunk n xs = (if n \<le> length xs then Some (take n xs) else None)"

definition trailing_zeros :: "'a :: len word \<Rightarrow> nat" where
  "trailing_zeros w = length (takeWhile (\<lambda>i. \<not> bit w i) [0..<LENGTH('a)])"

definition rd32 :: "bytes \<Rightarrow> nat \<Rightarrow> ('e, 32 word) outcome" where
  "rd32 src pos =
     obind (sub_slice src pos (length src)) (\<lambda>s.
     case first_chunk 4 s of None \<Rightarrow> Panic | Some c \<Rightarrow> Ok (word_of_bytes c))"

definition rd64 :: "bytes \<Rightarrow> nat \<Rightarrow> ('e, 64 word) outcome" where
  "rd64 src pos =
     obind (sub_slice src pos (length src)) (\<lambda>s.
     case first_chunk 8 s of None \<Rightarrow> Panic | Some c \<Rightarrow> Ok (word_of_bytes c))"

definition rd64_upto :: "bytes \<Rightarrow> nat \<Rightarrow> nat \<Rightarrow> ('e, 64 word) outcome" where
  "rd64_upto src pos limit = (if pos \<le> limit then rd64 src (min pos limit) else Panic)"

definition first4 :: "64 word \<Rightarrow> 32 word" where
  "first4 v = (let b = le_bytes 8 (unat v) in word_of_bytes [b ! 0, b ! 1, b ! 2, b ! 3])"

section \<open>Counting equal bytes\<close>

text \<open>
  The loop over pairs of chunks of 8 bytes; it leaves with the count at the first difference,
  or with the two rests.
\<close>

function count_chunks :: "bytes \<Rightarrow> bytes \<Rightarrow> nat \<Rightarrow> nat + (nat \<times> bytes \<times> bytes)" where
  "count_chunks a b num =
     (if 8 \<le> length a \<and> 8 \<le> length b then
        let diff = (word_of_bytes (take 8 a) :: 64 word) XOR word_of_bytes (take 8 b) in
        if diff \<noteq> 0 then Inl (num + trailing_zeros diff div 8)
        else count_chunks (drop 8 a) (drop 8 b) (num + 8)
      else Inr (num, a, b))"
  by pat_completeness auto
termination
  by (relation "measure (\<lambda>(a, b, num). length a)") auto

declare count_chunks.simps [simp del]

definition count_same_bytes_long :: "bytes \<Rightarrow> bytes \<Rightarrow> nat" where
  "count_same_bytes_long a b =
     (let n = min (length a) (length b) in
      case count_chunks (take n a) (take n b) 0 of
        Inl num \<Rightarrow> num
      | Inr (num, ra, rb) \<Rightarrow>
          (let last2 = (\<lambda>num ra rb.
             let (num, ra, rb) =
               (if 2 \<le> length ra \<and> 2 \<le> length rb \<and> take 2 ra = take 2 rb
                then (num + 2, drop 2 ra, drop 2 rb) else (num, ra, rb)) in
             (if ra \<noteq> [] \<and> rb \<noteq> [] \<and> ra ! 0 = rb ! 0 then num + 1 else num)) in
           if 4 \<le> length ra \<and> 4 \<le> length rb then
             let diff = (word_of_bytes (take 4 ra) :: 32 word) XOR word_of_bytes (take 4 rb) in
             if diff \<noteq> 0 then num + trailing_zeros diff div 8
             else last2 (num + 4) (drop 4 ra) (drop 4 rb)
           else last2 num ra rb))"

text \<open>The new position is returned with the count.\<close>

definition count_same_bytes ::
  "bytes \<Rightarrow> nat \<Rightarrow> bytes \<Rightarrow> nat \<Rightarrow> nat \<Rightarrow> ('e, nat \<times> nat) outcome" where
  "count_same_bytes input cur source candidate end_offset =
     obind (usub (length input) end_offset) (\<lambda>stop.
     obind (sub_slice input cur stop) (\<lambda>a.
     obind (sub_slice source candidate (length source)) (\<lambda>b.
     let num =
       (case (first_chunk 8 a, first_chunk 8 b) of
          (Some x, Some y) \<Rightarrow>
            let diff = (word_of_bytes x :: 64 word) XOR word_of_bytes y in
            if diff \<noteq> 0 then trailing_zeros diff div 8
            else 8 + count_same_bytes_long (drop 8 a) (drop 8 b)
        | _ \<Rightarrow> count_same_bytes_long a b) in
     Ok (num, cur + num))))"

section \<open>Hash tables\<close>

definition PRIME5 :: "64 word" where
  "PRIME5 = 889523592379"

text \<open>\<^verbatim>\<open>usize::ilog2\<close>\<close>

fun ilog2 :: "nat \<Rightarrow> nat" where
  "ilog2 n = (if n < 2 then 0 else Suc (ilog2 (n div 2)))"

declare ilog2.simps [simp del]

definition hash_n :: "nat \<Rightarrow> 64 word \<Rightarrow> nat" where
  "hash_n N bytes = unat (drop_bit (64 - ilog2 N) (push_bit 24 bytes * PRIME5))"

text \<open>The same for 32-bit targets: the first four bytes count.\<close>

definition KNUTH :: "32 word" where
  "KNUTH = 2654435761"

definition hash_n_32 :: "nat \<Rightarrow> 64 word \<Rightarrow> nat" where
  "hash_n_32 N bytes = unat (drop_bit (32 - ilog2 N) (first4 bytes * KNUTH))"

definition DEFAULT_NODICT_ENTRIES :: nat where
  "DEFAULT_NODICT_ENTRIES = 2 * 1024"

definition DEFAULT_DICT_ENTRIES :: nat where
  "DEFAULT_DICT_ENTRIES = 4 * 1024"

definition MIN_ENTRIES :: nat where
  "MIN_ENTRIES = 256"

definition valid_entries :: "nat \<Rightarrow> bool" where
  "valid_entries n \<longleftrightarrow> n = 2 ^ ilog2 n \<and> MIN_ENTRIES \<le> n"

record 't hash_ops =
  get_at :: "'t \<Rightarrow> nat \<Rightarrow> (CompressError, nat) outcome"
  put_at :: "'t \<Rightarrow> nat \<Rightarrow> nat \<Rightarrow> (CompressError, 't) outcome"
  clear_all :: "'t \<Rightarrow> 't"
  hash :: "64 word \<Rightarrow> nat"

definition get_hash_at :: "'t hash_ops \<Rightarrow> bytes \<Rightarrow> nat \<Rightarrow> (CompressError, nat) outcome" where
  "get_hash_at T input pos = obind (rd64 input pos) (\<lambda>v. Ok (hash T v))"

text \<open>\<^verbatim>\<open>new\<close> fails for entry counts that the compile-time assertion rejects.\<close>

type_synonym HashTableU32U16 = "16 word list"

definition HashTableU32U16_new :: "nat \<Rightarrow> ('e, HashTableU32U16) outcome" where
  "HashTableU32U16_new N = (if valid_entries N then Ok (replicate N 0) else Panic)"

definition HashTableU32U16_get_at :: "HashTableU32U16 \<Rightarrow> nat \<Rightarrow> ('e, nat) outcome" where
  "HashTableU32U16_get_at t i = obind (idx_get t i) (\<lambda>v. Ok (unat v))"

definition HashTableU32U16_put_at :: "HashTableU32U16 \<Rightarrow> nat \<Rightarrow> nat \<Rightarrow> ('e, HashTableU32U16) outcome" where
  "HashTableU32U16_put_at t i v = (if i < length t then Ok (t[i := word_of_nat v]) else Panic)"

definition HashTableU32U16_clear :: "HashTableU32U16 \<Rightarrow> HashTableU32U16" where
  "HashTableU32U16_clear t = replicate (length t) 0"

definition u16_table :: "nat \<Rightarrow> HashTableU32U16 hash_ops" where
  "u16_table N = \<lparr>get_at = HashTableU32U16_get_at, put_at = HashTableU32U16_put_at,
     clear_all = HashTableU32U16_clear, hash = hash_n N\<rparr>"

type_synonym HashTableU32 = "32 word list"

definition HashTableU32_new :: "nat \<Rightarrow> ('e, HashTableU32) outcome" where
  "HashTableU32_new N = (if valid_entries N then Ok (replicate N 0) else Panic)"

definition HashTableU32_clear :: "HashTableU32 \<Rightarrow> HashTableU32" where
  "HashTableU32_clear t = replicate (length t) 0"

text \<open>\<^verbatim>\<open>saturating_sub\<close> on every entry.\<close>

definition HashTableU32_reposition :: "HashTableU32 \<Rightarrow> 32 word \<Rightarrow> HashTableU32" where
  "HashTableU32_reposition t delta = map (\<lambda>i. if i < delta then 0 else i - delta) t"

definition HashTableU32_get_at :: "HashTableU32 \<Rightarrow> nat \<Rightarrow> ('e, nat) outcome" where
  "HashTableU32_get_at t i = obind (idx_get t i) (\<lambda>v. Ok (unat v))"

definition HashTableU32_put_at :: "HashTableU32 \<Rightarrow> nat \<Rightarrow> nat \<Rightarrow> ('e, HashTableU32) outcome" where
  "HashTableU32_put_at t i v = (if i < length t then Ok (t[i := word_of_nat v]) else Panic)"

definition u32_table :: "nat \<Rightarrow> HashTableU32 hash_ops" where
  "u32_table N = \<lparr>get_at = HashTableU32_get_at, put_at = HashTableU32_put_at,
     clear_all = HashTableU32_clear, hash = hash_n N\<rparr>"

section \<open>Words and their bytes\<close>

lemma bit_nat_byte: "bit (unat (b :: byte)) n \<longleftrightarrow> bit b n"
  by (simp add: bit_unsigned_iff)

lemma bit_le_nat: "bit (le_nat bs) n \<longleftrightarrow> n div 8 < length bs \<and> bit (bs ! (n div 8)) (n mod 8)"
proof (induction bs arbitrary: n)
  case Nil
  then show ?case by simp
next
  case (Cons b bs)
  define u where "u = unat b"
  define m where "m = le_nat bs"
  have u: "u < 256" by (simp add: u_def)
  show ?case
  proof (cases "n < 8")
    case True
    then have "(256 :: nat) = 2 ^ n * 2 ^ (8 - n)" by (simp flip: power_add)
    then have "(u + 256 * m) div 2 ^ n = (u + 2 ^ n * (2 ^ (8 - n) * m)) div 2 ^ n" by (simp only: mult.assoc)
    also have "\<dots> = u div 2 ^ n + 2 ^ (8 - n) * m" by simp
    finally have "bit (u + 256 * m) n \<longleftrightarrow> bit u n"
      using True by (simp add: bit_iff_odd)
    with True bit_nat_byte [of b n] show ?thesis by (simp add: u_def m_def)
  next
    case False
    then have "(2 :: nat) ^ n = 256 * 2 ^ (n - 8)"
      using power_add [of "2 :: nat" 8 "n - 8"] by simp
    then have "(u + 256 * m) div 2 ^ n = m div 2 ^ (n - 8)" using u by (simp add: div_mult2_eq)
    then have "bit (u + 256 * m) n \<longleftrightarrow> bit m (n - 8)" by (simp add: bit_iff_odd)
    moreover have "n div 8 = Suc ((n - 8) div 8)" "n mod 8 = (n - 8) mod 8"
      using False by (simp_all add: le_div_geq le_mod_geq)
    ultimately show ?thesis using Cons.IH [of "n - 8"] by (simp add: u_def m_def)
  qed
qed

lemma bit_word_of_nat: "bit (word_of_nat k :: 'a :: len word) n \<longleftrightarrow> n < LENGTH('a) \<and> bit k n"
  by transfer (simp add: bit_take_bit_iff bit_of_nat_iff)

lemma bit_word_of_bytes:
  "bit (word_of_bytes bs :: 'a :: len word) n \<longleftrightarrow>
   n < LENGTH('a) \<and> n div 8 < length bs \<and> bit (bs ! (n div 8)) (n mod 8)"
  by (simp add: word_of_bytes_def bit_le_nat bit_word_of_nat)

lemma trailing_zeros_eq:
  assumes "bit w k" "\<And>i. i < k \<Longrightarrow> \<not> bit w i"
  shows "trailing_zeros (w :: 'a :: len word) = k"
proof -
  have k: "k < LENGTH('a)" using assms(1) by (rule bit_imp_le_length)
  then have "[0..<LENGTH('a)] = [0..<k] @ k # [Suc k..<LENGTH('a)]"
    using upt_add_eq_append [of 0 k "LENGTH('a) - k"] by (simp add: upt_conv_Cons)
  moreover have "takeWhile (\<lambda>i. \<not> bit w i) ([0..<k] @ k # [Suc k..<LENGTH('a)]) = [0..<k]"
    using assms by (subst takeWhile_append2) auto
  ultimately show ?thesis by (simp add: trailing_zeros_def)
qed

section \<open>Counting is the longest common prefix\<close>

fun lcp :: "'a list \<Rightarrow> 'a list \<Rightarrow> nat" where
  "lcp (x # xs) (y # ys) = (if x = y then Suc (lcp xs ys) else 0)"
| "lcp xs ys = 0"

lemma lcp_le: "lcp xs ys \<le> length xs" "lcp xs ys \<le> length ys"
  by (induction xs ys rule: lcp.induct) auto

lemma lcp_take: "take (lcp xs ys) xs = take (lcp xs ys) ys"
  by (induction xs ys rule: lcp.induct) auto

lemma lcp_nth: "i < lcp xs ys \<Longrightarrow> xs ! i = ys ! i"
  using lcp_take [of xs ys] by (metis nth_take)

lemma lcp_differ: "lcp xs ys < length xs \<Longrightarrow> lcp xs ys < length ys \<Longrightarrow> xs ! lcp xs ys \<noteq> ys ! lcp xs ys"
  by (induction xs ys rule: lcp.induct) auto

lemma lcp_append_same: "lcp (xs @ a) (xs @ b) = length xs + lcp a b"
  by (induction xs) auto

lemma lcp_append_differ: "length xs = length ys \<Longrightarrow> xs \<noteq> ys \<Longrightarrow> lcp (xs @ a) (ys @ b) = lcp xs ys"
  by (induction xs ys rule: lcp.induct) auto

lemma lcp_less: "length xs = length ys \<Longrightarrow> xs \<noteq> ys \<Longrightarrow> lcp xs ys < length xs"
  by (induction xs ys rule: lcp.induct) auto

lemma lcp_cut: "lcp (take (min (length a) (length b)) a) (take (min (length a) (length b)) b) = lcp a b"
  by (induction a b rule: lcp.induct) auto

lemma trailing_zeros_lcp:
  assumes "length xs = length ys" "LENGTH('a) = 8 * length xs" "xs \<noteq> ys"
  shows "(word_of_bytes xs :: 'a :: len word) XOR word_of_bytes ys \<noteq> 0"
    and "trailing_zeros ((word_of_bytes xs :: 'a :: len word) XOR word_of_bytes ys) div 8 = lcp xs ys"
proof -
  define w where "w = (word_of_bytes xs :: 'a word) XOR word_of_bytes ys"
  define k where "k = lcp xs ys"
  have k: "k < length xs" using lcp_less [OF assms(1,3)] by (simp add: k_def)
  have bw: "bit w n \<longleftrightarrow> n < 8 * length xs \<and> bit (xs ! (n div 8)) (n mod 8) \<noteq> bit (ys ! (n div 8)) (n mod 8)" for n
    unfolding w_def using assms(1,2) by (auto simp: bit_xor_iff bit_word_of_bytes)
  have "xs ! k \<noteq> ys ! k" using lcp_differ [of xs ys] k assms(1) by (simp add: k_def)
  then obtain j where "bit (xs ! k) j \<noteq> bit (ys ! k) j" by (auto simp: bit_eq_iff)
  define j where "j = (LEAST j. bit (xs ! k) j \<noteq> bit (ys ! k) j)"
  have j: "bit (xs ! k) j \<noteq> bit (ys ! k) j" "\<And>i. i < j \<Longrightarrow> bit (xs ! k) i = bit (ys ! k) i"
    unfolding j_def using LeastI [of "\<lambda>j. bit (xs ! k) j \<noteq> bit (ys ! k) j"] not_less_Least \<open>bit (xs ! k) _ \<noteq> _\<close>
    by blast+
  have "j < LENGTH(8)" using j(1) bit_imp_le_length by blast
  then have j8: "j < 8" by simp
  have "8 * k + j < 8 * length xs" using k j8 by linarith
  then have set: "bit w (8 * k + j)" using bw j(1) j8 by simp
  have clear: "\<not> bit w i" if "i < 8 * k + j" for i
  proof (cases "i div 8 < k")
    case True
    then show ?thesis using bw lcp_nth [of "i div 8" xs ys] by (simp add: k_def)
  next
    case False
    then have "i div 8 = k" "i mod 8 < j" using that j8 by presburger+
    then show ?thesis using bw j(2) by simp
  qed
  show "w \<noteq> 0" using set by auto
  show "trailing_zeros w div 8 = lcp xs ys"
    using trailing_zeros_eq [OF set clear] j8 by (simp add: k_def)
qed


lemma word_of_bytes_inj:
  assumes "length xs = length ys" "LENGTH('a) = 8 * length xs"
  shows "(word_of_bytes xs :: 'a :: len word) = word_of_bytes ys \<longleftrightarrow> xs = ys"
  using trailing_zeros_lcp(1) [OF assms] by (metis xor_self_eq)

lemma count_chunks_lcp:
  assumes "length a = length b"
  shows "case count_chunks a b num of
      Inl r \<Rightarrow> r = num + lcp a b
    | Inr (r, ra, rb) \<Rightarrow> r + lcp ra rb = num + lcp a b \<and> length ra = length rb \<and> length ra < 8"
  using assms
proof (induction a b num rule: count_chunks.induct)
  case (1 a b num)
  show ?case
  proof (cases "8 \<le> length a \<and> 8 \<le> length b")
    case False
    with "1.prems" show ?thesis by (simp add: count_chunks.simps [of a b num])
  next
    case True
    let ?diff = "(word_of_bytes (take 8 a) :: 64 word) XOR word_of_bytes (take 8 b)"
    show ?thesis
    proof (cases "take 8 a = take 8 b")
      case same: True
      then have "?diff = 0" by simp
      moreover have "lcp a b = 8 + lcp (drop 8 a) (drop 8 b)"
        using True same by (metis append_take_drop_id lcp_append_same length_take min_absorb2)
      ultimately show ?thesis
        using "1.IH" [of ?diff] True "1.prems"
        by (simp add: count_chunks.simps [of a b num] add.assoc split: sum.splits prod.splits)
    next
      case differ: False
      then have "lcp a b = lcp (take 8 a) (take 8 b)"
        using True lcp_append_differ [of "take 8 a" "take 8 b" "drop 8 a" "drop 8 b"] by simp
      then show ?thesis
        using trailing_zeros_lcp [where 'a = 64, of "take 8 a" "take 8 b"] True differ
        by (simp add: count_chunks.simps [of a b num])
    qed
  qed
qed

text \<open>The rest of fewer than eight bytes: four, two, one.\<close>

lemma lcp_drop:
  assumes "take n ra = take n rb" "n \<le> length ra" "length ra = length rb"
  shows "lcp ra rb = n + lcp (drop n ra) (drop n rb)"
  using assms lcp_append_same [of "take n ra" "drop n ra" "drop n rb"]
  by (metis append_take_drop_id length_take min_absorb2)

lemma lcp_take_differ:
  assumes "take n ra \<noteq> take n rb" "length ra = length rb"
  shows "lcp ra rb = lcp (take n ra) (take n rb)"
  using lcp_append_differ [of "take n ra" "take n rb" "drop n ra" "drop n rb"] assms by simp

lemma lcp_short:
  assumes "length ra = length rb" "length ra < 2"
  shows "lcp ra rb = (if ra \<noteq> [] \<and> rb \<noteq> [] \<and> ra ! 0 = rb ! 0 then 1 else 0)"
  using assms by (cases ra; cases rb) auto

lemma lcp_pair:
  assumes "take 2 ra \<noteq> take 2 rb" "length ra = length rb" "2 \<le> length ra"
  shows "lcp ra rb = (if ra ! 0 = rb ! 0 then 1 else 0)"
proof -
  obtain a0 a1 ra' b0 b1 rb' where "ra = a0 # a1 # ra'" "rb = b0 # b1 # rb'"
    using assms(2,3) by (cases ra; cases rb; cases "tl ra"; cases "tl rb") auto
  with assms(1) show ?thesis by auto
qed

lemma count_same_bytes_long_lcp: "count_same_bytes_long a b = lcp a b"
proof -
  define n where "n = min (length a) (length b)"
  have len: "length (take n a) = length (take n b)" by (simp add: n_def)
  have cut: "lcp (take n a) (take n b) = lcp a b" by (simp add: n_def lcp_cut)
  define last2 where "last2 = (\<lambda>num (ra :: bytes) rb.
      let (num, ra, rb) = (if 2 \<le> length ra \<and> 2 \<le> length rb \<and> take 2 ra = take 2 rb
         then (num + 2, drop 2 ra, drop 2 rb) else (num, ra, rb)) in
      (if ra \<noteq> [] \<and> rb \<noteq> [] \<and> ra ! 0 = rb ! 0 then num + 1 else num :: nat))"
  have last2: "last2 num ra rb = num + lcp ra rb" if "length ra = length rb" "length ra < 4" for num ra rb
  proof (cases "2 \<le> length ra")
    case False
    with that lcp_short [of ra rb] show ?thesis by (simp add: last2_def)
  next
    case True
    show ?thesis
    proof (cases "take 2 ra = take 2 rb")
      case same: True
      then show ?thesis
        using True that lcp_drop [OF same True that(1)] lcp_short [of "drop 2 ra" "drop 2 rb"]
        by (auto simp: last2_def Let_def)
    next
      case False
      then show ?thesis using True that lcp_pair [of ra rb] by (auto simp: last2_def Let_def)
    qed
  qed
  show ?thesis
  proof (cases "count_chunks (take n a) (take n b) 0")
    case (Inl r)
    with count_chunks_lcp [OF len, of 0] cut show ?thesis
      by (simp add: count_same_bytes_long_def n_def [symmetric])
  next
    case (Inr t)
    then obtain num ra rb where t: "count_chunks (take n a) (take n b) 0 = Inr (num, ra, rb)" by (cases t) auto
    then have r: "num + lcp ra rb = lcp a b" "length ra = length rb" "length ra < 8"
      using count_chunks_lcp [OF len, of 0] cut by simp_all
    have eq: "count_same_bytes_long a b =
        (if 4 \<le> length ra then
           let diff = (word_of_bytes (take 4 ra) :: 32 word) XOR word_of_bytes (take 4 rb) in
           if diff \<noteq> 0 then num + trailing_zeros diff div 8 else last2 (num + 4) (drop 4 ra) (drop 4 rb)
         else last2 num ra rb)"
      using t r(2) by (simp add: count_same_bytes_long_def n_def [symmetric] last2_def Let_def)
    show ?thesis
    proof (cases "4 \<le> length ra")
      case False
      with eq last2 r show ?thesis by simp
    next
      case True
      show ?thesis
      proof (cases "take 4 ra = take 4 rb")
        case same: True
        with eq last2 [of "drop 4 ra" "drop 4 rb"] r True lcp_drop [OF same True r(2)] show ?thesis by simp
      next
        case differ: False
        with eq r True trailing_zeros_lcp [where 'a = 32, of "take 4 ra" "take 4 rb"]
          lcp_take_differ [OF differ r(2)]
        show ?thesis by simp
      qed
    qed
  qed
qed

lemma count_same_bytes_eq:
  assumes "end_offset \<le> length input" "cur \<le> length input - end_offset" "candidate \<le> length source"
  shows "count_same_bytes input cur source candidate end_offset =
    (let n = lcp (take (length input - end_offset - cur) (drop cur input)) (drop candidate source) in
     Ok (n, cur + n) :: ('e, nat \<times> nat) outcome)"
proof -
  define a where "a = take (length input - end_offset - cur) (drop cur input)"
  define b where "b = drop candidate source"
  have "(case (first_chunk 8 a, first_chunk 8 b) of
          (Some x, Some y) \<Rightarrow>
            let diff = (word_of_bytes x :: 64 word) XOR word_of_bytes y in
            if diff \<noteq> 0 then trailing_zeros diff div 8
            else 8 + count_same_bytes_long (drop 8 a) (drop 8 b)
        | _ \<Rightarrow> count_same_bytes_long a b) = lcp a b"
  proof (cases "8 \<le> length a \<and> 8 \<le> length b")
    case False
    then show ?thesis by (auto simp: first_chunk_def count_same_bytes_long_lcp)
  next
    case True
    show ?thesis
    proof (cases "take 8 a = take 8 b")
      case same: True
      then have "lcp a b = 8 + lcp (drop 8 a) (drop 8 b)"
        using True by (metis append_take_drop_id lcp_append_same length_take min_absorb2)
      with True same show ?thesis by (simp add: first_chunk_def count_same_bytes_long_lcp)
    next
      case differ: False
      then have "lcp a b = lcp (take 8 a) (take 8 b)"
        using True lcp_append_differ [of "take 8 a" "take 8 b" "drop 8 a" "drop 8 b"] by simp
      then show ?thesis
        using True differ trailing_zeros_lcp [where 'a = 64, of "take 8 a" "take 8 b"]
        by (simp add: first_chunk_def Let_def)
    qed
  qed
  moreover have "usub (length input) end_offset = (Ok (length input - end_offset) :: ('e, nat) outcome)"
    "sub_slice input cur (length input - end_offset) = (Ok a :: ('e, bytes) outcome)"
    "sub_slice source candidate (length source) = (Ok b :: ('e, bytes) outcome)"
    using assms by (simp_all add: slice_simps a_def b_def)
  ultimately show ?thesis
    by (simp only: count_same_bytes_def a_def [symmetric] b_def [symmetric] obind.simps Let_def)
qed

section \<open>Readers\<close>

lemma rd64_eq: "pos + 8 \<le> length src \<Longrightarrow> rd64 src pos = Ok (word_of_bytes (take 8 (drop pos src)))"
  by (simp add: rd64_def slice_simps first_chunk_def)

lemma rd32_eq: "pos + 4 \<le> length src \<Longrightarrow> rd32 src pos = Ok (word_of_bytes (take 4 (drop pos src)))"
  by (simp add: rd32_def slice_simps first_chunk_def)

lemma first4_eq:
  assumes "length bs = 8"
  shows "first4 (word_of_bytes bs) = word_of_bytes (take 4 bs)"
proof -
  have "le_nat bs < 2 ^ 64" using le_nat_bound [of bs] assms by simp
  then have "le_bytes 8 (unat (word_of_bytes bs :: 64 word)) = bs"
    using le_bytes_le_nat [of bs] assms by (simp add: word_of_bytes_def unat_of_nat)
  moreover have "take 4 bs = [bs ! 0, bs ! 1, bs ! 2, bs ! 3]"
    using assms by (intro nth_equalityI) (auto simp: less_Suc_eq numeral_eq_Suc)
  ultimately show ?thesis by (simp add: first4_def)
qed

section \<open>The contract of a table\<close>

text \<open>
  \<open>below t n\<close>: every entry of \<open>t\<close> is a position below \<open>n\<close>.  Storing a position never makes an
  entry larger than it, even where the table's integers are too narrow for it.  \<open>fits\<close> are the
  positions a table can hold.
\<close>

locale hash_table =
  fixes T :: "'t hash_ops"
    and invar :: "'t \<Rightarrow> bool"
    and below :: "'t \<Rightarrow> nat \<Rightarrow> bool"
    and fits :: "nat \<Rightarrow> bool"
  assumes get_ok: "invar t \<Longrightarrow> \<exists>v. get_at T t (hash T b) = Ok v"
    and get_below: "below t n \<Longrightarrow> get_at T t i = Ok v \<Longrightarrow> v < n"
    and put_ok: "invar t \<Longrightarrow> \<exists>t'. put_at T t (hash T b) v = Ok t' \<and> invar t'"
    and put_below: "below t n \<Longrightarrow> v < n \<Longrightarrow> put_at T t i v = Ok t' \<Longrightarrow> below t' n"
    and get_put: "put_at T t i v = Ok t' \<Longrightarrow> fits v \<Longrightarrow>
      get_at T t' j = (if j = i then Ok v else get_at T t j)"
    and below_mono: "below t n \<Longrightarrow> n \<le> m \<Longrightarrow> below t m"
    and clear_ok: "invar t \<Longrightarrow> invar (clear_all T t) \<and> below (clear_all T t) (Suc 0)"
begin

lemma get_hash_at_ok: "pos + 8 \<le> length input \<Longrightarrow>
    get_hash_at T input pos = Ok (hash T (word_of_bytes (take 8 (drop pos input))))"
  by (simp add: get_hash_at_def rd64_eq)

lemma put_both: "invar t \<Longrightarrow> below t n \<Longrightarrow> v < m \<Longrightarrow> n \<le> m \<Longrightarrow>
    \<exists>t'. put_at T t (hash T b) v = Ok t' \<and> invar t' \<and> below t' m"
  using put_ok [of t b v] below_mono put_below by blast

lemma get_both: "invar t \<Longrightarrow> below t n \<Longrightarrow> \<exists>v. get_at T t (hash T b) = Ok v \<and> v < n"
  using get_ok [of t b] get_below by blast

end

section \<open>The two tables\<close>

lemma ilog2_le: "0 < n \<Longrightarrow> 2 ^ ilog2 n \<le> n"
proof (induction n rule: ilog2.induct)
  case (1 n)
  show ?case
  proof (cases "n < 2")
    case True
    with "1.prems" show ?thesis by (simp add: ilog2.simps [of n])
  next
    case False
    then have "2 ^ ilog2 (n div 2) \<le> n div 2" using "1.IH" by simp
    then have "2 * 2 ^ ilog2 (n div 2) \<le> n" by linarith
    with False show ?thesis by (simp add: ilog2.simps [of n])
  qed
qed

text \<open>A hash is the top of a word, and as such an index into the table.\<close>

lemma top_bits_less:
  fixes w :: "'a :: len word"
  assumes "0 < N"
  shows "unat (drop_bit (LENGTH('a) - ilog2 N) w) < N"
proof (cases "LENGTH('a) \<le> ilog2 N")
  case True
  have "unat (drop_bit (LENGTH('a) - ilog2 N) w) < 2 ^ LENGTH('a)" by (rule unsigned_less)
  also have "\<dots> \<le> 2 ^ ilog2 N" using True by (intro power_increasing) auto
  also have "\<dots> \<le> N" using assms by (rule ilog2_le)
  finally show ?thesis .
next
  case False
  define k where "k = LENGTH('a) - ilog2 N"
  have "unat w < 2 ^ ilog2 N * 2 ^ k"
    using unsigned_less [of w] False by (simp add: k_def flip: power_add)
  then have "unat w div 2 ^ k < 2 ^ ilog2 N" by (simp add: less_mult_imp_div_less)
  then have "unat (drop_bit k w) < 2 ^ ilog2 N"
    by (simp only: unat_drop_bit_eq) (simp add: drop_bit_eq_div)
  also have "\<dots> \<le> N" using assms by (rule ilog2_le)
  finally show ?thesis unfolding k_def .
qed

lemma hash_n_less: "0 < N \<Longrightarrow> hash_n N bytes < N" "0 < N \<Longrightarrow> hash_n_32 N bytes < N"
  using top_bits_less [where w = "push_bit 24 bytes * PRIME5"] top_bits_less [where w = "first4 bytes * KNUTH"]
  by (simp_all add: hash_n_def hash_n_32_def)

definition entries_below :: "'a :: len word list \<Rightarrow> nat \<Rightarrow> bool" where
  "entries_below t n \<longleftrightarrow> (\<forall>x \<in> set t. unat x < n)"

lemma entries_below_update:
  "entries_below t n \<Longrightarrow> v < n \<Longrightarrow> entries_below (t[i := word_of_nat v]) n"
  by (auto simp: entries_below_def unat_of_nat intro: le_less_trans [OF mod_less_eq_dividend]
      dest!: subsetD [OF set_update_subset_insert])

lemma entries_below_nth: "entries_below t n \<Longrightarrow> i < length t \<Longrightarrow> unat (t ! i) < n"
  by (simp add: entries_below_def)

lemma entries_below_mono: "entries_below t n \<Longrightarrow> n \<le> m \<Longrightarrow> entries_below t m"
  by (auto simp: entries_below_def intro: less_le_trans)

lemma entries_below_replicate: "entries_below (replicate n 0) (Suc 0)"
  by (simp add: entries_below_def)

interpretation u16: hash_table "u16_table N" "\<lambda>t. length t = N \<and> 0 < N" entries_below "\<lambda>v. v < 2 ^ 16"
  by unfold_locales
    (auto simp: u16_table_def HashTableU32U16_get_at_def HashTableU32U16_put_at_def HashTableU32U16_clear_def
      idx_get_def hash_n_less entries_below_update entries_below_replicate unat_of_nat
      obind_Ok_iff entries_below_nth split: if_splits intro: entries_below_mono)

interpretation u32: hash_table "u32_table N" "\<lambda>t. length t = N \<and> 0 < N" entries_below "\<lambda>v. v < 2 ^ 32"
  by unfold_locales
    (auto simp: u32_table_def HashTableU32_get_at_def HashTableU32_put_at_def HashTableU32_clear_def
      idx_get_def hash_n_less entries_below_update entries_below_replicate unat_of_nat
      obind_Ok_iff entries_below_nth split: if_splits intro: entries_below_mono)

lemma reposition_below:
  "entries_below t n \<Longrightarrow> unat delta < n \<Longrightarrow> entries_below (HashTableU32_reposition t delta) (n - unat delta)"
  by (auto simp: entries_below_def HashTableU32_reposition_def unat_sub word_le_nat_alt word_less_nat_alt not_less
      intro: diff_less_mono)

section \<open>Properties\<close>

text \<open>
  C25: counting equal bytes, eight, four, two and one at a time, gives the longest run: the bytes
  agree up to the count, and the run ends at the last position that may match, at the end of
  the source, or at two bytes that differ.
\<close>

theorem count_same_bytes_longest:
  assumes "end_offset \<le> length input" "cur + end_offset \<le> length input" "candidate \<le> length source"
  shows "\<exists>n. count_same_bytes input cur source candidate end_offset = (Ok (n, cur + n) :: ('e, nat \<times> nat) outcome) \<and>
    cur + n + end_offset \<le> length input \<and> candidate + n \<le> length source \<and>
    (\<forall>i < n. input ! (cur + i) = source ! (candidate + i)) \<and>
    (cur + n + end_offset = length input \<or> candidate + n = length source \<or>
     input ! (cur + n) \<noteq> source ! (candidate + n))"
proof -
  define a where "a = take (length input - end_offset - cur) (drop cur input)"
  define b where "b = drop candidate source"
  define n where "n = lcp a b"
  have len: "length a = length input - end_offset - cur" "length b = length source - candidate"
    by (simp_all add: a_def b_def)
  have n: "n \<le> length a" "n \<le> length b" using lcp_le [of a b] by (simp_all add: n_def)
  have nth: "a ! i = input ! (cur + i)" "b ! i = source ! (candidate + i)" if "i < length a" "i < length b" for i
    using that assms len by (simp_all add: a_def b_def)
  have "count_same_bytes input cur source candidate end_offset = (Ok (n, cur + n) :: ('e, nat \<times> nat) outcome)"
    using count_same_bytes_eq [of end_offset input cur candidate source, where ?'e = 'e] assms
    by (simp add: Let_def n_def a_def b_def)
  moreover have "input ! (cur + i) = source ! (candidate + i)" if "i < n" for i
    using lcp_nth [of i a b] nth [of i] that n by (simp add: n_def)
  moreover have "cur + n + end_offset = length input \<or> candidate + n = length source \<or>
      input ! (cur + n) \<noteq> source ! (candidate + n)"
  proof (cases "n < length a \<and> n < length b")
    case True
    then show ?thesis using lcp_differ [of a b] nth [of n] by (simp add: n_def)
  next
    case False
    then have "n = length a \<or> n = length b" using n by linarith
    then show ?thesis using len assms by linarith
  qed
  moreover have "cur + n + end_offset \<le> length input" "candidate + n \<le> length source"
    using n len assms by linarith+
  ultimately show ?thesis by blast
qed

theorem count_same_bytes_longest_witness:
  "\<exists>n. count_same_bytes [1, 2, 3, 1, 2, 4, 0, 0] 3 [1, 2, 3, 1, 2, 4, 0, 0] 0 2 =
     (Ok (n, 3 + n) :: (CompressError, nat \<times> nat) outcome) \<and> 3 + n + 2 \<le> 8"
  using count_same_bytes_longest [of 2 "[1, 2, 3, 1, 2, 4, 0, 0]" 3 0 "[1, 2, 3, 1, 2, 4, 0, 0]",
      where ?'e = CompressError]
  by (auto simp del: count_same_bytes_def)

text \<open>
  C26: every hash is an index into the table, a position that fits is found under its hash after
  it is stored, and the other entries stay; for the table of 32-bit and that of 16-bit
  positions, of any size.
\<close>

theorem table_get_after_put:
  assumes "length t32 = N" "length t16 = N" "0 < N"
  shows "hash_n N x < N \<and>
    (v < 2 ^ 32 \<longrightarrow> (\<exists>t. HashTableU32_put_at t32 (hash_n N x) v = (Ok t :: (CompressError, _) outcome) \<and> length t = N \<and>
      (\<forall>y. (HashTableU32_get_at t (hash_n N y) :: (CompressError, nat) outcome) =
        (if hash_n N y = hash_n N x then Ok v else HashTableU32_get_at t32 (hash_n N y))))) \<and>
    (v < 2 ^ 16 \<longrightarrow> (\<exists>t. HashTableU32U16_put_at t16 (hash_n N x) v = (Ok t :: (CompressError, _) outcome) \<and> length t = N \<and>
      (\<forall>y. (HashTableU32U16_get_at t (hash_n N y) :: (CompressError, nat) outcome) =
        (if hash_n N y = hash_n N x then Ok v else HashTableU32U16_get_at t16 (hash_n N y)))))"
  using u32.put_ok [of t32 N x v] u16.put_ok [of t16 N x v] u32.get_put [of N t32 "hash_n N x" v]
    u16.get_put [of N t16 "hash_n N x" v] hash_n_less(1) [of N x] assms
  by (fastforce simp: u32_table_def u16_table_def)

theorem table_get_after_put_witness:
  "hash_n 256 7 < 256 \<and> (\<exists>t. HashTableU32_put_at (replicate 256 0) (hash_n 256 7) 70000 =
     (Ok t :: (CompressError, _) outcome) \<and> (HashTableU32_get_at t (hash_n 256 7) :: (CompressError, nat) outcome) = Ok 70000)"
  using table_get_after_put [of "replicate 256 0" 256 "replicate 256 0" 7 70000] by auto

end
