(* ===== verification/Dict_Trainer.thy ===== *)
theory Dict_Trainer
  imports Hash_Table
begin

text \<open>
  \<^verbatim>\<open>crates/encode/src/dict.rs\<close>: the COVER trainer of dictionaries.

  The loops run over lists of indices or take their state as arguments; an index out of range, a
  subtraction below zero and a counter that overflows its width are panics.  The \<^verbatim>\<open>while\<close> loop over
  segments takes fuel.
\<close>

unbundle bit_operations_syntax

section \<open>Samples\<close>

record DictTrainer =
  dt_max_dict_size :: nat
  dt_samples :: "bytes list"
  dt_total_bytes :: nat

definition DictTrainer_new :: "nat \<Rightarrow> DictTrainer" where
  "DictTrainer_new max_dict_size =
     \<lparr>dt_max_dict_size = min max_dict_size MAX_DISTANCE, dt_samples = [], dt_total_bytes = 0\<rparr>"

text \<open>The oldest samples leave until the new one fits in the budget.\<close>

fun evict :: "nat \<Rightarrow> nat \<Rightarrow> bytes list \<Rightarrow> nat \<Rightarrow> ('e, bytes list \<times> nat) outcome" where
  "evict budget len [] total_bytes = Ok ([], total_bytes)"
| "evict budget len (s # ss) total_bytes =
     (if budget < total_bytes + len then obind (usub total_bytes (length s)) (evict budget len ss)
      else Ok (s # ss, total_bytes))"

definition add_sample :: "DictTrainer \<Rightarrow> bytes \<Rightarrow> ('e, DictTrainer) outcome" where
  "add_sample self data =
     (if length data < MINMATCH \<or> dt_max_dict_size self < length data then Ok self
      else
        let budget = dt_max_dict_size self * 8 in
        obind (evict budget (length data) (dt_samples self) (dt_total_bytes self)) (\<lambda>(samples, total_bytes).
        Ok (self\<lparr>dt_samples := samples @ [data], dt_total_bytes := total_bytes + length data\<rparr>)))"

definition sample_count :: "DictTrainer \<Rightarrow> nat" where
  "sample_count self = length (dt_samples self)"

definition total_bytes :: "DictTrainer \<Rightarrow> nat" where
  "total_bytes self = dt_total_bytes self"

section \<open>Selection\<close>

definition D :: nat where "D = 8"
definition FREQ_BITS :: nat where "FREQ_BITS = 16"
definition FREQ_SIZE :: nat where "FREQ_SIZE = push_bit FREQ_BITS 1"
definition FREQ_MASK :: nat where "FREQ_MASK = FREQ_SIZE - 1"

definition hash_dmer :: "bytes \<Rightarrow> ('e, nat) outcome" where
  "hash_dmer data =
     obind (sub_slice data 0 8) (\<lambda>b. Ok (unat ((word_of_bytes b :: 64 word) * 0x9E3779B97F4A7C15)))"

fun join_samples :: "bytes list \<Rightarrow> bytes \<Rightarrow> nat list \<Rightarrow> bytes \<times> nat list" where
  "join_samples [] all offsets = (all, offsets @ [length all])"
| "join_samples (sample # samples) all offsets = join_samples samples (all @ sample) (offsets @ [length all])"

fun hash_loop :: "bytes \<Rightarrow> nat list \<Rightarrow> nat list \<Rightarrow> ('e, nat list) outcome" where
  "hash_loop all [] hashes = Ok hashes"
| "hash_loop all (i # is) hashes =
     obind (sub_slice all i (i + D)) (\<lambda>d.
     obind (hash_dmer d) (\<lambda>h.
     if i < length hashes then hash_loop all is (hashes[i := (h AND FREQ_MASK) mod 2 ^ 32]) else Panic))"

fun count_loop :: "nat list \<Rightarrow> nat list \<Rightarrow> nat list \<Rightarrow> ('e, nat list) outcome" where
  "count_loop hashes [] freqs = Ok freqs"
| "count_loop hashes (i # is) freqs =
     obind (idx_get hashes i) (\<lambda>h.
     obind (idx_get freqs h) (\<lambda>f.
     if f + 1 < 2 ^ 32 then count_loop hashes is (freqs[h := f + 1]) else Panic))"

fun count_samples :: "nat list \<Rightarrow> nat list \<Rightarrow> nat list \<Rightarrow> nat list \<Rightarrow> ('e, nat list) outcome" where
  "count_samples offsets hashes [] freqs = Ok freqs"
| "count_samples offsets hashes (s # ss) freqs =
     obind (idx_get offsets s) (\<lambda>start.
     obind (idx_get offsets (s + 1)) (\<lambda>fin.
     obind (usub fin start) (\<lambda>len.
     if len < D then count_samples offsets hashes ss freqs
     else
       obind (usub fin D) (\<lambda>e.
       obind (count_loop hashes [start..<e + 1] freqs) (count_samples offsets hashes ss)))))"

fun prefix_loop :: "nat list \<Rightarrow> nat list \<Rightarrow> nat list \<Rightarrow> nat list \<Rightarrow> ('e, nat list) outcome" where
  "prefix_loop hashes freqs [] prefix = Ok prefix"
| "prefix_loop hashes freqs (i # is) prefix =
     obind (idx_get hashes i) (\<lambda>h.
     obind (idx_get freqs h) (\<lambda>f.
     obind (idx_get prefix i) (\<lambda>p.
     if p + f < 2 ^ 64 \<and> i + 1 < length prefix then prefix_loop hashes freqs is (prefix[i + 1 := p + f]) else Panic)))"

fun best_loop :: "bool list \<Rightarrow> nat list \<Rightarrow> nat \<Rightarrow> nat list \<Rightarrow> nat \<times> nat \<Rightarrow> ('e, nat \<times> nat) outcome" where
  "best_loop used prefix seg_dmers [] best = Ok best"
| "best_loop used prefix seg_dmers (pos # ps) best =
     obind (idx_get used pos) (\<lambda>u.
     if u then best_loop used prefix seg_dmers ps best
     else
       obind (idx_get prefix (pos + seg_dmers)) (\<lambda>b.
       obind (idx_get prefix pos) (\<lambda>a.
       obind (usub b a) (\<lambda>score.
       best_loop used prefix seg_dmers ps (if snd best < score then (pos, score) else best)))))"

fun zero_loop :: "nat list \<Rightarrow> nat list \<Rightarrow> nat list \<Rightarrow> ('e, nat list) outcome" where
  "zero_loop hashes [] freqs = Ok freqs"
| "zero_loop hashes (i # is) freqs =
     obind (idx_get hashes i) (\<lambda>h.
     if h < length freqs then zero_loop hashes is (freqs[h := 0]) else Panic)"

text \<open>The segments with their scores, in the order of selection.\<close>

fun select_loop ::
  "nat \<Rightarrow> bytes \<Rightarrow> nat list \<Rightarrow> nat \<Rightarrow> nat \<Rightarrow> nat \<Rightarrow> nat list \<Rightarrow> bool list \<Rightarrow> (nat \<times> nat) list \<Rightarrow> nat \<Rightarrow>
   ('e, (nat \<times> nat) list) outcome" where
  "select_loop 0 all hashes dict_size k seg_dmers freqs used segments collected = Diverge"
| "select_loop (Suc fuel) all hashes dict_size k seg_dmers freqs used segments collected =
     (if collected < dict_size then
        obind (prefix_loop hashes freqs [0..<length hashes] (replicate (length hashes + 1) 0)) (\<lambda>prefix.
        obind (usub (length all) k) (\<lambda>last_pos.
        obind (best_loop used prefix seg_dmers [0..<last_pos + 1] (0, 0)) (\<lambda>(best_pos, best_score).
        if best_score = 0 then Ok segments
        else
          obind (zero_loop hashes [best_pos..<best_pos + seg_dmers] freqs) (\<lambda>freqs.
          obind (copy_into used best_pos (best_pos + k) (replicate k True)) (\<lambda>used.
          select_loop fuel all hashes dict_size k seg_dmers freqs used (segments @ [(best_pos, best_score)])
            (collected + k))))))
      else Ok segments)"

fun emit_loop :: "bytes \<Rightarrow> nat \<Rightarrow> nat \<Rightarrow> (nat \<times> nat) list \<Rightarrow> bytes \<Rightarrow> ('e, bytes) outcome" where
  "emit_loop all k dict_size [] dict = Ok dict"
| "emit_loop all k dict_size ((pos, _) # segments) dict =
     obind (sub_slice all pos (min (pos + k) (length all))) (\<lambda>b.
     let dict = dict @ b in
     if dict_size \<le> length dict then Ok dict else emit_loop all k dict_size segments dict)"

definition cover_select :: "bytes list \<Rightarrow> nat \<Rightarrow> ('e, bytes) outcome" where
  "cover_select samples dict_size =
     (let (all, offsets) = join_samples samples [] [] in
      if length all < D then Ok (take (min dict_size (length all)) all)
      else
        let num_dmers = length all - D + 1 in
        obind (hash_loop all [0..<num_dmers] (replicate num_dmers 0)) (\<lambda>hashes.
        obind (count_samples offsets hashes [0..<length samples] (replicate FREQ_SIZE 0)) (\<lambda>freqs.
        let k = dict_size div 4 in
        if length all < k then Ok all
        else
          obind (usub k D) (\<lambda>d.
          let seg_dmers = d + 1 in
          obind (select_loop (Suc dict_size) all hashes dict_size k seg_dmers freqs (replicate (length all) False) [] 0) (\<lambda>segments.
          obind (emit_loop all k dict_size (rev segments) []) (\<lambda>dict.
          Ok (take dict_size dict)))))))"

definition train :: "DictTrainer \<Rightarrow> ('e, bytes) outcome" where
  "train self =
     (if length (dt_samples self) < 2 then Ok []
      else cover_select (dt_samples self) (dt_max_dict_size self))"

end
