(* ===== verification/Dict_Trainer_Correct.thy ===== *)
theory Dict_Trainer_Correct
  imports Dict_Trainer "HOL-Library.Sublist"
begin

text \<open>
  The trainer: what it keeps of the samples, and what it makes of them.  Each loop is described
  by a closed form; the scores are sums of the frequencies of a segment.
\<close>

section \<open>The samples that are kept\<close>

abbreviation total_length :: "'a list list \<Rightarrow> nat" where
  "total_length xss \<equiv> sum_list (map length xss)"

lemma total_length_suffix: "suffix xs ys \<Longrightarrow> total_length xs \<le> total_length ys"
  by (auto simp: suffix_def)

text \<open>The longest suffix that leaves room for another sample.\<close>

lemma evict_ok:
  assumes "len \<le> budget"
  shows "\<exists>kept. evict budget len ss (total_length ss) = (Ok (kept, total_length kept) :: ('e, _) outcome) \<and> suffix kept ss \<and>
    total_length kept + len \<le> budget \<and> (\<forall>xs. suffix xs ss \<longrightarrow> total_length xs + len \<le> budget \<longrightarrow> suffix xs kept)"
proof (induction ss)
  case Nil
  then show ?case using assms by simp
next
  case (Cons s ss)
  show ?case
  proof (cases "budget < total_length (s # ss) + len")
    case True
    obtain kept where k: "evict budget len ss (total_length ss) = (Ok (kept, total_length kept) :: ('e, _) outcome)" "suffix kept ss"
      "total_length kept + len \<le> budget" "\<And>xs. suffix xs ss \<Longrightarrow> total_length xs + len \<le> budget \<Longrightarrow> suffix xs kept"
      using Cons.IH by blast
    have "suffix xs kept" if "suffix xs (s # ss)" "total_length xs + len \<le> budget" for xs
      using that k(4) [of xs] True by (auto simp: suffix_Cons)
    with k True show ?thesis by (intro exI [of _ kept]) (simp add: usub_def suffix_Cons)
  next
    case False
    then show ?thesis by (intro exI [of _ "s # ss"]) simp
  qed
qed

definition accepts :: "nat \<Rightarrow> bytes \<Rightarrow> bool" where
  "accepts m data \<longleftrightarrow> MINMATCH \<le> length data \<and> length data \<le> m"

fun add_samples :: "DictTrainer \<Rightarrow> bytes list \<Rightarrow> ('e, DictTrainer) outcome" where
  "add_samples self [] = Ok self"
| "add_samples self (d # ds) = obind (add_sample self d) (\<lambda>self. add_samples self ds)"

text \<open>The state after the samples \<open>ds\<close>: the longest suffix of the accepted ones within the budget.\<close>

definition keeps_recent :: "nat \<Rightarrow> bytes list \<Rightarrow> DictTrainer \<Rightarrow> bool" where
  "keeps_recent m ds self \<longleftrightarrow> dt_max_dict_size self = m \<and> suffix (dt_samples self) (filter (accepts m) ds) \<and>
     dt_total_bytes self = total_length (dt_samples self) \<and> dt_total_bytes self \<le> 8 * m \<and>
     (\<forall>xs. suffix xs (filter (accepts m) ds) \<and> total_length xs \<le> 8 * m \<longrightarrow> suffix xs (dt_samples self))"

lemma add_sample_keeps:
  assumes "keeps_recent m ds self"
  shows "\<exists>self'. add_sample self d = (Ok self' :: ('e, _) outcome) \<and> keeps_recent m (ds @ [d]) self'"
proof (cases "accepts m d")
  case False
  with assms show ?thesis by (intro exI [of _ self]) (auto simp: keeps_recent_def add_sample_def accepts_def)
next
  case True
  let ?acc = "filter (accepts m) ds"
  have le: "length d \<le> m * 8" using True by (simp add: accepts_def)
  obtain kept where k: "evict (m * 8) (length d) (dt_samples self) (total_length (dt_samples self)) = (Ok (kept, total_length kept) :: ('e, _) outcome)"
    "suffix kept (dt_samples self)" "total_length kept + length d \<le> m * 8"
    "\<And>xs. suffix xs (dt_samples self) \<Longrightarrow> total_length xs + length d \<le> m * 8 \<Longrightarrow> suffix xs kept"
    using evict_ok [OF le] by blast
  let ?s = "self\<lparr>dt_samples := kept @ [d], dt_total_bytes := total_length kept + length d\<rparr>"
  have "add_sample self d = (Ok ?s :: ('e, _) outcome)"
    using assms True k(1) by (simp add: add_sample_def accepts_def keeps_recent_def)
  moreover have "suffix xs (kept @ [d])" if "suffix xs (?acc @ [d])" "total_length xs \<le> 8 * m" for xs
  proof (cases xs rule: rev_cases)
    case (snoc ys y)
    with that(1) have y: "suffix ys ?acc" "y = d" by (auto simp: suffix_def)
    with that(2) snoc have t: "total_length ys + length d \<le> m * 8" by simp
    with y assms have "suffix ys (dt_samples self)" by (auto simp: keeps_recent_def)
    with k(4) t snoc y show ?thesis by (auto simp: suffix_def)
  qed simp
  moreover have "suffix (kept @ [d]) (?acc @ [d])"
    using assms k(2) suffix_order.trans [of kept "dt_samples self" ?acc] by (auto simp: keeps_recent_def suffix_def)
  ultimately show ?thesis using assms True k(3) by (auto simp: keeps_recent_def)
qed

lemma add_samples_keep:
  "keeps_recent m ds self \<Longrightarrow> \<exists>self'. add_samples self es = (Ok self' :: ('e, _) outcome) \<and> keeps_recent m (ds @ es) self'"
proof (induction es arbitrary: ds self)
  case Nil
  then show ?case by simp
next
  case (Cons e es)
  obtain s1 where s1: "add_sample self e = (Ok s1 :: ('e, _) outcome)" "keeps_recent m (ds @ [e]) s1"
    using add_sample_keeps [OF Cons.prems] by blast
  from Cons.IH [OF s1(2)] s1(1) show ?case by simp
qed

lemma new_keeps: "keeps_recent (min m MAX_DISTANCE) [] (DictTrainer_new m)"
  by (simp add: keeps_recent_def DictTrainer_new_def)

section \<open>The loops of the selection\<close>

lemma FREQ_SIZE_eq: "FREQ_SIZE = 65536"
  by (simp add: FREQ_SIZE_def FREQ_BITS_def push_bit_eq_mult)

text \<open>Filling a list from the left.\<close>

lemma update_next: "a < n \<Longrightarrow> (map f [0..<a] @ replicate (n - a) z)[a := f a] = map f [0..<Suc a] @ replicate (n - Suc a) z"
  by (cases "n - a") (simp_all add: list_update_append Suc_diff_le)

definition dmer_hash :: "bytes \<Rightarrow> nat \<Rightarrow> nat" where
  "dmer_hash all i = (unat ((word_of_bytes (take 8 (drop i all)) :: 64 word) * 0x9E3779B97F4A7C15) AND FREQ_MASK) mod 2 ^ 32"

lemma dmer_hash_less: "dmer_hash all i < FREQ_SIZE"
proof -
  have "x AND FREQ_MASK < 65536" for x :: nat
  proof -
    have "FREQ_MASK = mask 16" by (simp add: FREQ_MASK_def FREQ_SIZE_eq mask_eq_exp_minus_1)
    then have "x AND FREQ_MASK = x mod 2 ^ 16" by (metis take_bit_eq_mask take_bit_eq_mod)
    then show ?thesis by simp
  qed
  then have "dmer_hash all i \<le> unat ((word_of_bytes (take 8 (drop i all)) :: 64 word) * 0x9E3779B97F4A7C15) AND FREQ_MASK"
    by (simp add: dmer_hash_def)
  also have "\<dots> < 65536" by fact
  finally show ?thesis by (simp add: FREQ_SIZE_eq)
qed

lemma hash_loop_from:
  assumes "n + D \<le> length all + 1"
  shows "a \<le> n \<Longrightarrow> hash_loop all [a..<n] (map (dmer_hash all) [0..<a] @ replicate (n - a) 0) =
    (Ok (map (dmer_hash all) [0..<n]) :: ('e, _) outcome)"
proof (induction "n - a" arbitrary: a)
  case 0
  then show ?case by simp
next
  case (Suc m)
  then have a: "a < n" "m = n - Suc a" "Suc a \<le> n" by simp_all
  have sub: "sub_slice all a (a + D) = (Ok (take 8 (drop a all)) :: ('e, _) outcome)"
    using assms a(1) by (simp add: sub_slice_def D_def)
  have dm: "hash_dmer (take 8 (drop a all)) =
      (Ok (unat ((word_of_bytes (take 8 (drop a all)) :: 64 word) * 0x9E3779B97F4A7C15)) :: ('e, _) outcome)"
    using assms a(1) by (simp add: hash_dmer_def sub_slice_def D_def)
  show ?case
    using Suc.hyps(1) [OF a(2,3)] a(1)
    by (simp only: upt_conv_Cons [OF a(1)] hash_loop.simps sub dm obind.simps dmer_hash_def [symmetric] update_next) simp
qed

lemma hash_loop_ok:
  "n + D \<le> length all + 1 \<Longrightarrow> hash_loop all [0..<n] (replicate n 0) = Ok (map (dmer_hash all) [0..<n])"
  using hash_loop_from [of n all 0] by simp

lemma count_loop_ok:
  assumes "\<And>i. i \<in> set is \<Longrightarrow> i < length hashes" "\<And>h. h \<in> set hashes \<Longrightarrow> h < length freqs"
    "\<And>h. h < length freqs \<Longrightarrow> freqs ! h + length is < 2 ^ 32"
  shows "\<exists>freqs'. count_loop hashes is freqs = (Ok freqs' :: ('e, _) outcome) \<and> length freqs' = length freqs \<and>
    (\<forall>h < length freqs. freqs' ! h = freqs ! h + length (filter (\<lambda>i. hashes ! i = h) is))"
  using assms
proof (induction "is" arbitrary: freqs)
  case Nil
  then show ?case by simp
next
  case (Cons i "is")
  let ?f = "freqs[hashes ! i := freqs ! (hashes ! i) + 1]"
  have i: "i < length hashes" "hashes ! i < length freqs" using Cons.prems(1,2) by simp_all
  have "?f ! h + length is < 2 ^ 32" if "h < length ?f" for h
    using Cons.prems(3) [of h] that i(2) by (simp add: nth_list_update)
  with Cons.IH [of ?f] Cons.prems(1,2) obtain freqs' where f: "count_loop hashes is ?f = (Ok freqs' :: ('e, _) outcome)"
    "length freqs' = length freqs" "\<And>h. h < length freqs \<Longrightarrow> freqs' ! h = ?f ! h + length (filter (\<lambda>i. hashes ! i = h) is)"
    by auto
  moreover have "freqs ! (hashes ! i) + 1 < 2 ^ 32" using Cons.prems(3) [OF i(2)] by simp
  ultimately have "count_loop hashes (i # is) freqs = (Ok freqs' :: ('e, _) outcome)" using i by (simp add: idx_get_def)
  with f(2,3) show ?case by (auto simp: nth_list_update)
qed

definition offsets_of :: "bytes list \<Rightarrow> nat list" where
  "offsets_of ss = map (\<lambda>j. length (concat (take j ss))) [0..<Suc (length ss)]"

lemma join_samples_eq:
  "join_samples ss all offsets = (all @ concat ss, offsets @ map (\<lambda>j. length all + length (concat (take j ss))) [0..<Suc (length ss)])"
proof (induction ss arbitrary: all offsets)
  case Nil
  then show ?case by simp
next
  case (Cons s ss)
  have "map (\<lambda>j. length all + length (concat (take j (s # ss)))) [0..<Suc (length (s # ss))] =
      length all # map (\<lambda>j. length (all @ s) + length (concat (take j ss))) [0..<Suc (length ss)]"
    by (simp add: upt_conv_Cons map_Suc_upt [symmetric] del: upt_Suc)
  with Cons.IH show ?case by (simp del: upt_Suc)
qed

lemma join_samples_ok: "join_samples ss [] [] = (concat ss, offsets_of ss)"
  by (simp add: join_samples_eq offsets_of_def del: upt_Suc)

lemma offsets_nth: "j \<le> length ss \<Longrightarrow> idx_get (offsets_of ss) j = Ok (length (concat (take j ss)))"
  by (simp add: offsets_of_def idx_get_def del: upt_Suc)

text \<open>How often the dmers of the samples have a hash; those across two samples do not count.\<close>

definition dmer_freq :: "bytes list \<Rightarrow> nat \<Rightarrow> nat" where
  "dmer_freq ss h =
     (\<Sum>s\<leftarrow>ss. if length s < D then 0 else length (filter (\<lambda>i. dmer_hash s i = h) [0..<length s - D + 1]))"

lemma dmer_freq_simps [simp]:
  "dmer_freq [] h = 0"
  "dmer_freq (s # ss) h =
     (if length s < D then 0 else length (filter (\<lambda>i. dmer_hash s i = h) [0..<length s - D + 1])) + dmer_freq ss h"
  by (simp_all add: dmer_freq_def del: upt_Suc)

lemma dmer_hash_inside: "i + D \<le> length s \<Longrightarrow> dmer_hash (xs @ s @ ys) (length xs + i) = dmer_hash s i"
  by (simp add: dmer_hash_def D_def)

lemma filter_upt_shift: "length (filter P [n..<n + m]) = length (filter (\<lambda>i. P (n + i)) [0..<m])"
proof -
  have "[n..<n + m] = map (\<lambda>i. n + i) [0..<m]" by (induction m) simp_all
  then show ?thesis by (simp add: filter_map o_def)
qed

lemma count_samples_ok:
  assumes hs: "hashes = map (dmer_hash (concat ss)) [0..<length (concat ss) - D + 1]" and "D \<le> length (concat ss)"
  shows "a \<le> length ss \<Longrightarrow> (\<And>h. h \<in> set hashes \<Longrightarrow> h < length freqs) \<Longrightarrow>
    (\<And>h. h < length freqs \<Longrightarrow> freqs ! h + total_length (drop a ss) < 2 ^ 32) \<Longrightarrow>
    \<exists>freqs'. count_samples (offsets_of ss) hashes [a..<length ss] freqs = (Ok freqs' :: ('e, _) outcome) \<and>
      length freqs' = length freqs \<and> (\<forall>h < length freqs. freqs' ! h < 2 ^ 32 \<and> freqs' ! h = freqs ! h + dmer_freq (drop a ss) h)"
proof (induction "length ss - a" arbitrary: a freqs)
  case 0
  then show ?case by auto
next
  case (Suc m)
  from Suc.hyps(2) have a: "a < length ss" "m = length ss - Suc a" "Suc a \<le> length ss" by simp_all
  define st where "st = length (concat (take a ss))"
  define s where "s = ss ! a"
  have fin: "length (concat (take (Suc a) ss)) = st + length s" by (simp add: st_def s_def take_Suc_conv_app_nth [OF a(1)])
  have tot: "total_length (drop a ss) = length s + total_length (drop (Suc a) ss)"
    by (simp add: s_def drop_nth_Cons [OF a(1)])
  have fr: "dmer_freq (drop a ss) h = (if length s < D then 0 else length (filter (\<lambda>i. dmer_hash s i = h) [0..<length s - D + 1])) +
      dmer_freq (drop (Suc a) ss) h" for h
    by (simp add: s_def drop_nth_Cons [OF a(1)] del: upt_Suc)
  have parts: "concat ss = concat (take a ss) @ s @ concat (drop (Suc a) ss)"
    using arg_cong [where f = concat, OF id_take_nth_drop [OF a(1)]] by (simp add: s_def)
  have "concat ss = concat (take (Suc a) ss) @ concat (drop (Suc a) ss)"
    by (simp flip: concat_append)
  then have le: "st + length s \<le> length (concat ss)" by (metis fin le_add1 length_append)
  note off = offsets_nth [OF less_imp_le [OF a(1)], folded st_def] offsets_nth [OF a(3), unfolded fin]
  have us: "usub (st + length s) st = (Ok (length s) :: ('e, nat) outcome)" by (simp add: usub_def)
  show ?case
  proof (cases "length s < D")
    case True
    have "freqs ! h + total_length (drop (Suc a) ss) < 2 ^ 32" if "h < length freqs" for h
      using Suc.prems(3) [OF that] by (simp only: tot)
    from Suc.hyps(1) [OF a(2,3) Suc.prems(2) this] show ?thesis
      by (simp add: upt_conv_Cons [OF a(1)] off us fr True del: upt_Suc)
  next
    case False
    let ?is = "[st..<st + length s - D + 1]"
    have i: "i < length hashes" if "i \<in> set ?is" for i using that le assms False by auto
    have ie: "?is = [st..<st + (length s - D + 1)]" using False by simp
    have "hashes ! (st + i) = dmer_hash s i" if "i < length s - D + 1" for i
      using that le False dmer_hash_inside [of i s "concat (take a ss)" "concat (drop (Suc a) ss)"]
      by (simp add: hs st_def [symmetric] parts [symmetric] del: upt_Suc)
    then have cnt: "length (filter (\<lambda>i. hashes ! i = h) ?is) = length (filter (\<lambda>i. dmer_hash s i = h) [0..<length s - D + 1])" for h
      unfolding ie filter_upt_shift by (intro arg_cong [where f = length] filter_cong) auto
    have l: "length ?is \<le> length s" using False by (auto simp: D_def)
    have f: "freqs ! h + length ?is < 2 ^ 32" if "h < length freqs" for h
      using Suc.prems(3) [OF that] l unfolding tot by linarith
    obtain freqs1 where c: "count_loop hashes ?is freqs = (Ok freqs1 :: ('e, _) outcome)" "length freqs1 = length freqs"
      "\<And>h. h < length freqs \<Longrightarrow> freqs1 ! h = freqs ! h + length (filter (\<lambda>i. hashes ! i = h) ?is)"
      using count_loop_ok [of ?is hashes freqs, OF i Suc.prems(2) f] by blast
    have "freqs1 ! h + total_length (drop (Suc a) ss) < 2 ^ 32" if "h < length freqs1" for h
      using Suc.prems(3) [of h] c(3) [of h] that c(2) l length_filter_le [of "\<lambda>i. hashes ! i = h" ?is] unfolding tot by linarith
    from Suc.hyps(1) [OF a(2,3) _ this] Suc.prems(2) c(2) obtain freqs2 where f2:
      "count_samples (offsets_of ss) hashes [Suc a..<length ss] freqs1 = (Ok freqs2 :: ('e, _) outcome)" "length freqs2 = length freqs"
      "\<And>h. h < length freqs \<Longrightarrow> freqs2 ! h < 2 ^ 32 \<and> freqs2 ! h = freqs1 ! h + dmer_freq (drop (Suc a) ss) h" by auto
    have "freqs2 ! h < 2 ^ 32 \<and> freqs2 ! h = freqs ! h + dmer_freq (drop a ss) h" if "h < length freqs" for h
    proof -
      have "freqs1 ! h + dmer_freq (drop (Suc a) ss) h = freqs ! h + dmer_freq (drop a ss) h"
        using c(3) [OF that] by (simp only: cnt fr False if_False add.assoc)
      from f2(3) [OF that, unfolded this] show ?thesis .
    qed
    moreover have "usub (st + length s) D = (Ok (st + length s - D) :: ('e, nat) outcome)" using False by (simp add: usub_def)
    then have "count_samples (offsets_of ss) hashes [a..<length ss] freqs = (Ok freqs2 :: ('e, _) outcome)"
      using c(1) f2(1) False by (simp add: upt_conv_Cons [OF a(1)] off us del: upt_Suc)
    ultimately show ?thesis using f2(2) by blast
  qed
qed

text \<open>The sum of the frequencies of the dmers before a position, and of a segment.\<close>

definition freq_sum :: "nat list \<Rightarrow> nat list \<Rightarrow> nat \<Rightarrow> nat" where
  "freq_sum hashes freqs i = sum_list (map (\<lambda>j. freqs ! (hashes ! j)) [0..<i])"

definition segment_score :: "nat list \<Rightarrow> nat list \<Rightarrow> nat \<Rightarrow> nat \<Rightarrow> nat" where
  "segment_score hashes freqs seg p = sum_list (map (\<lambda>j. freqs ! (hashes ! j)) [p..<p + seg])"

lemma freq_sum_add: "freq_sum hashes freqs (p + seg) = freq_sum hashes freqs p + segment_score hashes freqs seg p"
  by (simp add: freq_sum_def segment_score_def upt_add_eq_append [of 0 p seg])

lemma freq_sum_mono: "i \<le> j \<Longrightarrow> freq_sum hashes freqs i \<le> freq_sum hashes freqs j"
  using freq_sum_add [of hashes freqs i "j - i"] by simp

lemma freq_sum_bound:
  assumes "\<And>h. h < length freqs \<Longrightarrow> freqs ! h < b" "\<And>j. j < i \<Longrightarrow> hashes ! j < length freqs"
  shows "freq_sum hashes freqs i \<le> i * b"
  using assms(2)
proof (induction i)
  case 0
  then show ?case by (simp add: freq_sum_def)
next
  case (Suc i)
  have "freqs ! (hashes ! i) \<le> b" using assms(1) [OF Suc.prems [of i]] by simp
  moreover have "freq_sum hashes freqs (Suc i) = freq_sum hashes freqs i + freqs ! (hashes ! i)" by (simp add: freq_sum_def)
  moreover have "freq_sum hashes freqs i \<le> i * b" using Suc by simp
  ultimately show ?case by simp
qed

lemma prefix_loop_from:
  assumes "\<And>h. h \<in> set hashes \<Longrightarrow> h < length freqs" "freq_sum hashes freqs (length hashes) < 2 ^ 64"
  shows "a \<le> length hashes \<Longrightarrow>
    prefix_loop hashes freqs [a..<length hashes] (map (freq_sum hashes freqs) [0..<Suc a] @ replicate (length hashes - a) 0) =
      (Ok (map (freq_sum hashes freqs) [0..<Suc (length hashes)]) :: ('e, _) outcome)"
proof (induction "length hashes - a" arbitrary: a)
  case 0
  then show ?case by simp
next
  case (Suc m)
  from Suc.hyps(2) have a: "a < length hashes" "m = length hashes - Suc a" "Suc a \<le> length hashes" by simp_all
  let ?P = "freq_sum hashes freqs"
  let ?pre = "map ?P [0..<Suc a] @ replicate (length hashes - a) 0"
  have h: "idx_get hashes a = (Ok (hashes ! a) :: ('e, nat) outcome)" "idx_get freqs (hashes ! a) = (Ok (freqs ! (hashes ! a)) :: ('e, nat) outcome)"
    "idx_get ?pre a = (Ok (?P a) :: ('e, nat) outcome)"
    using a(1) assms(1) by (simp_all add: idx_get_def nth_append del: upt_Suc)
  have s: "?P a + freqs ! (hashes ! a) = ?P (a + 1)" by (simp add: freq_sum_def)
  then have lt: "?P a + freqs ! (hashes ! a) < 2 ^ 64 \<and> a + 1 < length ?pre"
    using freq_sum_mono [of "Suc a" "length hashes" hashes freqs] assms(2) a by simp
  have "?pre[a + 1 := ?P (a + 1)] = map ?P [0..<Suc (Suc a)] @ replicate (length hashes - Suc a) 0"
    using update_next [of "Suc a" "Suc (length hashes)" ?P 0] a(1) by simp
  with Suc.hyps(1) [OF a(2,3)] show ?case
    by (simp only: upt_conv_Cons [OF a(1)] prefix_loop.simps h obind.simps s if_P [OF lt [unfolded s]])
qed

lemma prefix_loop_ok:
  assumes "\<And>h. h \<in> set hashes \<Longrightarrow> h < length freqs" "freq_sum hashes freqs (length hashes) < 2 ^ 64"
  shows "prefix_loop hashes freqs [0..<length hashes] (replicate (length hashes + 1) 0) =
      (Ok (map (freq_sum hashes freqs) [0..<Suc (length hashes)]) :: ('e, _) outcome)"
proof -
  have "replicate (length hashes + 1) 0 = map (freq_sum hashes freqs) [0..<Suc 0] @ replicate (length hashes - 0) 0"
    by (simp add: freq_sum_def)
  with prefix_loop_from [OF assms, of 0] show ?thesis by (simp only:) simp
qed

lemma best_loop_ok:
  assumes "\<And>p. p \<in> set ps \<Longrightarrow> p < length used \<and> p + seg \<le> n"
  shows "\<exists>b. best_loop used (map (freq_sum hashes freqs) [0..<Suc n]) seg ps best = (Ok b :: ('e, _) outcome) \<and>
    (\<forall>p \<in> set ps. \<not> used ! p \<longrightarrow> segment_score hashes freqs seg p \<le> snd b) \<and> snd best \<le> snd b \<and>
    (b = best \<or> snd best < snd b \<and> (\<exists>pre post. ps = pre @ fst b # post \<and>
      (\<forall>p \<in> set pre. \<not> used ! p \<longrightarrow> segment_score hashes freqs seg p < snd b)) \<and>
      \<not> used ! fst b \<and> snd b = segment_score hashes freqs seg (fst b))"
  using assms
proof (induction ps arbitrary: best)
  case Nil
  then show ?case by simp
next
  case (Cons p ps)
  let ?pre = "map (freq_sum hashes freqs) [0..<Suc n]" and ?sc = "segment_score hashes freqs seg"
  have p: "p < length used" "p + seg \<le> n" using Cons.prems [of p] by simp_all
  have u: "idx_get used p = (Ok (used ! p) :: ('e, bool) outcome)" using p by (simp add: idx_get_def)
  show ?case
  proof (cases "used ! p")
    case True
    have eq: "best_loop used ?pre seg (p # ps) best = (best_loop used ?pre seg ps best :: ('e, _) outcome)" using u True by simp
    have prem: "q < length used \<and> q + seg \<le> n" if "q \<in> set ps" for q using Cons.prems [of q] that by simp
    obtain b where B: "best_loop used ?pre seg ps best = (Ok b :: ('e, _) outcome)"
      "\<forall>p \<in> set ps. \<not> used ! p \<longrightarrow> ?sc p \<le> snd b" "snd best \<le> snd b"
      "b = best \<or> snd best < snd b \<and> (\<exists>pre post. ps = pre @ fst b # post \<and> (\<forall>p \<in> set pre. \<not> used ! p \<longrightarrow> ?sc p < snd b)) \<and>
        \<not> used ! fst b \<and> snd b = ?sc (fst b)"
      using Cons.IH [of best, OF prem] by blast
    have "b = best \<or> snd best < snd b \<and> (\<exists>pre post. p # ps = pre @ fst b # post \<and> (\<forall>p \<in> set pre. \<not> used ! p \<longrightarrow> ?sc p < snd b)) \<and>
        \<not> used ! fst b \<and> snd b = ?sc (fst b)"
    proof (cases "b = best")
      case b: False
      with B(4) obtain pre post where "snd best < snd b" "ps = pre @ fst b # post" "\<forall>p \<in> set pre. \<not> used ! p \<longrightarrow> ?sc p < snd b"
        "\<not> used ! fst b" "snd b = ?sc (fst b)" by blast
      with True show ?thesis by (intro disjI2 conjI exI [of _ "p # pre"] exI [of _ post]) auto
    qed simp
    with B(1-3) True show ?thesis by (intro exI [of _ b]) (simp add: eq del: best_loop.simps upt_Suc)
  next
    case False
    let ?best = "if snd best < ?sc p then (p, ?sc p) else best"
    have P: "idx_get ?pre (p + seg) = (Ok (freq_sum hashes freqs p + ?sc p) :: ('e, nat) outcome)"
      "idx_get ?pre p = (Ok (freq_sum hashes freqs p) :: ('e, nat) outcome)"
      using p by (simp_all add: idx_get_def freq_sum_add [symmetric] del: upt_Suc)
    have eq: "best_loop used ?pre seg (p # ps) best = (best_loop used ?pre seg ps ?best :: ('e, _) outcome)"
      using False by (simp add: u P usub_def del: upt_Suc)
    have prem: "q < length used \<and> q + seg \<le> n" if "q \<in> set ps" for q using Cons.prems [of q] that by simp
    obtain b where B: "best_loop used ?pre seg ps ?best = (Ok b :: ('e, _) outcome)"
      "\<forall>p \<in> set ps. \<not> used ! p \<longrightarrow> ?sc p \<le> snd b" "snd ?best \<le> snd b"
      "b = ?best \<or> snd ?best < snd b \<and> (\<exists>pre post. ps = pre @ fst b # post \<and> (\<forall>p \<in> set pre. \<not> used ! p \<longrightarrow> ?sc p < snd b)) \<and>
        \<not> used ! fst b \<and> snd b = ?sc (fst b)"
      using Cons.IH [of ?best, OF prem] by blast
    have le: "?sc p \<le> snd b" "snd best \<le> snd b" using B(3) by (auto split: if_splits)
    have "b = best \<or> snd best < snd b \<and> (\<exists>pre post. p # ps = pre @ fst b # post \<and> (\<forall>p \<in> set pre. \<not> used ! p \<longrightarrow> ?sc p < snd b)) \<and>
        \<not> used ! fst b \<and> snd b = ?sc (fst b)"
    proof (cases "b = ?best")
      case True
      show ?thesis
      proof (cases "snd best < ?sc p")
        case better: True
        with True have b: "fst b = p" "snd b = ?sc p" by simp_all
        show ?thesis unfolding b using better False by (intro disjI2 conjI exI [of _ "[]"] exI [of _ ps]) simp_all
      qed (use True in simp)
    next
      case b: False
      with B(4) obtain pre post where pp: "snd ?best < snd b" "ps = pre @ fst b # post" "\<forall>p \<in> set pre. \<not> used ! p \<longrightarrow> ?sc p < snd b"
        "\<not> used ! fst b" "snd b = ?sc (fst b)" by blast
      have "?sc p < snd b" "snd best < snd b" using pp(1) by (auto split: if_splits)
      with pp(2-5) show ?thesis by (intro disjI2 conjI exI [of _ "p # pre"] exI [of _ post]) auto
    qed
    with B(1,2) le show ?thesis by (intro exI [of _ b]) (simp add: eq del: best_loop.simps upt_Suc)
  qed
qed

text \<open>Over all positions the loop finds the first of the best.\<close>

lemma best_loop_first:
  assumes "\<And>p. p < m \<Longrightarrow> p < length used \<and> p + seg \<le> n"
  obtains bp bs where "best_loop used (map (freq_sum hashes freqs) [0..<Suc n]) seg [0..<m] (0, 0) = (Ok (bp, bs) :: ('e, _) outcome)"
    "\<And>q. q < m \<Longrightarrow> \<not> used ! q \<Longrightarrow> segment_score hashes freqs seg q \<le> bs"
    "bs \<noteq> 0 \<Longrightarrow> bp < m \<and> \<not> used ! bp \<and> bs = segment_score hashes freqs seg bp \<and>
      (\<forall>q < bp. \<not> used ! q \<longrightarrow> segment_score hashes freqs seg q < bs)"
proof -
  let ?sc = "segment_score hashes freqs seg"
  have "\<exists>b. best_loop used (map (freq_sum hashes freqs) [0..<Suc n]) seg [0..<m] (0, 0) = (Ok b :: ('e, _) outcome) \<and>
    (\<forall>p \<in> set [0..<m]. \<not> used ! p \<longrightarrow> ?sc p \<le> snd b) \<and> snd (0 :: nat, 0) \<le> snd b \<and>
    (b = (0, 0) \<or> snd (0 :: nat, 0) < snd b \<and> (\<exists>pre post. [0..<m] = pre @ fst b # post \<and> (\<forall>p \<in> set pre. \<not> used ! p \<longrightarrow> ?sc p < snd b)) \<and>
      \<not> used ! fst b \<and> snd b = ?sc (fst b))"
    using assms by (intro best_loop_ok) auto
  then obtain b where B: "best_loop used (map (freq_sum hashes freqs) [0..<Suc n]) seg [0..<m] (0, 0) = (Ok b :: ('e, _) outcome)"
    "\<forall>p \<in> set [0..<m]. \<not> used ! p \<longrightarrow> ?sc p \<le> snd b"
    "b = (0, 0) \<or> snd (0 :: nat, 0) < snd b \<and> (\<exists>pre post. [0..<m] = pre @ fst b # post \<and> (\<forall>p \<in> set pre. \<not> used ! p \<longrightarrow> ?sc p < snd b)) \<and>
      \<not> used ! fst b \<and> snd b = ?sc (fst b)"
    by (elim exE conjE) (rule that)
  obtain bp bs where "b = (bp, bs)" by (cases b)
  note b = B [unfolded this fst_conv snd_conv prod.inject]
  have "bp < m \<and> (\<forall>q < bp. \<not> used ! q \<longrightarrow> ?sc q < bs)"
    if "[0..<m] = pre @ bp # post" "\<forall>p \<in> set pre. \<not> used ! p \<longrightarrow> ?sc p < bs" for pre post
  proof -
    have l: "length pre < m" using arg_cong [where f = length, OF that(1)] by simp
    note eq = that(1)
    have nth: "(pre @ bp # post) ! q = q" if "q < m" for q unfolding eq [symmetric] using that by simp
    have "bp = length pre" using nth [OF l] by simp
    moreover have "q \<in> set pre" if "q < length pre" for q
      using nth [of q] that l by (simp add: nth_append) (metis nth_mem)
    ultimately show ?thesis using l that(2) by auto
  qed
  with b(2,3) show thesis by (intro that [OF b(1)]) auto
qed

lemma zero_loop_ok:
  assumes "\<And>i. i \<in> set is \<Longrightarrow> i < length hashes" "\<And>h. h \<in> set hashes \<Longrightarrow> h < length freqs"
  shows "\<exists>freqs'. zero_loop hashes is freqs = (Ok freqs' :: ('e, _) outcome) \<and> length freqs' = length freqs \<and>
    (\<forall>h < length freqs. freqs' ! h = (if h \<in> (!) hashes ` set is then 0 else freqs ! h))"
  using assms
proof (induction "is" arbitrary: freqs)
  case Nil
  then show ?case by simp
next
  case (Cons i "is")
  have i: "i < length hashes" "hashes ! i < length freqs" using Cons.prems by simp_all
  let ?f = "freqs[hashes ! i := 0]"
  from Cons.IH [of ?f] Cons.prems obtain freqs' where f: "zero_loop hashes is ?f = (Ok freqs' :: ('e, _) outcome)"
    "length freqs' = length freqs" "\<forall>h < length freqs. freqs' ! h = (if h \<in> (!) hashes ` set is then 0 else ?f ! h)"
    by auto
  with i have "zero_loop hashes (i # is) freqs = (Ok freqs' :: ('e, _) outcome)" by (simp add: idx_get_def)
  with f(2,3) i(2) show ?case by (intro exI [of _ freqs']) (auto simp: nth_list_update)
qed

section \<open>The selection\<close>

text \<open>
  The selection by its rules.  The positions \<open>ps\<close> have been chosen already: they cover \<open>k\<close> bytes
  each, and the hashes of their \<open>seg\<close> dmers no longer count.  The next choice is the first of the
  positions not covered that have the highest score, if it is not zero.
\<close>

definition covered :: "nat \<Rightarrow> nat list \<Rightarrow> nat \<Rightarrow> bool" where
  "covered k ps p \<longleftrightarrow> (\<exists>q \<in> set ps. q \<le> p \<and> p < q + k)"

definition left_freq :: "nat list \<Rightarrow> (nat \<Rightarrow> nat) \<Rightarrow> nat \<Rightarrow> nat list \<Rightarrow> nat \<Rightarrow> nat" where
  "left_freq hashes freq seg ps h = (if \<exists>q \<in> set ps. h \<in> (!) hashes ` set [q..<q + seg] then 0 else freq h)"

definition left_score :: "nat list \<Rightarrow> (nat \<Rightarrow> nat) \<Rightarrow> nat \<Rightarrow> nat list \<Rightarrow> nat \<Rightarrow> nat" where
  "left_score hashes freq seg ps p = (\<Sum>i\<leftarrow>[p..<p + seg]. left_freq hashes freq seg ps (hashes ! i))"

definition first_best :: "nat \<Rightarrow> nat \<Rightarrow> nat list \<Rightarrow> (nat \<Rightarrow> nat) \<Rightarrow> nat \<Rightarrow> nat list \<Rightarrow> nat \<Rightarrow> nat \<Rightarrow> bool" where
  "first_best last_pos k hashes freq seg ps p score \<longleftrightarrow>
     p \<le> last_pos \<and> \<not> covered k ps p \<and> score = left_score hashes freq seg ps p \<and> 0 < score \<and>
     (\<forall>q \<le> last_pos. \<not> covered k ps q \<longrightarrow> left_score hashes freq seg ps q \<le> score \<and>
       (q < p \<longrightarrow> left_score hashes freq seg ps q < score))"

fun greedy :: "nat \<Rightarrow> nat \<Rightarrow> nat list \<Rightarrow> (nat \<Rightarrow> nat) \<Rightarrow> nat \<Rightarrow> nat list \<Rightarrow> (nat \<times> nat) list \<Rightarrow> bool" where
  "greedy last_pos k hashes freq seg ps [] \<longleftrightarrow> True"
| "greedy last_pos k hashes freq seg ps ((p, score) # segments) \<longleftrightarrow>
     first_best last_pos k hashes freq seg ps p score \<and> greedy last_pos k hashes freq seg (ps @ [p]) segments"

text \<open>The selection goes on until there is enough, or nothing left that counts.\<close>

definition exhausted :: "nat \<Rightarrow> nat \<Rightarrow> nat list \<Rightarrow> (nat \<Rightarrow> nat) \<Rightarrow> nat \<Rightarrow> nat list \<Rightarrow> bool" where
  "exhausted last_pos k hashes freq seg ps \<longleftrightarrow>
     (\<forall>q \<le> last_pos. \<not> covered k ps q \<longrightarrow> left_score hashes freq seg ps q = 0)"

lemma covered_snoc: "covered k (ps @ [p]) q \<longleftrightarrow> covered k ps q \<or> p \<le> q \<and> q < p + k"
  by (auto simp: covered_def)

lemma left_freq_snoc:
  "left_freq hashes freq seg (ps @ [p]) h = (if h \<in> (!) hashes ` set [p..<p + seg] then 0 else left_freq hashes freq seg ps h)"
  by (auto simp: left_freq_def)

lemma greedy_in_range: "greedy last_pos k hashes freq seg ps segments \<Longrightarrow> p \<in> fst ` set segments \<Longrightarrow> p \<le> last_pos"
  by (induction last_pos k hashes freq seg ps segments rule: greedy.induct) (auto simp: first_best_def)

lemma select_loop_greedy:
  assumes h: "\<And>h. h \<in> set hashes \<Longrightarrow> h < FREQ_SIZE" "length hashes < 2 ^ 32" "\<And>h. h < FREQ_SIZE \<Longrightarrow> freq h < 2 ^ 32"
    and k: "D \<le> k" "k \<le> length all" "length hashes = length all - D + 1" "seg = k - D + 1"
  shows "length freqs = FREQ_SIZE \<Longrightarrow> (\<And>h. h < FREQ_SIZE \<Longrightarrow> freqs ! h = left_freq hashes freq seg (map fst segments) h) \<Longrightarrow>
    length used = length all \<Longrightarrow> (\<And>q. q < length all \<Longrightarrow> used ! q = covered k (map fst segments) q) \<Longrightarrow>
    collected = length segments * k \<Longrightarrow> dict_size - collected < fuel \<Longrightarrow>
    \<exists>more. select_loop fuel all hashes dict_size k seg freqs used segments collected = (Ok (segments @ more) :: ('e, _) outcome) \<and>
      greedy (length all - k) k hashes freq seg (map fst segments) more \<and>
      (dict_size \<le> length (segments @ more) * k \<or> exhausted (length all - k) k hashes freq seg (map fst (segments @ more))) \<and>
      (more \<noteq> [] \<longrightarrow> (length (segments @ more) - 1) * k < dict_size)"
proof (induction fuel arbitrary: freqs used segments collected)
  case 0
  then show ?case by simp
next
  case (Suc fuel)
  let ?done = "map fst segments" and ?last = "length all - k"
  show ?case
  proof (cases "collected < dict_size")
    case False
    with Suc.prems(5) show ?thesis by (intro exI [of _ "[]"]) simp
  next
    case True
    let ?pre = "map (freq_sum hashes freqs) [0..<Suc (length hashes)]"
    have hl: "h < length freqs" if "h \<in> set hashes" for h using h(1) [OF that] Suc.prems(1) by simp
    have fb: "freqs ! h < 2 ^ 32" if "h < length freqs" for h
      using Suc.prems(1,2) h(3) [of h] that by (simp add: left_freq_def)
    have "freq_sum hashes freqs (length hashes) \<le> length hashes * 2 ^ 32"
      using fb hl by (intro freq_sum_bound) auto
    also have "\<dots> < 2 ^ 64" using h(2) by simp
    finally have sum: "freq_sum hashes freqs (length hashes) < 2 ^ 64" .
    have pre: "prefix_loop hashes freqs [0..<length hashes] (replicate (length hashes + 1) 0) = (Ok ?pre :: ('e, _) outcome)"
      by (rule prefix_loop_ok [OF hl sum])
    have us: "usub (length all) k = (Ok ?last :: ('e, nat) outcome)" using k(2) by (simp add: usub_def)
    have ps: "p < length used \<and> p + seg \<le> length hashes" if "p < ?last + 1" for p
      using that k Suc.prems(3) by (auto simp: D_def)
    have score: "segment_score hashes freqs seg p = left_score hashes freq seg ?done p" if "p \<le> ?last" for p
      unfolding segment_score_def left_score_def using Suc.prems(2) h(1) ps [of p] that
      by (intro arg_cong [where f = sum_list] map_cong) auto
    have cov: "used ! q = covered k ?done q" if "q \<le> ?last" for q
      using Suc.prems(3,4) ps [of q] that by simp
    obtain bp bs where b: "best_loop used ?pre seg [0..<?last + 1] (0, 0) = (Ok (bp, bs) :: ('e, _) outcome)"
      "\<And>q. q < ?last + 1 \<Longrightarrow> \<not> used ! q \<Longrightarrow> segment_score hashes freqs seg q \<le> bs"
      "bs \<noteq> 0 \<Longrightarrow> bp < ?last + 1 \<and> \<not> used ! bp \<and> bs = segment_score hashes freqs seg bp \<and>
        (\<forall>q < bp. \<not> used ! q \<longrightarrow> segment_score hashes freqs seg q < bs)"
      by (rule best_loop_first [OF ps]) blast+
    show ?thesis
    proof (cases "bs = 0")
      case bs: True
      have "select_loop (Suc fuel) all hashes dict_size k seg freqs used segments collected = (Ok segments :: ('e, _) outcome)"
        unfolding select_loop.simps if_P [OF True] pre us obind.simps b(1) prod.case if_P [OF bs] ..
      moreover have "exhausted ?last k hashes freq seg ?done"
        using b(2) cov score bs by (simp add: exhausted_def less_Suc_eq_le)
      ultimately show ?thesis by (intro exI [of _ "[]"]) simp
    next
      case bs: False
      note best = b(3) [OF bs]
      then have bp: "bp \<le> ?last" by simp
      have first: "first_best ?last k hashes freq seg ?done bp bs"
      proof -
        have "left_score hashes freq seg ?done q < bs" if "q < bp" "\<not> covered k ?done q" for q
          using conjunct2 [OF conjunct2 [OF conjunct2 [OF best]], rule_format, of q] that bp cov [of q] score [of q] by simp
        then show ?thesis using best b(2) bs bp cov score by (simp add: first_best_def less_Suc_eq_le)
      qed
      let ?is = "[bp..<bp + seg]" and ?used = "blit used bp (replicate k True)" and ?segs = "segments @ [(bp, bs)]"
      have "i < length hashes" if "i \<in> set ?is" for i using that bp k by (auto simp: D_def)
      with zero_loop_ok [of ?is hashes freqs, OF _ hl] obtain freqs' where z:
        "zero_loop hashes ?is freqs = (Ok freqs' :: ('e, _) outcome)" "length freqs' = length freqs"
        "\<forall>h < length freqs. freqs' ! h = (if h \<in> (!) hashes ` set ?is then 0 else freqs ! h)" by auto
      have c: "copy_into used bp (bp + k) (replicate k True) = (Ok ?used :: ('e, _) outcome)"
        using bp k(2) Suc.prems(3) by (simp add: copy_into_def)
      have "freqs' ! h = left_freq hashes freq seg (map fst ?segs) h" if "h < FREQ_SIZE" for h
        using z(3) that Suc.prems(1,2) by (simp add: left_freq_snoc)
      moreover have "?used ! q = covered k (map fst ?segs) q" if "q < length all" for q
        using that Suc.prems(3,4) bp k(2) by (simp add: covered_snoc blit_def nth_append nth_take min_def) auto
      moreover have "length ?used = length all" using bp k(2) Suc.prems(3) by simp
      moreover have "dict_size - (collected + k) < fuel" using Suc.prems(6) k(1) True by (simp add: D_def)
      moreover have "length freqs' = FREQ_SIZE" using z(2) Suc.prems(1) by simp
      moreover have "collected + k = length ?segs * k" using Suc.prems(5) by simp
      ultimately obtain more where IH: "select_loop fuel all hashes dict_size k seg freqs' ?used ?segs (collected + k) =
          (Ok (?segs @ more) :: ('e, _) outcome)" "greedy ?last k hashes freq seg (map fst ?segs) more"
        "dict_size \<le> length (?segs @ more) * k \<or> exhausted ?last k hashes freq seg (map fst (?segs @ more))"
        "more \<noteq> [] \<longrightarrow> (length (?segs @ more) - 1) * k < dict_size"
        using Suc.IH [of freqs' ?segs ?used "collected + k"] by blast
      have "select_loop (Suc fuel) all hashes dict_size k seg freqs used segments collected =
          (select_loop fuel all hashes dict_size k seg freqs' ?used ?segs (collected + k) :: ('e, _) outcome)"
        unfolding select_loop.simps if_P [OF True] pre us obind.simps b(1) prod.case if_not_P [OF bs] z(1) c ..
      moreover have "(length (segments @ (bp, bs) # more) - 1) * k < dict_size"
        using IH(4) True Suc.prems(5) by (cases "more = []") simp_all
      ultimately show ?thesis using IH(1-3) first by (intro exI [of _ "(bp, bs) # more"]) simp
    qed
  qed
qed

text \<open>The segments in a row, cut to the size asked for.\<close>

definition segment_bytes :: "bytes \<Rightarrow> nat \<Rightarrow> (nat \<times> nat) list \<Rightarrow> bytes" where
  "segment_bytes all k segments = concat (map (\<lambda>(p, _). take k (drop p all)) segments)"

lemma emit_loop_ok:
  assumes "\<And>p. p \<in> fst ` set segments \<Longrightarrow> p + k \<le> length all"
  shows "\<exists>r. emit_loop all k dict_size segments dict = (Ok r :: ('e, _) outcome) \<and>
    take dict_size r = take dict_size (dict @ segment_bytes all k segments)"
  using assms
proof (induction segments arbitrary: dict)
  case Nil
  then show ?case by (simp add: segment_bytes_def)
next
  case (Cons seg segments)
  obtain p sc where seg: "seg = (p, sc)" by fastforce
  have "p + k \<le> length all" using Cons.prems [of p] seg by simp
  then have b: "sub_slice all p (min (p + k) (length all)) = (Ok (take k (drop p all)) :: ('e, bytes) outcome)"
    by (simp add: sub_slice_def)
  let ?dict = "dict @ take k (drop p all)"
  have all: "dict @ segment_bytes all k (seg # segments) = ?dict @ segment_bytes all k segments"
    by (simp add: segment_bytes_def seg)
  show ?case
  proof (cases "dict_size \<le> length ?dict")
    case True
    then have "emit_loop all k dict_size (seg # segments) dict = (Ok ?dict :: ('e, _) outcome)"
      by (simp only: seg emit_loop.simps b obind.simps Let_def if_True)
    moreover have "take dict_size ?dict = take dict_size (?dict @ segment_bytes all k segments)"
      using True by (simp only: take_append) simp
    ultimately show ?thesis unfolding all by blast
  next
    case False
    then have "emit_loop all k dict_size (seg # segments) dict = (emit_loop all k dict_size segments ?dict :: ('e, _) outcome)"
      by (simp only: seg emit_loop.simps b obind.simps Let_def if_False)
    with Cons.IH [of ?dict] Cons.prems show ?thesis unfolding all by auto
  qed
qed

text \<open>The hashes and the frequencies of the dmers of the samples.\<close>

lemma count_phase:
  assumes "D \<le> length (concat ss)" "total_length ss < 2 ^ 32"
  obtains hashes freqs where
    "hash_loop (concat ss) [0..<length (concat ss) - D + 1] (replicate (length (concat ss) - D + 1) 0) = (Ok hashes :: ('e, _) outcome)"
    "count_samples (offsets_of ss) hashes [0..<length ss] (replicate FREQ_SIZE 0) = (Ok freqs :: ('e, _) outcome)"
    "hashes = map (dmer_hash (concat ss)) [0..<length (concat ss) - D + 1]" "\<And>h. h \<in> set hashes \<Longrightarrow> h < FREQ_SIZE"
    "length freqs = FREQ_SIZE" "\<And>h. h < FREQ_SIZE \<Longrightarrow> freqs ! h < 2 ^ 32 \<and> freqs ! h = dmer_freq ss h"
proof -
  let ?n = "length (concat ss) - D + 1"
  define hashes where "hashes = map (dmer_hash (concat ss)) [0..<?n]"
  have h: "\<And>h. h \<in> set hashes \<Longrightarrow> h < FREQ_SIZE" using dmer_hash_less by (auto simp: hashes_def)
  have "\<exists>freqs. count_samples (offsets_of ss) hashes [0..<length ss] (replicate FREQ_SIZE 0) = (Ok freqs :: ('e, _) outcome) \<and>
      length freqs = length (replicate FREQ_SIZE (0 :: nat)) \<and>
      (\<forall>h < length (replicate FREQ_SIZE (0 :: nat)). freqs ! h < 2 ^ 32 \<and>
        freqs ! h = replicate FREQ_SIZE 0 ! h + dmer_freq (drop 0 ss) h)"
    using assms h by (intro count_samples_ok [OF hashes_def]) simp_all
  moreover have "hash_loop (concat ss) [0..<?n] (replicate ?n 0) = (Ok hashes :: ('e, _) outcome)"
    unfolding hashes_def using assms(1) by (intro hash_loop_ok) simp
  ultimately show thesis using that [OF _ _ hashes_def h] by (auto simp del: upt_Suc)
qed

text \<open>The two ends without a selection.\<close>

lemma cover_select_short:
  "length (concat ss) < D \<Longrightarrow> cover_select ss dict_size = Ok (take dict_size (concat ss))"
  by (simp add: cover_select_def join_samples_ok min_def)

lemma cover_select_all:
  assumes "D \<le> length (concat ss)" "total_length ss < 2 ^ 32" "length (concat ss) < dict_size div 4"
  shows "cover_select ss dict_size = (Ok (concat ss) :: ('e, _) outcome)"
proof -
  have big: "\<not> length (concat ss) < D" using assms(1) by simp
  obtain hashes freqs where
    "hash_loop (concat ss) [0..<length (concat ss) - D + 1] (replicate (length (concat ss) - D + 1) 0) = (Ok hashes :: ('e, _) outcome)"
    "count_samples (offsets_of ss) hashes [0..<length ss] (replicate FREQ_SIZE 0) = (Ok freqs :: ('e, _) outcome)"
    by (rule count_phase [OF assms(1,2)])
  then show ?thesis
    unfolding cover_select_def join_samples_ok Let_def prod.case if_not_P [OF big] by (simp only: obind.simps if_P [OF assms(3)])
qed

lemma cover_select_greedy:
  fixes ss dict_size
  defines "all \<equiv> concat ss" and "k \<equiv> dict_size div 4"
  defines "hashes \<equiv> map (dmer_hash all) [0..<length all - D + 1]"
  assumes m: "4 * D \<le> dict_size" and len: "total_length ss < 2 ^ 32" and all: "D \<le> length all" "k \<le> length all"
  obtains segments where "cover_select ss dict_size = (Ok (take dict_size (segment_bytes all k (rev segments))) :: ('e, _) outcome)"
    "greedy (length all - k) k hashes (dmer_freq ss) (k - D + 1) [] segments"
    "dict_size \<le> length segments * k \<or> exhausted (length all - k) k hashes (dmer_freq ss) (k - D + 1) (map fst segments)"
    "segments \<noteq> [] \<longrightarrow> (length segments - 1) * k < dict_size"
proof -
  have big: "\<not> length (concat ss) < D" "\<not> length (concat ss) < dict_size div 4" using all by (simp_all add: all_def k_def)
  obtain hs freqs where f:
    "hash_loop (concat ss) [0..<length (concat ss) - D + 1] (replicate (length (concat ss) - D + 1) 0) = (Ok hs :: ('e, _) outcome)"
    "count_samples (offsets_of ss) hs [0..<length ss] (replicate FREQ_SIZE 0) = (Ok freqs :: ('e, _) outcome)"
    "hs = map (dmer_hash (concat ss)) [0..<length (concat ss) - D + 1]" "\<And>h. h \<in> set hs \<Longrightarrow> h < FREQ_SIZE"
    "length freqs = FREQ_SIZE" "\<And>h. h < FREQ_SIZE \<Longrightarrow> freqs ! h < 2 ^ 32 \<and> freqs ! h = dmer_freq ss h"
    by (rule count_phase [OF all(1) [unfolded all_def] len]) (rule that)
  have hs: "hs = hashes" by (simp only: f(3) hashes_def all_def)
  note f = f [folded all_def, unfolded hs]
  have us: "usub k D = (Ok (k - D) :: ('e, nat) outcome)" using m by (simp add: usub_def k_def)
  have D: "D \<le> k" using m by (simp add: k_def)
  have lh: "length hashes = length all - D + 1" by (simp add: hashes_def del: upt_Suc)
  have hn: "length hashes < 2 ^ 32" using len all(1) unfolding lh by (simp add: D_def all_def length_concat)
  have fr: "dmer_freq ss h < 2 ^ 32" if "h < FREQ_SIZE" for h using f(6) [OF that] by (metis)
  have "\<exists>more. select_loop (Suc dict_size) all hashes dict_size k (k - D + 1) freqs (replicate (length all) False) [] 0 =
      (Ok ([] @ more) :: ('e, _) outcome) \<and>
    greedy (length all - k) k hashes (dmer_freq ss) (k - D + 1) (map fst ([] :: (nat \<times> nat) list)) more \<and>
    (dict_size \<le> length ([] @ more) * k \<or> exhausted (length all - k) k hashes (dmer_freq ss) (k - D + 1) (map fst ([] @ more))) \<and>
    (more \<noteq> [] \<longrightarrow> (length ([] @ more) - 1) * k < dict_size)"
    using f(5,6) by (intro select_loop_greedy [OF f(4) hn fr D all(2) lh refl]) (simp_all add: left_freq_def covered_def)
  then obtain segments where s: "select_loop (Suc dict_size) all hashes dict_size k (k - D + 1) freqs (replicate (length all) False) [] 0 =
      (Ok segments :: ('e, _) outcome)" "greedy (length all - k) k hashes (dmer_freq ss) (k - D + 1) [] segments"
    "dict_size \<le> length segments * k \<or> exhausted (length all - k) k hashes (dmer_freq ss) (k - D + 1) (map fst segments)"
    "segments \<noteq> [] \<longrightarrow> (length segments - 1) * k < dict_size" by auto
  have "p + k \<le> length all" if "p \<in> fst ` set (rev segments)" for p
    using greedy_in_range [OF s(2), of p] that all(2) by simp
  then obtain r where e: "emit_loop all k dict_size (rev segments) [] = (Ok r :: ('e, _) outcome)"
    "take dict_size r = take dict_size (segment_bytes all k (rev segments))"
    using emit_loop_ok [of "rev segments" k all dict_size "[]"] by auto
  have "cover_select ss dict_size = (Ok (take dict_size r) :: ('e, _) outcome)"
    unfolding cover_select_def join_samples_ok Let_def prod.case if_not_P [OF big(1)] if_not_P [OF big(2)]
      all_def [symmetric] k_def [symmetric] f(1,2) obind.simps us s(1) e(1) if_not_P [OF big(1) [folded all_def]]
      if_not_P [OF big(2) [folded all_def k_def]] ..
  with e(2) s(2-4) show thesis by (intro that) simp_all
qed

lemma cover_select_ok:
  assumes m: "4 * D \<le> dict_size" and len: "total_length ss < 2 ^ 32"
  shows "\<exists>k ps. (\<forall>p \<in> set ps. p + k \<le> length (concat ss)) \<and>
    cover_select ss dict_size = (Ok (take dict_size (concat (map (\<lambda>p. take k (drop p (concat ss))) ps))) :: ('e, _) outcome)"
proof -
  let ?all = "concat ss" and ?k = "dict_size div 4"
  consider "length ?all < D" | "D \<le> length ?all" "length ?all < ?k" | "D \<le> length ?all" "?k \<le> length ?all" by linarith
  then show ?thesis
  proof cases
    case 1
    then show ?thesis by (intro exI [of _ "length ?all"] exI [of _ "[0]"]) (simp add: cover_select_short)
  next
    case 2
    then have "take dict_size ?all = ?all" by simp
    with cover_select_all [OF 2(1) len 2(2), where 'e = 'e] show ?thesis
      by (intro exI [of _ "length ?all"] exI [of _ "[0]"]) simp
  next
    case 3
    obtain segments where s: "cover_select ss dict_size = (Ok (take dict_size (segment_bytes ?all ?k (rev segments))) :: ('e, _) outcome)"
      "greedy (length ?all - ?k) ?k (map (dmer_hash ?all) [0..<length ?all - D + 1]) (dmer_freq ss) (?k - D + 1) [] segments"
      by (rule cover_select_greedy [OF m len 3]) (rule that)
    have "segment_bytes ?all ?k (rev segments) = concat (map (\<lambda>p. take ?k (drop p ?all)) (map fst (rev segments)))"
      by (simp add: segment_bytes_def o_def case_prod_unfold)
    moreover have "\<forall>p \<in> set (map fst (rev segments)). p + ?k \<le> length ?all"
    proof
      fix p assume "p \<in> set (map fst (rev segments))"
      then have "p \<le> length ?all - ?k" by (intro greedy_in_range [OF s(2)]) simp
      then show "p + ?k \<le> length ?all" using 3(2) by simp
    qed
    ultimately show ?thesis using s(1) by metis
  qed
qed

lemma cover_select_small:
  assumes "dict_size < 4 * D" "D \<le> length (concat ss)" "total_length ss < 2 ^ 32"
  shows "cover_select ss dict_size = (Panic :: ('e, _) outcome)"
proof -
  let ?all = "concat ss" and ?k = "dict_size div 4"
  have big: "\<not> length ?all < D" using assms(2) by simp
  obtain hashes freqs where f:
    "hash_loop ?all [0..<length ?all - D + 1] (replicate (length ?all - D + 1) 0) = (Ok hashes :: ('e, _) outcome)"
    "count_samples (offsets_of ss) hashes [0..<length ss] (replicate FREQ_SIZE 0) = (Ok freqs :: ('e, _) outcome)"
    by (rule count_phase [OF assms(2,3)])
  have k: "\<not> length ?all < ?k" "usub ?k D = (Panic :: ('e, nat) outcome)" using assms(1) big by (auto simp: usub_def)
  show ?thesis
    unfolding cover_select_def join_samples_ok Let_def prod.case if_not_P [OF big] f obind.simps if_not_P [OF k(1)] k(2) ..
qed

section \<open>Properties\<close>



text \<open>Needed for a dictionary: the samples are short and few.\<close>

lemma trained_samples:
  assumes "add_samples (DictTrainer_new m) ds = (Ok self :: ('e, _) outcome)"
  shows "dt_max_dict_size self = min m MAX_DISTANCE" "total_length (dt_samples self) < 2 ^ 32"
    "\<And>s. s \<in> set (dt_samples self) \<Longrightarrow> MINMATCH \<le> length s"
proof -
  have k: "keeps_recent (min m MAX_DISTANCE) ds self"
    using add_samples_keep [OF new_keeps [of m], of ds, where 'e = 'e] assms by auto
  then have b: "total_length (dt_samples self) \<le> 8 * min m MAX_DISTANCE" and s: "suffix (dt_samples self) (filter (accepts (min m MAX_DISTANCE)) ds)"
    by (simp_all add: keeps_recent_def)
  show "dt_max_dict_size self = min m MAX_DISTANCE" using k by (simp add: keeps_recent_def)
  have "8 * min m MAX_DISTANCE \<le> 524280" by simp
  with b have "total_length (dt_samples self) \<le> 524280" by linarith
  then show "total_length (dt_samples self) < 2 ^ 32" by simp
  show "MINMATCH \<le> length s" if "s \<in> set (dt_samples self)" for s
    using set_mono_suffix [OF s] that by (auto simp: accepts_def)
qed

text \<open>
  C31: training for at least 32 bytes never panics and always ends, with a dictionary of at most
  the size asked for that consists of pieces of equal length of the samples.
\<close>

theorem train_returns:
  assumes "add_samples (DictTrainer_new m) ds = (Ok self :: (unit, _) outcome)" "32 \<le> m"
  shows "\<exists>k ps. (\<forall>p \<in> set ps. p + k \<le> length (concat (dt_samples self))) \<and>
    train self = (Ok (take (min m MAX_DISTANCE) (concat (map (\<lambda>p. take k (drop p (concat (dt_samples self)))) ps))) :: ('e, _) outcome)"
proof (cases "length (dt_samples self) < 2")
  case True
  then show ?thesis by (intro exI [of _ 0] exI [of _ "[]"]) (simp add: train_def)
next
  case False
  have "4 * D \<le> min m MAX_DISTANCE" using assms(2) by (simp add: D_def)
  from cover_select_ok [OF this trained_samples(2) [OF assms(1)]] False show ?thesis
    by (simp add: train_def trained_samples(1) [OF assms(1)])
qed

theorem train_returns_witness:
  "\<exists>self k ps. add_samples (DictTrainer_new 32) [[1, 2, 3, 4], [5, 6, 7, 8]] = (Ok self :: (unit, _) outcome) \<and>
     (train self :: (unit, _) outcome) = Ok (take 32 (concat (map (\<lambda>p. take k (drop p (concat (dt_samples self)))) ps)))"
proof -
  obtain self where s: "add_samples (DictTrainer_new 32) [[1, 2, 3, 4], [5, 6, 7, 8]] = (Ok self :: (unit, _) outcome)"
    using add_samples_keep [OF new_keeps] by blast
  from train_returns [OF s, where 'e = unit] s show ?thesis by auto
qed

text \<open>
  C34: a trainer for fewer than 32 bytes accepts samples, but with two of them training panics: a
  segment would be shorter than a dmer.
\<close>

theorem train_panics_below_32:
  assumes "add_samples (DictTrainer_new m) ds = (Ok self :: (unit, _) outcome)" "m < 32" "2 \<le> sample_count self"
  shows "train self = (Panic :: ('e, _) outcome)"
proof -
  obtain a b ss where ab: "dt_samples self = a # b # ss"
    using assms(3) by (cases "dt_samples self"; cases "tl (dt_samples self)") (auto simp: sample_count_def)
  then have "MINMATCH \<le> length a" "MINMATCH \<le> length b" using trained_samples(3) [OF assms(1)] by simp_all
  then have "D \<le> length (concat (dt_samples self))" by (simp add: ab D_def)
  moreover have "min m MAX_DISTANCE < 4 * D" using assms(2) by (simp add: D_def)
  ultimately show ?thesis
    using cover_select_small [OF _ _ trained_samples(2) [OF assms(1)]] assms(3)
    by (simp add: train_def trained_samples(1) [OF assms(1)] sample_count_def)
qed

theorem train_panics_below_32_witness:
  "\<exists>self. add_samples (DictTrainer_new 31) [[1, 2, 3, 4], [5, 6, 7, 8]] = (Ok self :: (unit, _) outcome) \<and>
     train self = (Panic :: (unit, bytes) outcome)"
proof -
  have s: "add_samples (DictTrainer_new 31) [[1, 2, 3, 4], [5, 6, 7, 8]] =
      (Ok \<lparr>dt_max_dict_size = 31, dt_samples = [[1, 2, 3, 4], [5, 6, 7, 8]], dt_total_bytes = 8\<rparr> :: (unit, _) outcome)"
    by (simp add: DictTrainer_new_def add_sample_def)
  from train_panics_below_32 [OF s] s show ?thesis by (simp add: sample_count_def)
qed

text \<open>
  C33: the dictionary is the result of a greedy selection.  A quarter of the size is the length of a
  segment.  Each one chosen is the first of those with the highest sum of frequencies among the
  positions that no segment chosen before covers; the dmers of the segments chosen before do not
  count any more.  The selection stops when there are enough segments, not before unless nothing
  that is left counts, and not after; the last one chosen comes first in the dictionary.
\<close>

theorem selection_is_greedy:
  fixes ss dict_size
  defines "all \<equiv> concat ss" and "k \<equiv> dict_size div 4"
  defines "hashes \<equiv> map (dmer_hash all) [0..<length all - D + 1]"
  assumes "32 \<le> dict_size" "length all < 2 ^ 32" "D \<le> length all" "k \<le> length all"
  shows "\<exists>segments. cover_select ss dict_size = (Ok (take dict_size (segment_bytes all k (rev segments))) :: ('e, _) outcome) \<and>
    greedy (length all - k) k hashes (dmer_freq ss) (k - D + 1) [] segments \<and>
    (dict_size \<le> length segments * k \<or> exhausted (length all - k) k hashes (dmer_freq ss) (k - D + 1) (map fst segments)) \<and>
    (segments \<noteq> [] \<longrightarrow> (length segments - 1) * k < dict_size)"
proof -
  have "4 * D \<le> dict_size" "total_length ss < 2 ^ 32" using assms(4,5) by (simp_all add: D_def all_def length_concat)
  then show ?thesis
    using assms(6,7) unfolding all_def k_def hashes_def by (rule cover_select_greedy) blast
qed

theorem selection_is_greedy_witness:
  "\<exists>more. cover_select [[1, 2, 3, 4, 5, 6, 7, 8], [1, 2, 3, 4, 5, 6, 7, 8]] 32 =
     (Ok (take 32 (segment_bytes [1, 2, 3, 4, 5, 6, 7, 8, 1, 2, 3, 4, 5, 6, 7, 8] 8 (rev ((0, 2) # more)))) :: (unit, bytes) outcome)"
proof -
  define s :: bytes where "s = [1, 2, 3, 4, 5, 6, 7, 8]"
  have ls: "length s = 8" and d: "D = 8" by (simp_all add: s_def D_def)
  let ?all = "concat [s, s]"
  let ?hs = "map (dmer_hash ?all) [0..<length ?all - D + 1]" and ?f = "dmer_freq [s, s]"
  obtain segments where g: "cover_select [s, s] 32 = (Ok (take 32 (segment_bytes ?all (32 div 4) (rev segments))) :: (unit, bytes) outcome)"
    "greedy (length ?all - 32 div 4) (32 div 4) ?hs ?f (32 div 4 - D + 1) [] segments"
    "32 \<le> length segments * (32 div 4) \<or>
      exhausted (length ?all - 32 div 4) (32 div 4) ?hs ?f (32 div 4 - D + 1) (map fst segments)"
    using selection_is_greedy [of 32 "[s, s]", where 'e = unit] ls d by (auto simp del: upt_Suc)
  have f: "?f h = (if dmer_hash s 0 = h then 2 else 0)" for h by (simp add: dmer_freq_def ls d)
  have "dmer_hash ?all 0 = dmer_hash s 0" using dmer_hash_inside [of 0 s "[]" s] ls d by simp
  then have h0: "?hs ! 0 = dmer_hash s 0" by (simp add: nth_append ls d del: upt_Suc)
  have sc: "left_score ?hs ?f (32 div 4 - D + 1) [] p = ?f (?hs ! p)" for p by (simp add: left_score_def left_freq_def d)
  have two: "left_score ?hs ?f (32 div 4 - D + 1) [] p \<le> 2" "left_score ?hs ?f (32 div 4 - D + 1) [] 0 = 2" for p
    unfolding sc f h0 by simp_all
  have c: "\<not> covered (32 div 4) [] q" for q by (simp add: covered_def)
  have "segments \<noteq> []" using g(3) two(2) c [of 0] by (auto simp: exhausted_def simp del: upt_Suc)
  then obtain p score more where seg: "segments = (p, score) # more" by (cases segments) auto
  have b: "first_best (length ?all - 32 div 4) (32 div 4) ?hs ?f (32 div 4 - D + 1) [] p score"
    using g(2) unfolding seg by simp
  have "p = 0 \<and> score = 2"
    using b c two unfolding first_best_def by (metis le_antisym le_zero_eq nat_less_le not_gr_zero zero_le)
  with g(1) seg show ?thesis by (auto simp: s_def)
qed

end
