(* ===== verification/Frame_Header.thy ===== *)
theory Frame_Header
  imports Core_Crate
begin

text \<open>
  \<^verbatim>\<open>src/frame/mod.rs\<close> and \<^verbatim>\<open>src/frame/header.rs\<close>: the errors of the frame format and their way
  through \<^verbatim>\<open>io::Error\<close>, the frame header and the header of a block.

  XxHash32 comes from the crate \<^verbatim>\<open>twox_hash\<close>: it is a parameter, the record \<open>hasher\<close> of the
  functions the code calls.  The header functions write and read the same bytes of it, so
  their round trip needs no property of the hash.
\<close>

unbundle bit_operations_syntax

section \<open>Errors\<close>

text \<open>
  The kinds the source names; every other kind of the standard library is a number.  An
  \<^verbatim>\<open>io::Error\<close> either carries an \<open>Error\<close> of the frame format or something else.
\<close>

datatype io_kind = UnexpectedEof | InvalidData | InvalidInput | Interrupted | WriteZero | Other | Kind nat

datatype Error =
    CompressionError CompressError
  | DecompressionError DecompressError
  | IoError io_error
  | UnsupportedBlocksize byte
  | UnsupportedVersion byte
  | WrongMagicNumber
  | ReservedBitsSet
  | InvalidBlockInfo
  | BlockTooBig
  | HeaderChecksumError
  | BlockChecksumError
  | ContentChecksumError
  | SkippableFrame "32 word"
  | DictionaryNotSupported
  | DictionaryRequired
  | DictionaryRequiresIndependentBlocks
  | DictIdMismatch "32 word" "32 word"
  | DecompressedSizeLimit nat nat
  | ContentLengthError "64 word" "64 word"
and io_error =
    Plain io_kind string
  | Carries io_kind Error

fun kind_of :: "io_error \<Rightarrow> io_kind" where
  "kind_of (Plain k _) = k"
| "kind_of (Carries k _) = k"

text \<open>\<^verbatim>\<open>From<Error> for io::Error\<close> and \<^verbatim>\<open>From<io::Error> for Error\<close>\<close>

fun io_of_Error :: "Error \<Rightarrow> io_error" where
  "io_of_Error (IoError e) = e"
| "io_of_Error (CompressionError c) = Carries Other (CompressionError c)"
| "io_of_Error (DecompressionError d) = Carries Other (DecompressionError d)"
| "io_of_Error (SkippableFrame n) = Carries Other (SkippableFrame n)"
| "io_of_Error DictionaryNotSupported = Carries Other DictionaryNotSupported"
| "io_of_Error DictionaryRequired = Carries Other DictionaryRequired"
| "io_of_Error (DecompressedSizeLimit l a) = Carries Other (DecompressedSizeLimit l a)"
| "io_of_Error (DictIdMismatch x a) = Carries Other (DictIdMismatch x a)"
| "io_of_Error DictionaryRequiresIndependentBlocks = Carries InvalidInput DictionaryRequiresIndependentBlocks"
| "io_of_Error e = Carries InvalidData e"

fun Error_of_io :: "io_error \<Rightarrow> Error" where
  "Error_of_io (Carries k e) = e"
| "Error_of_io (Plain k msg) = IoError (Plain k msg)"

section \<open>The hash\<close>

record 'h hasher =
  with_seed :: "32 word \<Rightarrow> 'h"
  hash_write :: "'h \<Rightarrow> bytes \<Rightarrow> 'h"
  hash_finish :: "'h \<Rightarrow> 64 word"
  oneshot :: "32 word \<Rightarrow> bytes \<Rightarrow> 32 word"

section \<open>Constants\<close>

definition FLG_RESERVED_MASK :: byte where [simp]: "FLG_RESERVED_MASK = 0b00000010"
definition FLG_VERSION_MASK :: byte where [simp]: "FLG_VERSION_MASK = 0b11000000"
definition FLG_SUPPORTED_VERSION_BITS :: byte where [simp]: "FLG_SUPPORTED_VERSION_BITS = 0b01000000"
definition FLG_INDEPENDENT_BLOCKS :: byte where [simp]: "FLG_INDEPENDENT_BLOCKS = 0b00100000"
definition FLG_BLOCK_CHECKSUMS :: byte where [simp]: "FLG_BLOCK_CHECKSUMS = 0b00010000"
definition FLG_CONTENT_SIZE :: byte where [simp]: "FLG_CONTENT_SIZE = 0b00001000"
definition FLG_CONTENT_CHECKSUM :: byte where [simp]: "FLG_CONTENT_CHECKSUM = 0b00000100"
definition FLG_DICTIONARY_ID :: byte where [simp]: "FLG_DICTIONARY_ID = 0b00000001"
definition BD_BLOCK_SIZE_MASK :: byte where [simp]: "BD_BLOCK_SIZE_MASK = 0b01110000"
definition BD_RESERVED_MASK :: byte where [simp]: "BD_RESERVED_MASK = NOT BD_BLOCK_SIZE_MASK"
definition BD_BLOCK_SIZE_MASK_RSHIFT :: nat where [simp]: "BD_BLOCK_SIZE_MASK_RSHIFT = 4"
definition BLOCK_UNCOMPRESSED_SIZE_BIT :: "32 word" where "BLOCK_UNCOMPRESSED_SIZE_BIT = 0x80000000"
definition LZ4F_MAGIC_NUMBER :: "32 word" where "LZ4F_MAGIC_NUMBER = 0x184D2204"
definition LZ4F_SKIPPABLE_MAGIC_RANGE :: "32 word \<Rightarrow> bool" where
  "LZ4F_SKIPPABLE_MAGIC_RANGE m \<longleftrightarrow> 0x184D2A50 \<le> m \<and> m \<le> 0x184D2A5F"
definition MAGIC_NUMBER_SIZE :: nat where [simp]: "MAGIC_NUMBER_SIZE = 4"
definition MIN_FRAME_INFO_SIZE :: nat where [simp]: "MIN_FRAME_INFO_SIZE = 7"
definition MAX_FRAME_INFO_SIZE :: nat where [simp]: "MAX_FRAME_INFO_SIZE = 19"
definition BLOCK_INFO_SIZE :: nat where [simp]: "BLOCK_INFO_SIZE = 4"

section \<open>Block sizes and modes\<close>

datatype BlockSize = Auto | Max64KB | Max256KB | Max1MB | Max4MB

fun BlockSize_number :: "BlockSize \<Rightarrow> byte" where
  "BlockSize_number Auto = 0"
| "BlockSize_number Max64KB = 4"
| "BlockSize_number Max256KB = 5"
| "BlockSize_number Max1MB = 6"
| "BlockSize_number Max4MB = 7"

fun get_size :: "BlockSize \<Rightarrow> ('e, nat) outcome" where
  "get_size Auto = Panic"
| "get_size Max64KB = Ok (64 * 1024)"
| "get_size Max256KB = Ok (256 * 1024)"
| "get_size Max1MB = Ok (1024 * 1024)"
| "get_size Max4MB = Ok (4 * 1024 * 1024)"

fun from_buf_length_loop :: "BlockSize list \<Rightarrow> nat \<Rightarrow> BlockSize \<Rightarrow> ('e, BlockSize) outcome" where
  "from_buf_length_loop [] buf_len blocksize = Ok Max64KB"
| "from_buf_length_loop (candidate # cs) buf_len blocksize =
     obind (get_size candidate) (\<lambda>n.
     if n < buf_len then Ok blocksize else from_buf_length_loop cs buf_len candidate)"

definition from_buf_length :: "nat \<Rightarrow> ('e, BlockSize) outcome" where
  "from_buf_length buf_len = from_buf_length_loop [Max256KB, Max64KB] buf_len Max4MB"

datatype BlockMode = Independent | Linked

section \<open>The frame header\<close>

record FrameInfo =
  content_size :: "64 word option"
  dict_id :: "32 word option"
  block_size :: BlockSize
  block_mode :: BlockMode
  block_checksums :: bool
  content_checksum :: bool

definition FrameInfo_new :: FrameInfo where
  "FrameInfo_new = \<lparr>content_size = None, dict_id = None, block_size = Auto, block_mode = Independent,
     block_checksums = False, content_checksum = False\<rparr>"

definition FrameInfo_content_size :: "FrameInfo \<Rightarrow> 64 word option \<Rightarrow> FrameInfo" where
  "FrameInfo_content_size self v = self\<lparr>content_size := v\<rparr>"

definition FrameInfo_block_size :: "FrameInfo \<Rightarrow> BlockSize \<Rightarrow> FrameInfo" where
  "FrameInfo_block_size self v = self\<lparr>block_size := v\<rparr>"

definition FrameInfo_block_mode :: "FrameInfo \<Rightarrow> BlockMode \<Rightarrow> FrameInfo" where
  "FrameInfo_block_mode self v = self\<lparr>block_mode := v\<rparr>"

definition FrameInfo_block_checksums :: "FrameInfo \<Rightarrow> bool \<Rightarrow> FrameInfo" where
  "FrameInfo_block_checksums self v = self\<lparr>block_checksums := v\<rparr>"

definition FrameInfo_content_checksum :: "FrameInfo \<Rightarrow> bool \<Rightarrow> FrameInfo" where
  "FrameInfo_content_checksum self v = self\<lparr>content_checksum := v\<rparr>"

definition word_of_le :: "bytes \<Rightarrow> 'a :: len word" where
  "word_of_le bs = word_of_nat (le_nat bs)"

definition le_of_word :: "nat \<Rightarrow> 'a :: len word \<Rightarrow> bytes" where
  "le_of_word n w = le_bytes n (unat w)"

definition FrameInfo_read_size :: "bytes \<Rightarrow> (Error, nat) outcome" where
  "FrameInfo_read_size input =
     obind (sub_slice input 0 4) (\<lambda>m.
     let magic_num = word_of_le m :: 32 word in
     if length input < MIN_FRAME_INFO_SIZE then Ok MIN_FRAME_INFO_SIZE
     else if LZ4F_SKIPPABLE_MAGIC_RANGE magic_num then Ok 8
     else if magic_num \<noteq> LZ4F_MAGIC_NUMBER then Err WrongMagicNumber
     else
       Ok (MIN_FRAME_INFO_SIZE + (if input ! 4 AND FLG_CONTENT_SIZE \<noteq> 0 then 8 else 0) +
           (if input ! 4 AND FLG_DICTIONARY_ID \<noteq> 0 then 4 else 0)))"

definition FrameInfo_write_size :: "FrameInfo \<Rightarrow> nat" where
  "FrameInfo_write_size self =
     MIN_FRAME_INFO_SIZE + (if content_size self \<noteq> None then 8 else 0) + (if dict_id self \<noteq> None then 4 else 0)"

text \<open>The checksum byte is the second lowest of the hash.\<close>

definition header_checksum :: "'h hasher \<Rightarrow> bytes \<Rightarrow> byte" where
  "header_checksum H descriptor =
     ucast (drop_bit 8 (hash_finish H (hash_write H (with_seed H 0) descriptor)))"

text \<open>The output buffer is returned with the count.\<close>

definition FrameInfo_write :: "'h hasher \<Rightarrow> FrameInfo \<Rightarrow> bytes \<Rightarrow> (Error, nat \<times> bytes) outcome" where
  "FrameInfo_write H self out =
     (let write_size = FrameInfo_write_size self in
      if length out < write_size then Err (IoError (Plain UnexpectedEof []))
      else
        let buffer = replicate MAX_FRAME_INFO_SIZE 0 in
        if \<not> write_size \<le> length buffer then Panic
        else
          obind (copy_into buffer 0 4 (le_of_word 4 LZ4F_MAGIC_NUMBER)) (\<lambda>buffer.
          let flg = FLG_SUPPORTED_VERSION_BITS;
              flg = (if block_checksums self then flg OR FLG_BLOCK_CHECKSUMS else flg);
              flg = (if content_checksum self then flg OR FLG_CONTENT_CHECKSUM else flg);
              flg = (if block_mode self = Independent then flg OR FLG_INDEPENDENT_BLOCKS else flg);
              bs = BlockSize_number (block_size self) in
          if \<not> (4 \<le> bs \<and> bs \<le> 7) then Err (UnsupportedBlocksize bs)
          else
            let buffer = buffer[5 := push_bit BD_BLOCK_SIZE_MASK_RSHIFT bs] in
            obind (case content_size self of
                None \<Rightarrow> Ok (flg, buffer, 6)
              | Some n \<Rightarrow>
                  obind (copy_into buffer 6 14 (le_of_word 8 n)) (\<lambda>buffer.
                  Ok (flg OR FLG_CONTENT_SIZE, buffer, 14))) (\<lambda>(flg, buffer, offset).
            obind (case dict_id self of
                None \<Rightarrow> Ok (flg, buffer, offset)
              | Some d \<Rightarrow>
                  obind (copy_into buffer offset (offset + 4) (le_of_word 4 d)) (\<lambda>buffer.
                  Ok (flg OR FLG_DICTIONARY_ID, buffer, offset + 4))) (\<lambda>(flg, buffer, offset).
            let buffer = buffer[4 := flg] in
            obind (sub_slice buffer 4 offset) (\<lambda>descriptor.
            if \<not> offset < length buffer then Panic
            else
              let buffer = buffer[offset := header_checksum H descriptor];
                  offset = offset + 1 in
              if offset \<noteq> write_size then Panic
              else
                obind (copy_into out 0 write_size (take write_size buffer)) (\<lambda>out.
                Ok (write_size, out)))))))"

text \<open>\<^verbatim>\<open>read_exact\<close> from a slice: the bytes and the rest.\<close>

definition take_exact :: "nat \<Rightarrow> bytes \<Rightarrow> (Error, bytes \<times> bytes) outcome" where
  "take_exact n input =
     (if n \<le> length input then Ok (take n input, drop n input)
      else Err (IoError (Plain UnexpectedEof [])))"

fun block_size_of :: "byte \<Rightarrow> (Error, BlockSize) outcome" where
  "block_size_of i =
     (if i \<le> 3 then Err (UnsupportedBlocksize i)
      else if i = 4 then Ok Max64KB
      else if i = 5 then Ok Max256KB
      else if i = 6 then Ok Max1MB
      else if i = 7 then Ok Max4MB
      else Panic)"

definition FrameInfo_read :: "'h hasher \<Rightarrow> bytes \<Rightarrow> (Error, FrameInfo) outcome" where
  "FrameInfo_read H original_input =
     obind (take_exact 4 original_input) (\<lambda>(m, input).
     let magic_num = word_of_le m :: 32 word in
     if LZ4F_SKIPPABLE_MAGIC_RANGE magic_num then
       obind (take_exact 4 input) (\<lambda>(n, _). Err (SkippableFrame (word_of_le n)))
     else if magic_num \<noteq> LZ4F_MAGIC_NUMBER then Err WrongMagicNumber
     else
       obind (take_exact 2 input) (\<lambda>(fb, input).
       let flg_byte = fb ! 0; bd_byte = fb ! 1 in
       if flg_byte AND FLG_VERSION_MASK \<noteq> FLG_SUPPORTED_VERSION_BITS then
         Err (UnsupportedVersion (flg_byte AND FLG_VERSION_MASK))
       else if flg_byte AND FLG_RESERVED_MASK \<noteq> 0 \<or> bd_byte AND BD_RESERVED_MASK \<noteq> 0 then Err ReservedBitsSet
       else
         let block_mode = (if flg_byte AND FLG_INDEPENDENT_BLOCKS \<noteq> 0 then Independent else Linked);
             content_checksum = (flg_byte AND FLG_CONTENT_CHECKSUM \<noteq> 0);
             block_checksums = (flg_byte AND FLG_BLOCK_CHECKSUMS \<noteq> 0) in
         obind (block_size_of (drop_bit BD_BLOCK_SIZE_MASK_RSHIFT (bd_byte AND BD_BLOCK_SIZE_MASK))) (\<lambda>block_size.
         obind (if flg_byte AND FLG_CONTENT_SIZE \<noteq> 0 then
             obind (take_exact 8 input) (\<lambda>(b, input). Ok (Some (word_of_le b), input))
           else Ok (None, input)) (\<lambda>(content_size, input).
         obind (if flg_byte AND FLG_DICTIONARY_ID \<noteq> 0 then
             obind (take_exact 4 input) (\<lambda>(b, input). Ok (Some (word_of_le b), input))
           else Ok (None, input)) (\<lambda>(dict_id, input).
         obind (take_exact 1 input) (\<lambda>(c, input).
         obind (sub_slice original_input 4 (length original_input - length input - 1)) (\<lambda>descriptor.
         if header_checksum H descriptor \<noteq> c ! 0 then Err HeaderChecksumError
         else
           Ok \<lparr>content_size = content_size, dict_id = dict_id, block_size = block_size, block_mode = block_mode,
             block_checksums = block_checksums, content_checksum = content_checksum\<rparr>)))))))"

section \<open>The header of a block\<close>

datatype BlockInfo = Compressed "32 word" | Uncompressed "32 word" | EndMark

definition BlockInfo_read :: "bytes \<Rightarrow> (Error, BlockInfo) outcome" where
  "BlockInfo_read input =
     obind (take_exact 4 input) (\<lambda>(b, _).
     let n = word_of_le b :: 32 word in
     if n = 0 then Ok EndMark
     else if n AND BLOCK_UNCOMPRESSED_SIZE_BIT \<noteq> 0 then Ok (Uncompressed (n AND NOT BLOCK_UNCOMPRESSED_SIZE_BIT))
     else Ok (Compressed n))"

text \<open>\<^verbatim>\<open>write_all\<close> to a slice fails with \<^verbatim>\<open>WriteZero\<close> when the slice is too short.\<close>

definition BlockInfo_write :: "BlockInfo \<Rightarrow> bytes \<Rightarrow> (Error, nat \<times> bytes) outcome" where
  "BlockInfo_write self out =
     obind (case self of
         Compressed len \<Rightarrow>
           if len = 0 then Err InvalidBlockInfo
           else if len AND BLOCK_UNCOMPRESSED_SIZE_BIT \<noteq> 0 then Err InvalidBlockInfo
           else Ok len
       | Uncompressed len \<Rightarrow>
           if len AND BLOCK_UNCOMPRESSED_SIZE_BIT \<noteq> 0 then Err InvalidBlockInfo
           else Ok (len OR BLOCK_UNCOMPRESSED_SIZE_BIT)
       | EndMark \<Rightarrow> Ok 0) (\<lambda>value.
     if length out < 4 then Err (IoError (Plain WriteZero ''failed to write whole buffer''))
     else obind (copy_into out 0 4 (le_of_word 4 value)) (\<lambda>out. Ok (4, out)))"

end
