(* ===== verification/Encoder.thy ===== *)
theory Encoder
  imports Hash_Table
begin

text \<open>
  \<^verbatim>\<open>crates/encode/src/compress.rs\<close>: writing tokens, lengths and sequences, the match search and
  the two compression loops, the one-shot functions and the reusable compressors.

  The tail of the output that is not yet written is a pair \<open>(written, rest)\<close>: the bytes
  split off its front so far, and what is left, with the bytes that a 16-byte literal copy left
  there.  The generic parameters of the main loop are the record \<open>mode\<close>, its table type is a
  record of operations, and its sink is a \<open>SliceSink\<close>.  An error is returned before anything is
  written, so it carries no sink and no table.

  The search for a match ends by its own measure.  The loop over matches takes fuel, one unit
  per sequence; the callers give it one unit more than the input has bytes.
\<close>

unbundle bit_operations_syntax

section \<open>Constants and bounds\<close>

definition EPOCH_THRESHOLD :: nat where [simp, const_defs]: "EPOCH_THRESHOLD = 1024"
definition INCREASE_STEPSIZE_BITSHIFT :: nat where [simp, const_defs]: "INCREASE_STEPSIZE_BITSHIFT = 3"
definition DICT_READONLY_LIMIT :: nat where [simp, const_defs]: "DICT_READONLY_LIMIT = 256"
definition DICT_EPOCH_THRESHOLD :: nat where [simp, const_defs]: "DICT_EPOCH_THRESHOLD = 1024"

text \<open>The check of 32-bit targets, at their widths, and the assertion of the others.\<close>

definition ensure_stream_bounds :: "nat \<Rightarrow> nat \<Rightarrow> nat \<Rightarrow> (CompressError, unit) outcome" where
  "ensure_stream_bounds input_stream_offset input_len ext_dict_len =
     (let add = (\<lambda>a b. if a + b \<le> u32_max then Some (a + b) else None) in
      if input_stream_offset < ext_dict_len then Err InputTooLarge
      else
        case Option.bind (add input_stream_offset input_len) (\<lambda>i. add i ext_dict_len) of
          None \<Rightarrow> Err InputTooLarge
        | Some span \<Rightarrow> if 2 ^ 31 - 1 < span then Err InputTooLarge else Ok ())"

definition assert_stream_bounds :: "nat \<Rightarrow> nat \<Rightarrow> nat \<Rightarrow> ('e, unit) outcome" where
  "assert_stream_bounds input_stream_offset input_len ext_dict_len =
     (if ext_dict_len \<le> input_stream_offset \<and>
         (case Option.bind (checked_add input_stream_offset input_len) (\<lambda>i. checked_add i ext_dict_len) of
            None \<Rightarrow> False | Some i \<Rightarrow> i \<le> isize_max)
      then Ok () else Panic)"

text \<open>The product is a \<^verbatim>\<open>u64\<close>: it overflows from \<open>2 ^ 64 div 110\<close> bytes on.\<close>

definition get_maximum_output_size :: "nat \<Rightarrow> ('e, nat) outcome" where
  "get_maximum_output_size input_len =
     (if input_len * 110 < 2 ^ 64 then
        let raw = 16 + 4 + input_len * 110 div 100 in
        Ok (if usize_max < raw then usize_max else raw)
      else Panic)"

section \<open>Writing tokens and lengths\<close>

definition token_from_literal :: "nat \<Rightarrow> byte" where
  "token_from_literal lit_len = (if lit_len < 15 then push_bit 4 (word_of_nat lit_len) else 240)"

definition token_from_literal_and_match_length :: "nat \<Rightarrow> nat \<Rightarrow> byte" where
  "token_from_literal_and_match_length lit_len duplicate_length =
     (let token = (if lit_len < 15 then push_bit 4 (word_of_nat lit_len) else 240) in
      token OR (if duplicate_length < 15 then word_of_nat duplicate_length else 15))"

definition push_byte :: "SliceSink \<Rightarrow> byte \<Rightarrow> ('e, SliceSink) outcome" where
  "push_byte s el = SliceSink_push s el"

fun write_integer :: "SliceSink \<Rightarrow> nat \<Rightarrow> ('e, SliceSink) outcome" where
  "write_integer s n =
     (if 255 \<le> n then obind (push_byte s 255) (\<lambda>s. write_integer s (n - 255))
      else push_byte s (word_of_nat n))"

declare write_integer.simps [simp del]

type_synonym tail = "bytes \<times> bytes"

definition put_byte :: "tail \<Rightarrow> byte \<Rightarrow> ('e, tail) outcome" where
  "put_byte w b = (case snd w of [] \<Rightarrow> Panic | _ # rest \<Rightarrow> Ok (fst w @ [b], rest))"

definition put_slice :: "tail \<Rightarrow> bytes \<Rightarrow> ('e, tail) outcome" where
  "put_slice w bs =
     (if length bs \<le> length (snd w) then
        obind (slice_copy False bs (take (length bs) (snd w))) (\<lambda>dst.
        Ok (fst w @ dst, drop (length bs) (snd w)))
      else Panic)"

fun put_integer :: "tail \<Rightarrow> nat \<Rightarrow> ('e, tail) outcome" where
  "put_integer w n =
     (if 255 \<le> n then obind (put_byte w 255) (\<lambda>w. put_integer w (n - 255))
      else put_byte w (word_of_nat n))"

declare put_integer.simps [simp del]

definition handle_last_literals :: "tail \<Rightarrow> bytes \<Rightarrow> nat \<Rightarrow> ('e, tail) outcome" where
  "handle_last_literals w input start =
     obind (usub (length input) start) (\<lambda>lit_len.
     obind (put_byte w (token_from_literal lit_len)) (\<lambda>w.
     obind (if 15 \<le> lit_len then put_integer w (lit_len - 15) else Ok w) (\<lambda>w.
     obind (sub_slice input start (length input)) (\<lambda>lits. put_slice w lits))))"

text \<open>The number of bytes written and the new position.\<close>

definition finish_output :: "nat \<Rightarrow> nat \<Rightarrow> nat \<Rightarrow> ('e, nat \<times> nat) outcome" where
  "finish_output start out_total rest_len =
     obind (usub out_total rest_len) (\<lambda>written. Ok (written, start + written))"

text \<open>
  The short form writes 16 literal bytes whatever the run, then the offset over the excess; the
  bytes after the sequence stay in the tail.
\<close>

definition emit_sequence :: "tail \<Rightarrow> bytes \<Rightarrow> nat \<Rightarrow> nat \<Rightarrow> nat \<Rightarrow> nat \<Rightarrow> ('e, tail) outcome" where
  "emit_sequence w input literal_start lit_len offset match_len =
     (if lit_len < 15 \<and> match_len < 15 \<and> 19 \<le> length (snd w) \<and>
         literal_start \<le> length input \<and> 16 \<le> length (drop literal_start input) then
        let seq = take 19 (snd w);
            seq = seq[0 := push_bit 4 (word_of_nat lit_len) OR word_of_nat match_len] in
        obind (copy_into seq 1 17 (take 16 (drop literal_start input))) (\<lambda>seq.
        obind (copy_into seq (1 + lit_len) (3 + lit_len) (le_bytes 2 offset)) (\<lambda>seq.
        let rest = seq @ drop 19 (snd w) in
        Ok (fst w @ take (3 + lit_len) rest, drop (3 + lit_len) rest)))
      else
        obind (sub_slice input literal_start (literal_start + lit_len)) (\<lambda>literals.
        obind (put_byte w (token_from_literal_and_match_length lit_len match_len)) (\<lambda>w.
        obind (if 15 \<le> lit_len then put_integer w (lit_len - 15) else Ok w) (\<lambda>w.
        obind (put_slice w literals) (\<lambda>w.
        obind (put_slice w (le_bytes 2 offset)) (\<lambda>w.
        if 15 \<le> match_len then put_integer w (match_len - 15) else Ok w))))))"

section \<open>Matches\<close>

function backtrack_match :: "bytes \<Rightarrow> nat \<Rightarrow> nat \<Rightarrow> bytes \<Rightarrow> nat \<Rightarrow> ('e, nat \<times> nat) outcome" where
  "backtrack_match input cur literal_start source candidate =
     (if 0 < candidate \<and> literal_start < cur then
        obind (idx_get input (cur - 1)) (\<lambda>x.
        obind (idx_get source (candidate - 1)) (\<lambda>y.
        if x = y then backtrack_match input (cur - 1) literal_start source (candidate - 1)
        else Ok (cur, candidate)))
      else Ok (cur, candidate))"
  by pat_completeness auto
termination
  by (relation "measure (\<lambda>(input, cur, literal_start, source, candidate). cur)") auto

declare backtrack_match.simps [simp del]

text \<open>
  The rest of a match after its first four equal bytes are known: extend it both ways, enter
  its end into the table and write the sequence.  \<open>base\<close> is what the table adds to positions.
\<close>

definition take_match ::
  "'t hash_ops \<Rightarrow> bool \<Rightarrow> nat \<Rightarrow> bytes \<Rightarrow> nat \<Rightarrow> nat \<Rightarrow> bytes \<Rightarrow> nat \<Rightarrow> nat \<Rightarrow> 't \<Rightarrow> tail \<Rightarrow>
   (CompressError, nat \<times> 't \<times> tail) outcome" where
  "take_match T readonly base input literal_start cur source candidate offset table w =
     obind (backtrack_match input cur literal_start source candidate) (\<lambda>(cur, candidate).
     obind (usub cur literal_start) (\<lambda>lit_len.
     let cur = cur + MINMATCH; candidate = candidate + MINMATCH in
     obind (count_same_bytes input cur source candidate END_OFFSET) (\<lambda>(duplicate_length, cur).
     obind (usub cur 2) (\<lambda>pos.
     obind (usub (length input) 8) (\<lambda>limit.
     obind (rd64_upto input pos limit) (\<lambda>v.
     obind (if readonly then Ok table else put_at T table (hash T v) (pos + base)) (\<lambda>table.
     obind (emit_sequence w input literal_start lit_len offset duplicate_length) (\<lambda>w.
     Ok (cur, table, w)))))))))"

section \<open>The main loop\<close>

record mode =
  USE_DICT :: bool
  HAS_OFFSET :: bool
  READONLY :: bool
  NEAR :: bool

text \<open>What the loop does not change.  \<open>carry_hash\<close> is the local of that name.\<close>

record 't env =
  e_mode :: mode
  e_table :: "'t hash_ops"
  e_input :: bytes
  e_dict :: bytes
  e_offset :: nat

definition carry_hash :: "mode \<Rightarrow> bool" where
  "carry_hash m \<longleftrightarrow> HAS_OFFSET m \<and> \<not> USE_DICT m"

definition curr_bytes :: "mode \<Rightarrow> bytes \<Rightarrow> nat \<Rightarrow> nat \<Rightarrow> 64 word \<Rightarrow> ('e, 32 word) outcome" where
  "curr_bytes m input cur next_cur bytes =
     (if carry_hash m then rd32 input (min cur next_cur) else Ok (first4 bytes))"

text \<open>\<open>Hit candidate source offset\<close> is a break out of the search, \<open>Miss\<close> a step forward.\<close>

datatype probe = Hit nat bytes nat | Miss

definition hit_if :: "bool \<Rightarrow> nat \<Rightarrow> bytes \<Rightarrow> nat \<Rightarrow> probe" where
  "hit_if b candidate source offset = (if b then Hit candidate source (offset mod 2 ^ 16) else Miss)"

text \<open>The three kinds of candidate.\<close>

definition probe_readonly :: "'t env \<Rightarrow> nat \<Rightarrow> nat \<Rightarrow> 64 word \<Rightarrow> nat \<Rightarrow> (CompressError, probe) outcome" where
  "probe_readonly e cur next_cur bytes candidate =
     (if length (e_dict e) < candidate + 4 then Ok Miss
      else
        obind (usub (e_offset e + cur) candidate) (\<lambda>offset.
        if offset \<le> MAX_DISTANCE \<and> e_offset e = length (e_dict e) then
          obind (rd32 (e_dict e) candidate) (\<lambda>cand_bytes.
          obind (curr_bytes (e_mode e) (e_input e) cur next_cur bytes) (\<lambda>cb.
          Ok (hit_if (cand_bytes = cb) candidate (e_dict e) offset)))
        else Panic))"

definition probe_input :: "'t env \<Rightarrow> nat \<Rightarrow> nat \<Rightarrow> 64 word \<Rightarrow> nat \<Rightarrow> (CompressError, probe) outcome" where
  "probe_input e cur next_cur bytes input_pos =
     obind (rd32 (e_input e) input_pos) (\<lambda>cand_bytes.
     obind (curr_bytes (e_mode e) (e_input e) cur next_cur bytes) (\<lambda>cb.
     if cand_bytes = cb then
       obind (usub cur input_pos) (\<lambda>offset.
       Ok (hit_if (NEAR (e_mode e) \<or> offset \<le> MAX_DISTANCE) input_pos (e_input e) offset))
     else Ok Miss))"

definition probe_dict :: "'t env \<Rightarrow> nat \<Rightarrow> nat \<Rightarrow> 64 word \<Rightarrow> nat \<Rightarrow> nat \<Rightarrow> (CompressError, probe) outcome" where
  "probe_dict e cur next_cur bytes candidate dict_pos =
     obind (rd32 (e_dict e) dict_pos) (\<lambda>cand_bytes.
     obind (curr_bytes (e_mode e) (e_input e) cur next_cur bytes) (\<lambda>cb.
     if cand_bytes = cb then
       obind (usub (e_offset e + cur) candidate) (\<lambda>offset.
       Ok (hit_if (NEAR (e_mode e) \<or> offset \<le> MAX_DISTANCE) dict_pos (e_dict e) offset))
     else Ok Miss))"

definition probe_candidate :: "'t env \<Rightarrow> nat \<Rightarrow> nat \<Rightarrow> 64 word \<Rightarrow> nat \<Rightarrow> (CompressError, probe) outcome" where
  "probe_candidate e cur next_cur bytes candidate =
     obind (usub (e_offset e) (length (e_dict e))) (\<lambda>ext_dict_stream_offset.
     if \<not> (READONLY (e_mode e) \<or> candidate \<le> e_offset e + cur) then Panic
     else
       let input_pos = wrapping_sub candidate (e_offset e) in
       if READONLY (e_mode e) then probe_readonly e cur next_cur bytes candidate
       else
         obind
           (if input_pos < next_cur then
              if carry_hash (e_mode e) then
                obind (usub cur input_pos) (\<lambda>d. Ok (d \<le> MAX_DISTANCE))
              else Ok True
            else Ok False)
           (\<lambda>in_input.
         if in_input then probe_input e cur next_cur bytes input_pos
         else if USE_DICT (e_mode e) \<and> ext_dict_stream_offset \<le> candidate \<and>
                 candidate - ext_dict_stream_offset + 4 \<le> length (e_dict e) then
           probe_dict e cur next_cur bytes candidate (candidate - ext_dict_stream_offset)
         else Ok Miss))"

text \<open>The search carries the bytes and the hash at its next position, as the code does.\<close>

datatype 't search_result = SearchEnd 't | SearchHit 't nat nat bytes nat "64 word" nat

function search ::
  "'t env \<Rightarrow> nat \<Rightarrow> nat \<Rightarrow> 't \<Rightarrow> 64 word \<Rightarrow> nat \<Rightarrow> (CompressError, 't search_result) outcome" where
  "search e cur non_match_count table forward_bytes forward_hash =
     (let T = e_table e; input = e_input e;
          step = drop_bit INCREASE_STEPSIZE_BITSHIFT non_match_count;
          non_match_count = non_match_count + 1;
          next_cur = cur + step in
      obind (usub (length input) MFLIMIT) (\<lambda>end_pos_check.
      if end_pos_check + 1 < next_cur then Ok (SearchEnd table)
      else
        let bytes = forward_bytes;
            h = (if carry_hash (e_mode e) then forward_hash else hash T bytes) in
        obind (get_at T table h) (\<lambda>candidate.
        obind (rd64 input next_cur) (\<lambda>forward_bytes.
        let forward_hash = hash T forward_bytes in
        obind (if READONLY (e_mode e) then Ok table else put_at T table h (cur + e_offset e)) (\<lambda>table.
        obind (probe_candidate e cur next_cur bytes candidate) (\<lambda>p.
        case p of
          Hit candidate source offset \<Rightarrow>
            Ok (SearchHit table cur candidate source offset forward_bytes forward_hash)
        | Miss \<Rightarrow> search e next_cur non_match_count table forward_bytes forward_hash))))))"
  by pat_completeness auto
termination
  by (relation "measure (\<lambda>(e, cur, non_match_count, table, fb, fh).
        (length (e_input e) + 2 - cur) + (8 - non_match_count))")
    (auto simp: usub_def drop_bit_eq_div split: if_splits)

declare search.simps [simp del]

text \<open>
  The inner loop: after a match, without a dictionary, the next position is looked up at once.
  The result has the position and the forward bytes and hash for the next search.
\<close>

fun match_loop ::
  "nat \<Rightarrow> 't env \<Rightarrow> nat \<Rightarrow> nat \<Rightarrow> bytes \<Rightarrow> nat \<Rightarrow> nat \<Rightarrow> 't \<Rightarrow> tail \<Rightarrow> 64 word \<Rightarrow> nat \<Rightarrow>
   (CompressError, nat \<times> 't \<times> tail \<times> 64 word \<times> nat) outcome" where
  "match_loop 0 e cur candidate source offset literal_start table w forward_bytes forward_hash = Diverge"
| "match_loop (Suc fuel) e cur candidate source offset literal_start table w forward_bytes forward_hash =
     (let T = e_table e; input = e_input e in
      obind (take_match T (READONLY (e_mode e)) (e_offset e) input literal_start cur source candidate
        offset table w) (\<lambda>(cur, table, w).
      let literal_start = cur in
      obind (usub (length input) MFLIMIT) (\<lambda>end_pos_check.
      if \<not> USE_DICT (e_mode e) \<and> cur \<le> end_pos_check then
        obind (rd64 input cur) (\<lambda>bytes.
        let h = hash T bytes in
        obind (get_at T table h) (\<lambda>rematch.
        let rc = wrapping_sub rematch (e_offset e) in
        obind
          (if rc < cur then
             obind (rd32 input rc) (\<lambda>x. Ok (first4 bytes = x \<and> (NEAR (e_mode e) \<or> cur - rc \<le> MAX_DISTANCE)))
           else Ok False) (\<lambda>again.
        if again then
          obind (put_at T table h (cur + e_offset e)) (\<lambda>table.
          match_loop fuel e cur rc input ((cur - rc) mod 2 ^ 16) literal_start table w
            forward_bytes forward_hash)
        else Ok (cur, table, w, bytes, h))))
      else if cur \<le> end_pos_check then
        obind (rd64 input cur) (\<lambda>forward_bytes.
        Ok (cur, table, w, forward_bytes, hash T forward_bytes))
      else Ok (cur, table, w, forward_bytes, forward_hash))))"

fun compress_loop ::
  "nat \<Rightarrow> 't env \<Rightarrow> nat \<Rightarrow> nat \<Rightarrow> 't \<Rightarrow> tail \<Rightarrow> 64 word \<Rightarrow> nat \<Rightarrow> (CompressError, 't \<times> tail) outcome" where
  "compress_loop 0 e cur literal_start table w forward_bytes forward_hash = Diverge"
| "compress_loop (Suc fuel) e cur literal_start table w forward_bytes forward_hash =
     obind (search e cur (push_bit INCREASE_STEPSIZE_BITSHIFT 1) table forward_bytes forward_hash) (\<lambda>r.
     case r of
       SearchEnd table \<Rightarrow>
         obind (handle_last_literals w (e_input e) literal_start) (\<lambda>w. Ok (table, w))
     | SearchHit table cur candidate source offset forward_bytes forward_hash \<Rightarrow>
         obind (match_loop (Suc (length (e_input e))) e cur candidate source offset literal_start table w
           forward_bytes forward_hash) (\<lambda>(cur, table, w, forward_bytes, forward_hash).
         compress_loop fuel e cur cur table w forward_bytes forward_hash))"

text \<open>The assertions of the main function, which depend on its mode.\<close>

definition check_mode :: "mode \<Rightarrow> bytes \<Rightarrow> nat \<Rightarrow> bytes \<Rightarrow> nat \<Rightarrow> (CompressError, unit) outcome" where
  "check_mode m input input_pos ext_dict input_stream_offset =
     (if \<not> input_pos \<le> length input then Panic
      else
        obind
          (if USE_DICT m then
             if length ext_dict \<le> WINDOW_SIZE
             then assert_stream_bounds input_stream_offset (length input) (length ext_dict)
             else Panic
           else if ext_dict = [] then Ok () else Panic) (\<lambda>_.
        if \<not> HAS_OFFSET m \<and> input_stream_offset \<noteq> 0 then Panic
        else if READONLY m \<and> \<not> (USE_DICT m \<and> input_stream_offset = length ext_dict) then Panic
        else if READONLY m \<and> \<not> length ext_dict + length input < u16_max then Panic
        else if NEAR m \<and> \<not> length ext_dict + length input \<le> MAX_DISTANCE + 1 then Panic
        else Ok ()))"

definition compress_internal ::
  "mode \<Rightarrow> 't hash_ops \<Rightarrow> bytes \<Rightarrow> nat \<Rightarrow> SliceSink \<Rightarrow> 't \<Rightarrow> bytes \<Rightarrow> nat \<Rightarrow>
   (CompressError, nat \<times> SliceSink \<times> 't) outcome" where
  "compress_internal m T input input_pos s table ext_dict input_stream_offset =
     obind (check_mode m input input_pos ext_dict input_stream_offset) (\<lambda>_.
     let input_stream_offset = (if HAS_OFFSET m then input_stream_offset else 0);
         out = sink_output s; out_start = sink_pos s in
     obind (sub_slice out out_start (length out)) (\<lambda>rest.
     let out_total = length rest;
         finish = (\<lambda>table w.
           obind (finish_output out_start out_total (length (snd w))) (\<lambda>(written, pos).
           Ok (written, \<lparr>sink_output = take out_start out @ fst w @ snd w, sink_pos = pos\<rparr>, table))) in
     obind (get_maximum_output_size (length input - input_pos)) (\<lambda>max_size.
     if out_total < max_size then Err CompressOutputTooSmall
     else if length input < LZ4_MIN_LENGTH \<or> length input - input_pos < LZ4_MIN_LENGTH then
       obind (handle_last_literals ([], rest) input input_pos) (\<lambda>w. finish table w)
     else
       obind (usub input_stream_offset (length ext_dict)) (\<lambda>_.
       obind
         (if input_pos = 0 \<and> input_stream_offset = 0 then
            obind (get_hash_at T input 0) (\<lambda>h.
            obind (if READONLY m then Ok table else put_at T table h 0) (\<lambda>table. Ok (1, table)))
          else Ok (input_pos, table)) (\<lambda>(cur, table).
       obind (rd64 input cur) (\<lambda>forward_bytes.
       obind (compress_loop (Suc (length input))
           \<lparr>e_mode = m, e_table = T, e_input = input, e_dict = ext_dict, e_offset = input_stream_offset\<rparr>
           cur input_pos table ([], rest) forward_bytes (hash T forward_bytes)) (\<lambda>(table, w).
       finish table w)))))))"

definition compress_into_sink_with_table ::
  "mode \<Rightarrow> nat \<Rightarrow> bytes \<Rightarrow> nat \<Rightarrow> SliceSink \<Rightarrow> HashTableU32 \<Rightarrow> bytes \<Rightarrow> nat \<Rightarrow>
   (CompressError, nat \<times> SliceSink \<times> HashTableU32) outcome" where
  "compress_into_sink_with_table m N input input_pos s table ext_dict input_stream_offset =
     compress_internal (m\<lparr>NEAR := False\<rparr>) (u32_table N) input input_pos s table ext_dict
       input_stream_offset"

section \<open>Filling a table\<close>

function put_every_third ::
  "'t hash_ops \<Rightarrow> 't \<Rightarrow> bytes \<Rightarrow> nat \<Rightarrow> nat \<Rightarrow> (CompressError, 't) outcome" where
  "put_every_third T table input base i =
     (if i + 8 \<le> length input then
        obind (get_hash_at T input i) (\<lambda>h.
        obind (put_at T table h (i + base)) (\<lambda>table.
        put_every_third T table input base (i + 3)))
      else Ok table)"
  by pat_completeness auto
termination
  by (relation "measure (\<lambda>(T, table, input, base, i). length input - i)") auto

declare put_every_third.simps [simp del]

definition seed_table_with_input ::
  "nat \<Rightarrow> HashTableU32 \<Rightarrow> bytes \<Rightarrow> nat \<Rightarrow> (CompressError, HashTableU32) outcome" where
  "seed_table_with_input N table input input_stream_offset =
     put_every_third (u32_table N) table input input_stream_offset 0"

text \<open>The dictionary is cut to the window; the table and the cut dictionary are returned.\<close>

definition init_dict :: "'t hash_ops \<Rightarrow> 't \<Rightarrow> bytes \<Rightarrow> (CompressError, 't \<times> bytes) outcome" where
  "init_dict T table dict_data =
     (let dict_data = (if WINDOW_SIZE < length dict_data
        then drop (length dict_data - WINDOW_SIZE) dict_data else dict_data) in
      obind (put_every_third T table dict_data 0 0) (\<lambda>table. Ok (table, dict_data)))"

section \<open>Two tables\<close>

text \<open>The table of the input, probed before the table of the dictionary.\<close>

record 't dict_env =
  d_table :: "'t hash_ops"
  d_input :: bytes
  d_dict :: bytes
  d_pristine :: 't
  d_base :: nat

definition dict_probe ::
  "'t dict_env \<Rightarrow> nat \<Rightarrow> nat \<Rightarrow> nat \<Rightarrow> nat \<Rightarrow> (CompressError, probe) outcome" where
  "dict_probe e cur next_cur h main_candidate =
     (let input = d_input e; main_pos = wrapping_sub main_candidate (d_base e) in
      obind
        (if d_base e \<le> main_candidate \<and> main_pos < next_cur then
           if main_pos < cur then
             obind (rd32 input main_pos) (\<lambda>x.
             obind (rd32 input (min cur next_cur)) (\<lambda>y. Ok (x = y)))
           else Panic
         else Ok False) (\<lambda>found.
      if found then Ok (Hit main_pos input ((cur - main_pos) mod 2 ^ 16))
      else
        obind (get_at (d_table e) (d_pristine e) h) (\<lambda>dict_candidate.
        if dict_candidate + 4 \<le> length (d_dict e) then
          obind (usub (length (d_dict e) + cur) dict_candidate) (\<lambda>offset.
          if offset \<le> MAX_DISTANCE then
            obind (rd32 (d_dict e) dict_candidate) (\<lambda>x.
            obind (rd32 input (min cur next_cur)) (\<lambda>y.
            Ok (if x = y then Hit dict_candidate (d_dict e) (offset mod 2 ^ 16) else Miss)))
          else Panic)
        else Ok Miss)))"

function dict_search ::
  "'t dict_env \<Rightarrow> nat \<Rightarrow> nat \<Rightarrow> 't \<Rightarrow> nat \<Rightarrow> (CompressError, 't search_result) outcome" where
  "dict_search e cur non_match_count table forward_hash =
     (let T = d_table e; input = d_input e;
          step = drop_bit INCREASE_STEPSIZE_BITSHIFT non_match_count;
          non_match_count = non_match_count + 1;
          next_cur = cur + step in
      obind (usub (length input) MFLIMIT) (\<lambda>end_pos_check.
      if end_pos_check + 1 < next_cur then Ok (SearchEnd table)
      else
        let h = forward_hash in
        obind (get_hash_at T input next_cur) (\<lambda>forward_hash.
        obind (get_at T table h) (\<lambda>main_candidate.
        obind (put_at T table h (cur + d_base e)) (\<lambda>table.
        obind (dict_probe e cur next_cur h main_candidate) (\<lambda>p.
        case p of
          Hit candidate source offset \<Rightarrow> Ok (SearchHit table cur candidate source offset 0 forward_hash)
        | Miss \<Rightarrow> dict_search e next_cur non_match_count table forward_hash))))))"
  by pat_completeness auto
termination
  by (relation "measure (\<lambda>(e, cur, non_match_count, table, fh).
        (length (d_input e) + 2 - cur) + (8 - non_match_count))")
    (auto simp: usub_def drop_bit_eq_div split: if_splits)

declare dict_search.simps [simp del]

fun dict_loop ::
  "nat \<Rightarrow> 't dict_env \<Rightarrow> nat \<Rightarrow> nat \<Rightarrow> 't \<Rightarrow> tail \<Rightarrow> nat \<Rightarrow> (CompressError, 't \<times> tail) outcome" where
  "dict_loop 0 e cur literal_start table w forward_hash = Diverge"
| "dict_loop (Suc fuel) e cur literal_start table w forward_hash =
     obind (dict_search e cur (push_bit INCREASE_STEPSIZE_BITSHIFT 1) table forward_hash) (\<lambda>r.
     case r of
       SearchEnd table \<Rightarrow>
         obind (handle_last_literals w (d_input e) literal_start) (\<lambda>w. Ok (table, w))
     | SearchHit table cur candidate source offset _ forward_hash \<Rightarrow>
         obind (take_match (d_table e) False (d_base e) (d_input e) literal_start cur source candidate
           offset table w) (\<lambda>(cur, table, w).
         obind (usub (length (d_input e)) MFLIMIT) (\<lambda>end_pos_check.
         obind (if cur \<le> end_pos_check then get_hash_at (d_table e) (d_input e) cur else Ok forward_hash)
           (\<lambda>forward_hash.
         dict_loop fuel e cur cur table w forward_hash))))"

definition compress_with_dict_table ::
  "'t hash_ops \<Rightarrow> bytes \<Rightarrow> SliceSink \<Rightarrow> 't \<Rightarrow> 't \<Rightarrow> bytes \<Rightarrow> nat \<Rightarrow> nat \<Rightarrow>
   (CompressError, nat \<times> SliceSink \<times> 't) outcome" where
  "compress_with_dict_table T input s table dict_table ext_dict input_stream_offset main_base =
     (if \<not> (input_stream_offset = length ext_dict \<and> main_base + length input \<le> u16_max \<and>
            length ext_dict \<le> WINDOW_SIZE) then Panic
      else
        obind (assert_stream_bounds input_stream_offset (length input) (length ext_dict)) (\<lambda>_.
        let out = sink_output s; out_start = sink_pos s in
        obind (sub_slice out out_start (length out)) (\<lambda>rest.
        let out_total = length rest;
            finish = (\<lambda>table w.
              obind (finish_output out_start out_total (length (snd w))) (\<lambda>(written, pos).
              Ok (written, \<lparr>sink_output = take out_start out @ fst w @ snd w, sink_pos = pos\<rparr>, table))) in
        obind (get_maximum_output_size (length input)) (\<lambda>max_size.
        if out_total < max_size then Err CompressOutputTooSmall
        else if length input < LZ4_MIN_LENGTH then
          obind (handle_last_literals ([], rest) input 0) (\<lambda>w. finish table w)
        else
          obind (get_hash_at T input 0) (\<lambda>h.
          obind (put_at T table h main_base) (\<lambda>table.
          obind (get_hash_at T input 1) (\<lambda>forward_hash.
          obind (dict_loop (Suc (length input))
              \<lparr>d_table = T, d_input = input, d_dict = ext_dict, d_pristine = dict_table, d_base = main_base\<rparr>
              1 0 table ([], rest) forward_hash) (\<lambda>(table, w).
          finish table w))))))))"

section \<open>One-shot functions\<close>

text \<open>The choice of table, after the test for a dictionary that is too short.\<close>

definition compress_sink_sized ::
  "bool \<Rightarrow> bytes \<Rightarrow> SliceSink \<Rightarrow> bytes \<Rightarrow> (CompressError, nat \<times> SliceSink) outcome" where
  "compress_sink_sized use_dict input s dict_data =
     (if length dict_data + length input < u16_max then
        obind (HashTableU32U16_new DEFAULT_DICT_ENTRIES) (\<lambda>table.
        obind (init_dict (u16_table DEFAULT_DICT_ENTRIES) table dict_data) (\<lambda>(table, dict_data).
        obind (compress_internal \<lparr>USE_DICT = use_dict, HAS_OFFSET = use_dict, READONLY = False, NEAR = True\<rparr>
            (u16_table DEFAULT_DICT_ENTRIES) input 0 s table dict_data (length dict_data)) (\<lambda>(n, s, _).
        Ok (n, s))))
      else
        obind (HashTableU32_new DEFAULT_NODICT_ENTRIES) (\<lambda>table.
        obind (init_dict (u32_table DEFAULT_NODICT_ENTRIES) table dict_data) (\<lambda>(table, dict_data).
        obind (compress_internal \<lparr>USE_DICT = use_dict, HAS_OFFSET = use_dict, READONLY = False, NEAR = False\<rparr>
            (u32_table DEFAULT_NODICT_ENTRIES) input 0 s table dict_data (length dict_data)) (\<lambda>(n, s, _).
        Ok (n, s)))))"

definition compress_into_sink_with_dict ::
  "bool \<Rightarrow> bytes \<Rightarrow> SliceSink \<Rightarrow> bytes \<Rightarrow> (CompressError, nat \<times> SliceSink) outcome" where
  "compress_into_sink_with_dict use_dict input s dict_data =
     (if use_dict \<and> length dict_data < MINMATCH then compress_sink_sized False input s []
      else compress_sink_sized use_dict input s dict_data)"

text \<open>The caller's buffer is returned with the count; an error leaves it unchanged.\<close>

definition compress_into :: "bytes \<Rightarrow> bytes \<Rightarrow> (CompressError, nat \<times> bytes) outcome" where
  "compress_into input out =
     obind (SliceSink_new out 0) (\<lambda>s.
     obind (compress_into_sink_with_dict False input s []) (\<lambda>(n, s). Ok (n, sink_output s)))"

definition compress_into_with_dict :: "bytes \<Rightarrow> bytes \<Rightarrow> bytes \<Rightarrow> (CompressError, nat \<times> bytes) outcome" where
  "compress_into_with_dict input out dict =
     obind (SliceSink_new out 0) (\<lambda>s.
     obind (compress_into_sink_with_dict True input s dict) (\<lambda>(n, s). Ok (n, sink_output s)))"

text \<open>\<^verbatim>\<open>unwrap\<close> turns an error into a panic.\<close>

fun unwrap :: "('e, 'a) outcome \<Rightarrow> ('f, 'a) outcome" where
  "unwrap (Ok x) = Ok x"
| "unwrap (Err e) = Panic"
| "unwrap Panic = Panic"
| "unwrap Diverge = Diverge"

definition compress :: "bytes \<Rightarrow> ('e, bytes) outcome" where
  "compress input =
     obind (get_maximum_output_size (length input)) (\<lambda>max_compressed_size.
     obind (SliceSink_new (replicate max_compressed_size 0) 0) (\<lambda>s.
     obind (unwrap (compress_into_sink_with_dict False input s [])) (\<lambda>(n, s).
     Ok (take n (sink_output s)))))"

section \<open>Reusable compressors without a dictionary\<close>

record CompressorRefN =
  cr_table :: HashTableU32
  cr_stream_offset :: nat

definition CompressorRefN_new :: "nat \<Rightarrow> ('e, CompressorRefN) outcome" where
  "CompressorRefN_new N =
     obind (HashTableU32_new N) (\<lambda>t. Ok \<lparr>cr_table = t, cr_stream_offset = 0\<rparr>)"

text \<open>The new table and stream offset, and the offset of this call.\<close>

definition prepare_plain_table :: "HashTableU32 \<Rightarrow> nat \<Rightarrow> nat \<Rightarrow> HashTableU32 \<times> nat \<times> nat" where
  "prepare_plain_table table stream_offset input_len =
     (if EPOCH_THRESHOLD < input_len then
        (HashTableU32_clear table, input_len + MAX_DISTANCE + 1, 0)
      else
        let offset = stream_offset;
            nxt = Option.bind (checked_add offset input_len) (\<lambda>v. checked_add v (MAX_DISTANCE + 1)) in
        case nxt of
          Some nxt \<Rightarrow>
            if nxt \<le> u32_max then (table, nxt, offset)
            else (HashTableU32_clear table, input_len + MAX_DISTANCE + 1, 0)
        | None \<Rightarrow> (HashTableU32_clear table, input_len + MAX_DISTANCE + 1, 0))"

text \<open>The entry count is the length of the table.  An error keeps the prepared table and offset.\<close>

definition compress_plain_table ::
  "HashTableU32 \<Rightarrow> nat \<Rightarrow> bytes \<Rightarrow> bytes \<Rightarrow>
   (CompressError \<times> HashTableU32 \<times> nat, nat \<times> HashTableU32 \<times> nat \<times> bytes) outcome" where
  "compress_plain_table table stream_offset input out =
     (let (table, stream_offset, offset) = prepare_plain_table table stream_offset (length input);
          m = (if 0 < offset then
                 \<lparr>USE_DICT = False, HAS_OFFSET = True, READONLY = False, NEAR = True\<rparr>
               else if length input \<le> MAX_DISTANCE + 1 then
                 \<lparr>USE_DICT = False, HAS_OFFSET = False, READONLY = False, NEAR = True\<rparr>
               else \<lparr>USE_DICT = False, HAS_OFFSET = False, READONLY = False, NEAR = False\<rparr>) in
      obind (SliceSink_new out 0) (\<lambda>s.
      obind (map_err (\<lambda>e. (e, table, stream_offset))
          (compress_internal m (u32_table (length table)) input 0 s table [] offset)) (\<lambda>(n, s, table).
      Ok (n, table, stream_offset, sink_output s))))"

definition CompressorRefN_compress_into ::
  "CompressorRefN \<Rightarrow> bytes \<Rightarrow> bytes \<Rightarrow>
   (CompressError \<times> CompressorRefN, nat \<times> CompressorRefN \<times> bytes) outcome" where
  "CompressorRefN_compress_into self input out =
     obind (map_err (\<lambda>(e, t, so). (e, \<lparr>cr_table = t, cr_stream_offset = so\<rparr>))
       (compress_plain_table (cr_table self) (cr_stream_offset self) input out)) (\<lambda>(n, t, so, out).
     Ok (n, \<lparr>cr_table = t, cr_stream_offset = so\<rparr>, out))"

definition CompressorRefN_compress :: "CompressorRefN \<Rightarrow> bytes \<Rightarrow> ('e, bytes \<times> CompressorRefN) outcome" where
  "CompressorRefN_compress self input =
     obind (get_maximum_output_size (length input)) (\<lambda>max_compressed.
     obind (unwrap (CompressorRefN_compress_into self input (replicate max_compressed 0))) (\<lambda>(n, self, out).
     Ok (take n out, self)))"

section \<open>Reusable compressors with a dictionary\<close>

record DictCompressorRefN =
  dc_table :: HashTableU32U16
  dc_pristine :: HashTableU32U16
  dc_main_base :: nat
  dc_dict :: bytes

definition DictCompressorRefN_new :: "nat \<Rightarrow> bytes \<Rightarrow> (CompressError, DictCompressorRefN) outcome" where
  "DictCompressorRefN_new N dict =
     (let trimmed = (if length dict < MINMATCH then []
        else if WINDOW_SIZE < length dict then drop (length dict - WINDOW_SIZE) dict
        else dict) in
      obind (HashTableU32U16_new N) (\<lambda>pristine.
      obind (init_dict (u16_table N) pristine trimmed) (\<lambda>(pristine, _).
      obind (HashTableU32U16_new N) (\<lambda>table.
      Ok \<lparr>dc_table = table, dc_pristine = pristine, dc_main_base = 1, dc_dict = trimmed\<rparr>))))"

text \<open>
  The result has the two tables and the base; an error keeps the table that was cleared for
  the call and the base that was moved.
\<close>

definition compress_dict_tables ::
  "HashTableU32U16 \<Rightarrow> HashTableU32U16 \<Rightarrow> nat \<Rightarrow> bytes \<Rightarrow> bytes \<Rightarrow> bytes \<Rightarrow>
   (CompressError \<times> HashTableU32U16 \<times> HashTableU32U16 \<times> nat,
    nat \<times> HashTableU32U16 \<times> HashTableU32U16 \<times> nat \<times> bytes) outcome" where
  "compress_dict_tables table pristine main_base dict input out =
     (let N = length table in
      obind (SliceSink_new out 0) (\<lambda>s.
      if length input \<le> DICT_READONLY_LIMIT \<and> length dict + length input < u16_max then
        obind (map_err (\<lambda>e. (e, table, pristine, main_base))
            (compress_internal \<lparr>USE_DICT = True, HAS_OFFSET = True, READONLY = True, NEAR = True\<rparr>
              (u16_table N) input 0 s pristine dict (length dict))) (\<lambda>(n, s, pristine).
        Ok (n, table, pristine, main_base, sink_output s))
      else if length dict + length input < u16_max then
        let (table, main_base) =
              (if DICT_EPOCH_THRESHOLD < length input \<or> u16_max < main_base + length input
               then (HashTableU32U16_clear table, 1) else (table, main_base));
            base = main_base;
            main_base = main_base + length input in
        obind (map_err (\<lambda>e. (e, table, pristine, main_base))
            (compress_with_dict_table (u16_table N) input s table pristine dict (length dict) base))
          (\<lambda>(n, s, table).
        Ok (n, table, pristine, main_base, sink_output s))
      else
        obind (HashTableU32_new N) (\<lambda>u32_table0.
        obind (map_err (\<lambda>e. (e, table, pristine, main_base)) (init_dict (u32_table N) u32_table0 dict))
          (\<lambda>(u32_table0, dict_data).
        obind (map_err (\<lambda>e. (e, table, pristine, main_base))
            (compress_internal \<lparr>USE_DICT = True, HAS_OFFSET = True, READONLY = False, NEAR = False\<rparr>
              (u32_table N) input 0 s u32_table0 dict_data (length dict_data))) (\<lambda>(n, s, _).
        Ok (n, table, pristine, main_base, sink_output s))))))"

definition DictCompressorRefN_compress_into ::
  "DictCompressorRefN \<Rightarrow> bytes \<Rightarrow> bytes \<Rightarrow>
   (CompressError \<times> DictCompressorRefN, nat \<times> DictCompressorRefN \<times> bytes) outcome" where
  "DictCompressorRefN_compress_into self input out =
     (let upd = (\<lambda>t p b. self\<lparr>dc_table := t, dc_pristine := p, dc_main_base := b\<rparr>) in
      obind (map_err (\<lambda>(e, t, p, b). (e, upd t p b))
        (compress_dict_tables (dc_table self) (dc_pristine self) (dc_main_base self) (dc_dict self) input out))
        (\<lambda>(n, t, p, b, out). Ok (n, upd t p b, out)))"

definition DictCompressorRefN_compress ::
  "DictCompressorRefN \<Rightarrow> bytes \<Rightarrow> ('e, bytes \<times> DictCompressorRefN) outcome" where
  "DictCompressorRefN_compress self input =
     obind (get_maximum_output_size (length input)) (\<lambda>max_compressed.
     obind (unwrap (DictCompressorRefN_compress_into self input (replicate max_compressed 0)))
       (\<lambda>(n, self, out). Ok (take n out, self)))"

end
