(* ===== verification/Frame_Encoder.thy ===== *)
theory Frame_Encoder
  imports Frame_Header Encoder
begin

text \<open>
  \<^verbatim>\<open>src/frame/compress.rs\<close>: the streaming encoder of the frame format.

  The writer is the caller's: its type is a parameter, and what the encoder calls of
  \<^verbatim>\<open>io::Write\<close> is the record \<open>io_write\<close>.  The methods take the encoder and return it; an error
  returns it as well, in the state the failed method leaves.  The capacities of the vectors,
  which \<^verbatim>\<open>init\<close> reserves and some debug assertions compare, are not modelled: a vector is its
  contents.
\<close>

section \<open>Writers\<close>

record 'w io_write =
  write_all :: "'w \<Rightarrow> bytes \<Rightarrow> io_error option \<times> 'w"
  flush_w :: "'w \<Rightarrow> io_error option \<times> 'w"

text \<open>\<^verbatim>\<open>Vec<u8>\<close> as a writer\<close>

definition vec_writer :: "bytes io_write" where
  "vec_writer = \<lparr>write_all = \<lambda>w bs. (None, w @ bs), flush_w = \<lambda>w. (None, w)\<rparr>"

section \<open>Vectors\<close>

definition resize :: "bytes \<Rightarrow> nat \<Rightarrow> bytes" where
  "resize v n = take n v @ replicate (n - length v) 0"

text \<open>The part of the vector before the sink and the sink.\<close>

definition vec_sink_for_compression :: "bytes \<Rightarrow> nat \<Rightarrow> nat \<Rightarrow> nat \<Rightarrow> ('e, bytes \<times> SliceSink) outcome" where
  "vec_sink_for_compression vec offset pos required_capacity =
     (let vec = resize vec (offset + required_capacity) in
      obind (sub_slice vec offset (length vec)) (\<lambda>out.
      obind (SliceSink_new out pos) (\<lambda>s. Ok (take offset vec, s))))"

definition vec_copy_overwriting :: "bytes \<Rightarrow> nat \<Rightarrow> bytes \<Rightarrow> ('e, bytes) outcome" where
  "vec_copy_overwriting target target_start src =
     obind (usub (length target) target_start) (\<lambda>room.
     let overwrite_len = min room (length src) in
     obind (copy_into target target_start (target_start + overwrite_len) (take overwrite_len src)) (\<lambda>target.
     Ok (target @ drop overwrite_len src)))"

section \<open>The encoder\<close>

record ('h, 'w) FrameEncoder =
  fe_src :: bytes
  fe_src_start :: nat
  fe_src_end :: nat
  fe_ext_dict_offset :: nat
  fe_ext_dict_len :: nat
  fe_src_stream_offset :: nat
  fe_table :: HashTableU32
  fe_w :: 'w
  fe_hasher :: 'h
  fe_content_len :: nat
  fe_dst :: bytes
  fe_is_frame_open :: bool
  fe_failed :: bool
  fe_data_to_frame_written :: bool
  fe_frame_info :: FrameInfo
  fe_dict :: bytes

definition FrameEncoder_with_frame_info :: "'h hasher \<Rightarrow> FrameInfo \<Rightarrow> 'w \<Rightarrow> ('e, ('h, 'w) FrameEncoder) outcome" where
  "FrameEncoder_with_frame_info H frame_info wtr =
     obind (HashTableU32_new DEFAULT_NODICT_ENTRIES) (\<lambda>table.
     Ok \<lparr>fe_src = [], fe_src_start = 0, fe_src_end = 0, fe_ext_dict_offset = 0, fe_ext_dict_len = 0,
       fe_src_stream_offset = 0, fe_table = table, fe_w = wtr, fe_hasher = with_seed H 0, fe_content_len = 0,
       fe_dst = [], fe_is_frame_open = False, fe_failed = False, fe_data_to_frame_written = False,
       fe_frame_info = frame_info, fe_dict = []\<rparr>)"

definition FrameEncoder_new :: "'h hasher \<Rightarrow> 'w \<Rightarrow> ('e, ('h, 'w) FrameEncoder) outcome" where
  "FrameEncoder_new H wtr = FrameEncoder_with_frame_info H FrameInfo_new wtr"

definition FrameEncoder_with_dictionary ::
  "'h hasher \<Rightarrow> 'w \<Rightarrow> bytes \<Rightarrow> 32 word \<Rightarrow> FrameInfo option \<Rightarrow> (Error, ('h, 'w) FrameEncoder) outcome" where
  "FrameEncoder_with_dictionary H wtr dict did frame_info =
     (let frame_info = (case frame_info of None \<Rightarrow> FrameInfo_new | Some i \<Rightarrow> i);
          frame_info = frame_info\<lparr>dict_id := Some did\<rparr> in
      obind (FrameEncoder_with_frame_info H frame_info wtr) (\<lambda>enc.
      Ok (enc\<lparr>fe_dict := dict\<rparr>)))"

type_synonym ('h, 'w) io_step = "(io_error \<times> ('h, 'w) FrameEncoder, ('h, 'w) FrameEncoder) outcome"

text \<open>\<^verbatim>\<open>self.w.write_all(bs)?\<close>, and \<^verbatim>\<open>?\<close> on a result that does not change the encoder\<close>

definition w_all :: "'w io_write \<Rightarrow> ('h, 'w) FrameEncoder \<Rightarrow> bytes \<Rightarrow> ('h, 'w) io_step" where
  "w_all W self bs =
     (case write_all W (fe_w self) bs of
        (None, w) \<Rightarrow> Ok (self\<lparr>fe_w := w\<rparr>)
      | (Some e, w) \<Rightarrow> Err (e, self\<lparr>fe_w := w\<rparr>))"

definition lift :: "('h, 'w) FrameEncoder \<Rightarrow> (Error, 'a) outcome \<Rightarrow> (io_error \<times> ('h, 'w) FrameEncoder, 'a) outcome" where
  "lift self r = map_err (\<lambda>e. (io_of_Error e, self)) r"

definition end_frame ::
  "'h hasher \<Rightarrow> 'w io_write \<Rightarrow> ('h, 'w) FrameEncoder \<Rightarrow>
   (Error \<times> ('h, 'w) FrameEncoder, ('h, 'w) FrameEncoder) outcome" where
  "end_frame H W self =
     (if \<not> fe_is_frame_open self then Panic
      else
        let mismatch = (case content_size (fe_frame_info self) of
          Some expected \<Rightarrow> unat expected \<noteq> fe_content_len self | None \<Rightarrow> False) in
        if mismatch then
          Err (ContentLengthError (the (content_size (fe_frame_info self))) (word_of_nat (fe_content_len self)), self)
        else
          obind (map_err (\<lambda>e. (e, self)) (BlockInfo_write EndMark (replicate BLOCK_INFO_SIZE 0))) (\<lambda>(_, buffer).
          obind (map_err (\<lambda>(e, s). (Error_of_io e, s)) (w_all W self buffer)) (\<lambda>self.
          obind (if content_checksum (fe_frame_info self) then
              let checksum = ucast (hash_finish H (fe_hasher self)) :: 32 word in
              map_err (\<lambda>(e, s). (Error_of_io e, s)) (w_all W self (le_of_word 4 checksum))
            else Ok self) (\<lambda>self.
          Ok (self\<lparr>fe_is_frame_open := False\<rparr>)))))"

definition begin_frame :: "'h hasher \<Rightarrow> 'w io_write \<Rightarrow> ('h, 'w) FrameEncoder \<Rightarrow> nat \<Rightarrow> ('h, 'w) io_step" where
  "begin_frame H W self buf_len =
     obind (if block_size (fe_frame_info self) = Auto then
         obind (from_buf_length buf_len) (\<lambda>b.
         Ok (self\<lparr>fe_frame_info := (fe_frame_info self)\<lparr>block_size := b\<rparr>\<rparr>))
       else Ok self) (\<lambda>self.
     obind (lift self (FrameInfo_write H (fe_frame_info self) (replicate MAX_FRAME_INFO_SIZE 0))) (\<lambda>(n, buffer).
     obind (w_all W self (take n buffer)) (\<lambda>self.
     let self =
       (if fe_content_len self \<noteq> 0 then
          self\<lparr>fe_content_len := 0, fe_src_stream_offset := 0, fe_src := [], fe_src_start := 0, fe_src_end := 0,
            fe_ext_dict_len := 0, fe_hasher := with_seed H 0, fe_table := HashTableU32_clear (fe_table self)\<rparr>
        else self) in
     Ok (self\<lparr>fe_is_frame_open := True\<rparr>))))"

subsection \<open>Writing a block\<close>

text \<open>The entries of the table stay below 31 bits.\<close>

definition reposition :: "nat \<Rightarrow> ('h, 'w) FrameEncoder \<Rightarrow> ('e, ('h, 'w) FrameEncoder) outcome" where
  "reposition max_block_size self =
     (if u32_max div 2 \<le> fe_src_stream_offset self + max_block_size + WINDOW_SIZE then
        obind (usub (fe_src_stream_offset self) (fe_ext_dict_len self)) (\<lambda>delta.
        Ok (self\<lparr>fe_table := HashTableU32_reposition (fe_table self) (word_of_nat delta),
          fe_src_stream_offset := fe_ext_dict_len self\<rparr>))
      else Ok self)"

text \<open>
  The three ways a block is compressed: with the external dictionary, with the end of the
  previous input as dictionary, or after the previous input.  The count, the new \<^verbatim>\<open>dst\<close> and the
  new table.
\<close>

definition compress_block ::
  "('h, 'w) FrameEncoder \<Rightarrow> bytes \<Rightarrow> bytes \<Rightarrow> (CompressError, nat \<times> bytes \<times> HashTableU32) outcome" where
  "compress_block self input src =
     obind (get_maximum_output_size (length src)) (\<lambda>dst_required_size.
     let info = fe_frame_info self; first_frame_block = (fe_content_len self = 0) in
     obind (vec_sink_for_compression (fe_dst self) 0 0 dst_required_size) (\<lambda>(pre, s).
     if fe_dict self \<noteq> [] \<and> (block_mode info = Independent \<or> first_frame_block) then
       if fe_ext_dict_len self \<noteq> 0 then Panic
       else
         obind (compress_into_sink_with_dict True src s (fe_dict self)) (\<lambda>(n, s).
         Ok (n, pre @ sink_output s, fe_table self))
     else if fe_ext_dict_len self \<noteq> 0 then
       if block_mode info \<noteq> Linked then Panic
       else
         obind (sub_slice (fe_src self) (fe_ext_dict_offset self) (fe_ext_dict_offset self + fe_ext_dict_len self)) (\<lambda>ext_dict.
         obind (compress_into_sink_with_table
             \<lparr>USE_DICT = True, HAS_OFFSET = True, READONLY = False, NEAR = False\<rparr> DEFAULT_NODICT_ENTRIES
             input (fe_src_start self) s (fe_table self) ext_dict (fe_src_stream_offset self)) (\<lambda>(n, s, table).
         Ok (n, pre @ sink_output s, table)))
     else
       obind (compress_into_sink_with_table
           \<lparr>USE_DICT = False, HAS_OFFSET = True, READONLY = False, NEAR = False\<rparr> DEFAULT_NODICT_ENTRIES
           input (fe_src_start self) s (fe_table self) [] (fe_src_stream_offset self)) (\<lambda>(n, s, table).
       Ok (n, pre @ sink_output s, table))))"

text \<open>The buffer after a block of \<open>n\<close> bytes.\<close>

definition advance_linked :: "nat \<Rightarrow> ('h, 'w) FrameEncoder \<Rightarrow> ('e, ('h, 'w) FrameEncoder) outcome" where
  "advance_linked max_block_size self =
     obind
       (if max_block_size + WINDOW_SIZE \<le> fe_src_start self then
          obind (usub (fe_src_end self) WINDOW_SIZE) (\<lambda>ext_dict_offset.
          Ok (self\<lparr>fe_ext_dict_offset := ext_dict_offset, fe_ext_dict_len := WINDOW_SIZE,
            fe_src_stream_offset := fe_src_stream_offset self + fe_src_end self, fe_src_start := 0, fe_src_end := 0\<rparr>))
        else if WINDOW_SIZE < fe_src_start self + fe_ext_dict_len self then
          let delta = min (fe_ext_dict_len self) (fe_src_start self + fe_ext_dict_len self - WINDOW_SIZE);
              self = self\<lparr>fe_ext_dict_offset := fe_ext_dict_offset self + delta,
                fe_ext_dict_len := fe_ext_dict_len self - delta\<rparr> in
          if WINDOW_SIZE \<le> fe_src_start self + fe_ext_dict_len self then Ok self else Panic
        else Ok self) (\<lambda>self.
     if fe_ext_dict_len self = 0 \<or> fe_src_start self + max_block_size \<le> fe_ext_dict_offset self
     then Ok self else Panic)"

definition advance_independent :: "nat \<Rightarrow> ('h, 'w) FrameEncoder \<Rightarrow> ('e, ('h, 'w) FrameEncoder) outcome" where
  "advance_independent n self =
     (if fe_ext_dict_len self \<noteq> 0 then Panic
      else Ok (self\<lparr>fe_src_start := 0, fe_src_end := 0, fe_src_stream_offset := fe_src_stream_offset self + n\<rparr>))"

text \<open>The shorter form of the block.\<close>

definition choose_block :: "nat \<Rightarrow> bytes \<Rightarrow> bytes \<Rightarrow> ('e, BlockInfo \<times> bytes) outcome" where
  "choose_block comp_len dst src =
     (if comp_len < length src then
        obind (sub_slice dst 0 comp_len) (\<lambda>d. Ok (Compressed (word_of_nat comp_len), d))
      else Ok (Uncompressed (word_of_nat (length src)), src))"

text \<open>The first block of a linked frame is compressed with a table of its own.\<close>

definition seed_first_block :: "('h, 'w) FrameEncoder \<Rightarrow> bytes \<Rightarrow> ('h, 'w) io_step" where
  "seed_first_block self src =
     (if block_mode (fe_frame_info self) = Linked \<and> fe_dict self \<noteq> [] \<and> fe_content_len self = 0 then
        obind (lift self (map_err CompressionError
          (seed_table_with_input DEFAULT_NODICT_ENTRIES (fe_table self) src (fe_src_stream_offset self)))) (\<lambda>t.
        Ok (self\<lparr>fe_table := t\<rparr>))
      else Ok self)"

definition put_block :: "'h hasher \<Rightarrow> 'w io_write \<Rightarrow> ('h, 'w) FrameEncoder \<Rightarrow> BlockInfo \<Rightarrow> bytes \<Rightarrow> ('h, 'w) io_step" where
  "put_block H W self block_info block_data =
     obind (lift self (BlockInfo_write block_info (replicate BLOCK_INFO_SIZE 0))) (\<lambda>(_, buffer).
     obind (w_all W self buffer) (\<lambda>self.
     obind (w_all W self block_data) (\<lambda>self.
     if block_checksums (fe_frame_info self) then w_all W self (le_of_word 4 (oneshot H 0 block_data)) else Ok self)))"

definition count_block :: "'h hasher \<Rightarrow> ('h, 'w) FrameEncoder \<Rightarrow> bytes \<Rightarrow> ('e, ('h, 'w) FrameEncoder) outcome" where
  "count_block H self src =
     (let self = (if content_checksum (fe_frame_info self) then self\<lparr>fe_hasher := hash_write H (fe_hasher self) src\<rparr> else self) in
      if \<not> fe_content_len self + length src < 2 ^ 64 then Panic
      else
        let self = self\<lparr>fe_content_len := fe_content_len self + length src, fe_src_start := fe_src_start self + length src\<rparr> in
        if fe_src_start self \<noteq> fe_src_end self then Panic else Ok self)"

definition write_block :: "'h hasher \<Rightarrow> 'w io_write \<Rightarrow> ('h, 'w) FrameEncoder \<Rightarrow> ('h, 'w) io_step" where
  "write_block H W self =
     (if \<not> fe_is_frame_open self then Panic
      else
        obind (get_size (block_size (fe_frame_info self))) (\<lambda>max_block_size.
        obind (usub (fe_src_end self) (fe_src_start self)) (\<lambda>filled.
        if \<not> filled \<le> max_block_size then Panic
        else
          obind (reposition max_block_size self) (\<lambda>self.
          obind (sub_slice (fe_src self) 0 (fe_src_end self)) (\<lambda>input.
          obind (sub_slice input (fe_src_start self) (length input)) (\<lambda>src.
          obind (lift self (map_err CompressionError (compress_block self input src))) (\<lambda>(comp_len, dst, table).
          obind (choose_block comp_len dst src) (\<lambda>(block_info, block_data).
          obind (seed_first_block (self\<lparr>fe_dst := dst, fe_table := table\<rparr>) src) (\<lambda>self.
          obind (put_block H W self block_info block_data) (\<lambda>self.
          obind (count_block H self src) (\<lambda>self.
          obind (if block_mode (fe_frame_info self) = Linked then advance_linked max_block_size self
            else advance_independent (length src) self) (\<lambda>self.
          if fe_src_start self \<le> fe_src_end self then Ok self else Panic))))))))))))"

section \<open>Writing, flushing, finishing\<close>

fun write_loop :: "nat \<Rightarrow> 'h hasher \<Rightarrow> 'w io_write \<Rightarrow> ('h, 'w) FrameEncoder \<Rightarrow> bytes \<Rightarrow> ('h, 'w) io_step" where
  "write_loop 0 H W self buf = Diverge"
| "write_loop (Suc fuel) H W self buf =
     (if buf = [] then Ok self
      else
        obind (usub (fe_src_end self) (fe_src_start self)) (\<lambda>src_filled.
        obind (get_size (block_size (fe_frame_info self))) (\<lambda>max_block_size.
        obind (usub max_block_size src_filled) (\<lambda>max_fill_len.
        if max_fill_len = 0 then
          obind (write_block H W self) (\<lambda>self.
          if fe_src_end self \<noteq> fe_src_start self then Panic
          else write_loop fuel H W self buf)
        else
          let fill_len = min max_fill_len (length buf) in
          obind (vec_copy_overwriting (fe_src self) (fe_src_end self) (take fill_len buf)) (\<lambda>src.
          write_loop fuel H W (self\<lparr>fe_src := src, fe_src_end := fe_src_end self + fill_len\<rparr>) (drop fill_len buf))))))"

definition FrameEncoder_write ::
  "'h hasher \<Rightarrow> 'w io_write \<Rightarrow> ('h, 'w) FrameEncoder \<Rightarrow> bytes \<Rightarrow>
   (io_error \<times> ('h, 'w) FrameEncoder, nat \<times> ('h, 'w) FrameEncoder) outcome" where
  "FrameEncoder_write H W self buf =
     (if fe_failed self then Err (Plain Other ''encoder cannot be reused after an error'', self)
      else
        let self = self\<lparr>fe_failed := True\<rparr> in
        obind (if \<not> fe_is_frame_open self \<and> buf \<noteq> [] then begin_frame H W self (length buf) else Ok self) (\<lambda>self.
        obind (write_loop (2 * length buf + 2) H W self buf) (\<lambda>self.
        Ok (length buf, self\<lparr>fe_failed := False\<rparr>))))"

definition FrameEncoder_flush :: "'h hasher \<Rightarrow> 'w io_write \<Rightarrow> ('h, 'w) FrameEncoder \<Rightarrow> ('h, 'w) io_step" where
  "FrameEncoder_flush H W self =
     (if fe_failed self then Err (Plain Other ''encoder cannot be reused after an error'', self)
      else
        let self = self\<lparr>fe_failed := True\<rparr> in
        obind (if fe_src_start self \<noteq> fe_src_end self then write_block H W self else Ok self) (\<lambda>self.
        case flush_w W (fe_w self) of
          (Some e, w) \<Rightarrow> Err (e, self\<lparr>fe_w := w\<rparr>)
        | (None, w) \<Rightarrow> Ok (self\<lparr>fe_w := w, fe_failed := False\<rparr>)))"

definition try_finish ::
  "'h hasher \<Rightarrow> 'w io_write \<Rightarrow> ('h, 'w) FrameEncoder \<Rightarrow>
   (Error \<times> ('h, 'w) FrameEncoder, ('h, 'w) FrameEncoder) outcome" where
  "try_finish H W self =
     obind (map_err (\<lambda>(e, s). (Error_of_io e, s)) (FrameEncoder_flush H W self)) (\<lambda>self.
     if \<not> fe_is_frame_open self \<and> fe_data_to_frame_written self then Ok self
     else
       let self = self\<lparr>fe_failed := True\<rparr> in
       obind (if \<not> fe_is_frame_open self then map_err (\<lambda>(e, s). (Error_of_io e, s)) (begin_frame H W self 0)
         else Ok self) (\<lambda>self.
       obind (end_frame H W self) (\<lambda>self.
       Ok (self\<lparr>fe_data_to_frame_written := True, fe_failed := False\<rparr>))))"

definition finish :: "'h hasher \<Rightarrow> 'w io_write \<Rightarrow> ('h, 'w) FrameEncoder \<Rightarrow> (Error, 'w) outcome" where
  "finish H W self = obind (map_err fst (try_finish H W self)) (\<lambda>self. Ok (fe_w self))"

definition into_inner :: "('h, 'w) FrameEncoder \<Rightarrow> 'w" where
  "into_inner self = fe_w self"

section \<open>Finishing on drop\<close>

record ('h, 'w) AutoFinishEncoder =
  af_encoder :: "('h, 'w) FrameEncoder option"

definition auto_finish :: "('h, 'w) FrameEncoder \<Rightarrow> ('h, 'w) AutoFinishEncoder" where
  "auto_finish self = \<lparr>af_encoder = Some self\<rparr>"

text \<open>The encoder as \<^verbatim>\<open>drop\<close> leaves it, whatever \<^verbatim>\<open>try_finish\<close> returned.\<close>

definition AutoFinishEncoder_drop ::
  "'h hasher \<Rightarrow> 'w io_write \<Rightarrow> ('h, 'w) AutoFinishEncoder \<Rightarrow> ('e, ('h, 'w) FrameEncoder option) outcome" where
  "AutoFinishEncoder_drop H W self =
     (case af_encoder self of
        None \<Rightarrow> Ok None
      | Some encoder \<Rightarrow>
          (case try_finish H W encoder of
             Ok encoder \<Rightarrow> Ok (Some encoder)
           | Err (_, encoder) \<Rightarrow> Ok (Some encoder)
           | Panic \<Rightarrow> Panic
           | Diverge \<Rightarrow> Diverge))"

definition AutoFinishEncoder_write ::
  "'h hasher \<Rightarrow> 'w io_write \<Rightarrow> ('h, 'w) AutoFinishEncoder \<Rightarrow> bytes \<Rightarrow>
   (io_error \<times> ('h, 'w) AutoFinishEncoder, nat \<times> ('h, 'w) AutoFinishEncoder) outcome" where
  "AutoFinishEncoder_write H W self buf =
     (case af_encoder self of
        None \<Rightarrow> Err (Plain Other ''encoder already finished'', self)
      | Some enc \<Rightarrow>
          obind (map_err (\<lambda>(e, enc). (e, \<lparr>af_encoder = Some enc\<rparr>)) (FrameEncoder_write H W enc buf)) (\<lambda>(n, enc).
          Ok (n, \<lparr>af_encoder = Some enc\<rparr>)))"

definition AutoFinishEncoder_flush ::
  "'h hasher \<Rightarrow> 'w io_write \<Rightarrow> ('h, 'w) AutoFinishEncoder \<Rightarrow>
   (io_error \<times> ('h, 'w) AutoFinishEncoder, ('h, 'w) AutoFinishEncoder) outcome" where
  "AutoFinishEncoder_flush H W self =
     (case af_encoder self of
        None \<Rightarrow> Err (Plain Other ''encoder already finished'', self)
      | Some enc \<Rightarrow>
          obind (map_err (\<lambda>(e, enc). (e, \<lparr>af_encoder = Some enc\<rparr>)) (FrameEncoder_flush H W enc)) (\<lambda>enc.
          Ok \<lparr>af_encoder = Some enc\<rparr>))"

end
