(* ===== verification/Frame_Header_Correct.thy ===== *)
theory Frame_Header_Correct
  imports Frame_Header
begin

text \<open>
  The bytes of a frame header and of a block header, as the format lays them out, and that the
  code writes and reads exactly these.
\<close>

unbundle bit_operations_syntax

section \<open>Layout\<close>

definition header_flags :: "FrameInfo \<Rightarrow> byte" where
  "header_flags info =
     FLG_SUPPORTED_VERSION_BITS OR (if block_mode info = Independent then FLG_INDEPENDENT_BLOCKS else 0) OR
     (if block_checksums info then FLG_BLOCK_CHECKSUMS else 0) OR
     (if content_size info \<noteq> None then FLG_CONTENT_SIZE else 0) OR
     (if content_checksum info then FLG_CONTENT_CHECKSUM else 0) OR
     (if dict_id info \<noteq> None then FLG_DICTIONARY_ID else 0)"

definition opt_bytes :: "nat \<Rightarrow> 'a :: len word option \<Rightarrow> bytes" where
  "opt_bytes n v = (case v of None \<Rightarrow> [] | Some w \<Rightarrow> le_of_word n w)"

definition header_descriptor :: "FrameInfo \<Rightarrow> bytes" where
  "header_descriptor info =
     header_flags info # push_bit 4 (BlockSize_number (block_size info)) #
     opt_bytes 8 (content_size info) @ opt_bytes 4 (dict_id info)"

definition header_bytes :: "'h hasher \<Rightarrow> FrameInfo \<Rightarrow> bytes" where
  "header_bytes H info =
     le_of_word 4 LZ4F_MAGIC_NUMBER @ header_descriptor info @ [header_checksum H (header_descriptor info)]"

lemma length_le_of_word [simp]: "length (le_of_word n w) = n"
  by (simp add: le_of_word_def)

lemma length_opt_bytes: "length (opt_bytes n v) = (if v = None then 0 else n)"
  by (auto simp: opt_bytes_def split: option.splits)

lemma length_header_descriptor:
  "length (header_descriptor info) = 2 + (if content_size info = None then 0 else 8) + (if dict_id info = None then 0 else 4)"
  by (simp add: header_descriptor_def length_opt_bytes)

lemma length_header_bytes: "length (header_bytes H info) = FrameInfo_write_size info"
  by (simp add: header_bytes_def length_header_descriptor FrameInfo_write_size_def)

lemma word_of_le_le_of_word:
  assumes "8 * n = LENGTH('a)"
  shows "word_of_le (le_of_word n (w :: 'a :: len word)) = w"
proof -
  have "(256 :: nat) ^ n = 2 ^ LENGTH('a)" by (simp add: power_mult flip: assms)
  then have "unat w < 256 ^ n" by (simp add: unsigned_less)
  then show ?thesis by (simp add: word_of_le_def le_of_word_def le_nat_le_bytes)
qed

lemma le_of_word_word_of_le:
  assumes "8 * length bs = LENGTH('a)"
  shows "le_of_word (length bs) (word_of_le bs :: 'a :: len word) = bs"
proof -
  have "(256 :: nat) ^ length bs = 2 ^ LENGTH('a)" by (simp add: power_mult flip: assms)
  then have "unat (word_of_le bs :: 'a word) = le_nat bs"
    using le_nat_bound [of bs] by (simp add: word_of_le_def unat_of_nat)
  then show ?thesis by (simp add: le_of_word_def le_bytes_le_nat)
qed

section \<open>Writing a header\<close>

text \<open>The buffer is what has been written, then zeros.\<close>

lemma copy_into_zeros:
  "length bs \<le> k \<Longrightarrow> a = length p \<Longrightarrow> b = a + length bs \<Longrightarrow>
   copy_into (p @ replicate k 0) a b bs = Ok (p @ bs @ replicate (k - length bs) 0)"
  by (simp add: copy_into_def blit_def)

lemma update_zeros:
  "length p < i \<Longrightarrow> i < length p + k \<Longrightarrow>
   (p @ replicate k 0)[i := x] = p @ replicate (i - length p) 0 @ x # replicate (k - Suc (i - length p)) 0"
  by (simp add: list_update_append) (simp add: upd_conv_take_nth_drop min_def)

lemma BlockSize_number_range: "4 \<le> BlockSize_number b \<and> BlockSize_number b \<le> 7 \<longleftrightarrow> b \<noteq> Auto"
  by (cases b) auto

lemma FrameInfo_write_eq:
  assumes "FrameInfo_write_size info \<le> length out"
  shows "FrameInfo_write H info out =
    (if block_size info = Auto then Err (UnsupportedBlocksize 0)
     else Ok (FrameInfo_write_size info, header_bytes H info @ drop (FrameInfo_write_size info) out))"
proof (cases "block_size info = Auto")
  case True
  with assms show ?thesis
    by (simp add: FrameInfo_write_def FrameInfo_write_size_def copy_into_def)
next
  case False
  define M where "M = le_of_word 4 LZ4F_MAGIC_NUMBER"
  define bd where "bd = push_bit 4 (BlockSize_number (block_size info))"
  define f0 where "f0 = (let flg = FLG_SUPPORTED_VERSION_BITS;
      flg = (if block_checksums info then flg OR FLG_BLOCK_CHECKSUMS else flg);
      flg = (if content_checksum info then flg OR FLG_CONTENT_CHECKSUM else flg) in
      if block_mode info = Independent then flg OR FLG_INDEPENDENT_BLOCKS else flg)"
  define f1 where "f1 = (if content_size info = None then f0 else f0 OR FLG_CONTENT_SIZE)"
  define f2 where "f2 = (if dict_id info = None then f1 else f1 OR FLG_DICTIONARY_ID)"
  have f2: "f2 = header_flags info"
    by (simp add: f2_def f1_def f0_def header_flags_def Let_def)
  have M: "length M = 4" by (simp add: M_def)
  have b1: "copy_into (replicate 19 0) 0 4 M = (Ok (M @ replicate 15 0) :: (Error, bytes) outcome)"
  proof -
    have "copy_into ([] @ replicate 19 0) 0 4 M = (Ok ([] @ M @ replicate (19 - length M) 0) :: (Error, bytes) outcome)"
      using M by (intro copy_into_zeros) simp_all
    with M show ?thesis by simp
  qed
  have b2: "(M @ replicate 15 0)[5 := bd] = (M @ [0, bd]) @ replicate 13 0"
    using update_zeros [of M 5 15 bd] M by simp
  define c where "c = M @ 0 # bd # opt_bytes 8 (content_size info)"
  define k where "k = (if content_size info = None then 13 else 5 :: nat)"
  have b3: "(case content_size info of
      None \<Rightarrow> Ok (f0, (M @ [0, bd]) @ replicate 13 0, 6)
    | Some n \<Rightarrow> obind (copy_into ((M @ [0, bd]) @ replicate 13 0) 6 14 (le_of_word 8 n)) (\<lambda>buffer.
        Ok (f0 OR FLG_CONTENT_SIZE, buffer, 14))) =
    (Ok (f1, c @ replicate k 0, length c) :: (Error, byte \<times> bytes \<times> nat) outcome)"
  proof (cases "content_size info")
    case None
    then show ?thesis using M by (simp add: c_def opt_bytes_def f1_def k_def)
  next
    case (Some n)
    have "copy_into ((M @ [0, bd]) @ replicate 13 0) 6 14 (le_of_word 8 n) =
        (Ok ((M @ [0, bd]) @ le_of_word 8 n @ replicate (13 - length (le_of_word 8 n)) 0) :: (Error, bytes) outcome)"
      using M by (intro copy_into_zeros) simp_all
    with Some show ?thesis using M by (simp add: c_def opt_bytes_def f1_def k_def)
  qed
  define d where "d = c @ opt_bytes 4 (dict_id info)"
  define l where "l = (if dict_id info = None then k else k - 4)"
  have b4: "(case dict_id info of
      None \<Rightarrow> Ok (f1, c @ replicate k 0, length c)
    | Some n \<Rightarrow> obind (copy_into (c @ replicate k 0) (length c) (length c + 4) (le_of_word 4 n)) (\<lambda>buffer.
        Ok (f1 OR FLG_DICTIONARY_ID, buffer, length c + 4))) =
    (Ok (f2, d @ replicate l 0, length d) :: (Error, byte \<times> bytes \<times> nat) outcome)"
  proof (cases "dict_id info")
    case None
    then show ?thesis by (simp add: d_def opt_bytes_def f2_def l_def)
  next
    case (Some n)
    have "copy_into (c @ replicate k 0) (length c) (length c + 4) (le_of_word 4 n) =
        (Ok (c @ le_of_word 4 n @ replicate (k - length (le_of_word 4 n)) 0) :: (Error, bytes) outcome)"
      by (intro copy_into_zeros) (simp_all add: k_def)
    with Some show ?thesis by (simp add: d_def opt_bytes_def f2_def l_def)
  qed
  define D where "D = header_descriptor info"
  have d: "d[4 := f2] = M @ D" "4 < length d"
    using M by (simp_all add: d_def c_def D_def header_descriptor_def f2 list_update_append bd_def [symmetric])
  then have ld: "length d = 4 + length D" using M by (metis length_append length_list_update)
  have b5: "(d @ replicate l 0)[4 := f2] = M @ D @ replicate l 0"
    using d by (simp add: list_update_append)
  have l: "0 < l" by (simp add: l_def k_def)
  have b6: "(M @ D @ replicate l 0)[length d := header_checksum H D] = header_bytes H info @ replicate (l - 1) 0"
    using ld M l by (cases l) (simp_all add: list_update_append header_bytes_def M_def D_def)
  have ws: "length d + 1 = FrameInfo_write_size info"
    using ld length_header_descriptor [of info] by (simp add: D_def FrameInfo_write_size_def)
  have wsz: "FrameInfo_write_size info = length (header_bytes H info)" by (simp add: length_header_bytes)
  have ok: "copy_into out 0 (FrameInfo_write_size info)
      (take (FrameInfo_write_size info) (header_bytes H info @ replicate (l - 1) 0)) =
      (Ok (header_bytes H info @ drop (FrameInfo_write_size info) out) :: (Error, bytes) outcome)"
    using assms by (simp add: copy_into_def blit_def wsz)
  have sl: "sub_slice (M @ D @ replicate l 0) 4 (length d) = (Ok D :: (Error, bytes) outcome)"
    using M ld by (simp add: sub_slice_ok)
  have small: "FrameInfo_write_size info \<le> length (replicate MAX_FRAME_INFO_SIZE (0 :: byte))"
    by (simp add: FrameInfo_write_size_def)
  have num: "4 \<le> BlockSize_number (block_size info) \<and> BlockSize_number (block_size info) \<le> 7"
    using False by (simp add: BlockSize_number_range)
  have len: "length d < length (M @ D @ replicate l 0)" using M ld l by simp
  show ?thesis
    using assms small num False
    by (simp only: FrameInfo_write_def Let_def not_less [symmetric] if_False simp_thms
        MAX_FRAME_INFO_SIZE_def M_def [symmetric] b1 obind.simps BD_BLOCK_SIZE_MASK_RSHIFT_def bd_def [symmetric] b2
        f0_def [unfolded Let_def, symmetric] b3 prod.case b4 b5 sl len b6 ws ok)
qed

section \<open>Reading a header\<close>

lemma word_and_bit: "(w :: 'a :: len word) AND 2 ^ k = (if bit w k then 2 ^ k else 0)"
  by (rule bit_word_eqI) (auto simp: bit_simps)

lemma byte_and_bits:
  "(if (w :: byte) AND 1 \<noteq> 0 then 1 else 0) = w AND 1" "(if w AND 4 \<noteq> 0 then 4 else 0) = w AND 4"
  "(if w AND 8 \<noteq> 0 then 8 else 0) = w AND 8" "(if w AND 16 \<noteq> 0 then 16 else 0) = w AND 16"
  "(if w AND 32 \<noteq> 0 then 32 else 0) = w AND 32"
  using word_and_bit [of w 0] word_and_bit [of w 2] word_and_bit [of w 3] word_and_bit [of w 4] word_and_bit [of w 5]
  by (auto split: if_splits)

lemma byte_and_255 [simp]: "(w :: byte) AND 255 = w"
proof -
  have "(255 :: byte) = NOT 0" by simp
  then show ?thesis by (metis bit.conj_one_right bit.compl_zero)
qed

lemma flags_rebuild:
  assumes "(f :: byte) AND 192 = 64" "f AND 2 = 0"
  shows "64 OR (if f AND 32 \<noteq> 0 then 32 else 0) OR (if f AND 16 \<noteq> 0 then 16 else 0) OR
    (if f AND 8 \<noteq> 0 then 8 else 0) OR (if f AND 4 \<noteq> 0 then 4 else 0) OR (if f AND 1 \<noteq> 0 then 1 else 0) = f"
proof -
  have "f = f AND (192 OR 32 OR 16 OR 8 OR 4 OR 2 OR 1)" by simp
  also have "\<dots> = f AND 192 OR f AND 32 OR f AND 16 OR f AND 8 OR f AND 4 OR f AND 2 OR f AND 1"
    by (simp only: bit.conj_disj_distrib)
  finally have "f = f AND 192 OR f AND 32 OR f AND 16 OR f AND 8 OR f AND 4 OR f AND 2 OR f AND 1" .
  then show ?thesis unfolding byte_and_bits assms by (simp add: ac_simps)
qed

lemma flags_rebuild_named:
  assumes "f AND FLG_VERSION_MASK = FLG_SUPPORTED_VERSION_BITS" "f AND FLG_RESERVED_MASK = 0"
  shows "FLG_SUPPORTED_VERSION_BITS OR (if f AND FLG_INDEPENDENT_BLOCKS \<noteq> 0 then FLG_INDEPENDENT_BLOCKS else 0) OR
    (if f AND FLG_BLOCK_CHECKSUMS \<noteq> 0 then FLG_BLOCK_CHECKSUMS else 0) OR
    (if f AND FLG_CONTENT_SIZE \<noteq> 0 then FLG_CONTENT_SIZE else 0) OR
    (if f AND FLG_CONTENT_CHECKSUM \<noteq> 0 then FLG_CONTENT_CHECKSUM else 0) OR
    (if f AND FLG_DICTIONARY_ID \<noteq> 0 then FLG_DICTIONARY_ID else 0) = f"
  using flags_rebuild [of f] assms
  by (simp only: FLG_VERSION_MASK_def FLG_SUPPORTED_VERSION_BITS_def FLG_RESERVED_MASK_def FLG_INDEPENDENT_BLOCKS_def
      FLG_BLOCK_CHECKSUMS_def FLG_CONTENT_SIZE_def FLG_CONTENT_CHECKSUM_def FLG_DICTIONARY_ID_def)

lemma mode_if: "(if c then Independent else Linked) = Independent \<longleftrightarrow> c"
  by simp

lemma flags_bits:
  "header_flags info AND FLG_VERSION_MASK = FLG_SUPPORTED_VERSION_BITS"
  "header_flags info AND FLG_RESERVED_MASK = 0"
  "header_flags info AND FLG_INDEPENDENT_BLOCKS \<noteq> 0 \<longleftrightarrow> block_mode info = Independent"
  "header_flags info AND FLG_BLOCK_CHECKSUMS \<noteq> 0 \<longleftrightarrow> block_checksums info"
  "header_flags info AND FLG_CONTENT_SIZE \<noteq> 0 \<longleftrightarrow> content_size info \<noteq> None"
  "header_flags info AND FLG_CONTENT_CHECKSUM \<noteq> 0 \<longleftrightarrow> content_checksum info"
  "header_flags info AND FLG_DICTIONARY_ID \<noteq> 0 \<longleftrightarrow> dict_id info \<noteq> None"
  by (simp_all add: header_flags_def)

lemma block_size_of_number:
  "b \<noteq> Auto \<Longrightarrow> block_size_of (drop_bit BD_BLOCK_SIZE_MASK_RSHIFT (push_bit 4 (BlockSize_number b) AND BD_BLOCK_SIZE_MASK)) = Ok b"
  "push_bit 4 (BlockSize_number b) AND BD_RESERVED_MASK = 0"
  by (cases b; simp)+

lemma block_size_of_Ok:
  assumes "block_size_of (drop_bit BD_BLOCK_SIZE_MASK_RSHIFT (bd AND BD_BLOCK_SIZE_MASK)) = Ok b" "bd AND BD_RESERVED_MASK = 0"
  shows "bd = push_bit 4 (BlockSize_number b)" "b \<noteq> Auto"
proof -
  have "bd = bd AND (112 OR NOT 112)" by simp
  also have "\<dots> = bd AND 112 OR bd AND NOT 112" by (simp only: bit.conj_disj_distrib)
  also have "\<dots> = bd AND 112" using assms(2) by simp
  also have "\<dots> = push_bit 4 (drop_bit 4 (bd AND 112))"
    using bits_ident [of 4 "bd AND 112"] by (simp add: take_bit_and)
  finally have e1: "bd = push_bit 4 (drop_bit 4 (bd AND 112))" .
  have e2: "drop_bit 4 (bd AND 112) = BlockSize_number b" and "b \<noteq> Auto"
    using assms(1) by (auto split: if_splits)
  then show "b \<noteq> Auto" by simp
  show "bd = push_bit 4 (BlockSize_number b)" by (rule e1 [unfolded e2])
qed

lemma take_exact_append: "length xs = n \<Longrightarrow> take_exact n (xs @ ys) = Ok (xs, ys)"
  by (simp add: take_exact_def)

lemma take_exact_Ok: "take_exact n input = Ok (xs, ys) \<longleftrightarrow> input = xs @ ys \<and> length xs = n"
  by (auto simp: take_exact_def intro: append_take_drop_id [symmetric])

text \<open>An optional field: read if its flag is set.\<close>

lemma read_option_append:
  assumes "b \<longleftrightarrow> v \<noteq> None" "8 * n = LENGTH('a)"
  shows "(if b then obind (take_exact n (opt_bytes n (v :: 'a :: len word option) @ rest)) (\<lambda>(x, input). Ok (Some (word_of_le x), input))
     else Ok (None, opt_bytes n v @ rest)) = Ok (v, rest)"
proof (cases v)
  case None
  then show ?thesis using assms(1) by (simp add: opt_bytes_def)
next
  case (Some w)
  then show ?thesis
    using assms take_exact_append [of "le_of_word n w" n rest] by (simp add: opt_bytes_def word_of_le_le_of_word)
qed

lemma read_option_Ok:
  assumes "(if b then obind (take_exact n input) (\<lambda>(x, input). Ok (Some (word_of_le x), input)) else Ok (None, input)) =
      Ok (v :: 'a :: len word option, rest)" "8 * n = LENGTH('a)"
  shows "input = opt_bytes n v @ rest \<and> (b \<longleftrightarrow> v \<noteq> None)"
  using assms le_of_word_word_of_le [where 'a = 'a]
  by (auto simp: obind_Ok_iff take_exact_Ok opt_bytes_def split: if_splits)

lemma magic_not_skippable: "LZ4F_SKIPPABLE_MAGIC_RANGE LZ4F_MAGIC_NUMBER = False"
  by (simp add: LZ4F_SKIPPABLE_MAGIC_RANGE_def LZ4F_MAGIC_NUMBER_def)

lemma FrameInfo_read_header_bytes:
  assumes "block_size info \<noteq> Auto"
  shows "FrameInfo_read H (header_bytes H info @ rest) = Ok info"
proof -
  define M where "M = le_of_word 4 LZ4F_MAGIC_NUMBER"
  define fb where "fb = [header_flags info, push_bit 4 (BlockSize_number (block_size info))]"
  define D where "D = header_descriptor info"
  define r1 where "r1 = [header_checksum H D] @ rest"
  define r2 where "r2 = opt_bytes 4 (dict_id info) @ r1"
  define r3 where "r3 = opt_bytes 8 (content_size info) @ r2"
  define original where "original = header_bytes H info @ rest"
  have o1: "original = M @ fb @ r3" and o2: "original = M @ D @ r1"
    by (simp_all add: original_def header_bytes_def M_def fb_def r3_def r2_def r1_def D_def header_descriptor_def)
  have t: "take_exact 4 original = Ok (M, fb @ r3)" "take_exact 2 (fb @ r3) = Ok (fb, r3)"
    "take_exact 1 r1 = Ok ([header_checksum H D], rest)"
    by (simp_all only: o1 r1_def, (intro take_exact_append; simp add: M_def fb_def)+)
  have m: "word_of_le M = LZ4F_MAGIC_NUMBER" by (simp add: M_def word_of_le_le_of_word)
  have "sub_slice original 4 (length original - length rest - 1) = (Ok D :: (Error, bytes) outcome)"
    by (simp add: o2 r1_def M_def sub_slice_ok)
  moreover have "\<lparr>content_size = content_size info, dict_id = dict_id info, block_size = block_size info,
      block_mode = if block_mode info = Independent then Independent else Linked,
      block_checksums = block_checksums info, content_checksum = content_checksum info\<rparr> = info"
    by (cases "block_mode info") simp_all
  moreover have "(if content_size info \<noteq> None then obind (take_exact 8 r3) (\<lambda>(b, input). Ok (Some (word_of_le b), input))
      else Ok (None, r3)) = Ok (content_size info, r2)"
    unfolding r3_def by (rule read_option_append) simp_all
  moreover have "(if dict_id info \<noteq> None then obind (take_exact 4 r2) (\<lambda>(b, input). Ok (Some (word_of_le b), input))
      else Ok (None, r2)) = Ok (dict_id info, r1)"
    unfolding r2_def by (rule read_option_append) simp_all
  moreover have "fb ! 0 = header_flags info" "fb ! 1 = push_bit 4 (BlockSize_number (block_size info))"
    by (simp_all add: fb_def)
  ultimately show ?thesis
    unfolding original_def [symmetric]
    by (simp only: FrameInfo_read_def t obind.simps prod.case m magic_not_skippable Let_def
        flags_bits block_size_of_number(1) [OF assms] block_size_of_number(2) simp_thms if_False if_True nth_Cons_0)
qed

lemma obindE: "obind m f = Ok y \<Longrightarrow> (\<And>x. m = Ok x \<Longrightarrow> f x = Ok y \<Longrightarrow> P) \<Longrightarrow> P"
  by (cases m) auto

lemma obind_pairE: "obind m (case_prod f) = Ok z \<Longrightarrow> (\<And>x y. m = Ok (x, y) \<Longrightarrow> f x y = Ok z \<Longrightarrow> P) \<Longrightarrow> P"
  by (cases m) auto

lemma returns_obind_pair:
  "returns m \<Longrightarrow> (\<And>x y. m = Ok (x, y) \<Longrightarrow> returns (f x y)) \<Longrightarrow> returns (obind m (case_prod f))"
  by (cases m) auto

lemma returns_if: "(c \<Longrightarrow> returns a) \<Longrightarrow> (\<not> c \<Longrightarrow> returns b) \<Longrightarrow> returns (if c then a else b)"
  by simp

lemma FrameInfo_read_steps:
  assumes "FrameInfo_read H original = Ok info"
  obtains m r0 fb r3 r2 r1 c rest d bs cs di where
    "take_exact 4 original = Ok (m, r0)" "word_of_le m = LZ4F_MAGIC_NUMBER"
    "take_exact 2 r0 = Ok (fb, r3)"
    "fb ! 0 AND FLG_VERSION_MASK = FLG_SUPPORTED_VERSION_BITS" "fb ! 0 AND FLG_RESERVED_MASK = 0"
    "fb ! 1 AND BD_RESERVED_MASK = 0"
    "block_size_of (drop_bit BD_BLOCK_SIZE_MASK_RSHIFT (fb ! 1 AND BD_BLOCK_SIZE_MASK)) = Ok bs"
    "(if fb ! 0 AND FLG_CONTENT_SIZE \<noteq> 0 then obind (take_exact 8 r3) (\<lambda>(b, input). Ok (Some (word_of_le b), input))
      else Ok (None, r3)) = Ok (cs, r2)"
    "(if fb ! 0 AND FLG_DICTIONARY_ID \<noteq> 0 then obind (take_exact 4 r2) (\<lambda>(b, input). Ok (Some (word_of_le b), input))
      else Ok (None, r2)) = Ok (di, r1)"
    "take_exact 1 r1 = Ok (c, rest)"
    "sub_slice original 4 (length original - length rest - 1) = (Ok d :: (Error, bytes) outcome)" "header_checksum H d = c ! 0"
    "info = \<lparr>content_size = cs, dict_id = di, block_size = bs,
        block_mode = if fb ! 0 AND FLG_INDEPENDENT_BLOCKS \<noteq> 0 then Independent else Linked,
        block_checksums = fb ! 0 AND FLG_BLOCK_CHECKSUMS \<noteq> 0, content_checksum = fb ! 0 AND FLG_CONTENT_CHECKSUM \<noteq> 0\<rparr>"
proof -
  from assms obtain m r0 where 1: "take_exact 4 original = Ok (m, r0)" "word_of_le m = LZ4F_MAGIC_NUMBER"
    by (unfold FrameInfo_read_def Let_def, elim obindE)
      (auto simp only: prod.case outcome.distinct split: prod.splits if_split_asm elim!: obindE)
  note a = assms [unfolded FrameInfo_read_def 1 obind.simps prod.case Let_def magic_not_skippable if_False simp_thms]
  obtain fb r3 where 2: "take_exact 2 r0 = Ok (fb, r3)" using a by (rule obind_pairE)
  note a = a [unfolded 2 obind.simps prod.case]
  have 3: "fb ! 0 AND FLG_VERSION_MASK = FLG_SUPPORTED_VERSION_BITS" "fb ! 0 AND FLG_RESERVED_MASK = 0"
    "fb ! 1 AND BD_RESERVED_MASK = 0"
    using a by (simp_all only: outcome.distinct de_Morgan_disj not_not split: if_split_asm)
  note a = a [unfolded 3 simp_thms if_False]
  obtain bs where 4: "block_size_of (drop_bit BD_BLOCK_SIZE_MASK_RSHIFT (fb ! 1 AND BD_BLOCK_SIZE_MASK)) = Ok bs"
    using a by (rule obindE)
  note a = a [unfolded 4 obind.simps]
  obtain cs r2 where 5: "(if fb ! 0 AND FLG_CONTENT_SIZE \<noteq> 0 then obind (take_exact 8 r3) (\<lambda>(b, input). Ok (Some (word_of_le b), input))
      else Ok (None, r3)) = Ok (cs :: 64 word option, r2)" using a by (rule obind_pairE)
  note a = a [unfolded 5 obind.simps prod.case]
  obtain di r1 where 6: "(if fb ! 0 AND FLG_DICTIONARY_ID \<noteq> 0 then obind (take_exact 4 r2) (\<lambda>(b, input). Ok (Some (word_of_le b), input))
      else Ok (None, r2)) = Ok (di :: 32 word option, r1)" using a by (rule obind_pairE)
  note a = a [unfolded 6 obind.simps prod.case]
  obtain c rest where 7: "take_exact 1 r1 = Ok (c, rest)" using a by (rule obind_pairE)
  note a = a [unfolded 7 obind.simps prod.case]
  obtain d where 8: "sub_slice original 4 (length original - length rest - 1) = (Ok d :: (Error, bytes) outcome)"
    using a by (rule obindE)
  note a = a [unfolded 8 obind.simps]
  show thesis using that [OF 1 2 3 4 5 6 7 8] a by (simp only: outcome.distinct outcome.inject split: if_split_asm)
qed

lemma FrameInfo_read_Ok:
  assumes "FrameInfo_read H original = Ok info"
  shows "block_size info \<noteq> Auto \<and> (\<exists>rest. original = header_bytes H info @ rest)"
  using assms
proof (rule FrameInfo_read_steps)
  fix m r0 fb r3 r2 r1 c rest d bs cs di
  assume m: "take_exact 4 original = Ok (m, r0)" "word_of_le m = LZ4F_MAGIC_NUMBER"
    and fb: "take_exact 2 r0 = Ok (fb, r3)"
    and v: "fb ! 0 AND FLG_VERSION_MASK = FLG_SUPPORTED_VERSION_BITS" "fb ! 0 AND FLG_RESERVED_MASK = 0"
      "fb ! 1 AND BD_RESERVED_MASK = 0"
    and bs: "block_size_of (drop_bit BD_BLOCK_SIZE_MASK_RSHIFT (fb ! 1 AND BD_BLOCK_SIZE_MASK)) = Ok bs"
    and cs: "(if fb ! 0 AND FLG_CONTENT_SIZE \<noteq> 0 then obind (take_exact 8 r3) (\<lambda>(b, input). Ok (Some (word_of_le b), input))
      else Ok (None, r3)) = Ok (cs, r2)"
    and di: "(if fb ! 0 AND FLG_DICTIONARY_ID \<noteq> 0 then obind (take_exact 4 r2) (\<lambda>(b, input). Ok (Some (word_of_le b), input))
      else Ok (None, r2)) = Ok (di, r1)"
    and c: "take_exact 1 r1 = Ok (c, rest)"
    and d: "sub_slice original 4 (length original - length rest - 1) = (Ok d :: (Error, bytes) outcome)" "header_checksum H d = c ! 0"
    and info: "info = \<lparr>content_size = cs, dict_id = di, block_size = bs,
        block_mode = if fb ! 0 AND FLG_INDEPENDENT_BLOCKS \<noteq> 0 then Independent else Linked,
        block_checksums = fb ! 0 AND FLG_BLOCK_CHECKSUMS \<noteq> 0, content_checksum = fb ! 0 AND FLG_CONTENT_CHECKSUM \<noteq> 0\<rparr>"
  have m': "m = le_of_word 4 LZ4F_MAGIC_NUMBER" "length m = 4" "original = m @ r0"
    using m le_of_word_word_of_le [of m, where 'a = 32] by (auto simp: take_exact_Ok)
  have r3: "r3 = opt_bytes 8 cs @ r2" "fb ! 0 AND FLG_CONTENT_SIZE \<noteq> 0 \<longleftrightarrow> cs \<noteq> None"
    using read_option_Ok [OF cs] by simp_all
  have r2: "r2 = opt_bytes 4 di @ r1" "fb ! 0 AND FLG_DICTIONARY_ID \<noteq> 0 \<longleftrightarrow> di \<noteq> None"
    using read_option_Ok [OF di] by simp_all
  have c': "c = [c ! 0]" "r1 = c @ rest" using c by (auto simp: take_exact_Ok length_Suc_conv)
  have fb': "fb = [fb ! 0, fb ! 1]" "r0 = fb @ r3" using fb by (auto simp: take_exact_Ok numeral_2_eq_2 length_Suc_conv)
  have "header_flags info = fb ! 0"
    unfolding header_flags_def info FrameInfo.simps mode_if r3(2) [symmetric] r2(2) [symmetric]
    by (rule flags_rebuild_named [OF v(1,2)])
  moreover have b: "fb ! 1 = push_bit 4 (BlockSize_number bs)" "bs \<noteq> Auto" by (rule block_size_of_Ok [OF bs v(3)])+
  ultimately have D: "header_descriptor info = fb @ opt_bytes 8 cs @ opt_bytes 4 di"
    by (subst fb'(1)) (simp add: header_descriptor_def info)
  have o: "original = m @ header_descriptor info @ c @ rest"
    using m'(3) fb'(2) r3(1) r2(1) c'(2) by (simp add: D)
  have "d = header_descriptor info"
  proof -
    have "length c = 1" using c by (simp add: take_exact_Ok)
    with d(1) m'(2) show ?thesis by (simp add: o sub_slice_def split: if_splits)
  qed
  then have "original = header_bytes H info @ rest"
    using o d(2) c'(1) m'(1) by (simp add: header_bytes_def)
  with b(2) show ?thesis by (auto simp: info)
qed

section \<open>The header of a block\<close>

lemma size_bit: "(w :: 32 word) AND BLOCK_UNCOMPRESSED_SIZE_BIT = 0 \<longleftrightarrow> unat w < 2 ^ 31"
proof -
  have "w AND BLOCK_UNCOMPRESSED_SIZE_BIT = (if bit w 31 then 2 ^ 31 else 0)"
    using word_and_bit [of w 31] by (simp add: BLOCK_UNCOMPRESSED_SIZE_BIT_def)
  moreover have "bit w 31 \<longleftrightarrow> 2 ^ 31 \<le> unat w"
  proof -
    have "unat w < 2 ^ 32" using unsigned_less [of w] by simp
    moreover have "bit w 31 \<longleftrightarrow> odd (unat w div 2 ^ 31)"
    proof -
      have "bit (unat w) 31 \<longleftrightarrow> bit w 31" by (simp add: bit_unsigned_iff)
      then show ?thesis by (simp only: bit_iff_odd [of "unat w"])
    qed
    moreover have "unat w div 2 ^ 31 = 1" if "2 ^ 31 \<le> unat w" "unat w < 2 ^ 32"
      using that by (intro div_nat_eqI) auto
    ultimately show ?thesis by (cases "2 ^ 31 \<le> unat w") auto
  qed
  ultimately show ?thesis by simp
qed

fun block_info_ok :: "BlockInfo \<Rightarrow> bool" where
  "block_info_ok (Compressed n) = (n \<noteq> 0 \<and> unat n < 2 ^ 31)"
| "block_info_ok (Uncompressed n) = (unat n < 2 ^ 31)"
| "block_info_ok EndMark = True"

fun block_info_word :: "BlockInfo \<Rightarrow> 32 word" where
  "block_info_word (Compressed n) = n"
| "block_info_word (Uncompressed n) = n OR BLOCK_UNCOMPRESSED_SIZE_BIT"
| "block_info_word EndMark = 0"

lemma BlockInfo_write_eq:
  "4 \<le> length out \<Longrightarrow> BlockInfo_write bi out =
    (if block_info_ok bi then Ok (4, le_of_word 4 (block_info_word bi) @ drop 4 out) else Err InvalidBlockInfo)"
  by (cases bi) (auto simp: BlockInfo_write_def size_bit copy_into_def blit_def)

lemma uncompressed_word:
  assumes "unat n < 2 ^ 31"
  shows "(n OR BLOCK_UNCOMPRESSED_SIZE_BIT) AND BLOCK_UNCOMPRESSED_SIZE_BIT \<noteq> 0"
    "(n OR BLOCK_UNCOMPRESSED_SIZE_BIT) AND NOT BLOCK_UNCOMPRESSED_SIZE_BIT = n"
    "n OR BLOCK_UNCOMPRESSED_SIZE_BIT \<noteq> 0"
proof -
  have z: "n AND BLOCK_UNCOMPRESSED_SIZE_BIT = 0" using assms by (simp add: size_bit)
  have "n = n AND (BLOCK_UNCOMPRESSED_SIZE_BIT OR NOT BLOCK_UNCOMPRESSED_SIZE_BIT)" by simp
  also have "\<dots> = n AND NOT BLOCK_UNCOMPRESSED_SIZE_BIT" by (simp only: bit.conj_disj_distrib z) simp
  finally show "(n OR BLOCK_UNCOMPRESSED_SIZE_BIT) AND NOT BLOCK_UNCOMPRESSED_SIZE_BIT = n"
    by (simp add: bit.conj_disj_distrib2)
  show nz: "(n OR BLOCK_UNCOMPRESSED_SIZE_BIT) AND BLOCK_UNCOMPRESSED_SIZE_BIT \<noteq> 0"
    by (simp add: bit.conj_disj_distrib2 z) (simp add: BLOCK_UNCOMPRESSED_SIZE_BIT_def)
  show "n OR BLOCK_UNCOMPRESSED_SIZE_BIT \<noteq> 0"
  proof
    assume "n OR BLOCK_UNCOMPRESSED_SIZE_BIT = 0"
    from nz [unfolded this] show False by simp
  qed
qed

lemma BlockInfo_read_eq:
  assumes "block_info_ok bi"
  shows "BlockInfo_read (le_of_word 4 (block_info_word bi) @ rest) = Ok bi"
proof -
  have "take_exact 4 (le_of_word 4 (block_info_word bi) @ rest) = Ok (le_of_word 4 (block_info_word bi), rest)"
    by (rule take_exact_append) simp
  moreover have "word_of_le (le_of_word 4 (block_info_word bi)) = block_info_word bi"
    by (rule word_of_le_le_of_word) simp
  ultimately show ?thesis
    using assms uncompressed_word by (cases bi) (auto simp: BlockInfo_read_def size_bit Let_def)
qed

lemma FrameInfo_read_size_eq:
  assumes "block_size info \<noteq> Auto"
  shows "FrameInfo_read_size (take MIN_FRAME_INFO_SIZE (header_bytes H info @ rest)) = Ok (FrameInfo_write_size info)"
proof -
  define M where "M = le_of_word 4 LZ4F_MAGIC_NUMBER"
  define t where "t = take 7 (header_bytes H info @ rest)"
  have "t = M @ header_flags info # take 2 (tl (header_descriptor info) @ [header_checksum H (header_descriptor info)] @ rest)"
    by (simp add: t_def header_bytes_def header_descriptor_def M_def take_Cons' numeral_3_eq_3)
  moreover have "length t = 7"
    using length_header_bytes [of H info] by (simp add: t_def FrameInfo_write_size_def)
  moreover have M: "length M = 4" "word_of_le M = LZ4F_MAGIC_NUMBER" by (simp_all add: M_def word_of_le_le_of_word)
  ultimately have "sub_slice t 0 4 = (Ok M :: (Error, bytes) outcome)" "t ! 4 = header_flags info" "length t = 7"
    by (simp_all add: sub_slice_def nth_append)
  then have "FrameInfo_read_size t = Ok (FrameInfo_write_size info)"
    using M(2) by (simp only: FrameInfo_read_size_def Let_def obind.simps magic_not_skippable flags_bits
        FrameInfo_write_size_def) simp
  then show ?thesis by (simp add: t_def)
qed

lemma FrameInfo_read_returns: "returns (FrameInfo_read H input)"
proof -
  have bs: "returns (block_size_of (drop_bit BD_BLOCK_SIZE_MASK_RSHIFT (b AND BD_BLOCK_SIZE_MASK)))" for b
  proof -
    define x where "x = drop_bit 4 (b AND 112)"
    have "x = drop_bit 4 b AND 7" by (simp add: x_def drop_bit_and)
    then have "x \<le> 7" using word_and_le1 by metis
    then have "unat x \<le> 7" by (simp add: word_le_nat_alt)
    moreover have "x = 4 \<longleftrightarrow> unat x = 4" "x = 5 \<longleftrightarrow> unat x = 5" "x = 6 \<longleftrightarrow> unat x = 6" "x = 7 \<longleftrightarrow> unat x = 7"
      by (simp_all add: word_unat_eq_iff)
    ultimately have "returns (block_size_of x)" by (simp add: word_le_nat_alt)
    then show ?thesis by (simp only: x_def BD_BLOCK_SIZE_MASK_RSHIFT_def BD_BLOCK_SIZE_MASK_def)
  qed
  have te: "returns (take_exact n xs)" for n xs by (simp add: take_exact_def)
  have opt: "returns (if b then obind (take_exact n r) (\<lambda>(x, i). Ok (Some (word_of_le x), i)) else Ok (None, r))" for b n r
    by (auto intro!: returns_obind te)
  have shorter: "length r' \<le> length r"
    if "(if b then obind (take_exact n r) (\<lambda>(x, i). Ok (Some (word_of_le x), i)) else Ok (None, r)) = Ok (v, r')"
    for b n r v r' using that by (auto simp: obind_Ok_iff take_exact_Ok split: if_splits)
  have sl: "returns (sub_slice original 4 (length original - length input - 1) :: (Error, bytes) outcome)"
    if "take_exact 4 original = Ok (m, r0)" "take_exact 2 r0 = Ok (fb, r3)" "length r2 \<le> length r3"
      "length r1 \<le> length r2" "take_exact 1 r1 = Ok (c, input)" for original m r0 fb r3 r2 r1 c input
    using that by (auto simp: take_exact_Ok sub_slice_def)
  show ?thesis
    unfolding FrameInfo_read_def Let_def
    apply (rule returns_obind_pair [OF te])
    apply (intro returns_if returns_obind_pair [OF te] returns.simps(2) [THEN iffD2, OF TrueI])
    apply (rule returns_obind [OF bs])
    apply (rule returns_obind_pair [OF opt], drule shorter)
    apply (rule returns_obind_pair [OF opt], drule shorter)
    apply (rule returns_obind_pair [OF te])
    apply (rule returns_obind, rule sl, assumption+)
    apply (intro returns_if returns.simps(1,2) [THEN iffD2, OF TrueI])
    done
qed

text \<open>
  An error survives the way through \<^verbatim>\<open>io::Error\<close> and back unchanged, unless it is an
  \<^verbatim>\<open>io::Error\<close> that itself carries an error of the format, which is then unwrapped.
\<close>

lemma error_conversion_round_trip:
  "Error_of_io (io_of_Error e) = (case e of IoError (Carries k e') \<Rightarrow> e' | _ \<Rightarrow> e)"
  by (cases e; simp) (metis Error_of_io.simps io_error.exhaust io_error.simps)

section \<open>Properties\<close>

text \<open>
  C29: a header that is written is read back as the same frame information, whatever the hash
  function and whatever follows it, and \<^verbatim>\<open>read_size\<close> finds its length in the first seven bytes;
  only a block size that is still \<^verbatim>\<open>Auto\<close> cannot be written.
\<close>

theorem frame_header_round_trip:
  assumes "FrameInfo_write H info out = Ok (n, out')"
  shows "FrameInfo_read H (take n out' @ rest) = Ok info \<and>
    FrameInfo_read_size (take MIN_FRAME_INFO_SIZE (take n out' @ rest)) = Ok n \<and>
    length out' = length out \<and> drop n out' = drop n out"
proof -
  have ws: "FrameInfo_write_size info \<le> length out"
    using assms by (auto simp: FrameInfo_write_def Let_def split: if_splits)
  with assms have "block_size info \<noteq> Auto" "n = FrameInfo_write_size info"
    "out' = header_bytes H info @ drop n out"
    by (auto simp: FrameInfo_write_eq split: if_splits)
  with ws show ?thesis
    using FrameInfo_read_header_bytes [of info H rest] FrameInfo_read_size_eq [of info H rest]
      length_header_bytes [of H info] by simp
qed

theorem frame_header_round_trip_witness:
  "\<exists>n out'. FrameInfo_write \<lparr>with_seed = \<lambda>_. [], hash_write = (@), hash_finish = \<lambda>bs. of_nat (le_nat bs), oneshot = \<lambda>_ _. 0\<rparr>
     (FrameInfo_new\<lparr>block_size := Max64KB, content_size := Some 5\<rparr>) (replicate 19 0) = Ok (n, out') \<and>
   FrameInfo_read \<lparr>with_seed = \<lambda>_. [], hash_write = (@), hash_finish = \<lambda>bs. of_nat (le_nat bs), oneshot = \<lambda>_ _. 0\<rparr> (take n out' @ [9]) =
     Ok (FrameInfo_new\<lparr>block_size := Max64KB, content_size := Some 5\<rparr>)"
proof -
  let ?H = "\<lparr>with_seed = \<lambda>_. [], hash_write = (@), hash_finish = \<lambda>bs. of_nat (le_nat bs), oneshot = \<lambda>_ _. 0\<rparr> :: bytes hasher"
  let ?i = "FrameInfo_new\<lparr>block_size := Max64KB, content_size := Some 5\<rparr>"
  have "FrameInfo_write_size ?i \<le> length (replicate 19 (0 :: byte))" by (simp add: FrameInfo_write_size_def FrameInfo_new_def)
  from FrameInfo_write_eq [OF this, of ?H] obtain n out' where w: "FrameInfo_write ?H ?i (replicate 19 0) = Ok (n, out')"
    by simp
  from frame_header_round_trip [OF w, of "[9]"] w show ?thesis by blast
qed

text \<open>
  C30: the reader accepts exactly the bytes the writer produces: any input it accepts starts with
  the header that is written for the frame information it returns.  On any other input it returns
  one of the errors of the format, and never panics.
\<close>

theorem frame_header_canonical:
  "(FrameInfo_read H input = Ok info \<longleftrightarrow>
     block_size info \<noteq> Auto \<and> (\<exists>rest. input = header_bytes H info @ rest \<and>
       FrameInfo_write H info (replicate MAX_FRAME_INFO_SIZE 0) =
         Ok (length (header_bytes H info), header_bytes H info @ replicate (19 - length (header_bytes H info)) 0))) \<and>
   returns (FrameInfo_read H input)"
proof -
  have "FrameInfo_write_size info \<le> length (replicate MAX_FRAME_INFO_SIZE (0 :: byte))"
    by (simp add: FrameInfo_write_size_def)
  from FrameInfo_write_eq [OF this, of H] show ?thesis
    using FrameInfo_read_Ok [of H input info] FrameInfo_read_header_bytes [of info H] length_header_bytes [of H info]
      FrameInfo_read_returns [of H input] by (auto simp: drop_replicate)
qed

text \<open>
  The header of a block is read back as it was written, unless it cannot be written: an empty
  compressed block, or a size that needs the top bit, is refused.
\<close>

lemma block_info_round_trip:
  assumes "4 \<le> length out"
  shows "(case BlockInfo_write bi out of
      Ok (n, out') \<Rightarrow> n = 4 \<and> BlockInfo_read (take n out' @ rest) = Ok bi \<and> drop n out' = drop n out
    | Err e \<Rightarrow> e = InvalidBlockInfo \<and> (\<exists>len. bi = Compressed len \<and> (len = 0 \<or> 2 ^ 31 \<le> unat len) \<or>
        bi = Uncompressed len \<and> 2 ^ 31 \<le> unat len)
    | _ \<Rightarrow> False)"
  using BlockInfo_read_eq [of bi rest]
  by (simp add: BlockInfo_write_eq [OF assms]) (cases bi; auto)

end

