(* ===== verification/Block_Format.thy ===== *)
theory Block_Format
  imports Core_Crate
begin

text \<open>
  The LZ4 block format, as an abstract specification that mentions neither buffers nor
  positions.  \<open>lz4_block dict h inp h'\<close> is the grammar with its meaning: decoding the bytes
  \<open>inp\<close> after the output \<open>h\<close>, with dictionary \<open>dict\<close> before it, gives the output \<open>h'\<close>.
  \<open>decode_block\<close> is the reference decoder for an output of limited capacity; it also fixes
  which error a malformed block reports.  \<open>lz4_seqs\<close> are the sequences an encoder has written
  before it ends the block.
\<close>

unbundle bit_operations_syntax

section \<open>Lengths\<close>

text \<open>A full nibble (15) is followed by extension bytes: 255 as often as it fits, then the rest.\<close>

definition ext_bytes :: "nat \<Rightarrow> bytes" where
  "ext_bytes n = replicate (n div 255) 255 @ [word_of_nat (n mod 255)]"

definition len_code :: "nat \<Rightarrow> bytes \<Rightarrow> nat \<Rightarrow> bool" where
  "len_code nib e v \<longleftrightarrow> (if nib = 15 then 15 \<le> v \<and> e = ext_bytes (v - 15) else v = nib \<and> e = [])"

fun spec_varint :: "nat \<Rightarrow> nat \<Rightarrow> bytes \<Rightarrow> (DecompressError, nat \<times> bytes) outcome" where
  "spec_varint limit n [] = Err ExpectedAnotherByte"
| "spec_varint limit n (b # bs) =
     (case checked_add n (unat b) of
        None \<Rightarrow> Err LiteralOutOfBounds
      | Some n' \<Rightarrow>
          if b \<noteq> 255 then Ok (n', bs)
          else if limit < n' then Ok (n', bs)
          else spec_varint limit n' bs)"

definition spec_length :: "nat \<Rightarrow> nat \<Rightarrow> nat \<Rightarrow> bytes \<Rightarrow> (DecompressError, nat \<times> bytes) outcome" where
  "spec_length limit base nib inp =
     (if nib = 15 then
        obind (spec_varint limit 0 inp) (\<lambda>(n, rest).
        case checked_add (base + 15) n of None \<Rightarrow> Err LiteralOutOfBounds | Some v \<Rightarrow> Ok (v, rest))
      else Ok (base + nib, inp))"

lemma ext_bytes_Cons:
  "ext_bytes n = (if n < 255 then [word_of_nat n] else 255 # ext_bytes (n - 255))"
proof (cases "n < 255")
  case True
  then show ?thesis by (simp add: ext_bytes_def)
next
  case False
  then have "n div 255 = Suc ((n - 255) div 255)" "n mod 255 = (n - 255) mod 255"
    by (simp_all add: le_div_geq le_mod_geq)
  with False show ?thesis by (simp add: ext_bytes_def)
qed

lemma ext_bytes_255: "ext_bytes (n + 255) = 255 # ext_bytes n"
  by (simp add: ext_bytes_Cons [of "n + 255"])

lemma length_ext_bytes: "length (ext_bytes n) = n div 255 + 1"
  by (simp add: ext_bytes_def)

lemma byte_eq_255_iff: "(b :: byte) = 255 \<longleftrightarrow> unat b = 255"
  by (simp add: word_unat_eq_iff)

lemma byte_neq_255: "(b :: byte) \<noteq> 255 \<Longrightarrow> unat b < 255"
  by (rule le_neq_implies_less) (simp_all add: byte_eq_255_iff)

text \<open>Reading back a written length, as long as the limit is not passed.\<close>

lemma spec_varint_ext_bytes:
  assumes "n + k \<le> limit" "limit \<le> usize_max"
  shows "spec_varint limit n (ext_bytes k @ rest) = Ok (n + k, rest)"
  using assms
proof (induction k arbitrary: n rule: less_induct)
  case (less k)
  show ?case
  proof (cases "k < 255")
    case True
    then have "(word_of_nat k :: byte) \<noteq> 255" by (simp add: byte_eq_255_iff)
    with True less.prems show ?thesis
      by (simp add: ext_bytes_Cons [of k] checked_add_def)
  next
    case False
    with less.prems less.IH [of "k - 255" "n + 255"] show ?thesis
      by (simp add: ext_bytes_Cons [of k] checked_add_def)
  qed
qed

text \<open>Conversely, a length read within the limit was written that way.\<close>

lemma spec_varint_inv:
  "spec_varint limit n inp = Ok (v, rest) \<Longrightarrow> v \<le> limit \<Longrightarrow> n \<le> v \<and> inp = ext_bytes (v - n) @ rest"
proof (induction limit n inp rule: spec_varint.induct)
  case (1 limit n)
  then show ?case by simp
next
  case (2 limit n b bs)
  from "2.prems" obtain n' where ca: "checked_add n (unat b) = Some n'"
    by (auto split: option.splits)
  then have n': "n' = n + unat b" by (simp add: checked_add_def split: if_splits)
  show ?case
  proof (cases "b = 255")
    case False
    then have "unat b < 255" by (rule byte_neq_255)
    then have "ext_bytes (unat b) = [b]" by (simp add: ext_bytes_Cons [of "unat b"])
    moreover have "v = n + unat b" "rest = bs" using "2.prems" ca n' False by auto
    ultimately show ?thesis by simp
  next
    case True
    then have "spec_varint limit n' bs = Ok (v, rest)"
      using "2.prems" ca by (auto split: if_splits)
    moreover have "\<not> limit < n'" using "2.prems" ca True by (auto split: if_splits)
    ultimately have IH: "n' \<le> v \<and> bs = ext_bytes (v - n') @ rest"
      using "2.IH" [OF ca] True "2.prems"(2) by simp
    then have "v - n = (v - n') + 255" using n' True by simp
    then have "ext_bytes (v - n) = 255 # ext_bytes (v - n')" by (simp only: ext_bytes_255)
    with IH n' True show ?thesis by simp
  qed
qed

lemma spec_varint_mono: "spec_varint limit n inp = Ok (v, rest) \<Longrightarrow> n \<le> v"
proof (induction limit n inp rule: spec_varint.induct)
  case (2 limit n b bs)
  then show ?case
    by (auto simp: checked_add_def split: option.splits if_splits)
qed simp

lemma spec_varint_shorter: "spec_varint limit n inp = Ok (v, rest) \<Longrightarrow> length rest < length inp"
  by (induction limit n inp rule: spec_varint.induct)
    (auto split: option.splits if_splits intro: less_SucI)

text \<open>The early stop bounds the value, so that later sums cannot overflow.\<close>

lemma spec_varint_bound:
  "spec_varint limit n inp = Ok (v, rest) \<Longrightarrow> n \<le> limit \<Longrightarrow> v \<le> limit + 255"
proof (induction limit n inp rule: spec_varint.induct)
  case (2 limit n b bs)
  then show ?case
    by (auto simp: checked_add_def add_mono split: option.splits if_splits)
qed simp

lemma spec_varint_errors: "spec_varint limit n inp = Err e \<Longrightarrow> e = ExpectedAnotherByte \<or> e = LiteralOutOfBounds"
  by (induction limit n inp rule: spec_varint.induct) (auto split: option.splits if_splits)

lemma spec_varint_returns: "returns (spec_varint limit n inp)"
  by (induction limit n inp rule: spec_varint.induct) (auto split: option.splits)

lemma spec_length_code:
  assumes "len_code nib e v" "v \<le> 15 + limit" "base + v \<le> usize_max" "limit \<le> usize_max"
  shows "spec_length limit base nib (e @ rest) = Ok (base + v, rest)"
  using assms spec_varint_ext_bytes [of 0 "v - 15" limit rest]
  by (auto simp: len_code_def spec_length_def checked_add_def split: if_splits)

lemma spec_length_inv:
  assumes "spec_length limit base nib inp = Ok (v, rest)" "v \<le> base + 15 + limit"
  shows "base \<le> v \<and> (\<exists>e. inp = e @ rest \<and> len_code nib e (v - base))"
proof (cases "nib = 15")
  case False
  with assms show ?thesis by (auto simp: spec_length_def len_code_def)
next
  case True
  with assms(1) obtain n where n: "spec_varint limit 0 inp = Ok (n, rest)" "v = base + 15 + n"
    by (auto simp: spec_length_def checked_add_def obind_Ok_iff split: option.splits if_splits)
  with assms(2) have "inp = ext_bytes n @ rest"
    using spec_varint_inv [OF n(1)] by simp
  with True n show ?thesis by (auto simp: len_code_def)
qed

lemma spec_length_shorter: "spec_length limit base nib inp = Ok (v, rest) \<Longrightarrow> length rest \<le> length inp"
  by (auto simp: spec_length_def obind_Ok_iff less_imp_le dest!: spec_varint_shorter
      split: if_splits option.splits)

lemma spec_length_returns: "returns (spec_length limit base nib inp)"
  using spec_varint_returns [of limit 0 inp]
  by (cases "spec_varint limit 0 inp") (auto simp: spec_length_def split: option.splits)

section \<open>The grammar and its meaning\<close>

text \<open>
  Literal length in the high nibble of the token, match length minus 4 in the low nibble, the
  distance in two bytes.  The block ends after the literals of its last sequence, whose low
  nibble means nothing.
\<close>

definition lit_nibble :: "byte \<Rightarrow> nat" where
  "lit_nibble t = unat t div 16"

definition match_nibble :: "byte \<Rightarrow> nat" where
  "match_nibble t = unat t mod 16"

definition offset_value :: "byte \<Rightarrow> byte \<Rightarrow> nat" where
  "offset_value b0 b1 = unat b0 + 256 * unat b1"

lemma lit_nibble_word: "unat (drop_bit 4 (t :: byte)) = lit_nibble t"
  by (simp add: drop_bit_eq_div unat_div_distrib lit_nibble_def)

lemma match_nibble_word: "unat ((t :: byte) AND 15) = match_nibble t"
proof -
  have "(15 :: byte) = mask 4" by (simp add: mask_eq_exp_minus_1)
  then have "t AND 15 = take_bit 4 t" by (simp only: take_bit_eq_mask)
  then show ?thesis by (simp add: take_bit_eq_mod unat_mod_distrib match_nibble_def)
qed

lemma lit_nibble_le: "lit_nibble t \<le> 15"
  unfolding lit_nibble_def using unat_byte_lt [of t] by linarith

lemma match_nibble_le: "match_nibble t \<le> 15"
  unfolding match_nibble_def by (simp add: less_Suc_eq_le [symmetric])

definition apply_match :: "bytes \<Rightarrow> bytes \<Rightarrow> nat \<Rightarrow> nat \<Rightarrow> bytes" where
  "apply_match dict h off n = drop (length dict) (match_expand (dict @ h) off n)"

inductive lz4_block :: "bytes \<Rightarrow> bytes \<Rightarrow> bytes \<Rightarrow> bytes \<Rightarrow> bool" for dict where
  last_literals:
    "len_code (lit_nibble t) e (length lits) \<Longrightarrow> lz4_block dict h (t # e @ lits) (h @ lits)"
| sequence:
    "len_code (lit_nibble t) e (length lits) \<Longrightarrow> off = offset_value b0 b1 \<Longrightarrow> 0 < off \<Longrightarrow>
     off \<le> length dict + length (h @ lits) \<Longrightarrow> len_code (match_nibble t) e' m \<Longrightarrow>
     lz4_block dict (apply_match dict (h @ lits) off (MINMATCH + m)) rest h' \<Longrightarrow>
     lz4_block dict h (t # e @ lits @ b0 # b1 # e' @ rest) h'"

lemma length_apply_match [simp]: "length (apply_match dict h off n) = length h + n"
  by (simp add: apply_match_def)

lemma apply_match_extends: "take (length h) (apply_match dict h off n) = h"
proof -
  have "match_expand (dict @ h) off n = (dict @ h) @ drop (length (dict @ h)) (match_expand (dict @ h) off n)"
    by (rule match_expand_eq_append)
  then have "apply_match dict h off n = h @ drop (length (dict @ h)) (match_expand (dict @ h) off n)"
    unfolding apply_match_def by (metis append.assoc append_eq_conv_conj)
  then show ?thesis by simp
qed

text \<open>Without reaching into the dictionary, a match is a match of the output alone.\<close>

lemma apply_match_output:
  "0 < off \<Longrightarrow> off \<le> length h \<Longrightarrow> apply_match dict h off n = match_expand h off n"
  by (simp add: apply_match_def match_expand_append_hist)

text \<open>
  The end rules of the format, for an output of \<open>n\<close> bytes: a match starts at least \<open>MFLIMIT\<close> bytes
  before the end, the last \<open>LAST_LITERALS\<close> bytes are literals, and the token of the last literals
  has no match length.  A decoder need not check them, but may rely on them.
\<close>

inductive ending_block :: "nat \<Rightarrow> bytes \<Rightarrow> bytes \<Rightarrow> bytes \<Rightarrow> bytes \<Rightarrow> bool" for n dict where
  ending_literals:
    "len_code (lit_nibble t) e (length lits) \<Longrightarrow> match_nibble t = 0 \<Longrightarrow> ending_block n dict h (t # e @ lits) (h @ lits)"
| ending_sequence:
    "len_code (lit_nibble t) e (length lits) \<Longrightarrow> off = offset_value b0 b1 \<Longrightarrow> 0 < off \<Longrightarrow>
     off \<le> length dict + length (h @ lits) \<Longrightarrow> len_code (match_nibble t) e' m \<Longrightarrow>
     length (h @ lits) + MFLIMIT \<le> n \<Longrightarrow> length (h @ lits) + (MINMATCH + m) + LAST_LITERALS \<le> n \<Longrightarrow>
     ending_block n dict (apply_match dict (h @ lits) off (MINMATCH + m)) rest h' \<Longrightarrow>
     ending_block n dict h (t # e @ lits @ b0 # b1 # e' @ rest) h'"

lemma ending_block_lz4: "ending_block n dict h blk h' \<Longrightarrow> lz4_block dict h blk h'"
  by (induction rule: ending_block.induct) (auto intro: lz4_block.intros)

text \<open>
  A block is little longer than its output, as a match of four bytes takes three, and at least a
  255th of it, as a byte of a length counts at most 255.
\<close>

lemma len_code_size: "len_code nib e v \<Longrightarrow> nib \<le> 15 \<Longrightarrow> v \<le> 14 + 255 * length e \<and> (e \<noteq> [] \<longrightarrow> 15 \<le> v \<and> 255 * length e \<le> v + 240)"
  using div_mult_mod_eq [of "v - 15" 255] mod_less_divisor [of 255 "v - 15"]
  by (auto simp: len_code_def length_ext_bytes split: if_splits)

lemma lz4_block_size:
  "lz4_block dict h blk h' \<Longrightarrow>
    255 * length blk + 256 * length h \<le> 256 * length h' + 510 \<and> length h' \<le> length h + 255 * length blk"
proof (induction rule: lz4_block.induct)
  case (last_literals t e lits h)
  then show ?case using len_code_size [OF last_literals lit_nibble_le] by (cases "e = []") auto
next
  case (sequence t e lits off b0 b1 h e' m rest h')
  then show ?case using len_code_size [OF sequence.hyps(1) lit_nibble_le] len_code_size [OF sequence.hyps(5) match_nibble_le]
    by (cases "e = []"; cases "e' = []") (auto simp: MINMATCH_def)
qed

text \<open>Complete sequences without the last one, and what it takes to end them.\<close>

inductive lz4_seqs :: "nat \<Rightarrow> bytes \<Rightarrow> bytes \<Rightarrow> bytes \<Rightarrow> bytes \<Rightarrow> bool" for n dict h where
  no_seqs: "lz4_seqs n dict h [] h"
| more_seqs:
    "lz4_seqs n dict h p h1 \<Longrightarrow> len_code (lit_nibble t) e (length lits) \<Longrightarrow> 0 < offset_value b0 b1 \<Longrightarrow>
     offset_value b0 b1 \<le> length dict + length (h1 @ lits) \<Longrightarrow> len_code (match_nibble t) e' m \<Longrightarrow>
     length (h1 @ lits) + MFLIMIT \<le> n \<Longrightarrow> length (h1 @ lits) + (MINMATCH + m) + LAST_LITERALS \<le> n \<Longrightarrow>
     lz4_seqs n dict h (p @ t # e @ lits @ b0 # b1 # e') (apply_match dict (h1 @ lits) (offset_value b0 b1) (MINMATCH + m))"

lemma lz4_seqs_block:
  "lz4_seqs n dict h p h1 \<Longrightarrow> ending_block n dict h1 q h2 \<Longrightarrow> ending_block n dict h (p @ q) h2"
proof (induction arbitrary: q rule: lz4_seqs.induct)
  case no_seqs
  then show ?case by simp
next
  case (more_seqs p h1 t e lits b0 b1 e' m)
  have "ending_block n dict h1 (t # e @ lits @ b0 # b1 # e' @ q) h2"
    by (rule ending_block.ending_sequence [OF more_seqs.hyps(2) refl more_seqs.hyps(3-7) more_seqs.prems])
  from more_seqs.IH [OF this] show ?case by simp
qed

text \<open>A stretch of a text that repeats what is \<open>off\<close> bytes before it is a match.\<close>

lemma match_expand_unique:
  assumes "\<And>i. i < n \<Longrightarrow> xs ! (k + i) = xs ! (k + i - off)" "0 < off" "off \<le> k" "k + n \<le> length xs"
  shows "match_expand (take k xs) off n = take (k + n) xs"
  using assms
proof (induction n)
  case 0
  then show ?case by simp
next
  case (Suc n)
  then have IH: "match_expand (take k xs) off n = take (k + n) xs" by simp
  have "match_expand (take k xs) off (Suc n) = take (k + n) xs @ [take (k + n) xs ! (k + n - off)]"
    using Suc.prems by (simp add: match_expand_Suc IH min_def)
  also have "take (k + n) xs ! (k + n - off) = xs ! (k + n)" using Suc.prems by simp
  also have "take (k + n) xs @ [xs ! (k + n)] = take (k + Suc n) xs"
    using Suc.prems(4) by (simp add: take_Suc_conv_app_nth)
  finally show ?case .
qed

lemma apply_match_unique:
  assumes "\<And>i. i < n \<Longrightarrow> (dict @ xs) ! (length dict + c + i) = (dict @ xs) ! (length dict + c + i - off)"
    "0 < off" "off \<le> length dict + c" "c + n \<le> length xs"
  shows "apply_match dict (take c xs) off n = take (c + n) xs"
proof -
  have "match_expand (take (length dict + c) (dict @ xs)) off n = take (length dict + c + n) (dict @ xs)"
    using assms by (intro match_expand_unique) auto
  then show ?thesis by (simp add: apply_match_def add.assoc)
qed

lemma lz4_block_longer: "lz4_block dict h inp h' \<Longrightarrow> length h \<le> length h'"
  by (induction rule: lz4_block.induct) auto

lemma lz4_block_prefix: "lz4_block dict h inp h' \<Longrightarrow> take (length h) h' = h"
proof (induction rule: lz4_block.induct)
  case (last_literals t e lits h)
  then show ?case by simp
next
  case (sequence t e lits off b0 b1 h e' m rest h')
  let ?h = "apply_match dict (h @ lits) off (MINMATCH + m)"
  have "take (length h) h' = take (length h) (take (length ?h) h')" by simp
  also have "\<dots> = take (length h) (take (length (h @ lits)) ?h)"
    using sequence.IH by simp
  also have "\<dots> = h" by (simp only: apply_match_extends) simp
  finally show ?case .
qed

lemma lz4_block_nonempty: "lz4_block dict h inp h' \<Longrightarrow> inp \<noteq> []"
  by (auto elim: lz4_block.cases)

section \<open>The reference decoder\<close>

text \<open>
  One sequence, after output \<open>h\<close> in a buffer of \<open>cap\<close> bytes.  An error carries the output
  produced before it.
\<close>

datatype spec_step = Finished bytes | More bytes bytes

definition spec_sequence ::
  "bytes \<Rightarrow> nat \<Rightarrow> bytes \<Rightarrow> bytes \<Rightarrow> (DecompressError \<times> bytes, spec_step) outcome" where
  "spec_sequence dict cap h inp =
     (case inp of
        [] \<Rightarrow> Err (ExpectedAnotherByte, h)
      | t # inp1 \<Rightarrow>
          obind (map_err (\<lambda>e. (e, h)) (spec_length cap 0 (lit_nibble t) inp1)) (\<lambda>(l, inp2).
          if length inp2 < l then Err (LiteralOutOfBounds, h)
          else if cap < length h + l then Err (OutputTooSmall (length h + l) cap, h)
          else
            let h1 = h @ take l inp2 in
            case drop l inp2 of
              [] \<Rightarrow> Ok (Finished h1)
            | [b0] \<Rightarrow> Err (ExpectedAnotherByte, h1)
            | b0 # b1 # inp3 \<Rightarrow>
                if offset_value b0 b1 = 0 then Err (OffsetZero, h1)
                else
                  obind (map_err (\<lambda>e. (e, h1)) (spec_length cap MINMATCH (match_nibble t) inp3)) (\<lambda>(m, inp4).
                  if cap < length h1 + m then Err (OutputTooSmall (length h1 + m) cap, h1)
                  else if length dict + length h1 < offset_value b0 b1 then Err (OffsetOutOfBounds, h1)
                  else Ok (More (apply_match dict h1 (offset_value b0 b1) m) inp4))))"

text \<open>What a step that succeeds has read.\<close>

lemma spec_sequence_More_iff:
  "spec_sequence dict cap h inp = Ok (More h' rest) \<longleftrightarrow>
   (\<exists>t inp1 l inp2 b0 b1 inp3 m.
      inp = t # inp1 \<and> spec_length cap 0 (lit_nibble t) inp1 = Ok (l, inp2) \<and> l \<le> length inp2 \<and>
      length h + l \<le> cap \<and> drop l inp2 = b0 # b1 # inp3 \<and> offset_value b0 b1 \<noteq> 0 \<and>
      spec_length cap MINMATCH (match_nibble t) inp3 = Ok (m, rest) \<and>
      length h + l + m \<le> cap \<and> offset_value b0 b1 \<le> length dict + (length h + l) \<and>
      h' = apply_match dict (h @ take l inp2) (offset_value b0 b1) m)"
  (is "?A \<longleftrightarrow> ?B")
proof
  assume ?A
  then obtain t inp1 l inp2 where 1: "inp = t # inp1"
    "spec_length cap 0 (lit_nibble t) inp1 = Ok (l, inp2)" "\<not> length inp2 < l" "\<not> cap < length h + l"
    by (auto simp: spec_sequence_def obind_Ok_iff map_err_Ok_iff split: list.splits if_splits)
  with \<open>?A\<close> obtain b0 b1 inp3 where 2: "drop l inp2 = b0 # b1 # inp3" "offset_value b0 b1 \<noteq> 0"
    by (auto simp: spec_sequence_def Let_def split: list.splits if_splits)
  with \<open>?A\<close> 1 obtain m where "spec_length cap MINMATCH (match_nibble t) inp3 = Ok (m, rest)"
    "\<not> cap < length (h @ take l inp2) + m" "\<not> length dict + length (h @ take l inp2) < offset_value b0 b1"
    "h' = apply_match dict (h @ take l inp2) (offset_value b0 b1) m"
    by (auto simp: spec_sequence_def Let_def obind_Ok_iff map_err_Ok_iff split: if_splits)
  with 1 2 show ?B by (intro exI conjI) (assumption | simp)+
next
  assume ?B
  then show ?A
    by (elim exE conjE) (simp add: spec_sequence_def)
qed

lemma spec_sequence_Finished_iff:
  "spec_sequence dict cap h inp = Ok (Finished h') \<longleftrightarrow>
   (\<exists>t inp1 l inp2.
      inp = t # inp1 \<and> spec_length cap 0 (lit_nibble t) inp1 = Ok (l, inp2) \<and> l = length inp2 \<and>
      length h + l \<le> cap \<and> h' = h @ inp2)"
  (is "?A \<longleftrightarrow> ?B")
proof
  assume ?A
  then obtain t inp1 l inp2 where 1: "inp = t # inp1"
    "spec_length cap 0 (lit_nibble t) inp1 = Ok (l, inp2)" "\<not> length inp2 < l" "\<not> cap < length h + l"
    by (auto simp: spec_sequence_def obind_Ok_iff map_err_Ok_iff split: list.splits if_splits)
  with \<open>?A\<close> have "drop l inp2 = []" "h' = h @ take l inp2"
    by (auto simp: spec_sequence_def Let_def obind_Ok_iff split: list.splits if_splits)
  with 1 show ?B by (intro exI [of _ t] exI [of _ inp1] exI [of _ l] exI [of _ inp2]) simp
next
  assume ?B
  then show ?A by (elim exE conjE) (simp add: spec_sequence_def)
qed

lemma spec_sequence_shorter:
  assumes "spec_sequence dict cap h inp = Ok (More h' rest)"
  shows "length rest < length inp"
proof -
  from assms [unfolded spec_sequence_More_iff] obtain t inp1 l inp2 b0 b1 inp3 m where
    inp: "inp = t # inp1" "spec_length cap 0 (lit_nibble t) inp1 = Ok (l, inp2)"
    and d: "drop l inp2 = b0 # b1 # inp3"
    and m: "spec_length cap MINMATCH (match_nibble t) inp3 = Ok (m, rest)"
    by blast
  have "length (drop l inp2) = length inp3 + 2" using d by simp
  then have "length inp3 < length inp2" unfolding length_drop by linarith
  with spec_length_shorter [OF inp(2)] spec_length_shorter [OF m] inp(1) show ?thesis by simp
qed

lemma spec_sequence_More_grows:
  "spec_sequence dict cap h inp = Ok (More h' rest) \<Longrightarrow> length h \<le> length h' \<and> length h' \<le> cap"
  by (auto simp: spec_sequence_More_iff)

function decode_block :: "bytes \<Rightarrow> nat \<Rightarrow> bytes \<Rightarrow> bytes \<Rightarrow> (DecompressError \<times> bytes, bytes) outcome" where
  "decode_block dict cap h inp =
     obind (spec_sequence dict cap h inp) (\<lambda>r.
     case r of Finished h' \<Rightarrow> Ok h' | More h' rest \<Rightarrow> decode_block dict cap h' rest)"
  by pat_completeness auto
termination
  by (relation "measure (\<lambda>(dict, cap, h, inp). length inp)") (auto dest: spec_sequence_shorter)

declare decode_block.simps [simp del]

text \<open>The reference decoder always answers.\<close>

lemma spec_sequence_returns: "returns (spec_sequence dict cap h inp)"
  by (auto simp: spec_sequence_def Let_def spec_length_returns
      intro!: returns_obind split: list.splits)

lemma decode_block_returns: "returns (decode_block dict cap h inp)"
proof (induction dict cap h inp rule: decode_block.induct)
  case (1 dict cap h inp)
  have "returns (spec_sequence dict cap h inp)" by (rule spec_sequence_returns)
  with 1 show ?case
    by (subst decode_block.simps) (auto intro!: returns_obind split: spec_step.splits)
qed

text \<open>It accepts exactly the blocks of the grammar whose output fits.\<close>

theorem decode_block_sound:
  "decode_block dict cap h inp = Ok h' \<Longrightarrow> length h \<le> cap \<Longrightarrow> lz4_block dict h inp h' \<and> length h' \<le> cap"
proof (induction dict cap h inp rule: decode_block.induct)
  case (1 dict cap h inp)
  from "1.prems"(1) obtain r where r: "spec_sequence dict cap h inp = Ok r"
    and rest: "(case r of Finished h' \<Rightarrow> Ok h' | More h' rest \<Rightarrow> decode_block dict cap h' rest) = Ok h'"
    by (subst (asm) decode_block.simps) (auto simp: obind_Ok_iff)
  show ?case
  proof (cases r)
    case (Finished g)
    with r obtain t inp1 inp2 where inp: "inp = t # inp1"
      and l: "spec_length cap 0 (lit_nibble t) inp1 = Ok (length inp2, inp2)"
      and fit: "length h + length inp2 \<le> cap" and g: "g = h @ inp2"
      by (auto simp: spec_sequence_Finished_iff)
    from spec_length_inv [OF l] fit obtain e where "inp1 = e @ inp2" "len_code (lit_nibble t) e (length inp2)"
      by auto
    with inp g fit rest Finished show ?thesis by (auto intro: lz4_block.last_literals)
  next
    case (More g inp')
    with r obtain t inp1 l inp2 b0 b1 inp3 m where inp: "inp = t # inp1"
      and l: "spec_length cap 0 (lit_nibble t) inp1 = Ok (l, inp2)" and ll: "l \<le> length inp2"
      and fit: "length h + l + m \<le> cap" and d: "drop l inp2 = b0 # b1 # inp3"
      and off: "offset_value b0 b1 \<noteq> 0" "offset_value b0 b1 \<le> length dict + (length h + l)"
      and m: "spec_length cap MINMATCH (match_nibble t) inp3 = Ok (m, inp')"
      and g: "g = apply_match dict (h @ take l inp2) (offset_value b0 b1) m"
      by (auto simp: spec_sequence_More_iff)
    from spec_length_inv [OF l] fit obtain e where e: "inp1 = e @ inp2" "len_code (lit_nibble t) e l"
      by auto
    from spec_length_inv [OF m] fit obtain e' where
      e': "inp3 = e' @ inp'" "MINMATCH \<le> m" "len_code (match_nibble t) e' (m - MINMATCH)"
      by auto
    have IH: "lz4_block dict g inp' h' \<and> length h' \<le> cap"
      using "1.IH" [OF r More] rest More g ll fit by simp
    have "inp = t # e @ take l inp2 @ b0 # b1 # e' @ inp'"
      using inp e(1) d e'(1) append_take_drop_id [of l inp2] by simp
    moreover have "g = apply_match dict (h @ take l inp2) (offset_value b0 b1) (MINMATCH + (m - MINMATCH))"
      using g e'(2) by simp
    ultimately show ?thesis
      using IH e(2) e'(3) off ll
      by (auto intro!: lz4_block.sequence [where off = "offset_value b0 b1"])
  qed
qed

theorem decode_block_complete:
  assumes "lz4_block dict h inp h'" "length h' \<le> cap" "cap + 4 \<le> usize_max"
  shows "decode_block dict cap h inp = Ok h'"
  using assms
proof (induction rule: lz4_block.induct)
  case (last_literals t e lits h)
  have "spec_length cap 0 (lit_nibble t) (e @ lits) = Ok (length lits, lits)"
    using spec_length_code [OF last_literals(1), of cap 0 lits] last_literals.prems by simp
  with last_literals.prems have "spec_sequence dict cap h (t # e @ lits) = Ok (Finished (h @ lits))"
    by (simp add: spec_sequence_Finished_iff)
  then show ?case by (subst decode_block.simps) simp
next
  case (sequence t e lits off b0 b1 h e' m rest h')
  let ?h = "apply_match dict (h @ lits) off (MINMATCH + m)"
  have fit: "length h + length lits + (4 + m) \<le> cap"
    using lz4_block_longer [OF sequence.hyps(6)] sequence.prems by simp
  have 1: "spec_length cap 0 (lit_nibble t) (e @ lits @ b0 # b1 # e' @ rest) =
      Ok (length lits, lits @ b0 # b1 # e' @ rest)"
    using spec_length_code [OF sequence.hyps(1), of cap 0] fit sequence.prems by simp
  have 2: "spec_length cap MINMATCH (match_nibble t) (e' @ rest) = Ok (4 + m, rest)"
    using spec_length_code [OF sequence.hyps(5), of cap MINMATCH] fit sequence.prems by simp
  have "spec_sequence dict cap h (t # e @ lits @ b0 # b1 # e' @ rest) = Ok (More ?h rest)"
    unfolding spec_sequence_More_iff using 1 2 fit sequence.hyps(2-4)
    by (intro exI [of _ t] exI [of _ "e @ lits @ b0 # b1 # e' @ rest"] exI [of _ "length lits"]
        exI [of _ "lits @ b0 # b1 # e' @ rest"] exI [of _ b0] exI [of _ b1] exI [of _ "e' @ rest"]
        exI [of _ "4 + m"]) simp
  then show ?case using sequence.IH sequence.prems by (subst decode_block.simps) simp
qed

text \<open>
  A block of the grammar whose output does not fit is refused because of the output size,
  although the early stop in the length bytes may leave the rest of a length unread.
\<close>

lemma spec_varint_stops:
  assumes "limit < n + k" "n + k \<le> usize_max"
  shows "\<exists>v rest'. spec_varint limit n (ext_bytes k @ rest) = Ok (v, rest') \<and>
    limit < v \<and> v \<le> n + k \<and> length rest \<le> length rest'"
  using assms
proof (induction k arbitrary: n rule: less_induct)
  case (less k)
  show ?case
  proof (cases "k < 255")
    case True
    then have "(word_of_nat k :: byte) \<noteq> 255" by (simp add: byte_eq_255_iff)
    with True less.prems show ?thesis by (simp add: ext_bytes_Cons [of k] checked_add_def)
  next
    case False
    then have step: "spec_varint limit n (ext_bytes k @ rest) =
        (if limit < n + 255 then Ok (n + 255, ext_bytes (k - 255) @ rest)
         else spec_varint limit (n + 255) (ext_bytes (k - 255) @ rest))"
      using less.prems by (simp add: ext_bytes_Cons [of k] checked_add_def)
    with False less.prems less.IH [of "k - 255" "n + 255"] show ?thesis by auto
  qed
qed

lemma spec_length_stops:
  assumes "len_code nib e v" "limit < v" "base + v \<le> usize_max"
  shows "\<exists>w rest'. spec_length limit base nib (e @ rest) = Ok (w, rest') \<and>
    base + min 15 v \<le> w \<and> w \<le> base + v \<and> limit < w \<and> length rest \<le> length rest'"
proof (cases "nib = 15 \<and> limit < v - 15")
  case True
  with assms(1) have v: "15 \<le> v" "e = ext_bytes (v - 15)" by (auto simp: len_code_def)
  obtain u rest' where "spec_varint limit 0 (ext_bytes (v - 15) @ rest) = Ok (u, rest')"
    "limit < u" "u \<le> v - 15" "length rest \<le> length rest'"
    using spec_varint_stops [of limit 0 "v - 15" rest] True le_trans [OF diff_le_self add_leD2 [OF assms(3)]]
    by auto
  with True v assms(3) show ?thesis by (auto simp: spec_length_def checked_add_def)
next
  case False
  show ?thesis
  proof (cases "nib = 15")
    case False
    with assms show ?thesis by (auto simp: len_code_def spec_length_def)
  next
    case True
    with False assms(1) have v: "15 \<le> v" "e = ext_bytes (v - 15)" "v - 15 \<le> limit" "limit < v"
      using assms(2) by (auto simp: len_code_def)
    then have "spec_varint limit 0 (ext_bytes (v - 15) @ rest) = Ok (v - 15, rest)"
      using spec_varint_ext_bytes [of 0 "v - 15" limit rest] assms(3) by simp
    with True v assms(3) show ?thesis by (auto simp: spec_length_def checked_add_def)
  qed
qed

lemma spec_length_any:
  assumes "len_code nib e v" "base + v \<le> usize_max" "base + limit \<le> usize_max"
  shows "\<exists>w rest'. spec_length limit base nib (e @ rest) = Ok (w, rest') \<and> base \<le> w \<and> w \<le> base + v \<and>
    length rest \<le> length rest' \<and> (if v \<le> limit then w = base + v \<and> rest' = rest else limit < w)"
  using spec_length_stops [OF assms(1), of limit base rest] spec_length_code [OF assms(1), of limit base rest]
    assms(2,3)
  by (cases "v \<le> limit") auto

lemma decode_block_too_small:
  assumes "lz4_block dict h inp h'" "length h \<le> cap" "cap < length h'" "length h' + 4 \<le> usize_max"
  shows "\<exists>x g. decode_block dict cap h inp = Err (OutputTooSmall x cap, g) \<and> cap < x \<and> x \<le> length h'"
  using assms
proof (induction rule: lz4_block.induct)
  case (last_literals t e lits h)
  obtain w rest' where "spec_length cap 0 (lit_nibble t) (e @ lits) = Ok (w, rest')" "w \<le> length lits"
    "length lits \<le> length rest'" "if length lits \<le> cap then w = length lits else cap < w"
    using spec_length_any [OF last_literals(1), of 0 cap lits] last_literals.prems by auto
  with last_literals.prems have
    "spec_sequence dict cap h (t # e @ lits) = Err (OutputTooSmall (length h + w) cap, h)"
    "cap < length h + w" "length h + w \<le> length (h @ lits)"
    by (auto simp: spec_sequence_def split: if_splits)
  then show ?case by (subst decode_block.simps) simp
next
  case (sequence t e lits off b0 b1 h e' m rest h')
  have longer: "length h + length lits + (4 + m) \<le> length h'"
    using lz4_block_longer [OF sequence.hyps(6)] by simp
  obtain w rest' where l: "spec_length cap 0 (lit_nibble t) (e @ lits @ b0 # b1 # e' @ rest) = Ok (w, rest')"
    "w \<le> length lits" "length lits \<le> length rest'"
    "if length lits \<le> cap then w = length lits \<and> rest' = lits @ b0 # b1 # e' @ rest else cap < w"
    using spec_length_any [OF sequence.hyps(1), of 0 cap "lits @ b0 # b1 # e' @ rest"] sequence.prems longer
    by (auto split: if_splits)
  show ?case
  proof (cases "cap < length h + w")
    case True
    with l sequence.prems longer show ?thesis
      by (subst decode_block.simps) (simp add: spec_sequence_def)
  next
    case False
    then have l': "w = length lits" "rest' = lits @ b0 # b1 # e' @ rest" using l(4) by (auto split: if_splits)
    obtain k r where m: "spec_length cap MINMATCH (match_nibble t) (e' @ rest) = Ok (k, r)"
      "4 \<le> k" "k \<le> 4 + m" "if m \<le> cap then k = 4 + m \<and> r = rest else cap < k"
      using spec_length_any [OF sequence.hyps(5), of 4 cap rest] sequence.prems longer by auto
    show ?thesis
    proof (cases "cap < length h + w + k")
      case True
      with False l l' m sequence.prems sequence.hyps(2,3) longer show ?thesis
        by (subst decode_block.simps) (simp add: spec_sequence_def)
    next
      case fits: False
      then have "m \<le> cap" "k = 4 + m" "r = rest" using m(4) by (auto split: if_splits)
      with False fits l l' m sequence.hyps(2-4)
      have "spec_sequence dict cap h (t # e @ lits @ b0 # b1 # e' @ rest) =
          Ok (More (apply_match dict (h @ lits) off (MINMATCH + m)) rest)"
        by (simp add: spec_sequence_def)
      moreover have "length (apply_match dict (h @ lits) off (MINMATCH + m)) \<le> cap"
        using fits l' \<open>k = 4 + m\<close> by simp
      ultimately show ?thesis using sequence.IH sequence.prems by (subst decode_block.simps) simp
    qed
  qed
qed

lemma lz4_block_deterministic:
  assumes "lz4_block dict h inp h1" "lz4_block dict h inp h2"
    "length h1 + 4 \<le> usize_max" "length h2 + 4 \<le> usize_max"
  shows "h1 = h2"
  using decode_block_complete [OF assms(1), of "max (length h1) (length h2)"]
    decode_block_complete [OF assms(2), of "max (length h1) (length h2)"] assms(3,4)
  by (simp add: max_def split: if_splits)

end
