(* ===== verification/Encoder_Write.thy ===== *)
theory Encoder_Write
  imports Encoder Block_Format
begin

text \<open>
  What the encoder writes: tokens, lengths and sequences are those of the block format, each
  write needs exactly its own length of room, and a sequence never takes more than 11 bytes for
  10 bytes of input.
\<close>

unbundle bit_operations_syntax

section \<open>Tokens\<close>

lemma small_byte: "n < 256 \<Longrightarrow> unat (word_of_nat n :: byte) = n"
  by simp

lemma high_nibble:
  assumes "l \<le> 15" "m \<le> 15"
  shows "lit_nibble (push_bit 4 (word_of_nat l) OR word_of_nat m) = l"
proof -
  have "drop_bit 4 (push_bit 4 (word_of_nat l) OR word_of_nat m :: byte) = take_bit 4 (word_of_nat l)"
  proof -
    have "drop_bit 4 (word_of_nat m :: byte) = 0"
      using assms(2) by (simp add: drop_bit_eq_div word_unat_eq_iff unat_div_distrib)
    moreover have "drop_bit 4 (push_bit 4 (word_of_nat l) :: byte) = take_bit 4 (word_of_nat l)"
      by (rule bit_eqI) (auto simp: bit_drop_bit_eq bit_push_bit_iff bit_take_bit_iff dest: bit_imp_le_length)
    ultimately show ?thesis by (simp add: drop_bit_or)
  qed
  also have "unat (take_bit 4 (word_of_nat l) :: byte) = l"
    using assms(1) by (simp add: take_bit_eq_mod unat_mod_distrib)
  finally show ?thesis by (simp flip: lit_nibble_word)
qed

lemma low_nibble:
  assumes "m \<le> 15"
  shows "match_nibble (push_bit 4 x OR word_of_nat m) = m"
proof -
  have "(push_bit 4 x OR word_of_nat m :: byte) AND 15 = take_bit 4 (push_bit 4 x OR word_of_nat m)"
    using take_bit_eq_mask [of 4 "push_bit 4 x OR word_of_nat m :: byte"] by (simp add: mask_eq_exp_minus_1)
  also have "\<dots> = take_bit 4 (word_of_nat m)"
    by (simp add: take_bit_or take_bit_push_bit)
  also have "unat (take_bit 4 (word_of_nat m) :: byte) = m"
    using assms by (simp add: take_bit_eq_mod unat_mod_distrib)
  finally show ?thesis by (simp flip: match_nibble_word)
qed

lemma token_nibbles:
  "lit_nibble (token_from_literal_and_match_length l m) = min l 15"
  "match_nibble (token_from_literal_and_match_length l m) = min m 15"
proof -
  have "token_from_literal_and_match_length l m =
      push_bit 4 (word_of_nat (min l 15)) OR word_of_nat (min m 15)"
    by (cases "l < 15"; cases "m < 15") (simp_all add: token_from_literal_and_match_length_def min_def)
  then show "lit_nibble (token_from_literal_and_match_length l m) = min l 15"
    "match_nibble (token_from_literal_and_match_length l m) = min m 15"
    using high_nibble [of "min l 15" "min m 15"] low_nibble [of "min m 15"] by simp_all
qed

lemma literal_token_nibble: "lit_nibble (token_from_literal l) = min l 15" "match_nibble (token_from_literal l) = 0"
proof -
  have "token_from_literal l = push_bit 4 (word_of_nat (min l 15)) OR word_of_nat 0"
    by (cases "l < 15") (simp_all add: token_from_literal_def min_def)
  then show "lit_nibble (token_from_literal l) = min l 15" "match_nibble (token_from_literal l) = 0"
    using high_nibble [of "min l 15" 0] low_nibble [of 0] by simp_all
qed

section \<open>Lengths and slices\<close>

definition len_ext :: "nat \<Rightarrow> bytes" where
  "len_ext n = (if 15 \<le> n then ext_bytes (n - 15) else [])"

lemma len_code_ext: "len_code (min n 15) (len_ext n) n"
  by (simp add: len_code_def len_ext_def min_def)

lemma length_len_ext: "255 * length (len_ext n) \<le> n + 240"
proof (cases "15 \<le> n")
  case True
  have "255 * ((n - 15) div 255) \<le> n - 15" by simp
  with True show ?thesis by (simp add: len_ext_def length_ext_bytes)
qed (simp add: len_ext_def)

lemma put_byte_eq: "Suc 0 \<le> length (snd w) \<Longrightarrow> put_byte w b = Ok (fst w @ [b], drop 1 (snd w))"
  by (cases "snd w") (auto simp: put_byte_def)

lemma put_slice_eq: "length bs \<le> length (snd w) \<Longrightarrow> put_slice w bs = Ok (fst w @ bs, drop (length bs) (snd w))"
  by (simp add: put_slice_def slice_copy_eq)

lemma put_integer_eq:
  "length (ext_bytes n) \<le> length (snd w) \<Longrightarrow>
   put_integer w n = (Ok (fst w @ ext_bytes n, drop (length (ext_bytes n)) (snd w)) :: ('e, tail) outcome)"
proof (induction n arbitrary: w rule: less_induct)
  case (less n)
  show ?case
  proof (cases "255 \<le> n")
    case False
    with less.prems show ?thesis
      by (simp add: put_integer.simps [of w n] ext_bytes_Cons [of n] put_byte_eq)
  next
    case True
    then have e: "ext_bytes n = 255 # ext_bytes (n - 255)" by (simp add: ext_bytes_Cons [of n])
    have "put_byte w 255 = (Ok (fst w @ [255], drop 1 (snd w)) :: ('e, tail) outcome)"
      using less.prems e by (intro put_byte_eq) auto
    with True less.IH [of "n - 255" "(fst w @ [255], drop 1 (snd w))"] less.prems e show ?thesis
      by (simp add: put_integer.simps [of w n])
  qed
qed

lemma put_ext_eq:
  "length (len_ext n) \<le> length (snd w) \<Longrightarrow>
   (if 15 \<le> n then put_integer w (n - 15) else Ok w) = Ok (fst w @ len_ext n, drop (length (len_ext n)) (snd w))"
  using put_integer_eq [of "n - 15" w] by (cases "15 \<le> n") (simp_all add: len_ext_def)

section \<open>Sequences\<close>

definition last_bytes :: "bytes \<Rightarrow> bytes" where
  "last_bytes lits = token_from_literal (length lits) # len_ext (length lits) @ lits"

definition sequence_bytes :: "bytes \<Rightarrow> nat \<Rightarrow> nat \<Rightarrow> bytes" where
  "sequence_bytes lits offset m =
     token_from_literal_and_match_length (length lits) m # len_ext (length lits) @ lits @
     le_bytes 2 offset @ len_ext m"

lemma last_bytes_block: "ending_block n dict h (last_bytes lits) (h @ lits)"
  unfolding last_bytes_def
  by (rule ending_block.ending_literals) (simp_all add: literal_token_nibble len_code_ext)

lemma le_bytes_2: "le_bytes 2 v = [word_of_nat (v mod 256), word_of_nat (v div 256 mod 256)]"
  by (simp add: numeral_2_eq_2)

lemma sequence_bytes_seqs:
  assumes "lz4_seqs n dict h p h1" "0 < offset" "offset < 2 ^ 16" "offset \<le> length dict + length (h1 @ lits)"
    and "length (h1 @ lits) + MFLIMIT \<le> n" "length (h1 @ lits) + (MINMATCH + m) + LAST_LITERALS \<le> n"
  shows "lz4_seqs n dict h (p @ sequence_bytes lits offset m) (apply_match dict (h1 @ lits) offset (MINMATCH + m))"
proof -
  let ?b0 = "word_of_nat (offset mod 256) :: byte" and ?b1 = "word_of_nat (offset div 256 mod 256) :: byte"
  have "offset div 256 < 256" using assms(3) by (simp add: div_less_iff_less_mult)
  then have off: "offset_value ?b0 ?b1 = offset" by (simp add: offset_value_def)
  have "lz4_seqs n dict h (p @ token_from_literal_and_match_length (length lits) m # len_ext (length lits) @ lits @
      ?b0 # ?b1 # len_ext m) (apply_match dict (h1 @ lits) (offset_value ?b0 ?b1) (MINMATCH + m))"
    using assms by (intro lz4_seqs.more_seqs) (simp_all only: off token_nibbles len_code_ext simp_thms)
  then show ?thesis by (simp add: sequence_bytes_def le_bytes_2 off)
qed

lemma length_sequence_bytes:
  "length (sequence_bytes lits offset m) = 3 + length (len_ext (length lits)) + length lits + length (len_ext m)"
  by (simp add: sequence_bytes_def)

text \<open>A sequence takes at most 11 bytes for 10 bytes of input, the last literals little more.\<close>

lemma sequence_bytes_small: "10 * length (sequence_bytes lits offset m) \<le> 11 * (length lits + MINMATCH + m)"
proof (cases "length lits < 15")
  case True
  then have l: "length (len_ext (length lits)) = 0" by (simp add: len_ext_def)
  show ?thesis
  proof (cases "m < 15")
    case True
    then show ?thesis using l \<open>length lits < 15\<close> by (simp add: length_sequence_bytes len_ext_def)
  next
    case False
    then show ?thesis using l \<open>length lits < 15\<close> length_len_ext [of m] by (simp add: length_sequence_bytes)
  qed
next
  case False
  then show ?thesis
    using length_len_ext [of m] length_len_ext [of "length lits"]
    by (cases "m < 15") (simp_all add: length_sequence_bytes len_ext_def)
qed

lemma last_bytes_small: "10 * length (last_bytes lits) \<le> 11 * length lits + 20"
  using length_len_ext [of "length lits"] by (simp add: last_bytes_def)

lemma handle_last_literals_eq:
  assumes "start \<le> length input" "length (last_bytes (drop start input)) \<le> length (snd w)"
  shows "handle_last_literals w input start =
    (Ok (fst w @ last_bytes (drop start input), drop (length (last_bytes (drop start input))) (snd w)) ::
      ('e, tail) outcome)"
proof -
  define l where "l = length input - start"
  define w1 where "w1 = (fst w @ [token_from_literal l], drop 1 (snd w))"
  define w2 where "w2 = (fst w1 @ len_ext l, drop (length (len_ext l)) (snd w1))"
  have len: "length (drop start input) = l" by (simp add: l_def)
  have room: "1 + length (len_ext l) + l \<le> length (snd w)"
    using assms(2) len by (simp add: last_bytes_def)
  have us: "usub (length input) start = (Ok l :: ('e, nat) outcome)"
    "sub_slice input start (length input) = (Ok (drop start input) :: ('e, bytes) outcome)"
    using assms(1) by (simp_all add: slice_simps l_def)
  have 1: "put_byte w (token_from_literal l) = (Ok w1 :: ('e, tail) outcome)"
    unfolding w1_def by (rule put_byte_eq) (use room in linarith)
  have 2: "(if 15 \<le> l then put_integer w1 (l - 15) else Ok w1) = (Ok w2 :: ('e, tail) outcome)"
    using room unfolding w2_def by (intro put_ext_eq) (simp add: w1_def)
  have 3: "put_slice w2 (drop start input) = (Ok (fst w2 @ drop start input, drop l (snd w2)) :: ('e, tail) outcome)"
    using room len by (subst put_slice_eq) (auto simp: w2_def w1_def)
  show ?thesis
    by (simp only: handle_last_literals_def us 1 2 3 obind.simps)
      (simp add: w2_def w1_def last_bytes_def len add.commute del: length_drop)
qed


text \<open>Both forms of a sequence write the same bytes.\<close>

lemma emit_sequence_eq:
  assumes "literal_start + lit_len \<le> length input" "offset < 2 ^ 16"
    and sb_def: "sb = sequence_bytes (take lit_len (drop literal_start input)) offset match_len"
    and room: "length sb \<le> length (snd w)"
  shows "\<exists>rest. emit_sequence w input literal_start lit_len offset match_len =
      (Ok (fst w @ sb, rest) :: ('e, tail) outcome) \<and> length sb + length rest = length (snd w)"
proof -
  define lits where "lits = take lit_len (drop literal_start input)"
  define t where "t = token_from_literal_and_match_length lit_len match_len"
  have len: "length lits = lit_len" using assms(1) by (simp add: lits_def)
  have sb: "sb = t # len_ext lit_len @ lits @ le_bytes 2 offset @ len_ext match_len"
    unfolding sb_def lits_def [symmetric] sequence_bytes_def len t_def ..
  show ?thesis
  proof (cases "lit_len < 15 \<and> match_len < 15 \<and> 19 \<le> length (snd w) \<and>
      literal_start \<le> length input \<and> 16 \<le> length (drop literal_start input)")
    case True
    define s0 where "s0 = (take 19 (snd w))[0 := t]"
    define src where "src = take 16 (drop literal_start input)"
    define s1 where "s1 = blit s0 1 src"
    define s2 where "s2 = blit s1 (1 + lit_len) (le_bytes 2 offset)"
    have t: "push_bit 4 (word_of_nat lit_len) OR word_of_nat match_len = t"
      using True by (simp add: t_def token_from_literal_and_match_length_def)
    have ls: "length s0 = 19" "length src = 16" using True by (auto simp: s0_def src_def)
    then have ls1: "length s1 = 19" by (simp add: s1_def)
    have c1: "copy_into s0 1 17 src = (Ok s1 :: ('e, bytes) outcome)"
      using ls by (simp add: copy_into_ok s1_def)
    have c2: "copy_into s1 (1 + lit_len) (3 + lit_len) (le_bytes 2 offset) = (Ok s2 :: ('e, bytes) outcome)"
      using ls1 True by (simp add: copy_into_ok s2_def)
    have e: "emit_sequence w input literal_start lit_len offset match_len =
        (Ok (fst w @ take (3 + lit_len) (s2 @ drop 19 (snd w)), drop (3 + lit_len) (s2 @ drop 19 (snd w)))
          :: ('e, tail) outcome)"
      unfolding emit_sequence_def if_P [OF True] Let_def t s0_def [symmetric] src_def [symmetric] c1 c2 obind.simps ..
    have ls2: "length s2 = 19" using ls1 True by (simp add: s2_def)
    have "take (3 + lit_len) (s2 @ drop 19 (snd w)) = take (3 + lit_len) s2" using ls2 True by simp
    also have "\<dots> = take (1 + lit_len) s1 @ le_bytes 2 offset"
      using take_blit [of "1 + lit_len" s1 "le_bytes 2 offset"] ls1 True by (simp add: s2_def numeral_3_eq_3)
    also have "take (1 + lit_len) s1 = take 1 s0 @ take lit_len src"
      using ls True by (simp add: s1_def blit_def)
    also have "take 1 s0 = [t]" using True by (cases "snd w") (auto simp: s0_def take_Cons')
    also have "take lit_len src = lits" using True by (simp add: src_def lits_def min_def)
    finally have "take (3 + lit_len) (s2 @ drop 19 (snd w)) = sb"
      using True by (simp add: sb len_ext_def)
    moreover have "length sb = 3 + lit_len" using True len by (simp add: sb len_ext_def)
    ultimately show ?thesis using e ls2 True by auto
  next
    case False
    have r: "1 + length (len_ext lit_len) + lit_len + 2 + length (len_ext match_len) \<le> length (snd w)"
      using room len by (simp add: sb)
    define w1 where "w1 = (fst w @ [t], drop 1 (snd w))"
    define w2 where "w2 = (fst w1 @ len_ext lit_len, drop (length (len_ext lit_len)) (snd w1))"
    define w3 where "w3 = (fst w2 @ lits, drop (length lits) (snd w2))"
    define w4 where "w4 = (fst w3 @ le_bytes 2 offset, drop (length (le_bytes 2 offset)) (snd w3))"
    define w5 where "w5 = (fst w4 @ len_ext match_len, drop (length (len_ext match_len)) (snd w4))"
    have 0: "sub_slice input literal_start (literal_start + lit_len) = (Ok lits :: ('e, bytes) outcome)"
      using assms(1) by (simp add: sub_slice_ok lits_def)
    have 1: "put_byte w t = (Ok w1 :: ('e, tail) outcome)"
      unfolding w1_def by (rule put_byte_eq) (use r in linarith)
    have 2: "(if 15 \<le> lit_len then put_integer w1 (lit_len - 15) else Ok w1) = (Ok w2 :: ('e, tail) outcome)"
      unfolding w2_def by (rule put_ext_eq) (use r in \<open>simp add: w1_def\<close>)
    have 3: "put_slice w2 lits = (Ok w3 :: ('e, tail) outcome)"
      unfolding w3_def by (rule put_slice_eq) (use r len in \<open>simp add: w1_def w2_def\<close>)
    have 4: "put_slice w3 (le_bytes 2 offset) = (Ok w4 :: ('e, tail) outcome)"
      unfolding w4_def by (rule put_slice_eq) (use r len in \<open>simp add: w1_def w2_def w3_def\<close>)
    have 5: "(if 15 \<le> match_len then put_integer w4 (match_len - 15) else Ok w4) = (Ok w5 :: ('e, tail) outcome)"
      unfolding w5_def by (rule put_ext_eq) (use r len in \<open>simp add: w1_def w2_def w3_def w4_def\<close>)
    have "emit_sequence w input literal_start lit_len offset match_len = (Ok w5 :: ('e, tail) outcome)"
      unfolding emit_sequence_def if_not_P [OF False] t_def [symmetric] 0 1 2 3 4 5 obind.simps ..
    moreover have "fst w5 = fst w @ sb"
      by (simp add: w5_def w4_def w3_def w2_def w1_def sb)
    moreover have "length sb + length (snd w5) = length (snd w)"
      using r len by (simp add: w5_def w4_def w3_def w2_def w1_def sb)
    ultimately show ?thesis by (metis prod.collapse)
  qed
qed

end
