(* ===== verification/Encoder_Match.thy ===== *)
theory Encoder_Match
  imports Encoder_Write
begin

text \<open>
  Matches the encoder finds are matches of the block format.  \<open>match_at\<close> relates a candidate in
  one of the two texts, the dictionary and the input, to its distance; \<open>progress\<close> is the
  invariant of the loops: the bytes written so far are sequences that decode to the input up
  to \<open>literal_start\<close>, and they are at most 11 for 10 bytes of input.
\<close>

section \<open>Candidates\<close>

text \<open>\<open>source\<close> is the part of the two texts, dictionary and input, that starts at \<open>k\<close>.\<close>

definition part_of :: "bytes \<Rightarrow> bytes \<Rightarrow> bytes \<Rightarrow> nat \<Rightarrow> bool" where
  "part_of dict input source k \<longleftrightarrow>
     source = input \<and> k = length dict \<or> source = dict \<and> k = 0"

lemma part_of_nth:
  "part_of dict input source k \<Longrightarrow> j < length source \<Longrightarrow> source ! j = (dict @ input) ! (k + j)"
  by (auto simp: part_of_def nth_append)

definition match_at :: "bytes \<Rightarrow> bytes \<Rightarrow> nat \<Rightarrow> bytes \<Rightarrow> nat \<Rightarrow> nat \<Rightarrow> bool" where
  "match_at dict input cur source candidate offset \<longleftrightarrow>
     (\<exists>k. part_of dict input source k \<and> k + candidate + offset = length dict + cur \<and>
       0 < offset \<and> offset < 2 ^ 16 \<and> candidate + MINMATCH \<le> length source \<and>
       take MINMATCH (drop candidate source) = take MINMATCH (drop cur input))"

lemma lcp_ge:
  assumes "\<And>i. i < n \<Longrightarrow> xs ! i = ys ! i" "n \<le> length xs" "n \<le> length ys"
  shows "n \<le> lcp xs ys"
proof (rule ccontr)
  assume "\<not> n \<le> lcp xs ys"
  then show False using lcp_differ [of xs ys] assms by simp
qed

lemma backtrack_match_eq:
  assumes "cur \<le> length input" "candidate \<le> length source" "literal_start \<le> cur"
  shows "\<exists>b. backtrack_match input cur literal_start source candidate =
      (Ok (cur - b, candidate - b) :: ('e, nat \<times> nat) outcome) \<and>
    b \<le> candidate \<and> literal_start + b \<le> cur \<and>
    (\<forall>i < b. input ! (cur - b + i) = source ! (candidate - b + i))"
  using assms
proof (induction cur arbitrary: candidate)
  case 0
  then show ?case by (simp add: backtrack_match.simps [of input 0])
next
  case (Suc cur)
  show ?case
  proof (cases "0 < candidate \<and> literal_start < Suc cur \<and> input ! cur = source ! (candidate - 1)")
    case False
    then have "backtrack_match input (Suc cur) literal_start source candidate =
        (Ok (Suc cur, candidate) :: ('e, nat \<times> nat) outcome)"
      using Suc.prems by (auto simp: backtrack_match.simps [of input "Suc cur"] idx_get_def)
    with Suc.prems show ?thesis by (intro exI [of _ 0]) simp
  next
    case True
    have pre: "cur \<le> length input" "candidate - 1 \<le> length source" "literal_start \<le> cur"
      using Suc.prems True by auto
    obtain b where b: "backtrack_match input cur literal_start source (candidate - 1) =
        (Ok (cur - b, candidate - 1 - b) :: ('e, nat \<times> nat) outcome)"
      "b \<le> candidate - 1" "literal_start + b \<le> cur"
      "\<forall>i < b. input ! (cur - b + i) = source ! (candidate - 1 - b + i)"
      using Suc.IH [OF pre] by blast
    have "backtrack_match input (Suc cur) literal_start source candidate =
        (Ok (Suc cur - Suc b, candidate - Suc b) :: ('e, nat \<times> nat) outcome)"
      using True Suc.prems b(1) by (auto simp: backtrack_match.simps [of input "Suc cur"] idx_get_def)
    moreover have "input ! (Suc cur - Suc b + i) = source ! (candidate - Suc b + i)" if "i < Suc b" for i
    proof (cases "i < b")
      case True
      with b(4) show ?thesis by simp
    next
      case False
      with that b(2,3) True have "i = b" "cur - b + b = cur" "candidate - Suc b + b = candidate - 1" by auto
      with True show ?thesis by simp
    qed
    ultimately show ?thesis using b(2,3) True by (intro exI [of _ "Suc b"]) auto
  qed
qed

section \<open>Progress\<close>

definition progress :: "bytes \<Rightarrow> bytes \<Rightarrow> nat \<Rightarrow> nat \<Rightarrow> tail \<Rightarrow> nat \<Rightarrow> bool" where
  "progress dict input p0 room w literal_start \<longleftrightarrow>
     p0 \<le> literal_start \<and> literal_start \<le> length input \<and>
     lz4_seqs (length input) dict (take p0 input) (fst w) (take literal_start input) \<and>
     10 * length (fst w) \<le> 11 * (literal_start - p0) \<and>
     length (fst w) + length (snd w) = room \<and> 20 + (length input - p0) * 110 div 100 \<le> room"

lemma progress_start:
  "p0 \<le> length input \<Longrightarrow> 20 + (length input - p0) * 110 div 100 \<le> length rest \<Longrightarrow>
   progress dict input p0 (length rest) ([], rest) p0"
  by (simp add: progress_def lz4_seqs.no_seqs)

lemma scale_add: "10 * a \<le> 11 * x \<Longrightarrow> 10 * b \<le> 11 * y + c \<Longrightarrow> z = x + y \<Longrightarrow> 10 * (a + b) \<le> 11 * z + (c :: nat)"
  by simp

lemma progress_last:
  assumes "progress dict input p0 room w literal_start"
  shows "\<exists>rest. handle_last_literals w input literal_start =
      (Ok (fst w @ last_bytes (drop literal_start input), rest) :: ('e, tail) outcome) \<and>
    length (fst w @ last_bytes (drop literal_start input)) + length rest = room \<and>
    ending_block (length input) dict (take p0 input) (fst w @ last_bytes (drop literal_start input)) input \<and>
    10 * length (fst w @ last_bytes (drop literal_start input)) \<le> 11 * (length input - p0) + 20"
proof -
  let ?l = "last_bytes (drop literal_start input)"
  have small: "10 * length (fst w @ ?l) \<le> 11 * (length input - p0) + 20"
  proof -
    have "10 * length ?l \<le> 11 * (length input - literal_start) + 20"
      using last_bytes_small [of "drop literal_start input"] by simp
    moreover have "p0 \<le> literal_start" "literal_start \<le> length input" "10 * length (fst w) \<le> 11 * (literal_start - p0)"
      using assms by (auto simp: progress_def)
    moreover from calculation(2,3) have "length input - p0 = (literal_start - p0) + (length input - literal_start)"
      by simp
    ultimately show ?thesis unfolding length_append by (intro scale_add) auto
  qed
  then have "length (fst w @ ?l) \<le> 20 + (length input - p0) * 110 div 100" by linarith
  then have fit: "length ?l \<le> length (snd w)" using assms by (simp add: progress_def)
  have "ending_block (length input) dict (take literal_start input) ?l (take literal_start input @ drop literal_start input)"
    by (rule last_bytes_block)
  then have "ending_block (length input) dict (take p0 input) (fst w @ ?l) input"
    using assms by (intro lz4_seqs_block) (auto simp: progress_def)
  with small fit handle_last_literals_eq [OF _ fit, where ?'e = 'e] assms show ?thesis
    by (auto simp: progress_def)
qed

text \<open>One more sequence: the literals up to \<open>cur\<close>, then a match of \<open>MINMATCH + m\<close> bytes.\<close>

lemma progress_sequence:
  assumes P: "progress dict input p0 room w literal_start"
    and cur: "literal_start \<le> cur" "cur + MINMATCH + m + LAST_LITERALS \<le> length input" "cur + MFLIMIT \<le> length input"
    and off: "0 < offset" "offset < 2 ^ 16" "offset \<le> length dict + cur"
    and same: "\<And>i. i < MINMATCH + m \<Longrightarrow>
      (dict @ input) ! (length dict + cur + i) = (dict @ input) ! (length dict + cur + i - offset)"
  shows "\<exists>w'. emit_sequence w input literal_start (cur - literal_start) offset m = (Ok w' :: ('e, tail) outcome) \<and>
    progress dict input p0 room w' (cur + MINMATCH + m)"
proof -
  define lits where "lits = take (cur - literal_start) (drop literal_start input)"
  define sb where "sb = sequence_bytes lits offset m"
  have len: "length lits = cur - literal_start" using cur by (simp add: lits_def)
  have h1: "take literal_start input @ lits = take cur input"
    using cur(1) take_add [of literal_start "cur - literal_start" input] by (simp add: lits_def)
  have small: "10 * length (fst w @ sb) \<le> 11 * (cur + MINMATCH + m - p0)"
  proof -
    have "10 * length sb \<le> 11 * (cur - literal_start + MINMATCH + m)"
      using sequence_bytes_small [of lits offset m] len by (simp add: sb_def)
    moreover have "p0 \<le> literal_start" "10 * length (fst w) \<le> 11 * (literal_start - p0)"
      using P by (auto simp: progress_def)
    moreover from calculation(2) cur(1) have
      "cur + MINMATCH + m - p0 = (literal_start - p0) + (cur - literal_start + MINMATCH + m)" by simp
    ultimately show ?thesis
      unfolding length_append
      by (intro scale_add [where c = 0 and y = "cur - literal_start + MINMATCH + m" and x = "literal_start - p0",
          unfolded add_0_right])
  qed
  also have "\<dots> \<le> 11 * (length input - p0)" using cur by simp
  finally have "length (fst w @ sb) \<le> 20 + (length input - p0) * 110 div 100" by linarith
  then have fit: "length sb \<le> length (snd w)" using P by (simp add: progress_def)
  have "literal_start + (cur - literal_start) \<le> length input" using cur by simp
  from emit_sequence_eq [OF this off(2) sb_def [unfolded lits_def] fit, where ?'e = 'e] obtain rest where
    e: "emit_sequence w input literal_start (cur - literal_start) offset m = (Ok (fst w @ sb, rest) :: ('e, tail) outcome)"
    "length sb + length rest = length (snd w)" by blast
  have "lz4_seqs (length input) dict (take p0 input) (fst w @ sb)
      (apply_match dict (take literal_start input @ lits) offset (MINMATCH + m))"
    unfolding sb_def using P off cur by (intro sequence_bytes_seqs) (auto simp: progress_def h1 min_def)
  also have "apply_match dict (take literal_start input @ lits) offset (MINMATCH + m) =
      take (cur + (MINMATCH + m)) input"
    unfolding h1 using off cur same by (intro apply_match_unique) auto
  finally have "progress dict input p0 room (fst w @ sb, rest) (cur + MINMATCH + m)"
    using P small e(2) cur by (simp add: progress_def add.assoc)
  with e(1) show ?thesis by blast
qed

section \<open>A whole match\<close>

text \<open>The match around a candidate: \<open>b\<close> bytes back, \<open>4 + d\<close> bytes long from there.\<close>

lemma match_extent:
  assumes M: "match_at dict input cur source candidate offset"
    and cur: "cur + MFLIMIT \<le> length input" and b: "b \<le> candidate" "b \<le> cur"
    and bk: "\<And>i. i < b \<Longrightarrow> input ! (cur - b + i) = source ! (candidate - b + i)"
    and d: "d = lcp (take (length input - END_OFFSET - (cur - b + MINMATCH)) (drop (cur - b + MINMATCH) input))
      (drop (candidate - b + MINMATCH) source)"
  shows "cur < cur - b + MINMATCH + d" "cur - b + MINMATCH + d + END_OFFSET \<le> length input"
    and "0 < offset" "offset < 2 ^ 16" "offset \<le> length dict + (cur - b)"
    and "i < MINMATCH + d \<Longrightarrow>
      (dict @ input) ! (length dict + (cur - b) + i) = (dict @ input) ! (length dict + (cur - b) + i - offset)"
proof -
  define c1 where "c1 = cur - b"
  define k1 where "k1 = candidate - b"
  define xs where "xs = take (length input - END_OFFSET - (c1 + 4)) (drop (c1 + 4) input)"
  define ys where "ys = drop (k1 + 4) source"
  obtain k where k: "part_of dict input source k" "k + candidate + offset = length dict + cur"
    "candidate + 4 \<le> length source" "take 4 (drop candidate source) = take 4 (drop cur input)"
    and off: "0 < offset" "offset < 2 ^ 16"
    using M by (auto simp: match_at_def)
  have c1: "c1 + b = cur" "k1 + b = candidate" using b by (simp_all add: c1_def k1_def)
  have d: "d = lcp xs ys" using d by (simp add: xs_def ys_def c1_def k1_def)
  have same4: "input ! (c1 + i) = source ! (k1 + i)" if "i < b + 4" for i
  proof (cases "i < b")
    case True
    with bk show ?thesis by (simp add: c1_def k1_def)
  next
    case False
    define j where "j = i - b"
    have j: "j < 4" "c1 + i = cur + j" "k1 + i = candidate + j" using that False c1 by (auto simp: j_def)
    have "take 4 (drop candidate source) ! j = source ! (candidate + j)"
      using j(1) k(3) by simp
    moreover have "take 4 (drop cur input) ! j = input ! (cur + j)"
      using j(1) cur by simp
    ultimately show ?thesis using k(4) j by simp
  qed
  have xs: "length xs = length input - 6 - (c1 + 4)" "xs ! i = input ! (c1 + 4 + i)" if "i < length xs" for i
    using that by (simp_all add: xs_def)
  have lx: "length xs + (c1 + 10) = length input" using cur c1 by (simp add: xs_def)
  have ys: "ys ! i = source ! (k1 + 4 + i)" if "i < length ys" for i
    using that by (simp add: ys_def)
  have ly: "length ys + (k1 + 4) = length source" using k(3) c1 by (simp add: ys_def)
  have "b \<le> lcp xs ys"
  proof (rule lcp_ge)
    show "b \<le> length xs" using lx cur c1 by simp
    show "b \<le> length ys" using ly k(3) c1 by simp
    fix i assume "i < b"
    with \<open>b \<le> length xs\<close> \<open>b \<le> length ys\<close> xs(2) [of i] ys [of i] same4 [of "4 + i"]
    show "xs ! i = ys ! i" by (simp add: add.assoc)
  qed
  then have bd: "b \<le> d" by (simp add: d)
  then show "cur < cur - b + MINMATCH + d" using c1(1) by (simp add: c1_def)
  have dx: "d \<le> length xs" "d \<le> length ys" using lcp_le [of xs ys] by (simp_all add: d)
  then show "cur - b + MINMATCH + d + END_OFFSET \<le> length input" using lx by (simp add: c1_def)
  show "0 < offset" "offset < 2 ^ 16" by (rule off)+
  have kc: "k + k1 + offset = length dict + c1" using k(2) c1 by linarith
  then show "offset \<le> length dict + (cur - b)" by (simp add: c1_def)
  assume i: "i < MINMATCH + d"
  have "input ! (c1 + i) = source ! (k1 + i)"
  proof (cases "i < 4")
    case True
    then show ?thesis using same4 by simp
  next
    case False
    define j where "j = i - 4"
    have j: "j < d" "i = 4 + j" using i False by (auto simp: j_def)
    with dx xs(2) [of j] ys [of j] lcp_nth [of j xs ys] show ?thesis by (simp add: d add.assoc)
  qed
  also have "\<dots> = (dict @ input) ! (k + (k1 + i))"
    using part_of_nth [OF k(1), of "k1 + i"] i dx(2) ly by simp
  also have "k + (k1 + i) = length dict + c1 + i - offset" using kc by simp
  finally show "(dict @ input) ! (length dict + (cur - b) + i) = (dict @ input) ! (length dict + (cur - b) + i - offset)"
    by (simp add: c1_def add.assoc)
qed

context hash_table
begin

lemma take_match_ok:
  assumes P: "progress dict input p0 room w literal_start"
    and cur: "literal_start \<le> cur" "cur + MFLIMIT \<le> length input"
    and M: "match_at dict input cur source candidate offset"
    and t: "invar table" "readonly \<or> below table (Suc (base + cur))"
  shows "\<exists>cur' table' w'. take_match T readonly base input literal_start cur source candidate offset table w =
      Ok (cur', table', w') \<and> progress dict input p0 room w' cur' \<and> cur < cur' \<and>
      cur' + END_OFFSET \<le> length input \<and> invar table' \<and> (readonly \<longrightarrow> table' = table) \<and>
      (readonly \<or> below table' (base + cur'))"
proof -
  have src: "candidate + 4 \<le> length source" using M by (auto simp: match_at_def)
  obtain b where b: "backtrack_match input cur literal_start source candidate =
      (Ok (cur - b, candidate - b) :: (CompressError, nat \<times> nat) outcome)"
    "b \<le> candidate" "literal_start + b \<le> cur"
    and bk: "\<And>i. i < b \<Longrightarrow> input ! (cur - b + i) = source ! (candidate - b + i)"
    using backtrack_match_eq [of cur input candidate source literal_start, where ?'e = CompressError] src cur by auto
  define d where "d = lcp (take (length input - END_OFFSET - (cur - b + MINMATCH)) (drop (cur - b + MINMATCH) input))
      (drop (candidate - b + MINMATCH) source)"
  define cur' where "cur' = cur - b + MINMATCH + d"
  have bc: "b \<le> cur" using b(3) by simp
  note X = match_extent [OF M cur(2) b(2) bc bk d_def]
  have cur': "cur < cur'" "cur' + END_OFFSET \<le> length input" using X(1,2) by (simp_all add: cur'_def)
  have cnt: "count_same_bytes input (cur - b + MINMATCH) source (candidate - b + MINMATCH) END_OFFSET =
      (Ok (d, cur') :: (CompressError, nat \<times> nat) outcome)"
    using count_same_bytes_eq [of END_OFFSET input "cur - b + MINMATCH" "candidate - b + MINMATCH" source,
        where ?'e = CompressError] cur src b(2)
    by (simp add: d_def cur'_def Let_def)
  have u: "usub (cur - b) literal_start = (Ok (cur - b - literal_start) :: (CompressError, nat) outcome)"
    "usub cur' 2 = (Ok (cur' - 2) :: (CompressError, nat) outcome)"
    "usub (length input) 8 = (Ok (length input - 8) :: (CompressError, nat) outcome)"
    using b(3) cur cur' by (simp_all add: usub_ok cur'_def)
  have r: "rd64_upto input (cur' - 2) (length input - 8) =
      (Ok (word_of_bytes (take 8 (drop (cur' - 2) input))) :: (CompressError, 64 word) outcome)"
  proof -
    have "4 \<le> cur'" by (simp add: cur'_def)
    then have "cur' - 2 + 8 \<le> length input" "cur' - 2 \<le> length input - 8" using cur'(2) by simp_all
    then show ?thesis by (simp add: rd64_upto_def rd64_eq min_absorb1)
  qed
  obtain table' where put: "(if readonly then Ok table else put_at T table
        (hash T (word_of_bytes (take 8 (drop (cur' - 2) input)))) (cur' - 2 + base)) = Ok table'"
    and t': "invar table'" "readonly \<longrightarrow> table' = table" "readonly \<or> below table' (base + cur')"
  proof (cases readonly)
    case True
    with t that show ?thesis by simp
  next
    case False
    with put_both [OF t(1), of "Suc (base + cur)" "cur' - 2 + base" "base + cur'"] t(2) cur' that
    show ?thesis by auto
  qed
  have bounds: "literal_start \<le> cur - b" "cur - b + MINMATCH + d + LAST_LITERALS \<le> length input" "cur - b + MFLIMIT \<le> length input"
    using b(3) cur'(2) cur(2) by (simp_all add: cur'_def)
  obtain w' where "emit_sequence w input literal_start (cur - b - literal_start) offset d = (Ok w' :: (CompressError, tail) outcome)"
    "progress dict input p0 room w' cur'"
    using progress_sequence [OF P bounds X(3-5) X(6), where ?'e = CompressError] by (auto simp: cur'_def)
  with b(1) u cnt r put t' cur' show ?thesis
    by (simp add: take_match_def Let_def)
qed

end

end
