(* ===== verification/Encoder_Correct.thy ===== *)
theory Encoder_Correct
  imports Encoder_Match
begin

text \<open>
  The main compression loop.  A hit of the search is a match (\<open>match_at\<close>), every round of the
  loops keeps \<open>progress\<close>, and the fuel is enough, since every round moves \<open>literal_start\<close>
  forward.  \<open>compress_internal_ok\<close> says it of the whole function: in an output of the maximum size
  it writes a block that decodes to the input.
\<close>

section \<open>Probing a candidate\<close>

definition env_ok :: "'t env \<Rightarrow> bool" where
  "env_ok e \<longleftrightarrow>
     (USE_DICT (e_mode e) \<or> e_dict e = []) \<and> length (e_dict e) \<le> e_offset e \<and>
     e_offset e + length (e_input e) < 2 ^ 63 \<and>
     (READONLY (e_mode e) \<longrightarrow> USE_DICT (e_mode e) \<and> e_offset e = length (e_dict e)) \<and>
     (READONLY (e_mode e) \<or> NEAR (e_mode e) \<longrightarrow> length (e_dict e) + length (e_input e) \<le> MAX_DISTANCE + 1)"

abbreviation bytes_at :: "bytes \<Rightarrow> nat \<Rightarrow> 64 word" where
  "bytes_at input cur \<equiv> word_of_bytes (take 8 (drop cur input))"

abbreviation four_at :: "bytes \<Rightarrow> nat \<Rightarrow> 32 word" where
  "four_at input cur \<equiv> word_of_bytes (take 4 (drop cur input))"

lemma four_at_eq:
  assumes "a + 4 \<le> length xs" "b + 4 \<le> length ys"
  shows "four_at xs a = four_at ys b \<longleftrightarrow> take 4 (drop a xs) = take 4 (drop b ys)"
  using assms by (intro word_of_bytes_inj) simp_all

lemma first4_bytes_at: "cur + 8 \<le> length input \<Longrightarrow> first4 (bytes_at input cur) = four_at input cur"
  by (simp add: first4_eq)

lemma curr_bytes_eq:
  "cur < next_cur \<Longrightarrow> cur + MFLIMIT \<le> length input \<Longrightarrow>
   curr_bytes m input cur next_cur (bytes_at input cur) = Ok (four_at input cur)"
  by (simp add: curr_bytes_def min_absorb1 rd32_eq first4_bytes_at)

lemma probe_input_ok:
  assumes e: "env_ok e" and cur: "cur < next_cur" "cur + MFLIMIT \<le> length (e_input e)"
    and c: "input_pos < cur"
  shows "\<exists>p. probe_input e cur next_cur (bytes_at (e_input e) cur) input_pos = Ok p \<and>
    (\<forall>c s off. p = Hit c s off \<longrightarrow> match_at (e_dict e) (e_input e) cur s c off)"
proof -
  have r: "rd32 (e_input e) input_pos = (Ok (four_at (e_input e) input_pos) :: (CompressError, 32 word) outcome)"
    using c cur by (intro rd32_eq) simp
  note cb = curr_bytes_eq [OF cur]
  have u: "usub cur input_pos = (Ok (cur - input_pos) :: (CompressError, nat) outcome)"
    using c by (simp add: usub_ok)
  show ?thesis
  proof (cases "four_at (e_input e) input_pos = four_at (e_input e) cur \<and>
      (NEAR (e_mode e) \<or> cur - input_pos \<le> MAX_DISTANCE)")
    case False
    then show ?thesis by (auto simp: probe_input_def r cb u hit_if_def)
  next
    case True
    have small: "cur - input_pos < 2 ^ 16"
      using True e cur by (auto simp: env_ok_def)
    have "take 4 (drop input_pos (e_input e)) = take 4 (drop cur (e_input e))"
      using True c cur by (subst four_at_eq [symmetric]) auto
    then have "match_at (e_dict e) (e_input e) cur (e_input e) input_pos (cur - input_pos)"
      unfolding match_at_def using c cur small
      by (intro exI [of _ "length (e_dict e)"]) (simp add: part_of_def)
    with True small show ?thesis by (auto simp: probe_input_def r cb u hit_if_def)
  qed
qed

lemma dict_hit_match:
  assumes "dict_pos + 4 \<le> length dict" "cur + MFLIMIT \<le> length input"
    "four_at dict dict_pos = four_at input cur" "length dict + cur - dict_pos \<le> MAX_DISTANCE"
  shows "match_at dict input cur dict dict_pos (length dict + cur - dict_pos)"
proof -
  have "take 4 (drop dict_pos dict) = take 4 (drop cur input)"
    using assms by (subst four_at_eq [symmetric]) auto
  then show ?thesis
    unfolding match_at_def using assms by (intro exI [of _ 0]) (simp add: part_of_def)
qed

lemma probe_dict_ok:
  assumes e: "env_ok e" and cur: "cur < next_cur" "cur + MFLIMIT \<le> length (e_input e)"
    and c: "dict_pos + 4 \<le> length (e_dict e)" "candidate = e_offset e - length (e_dict e) + dict_pos"
  shows "\<exists>p. probe_dict e cur next_cur (bytes_at (e_input e) cur) candidate dict_pos = Ok p \<and>
    (\<forall>c s off. p = Hit c s off \<longrightarrow> match_at (e_dict e) (e_input e) cur s c off)"
proof -
  have r: "rd32 (e_dict e) dict_pos = (Ok (four_at (e_dict e) dict_pos) :: (CompressError, 32 word) outcome)"
    using c by (intro rd32_eq) simp
  note cb = curr_bytes_eq [OF cur]
  have so: "length (e_dict e) \<le> e_offset e" using e by (simp add: env_ok_def)
  have "e_offset e + cur - candidate = length (e_dict e) + cur - dict_pos" "candidate \<le> e_offset e + cur"
    using c so by simp_all
  then have u: "usub (e_offset e + cur) candidate = (Ok (length (e_dict e) + cur - dict_pos) :: (CompressError, nat) outcome)"
    by (simp add: usub_ok)
  show ?thesis
  proof (cases "four_at (e_dict e) dict_pos = four_at (e_input e) cur \<and>
      (NEAR (e_mode e) \<or> length (e_dict e) + cur - dict_pos \<le> MAX_DISTANCE)")
    case False
    then show ?thesis by (auto simp: probe_dict_def r cb u hit_if_def)
  next
    case True
    then have small: "length (e_dict e) + cur - dict_pos \<le> MAX_DISTANCE"
      using e cur by (auto simp: env_ok_def)
    with dict_hit_match [OF c(1) cur(2) _ small] True show ?thesis
      by (auto simp: probe_dict_def r cb u hit_if_def)
  qed
qed

lemma probe_readonly_ok:
  assumes e: "env_ok e" "READONLY (e_mode e)" and cur: "cur < next_cur" "cur + MFLIMIT \<le> length (e_input e)"
  shows "\<exists>p. probe_readonly e cur next_cur (bytes_at (e_input e) cur) candidate = Ok p \<and>
    (\<forall>c s off. p = Hit c s off \<longrightarrow> match_at (e_dict e) (e_input e) cur s c off)"
proof (cases "length (e_dict e) < candidate + 4")
  case True
  then show ?thesis by (simp add: probe_readonly_def)
next
  case False
  then have c: "candidate + 4 \<le> length (e_dict e)" by simp
  have so: "e_offset e = length (e_dict e)" and near: "length (e_dict e) + length (e_input e) \<le> MAX_DISTANCE + 1"
    using e by (simp_all add: env_ok_def)
  have r: "rd32 (e_dict e) candidate = (Ok (four_at (e_dict e) candidate) :: (CompressError, 32 word) outcome)"
    using c by (intro rd32_eq) simp
  note cb = curr_bytes_eq [OF cur]
  have u: "usub (length (e_dict e) + cur) candidate = (Ok (length (e_dict e) + cur - candidate) :: (CompressError, nat) outcome)"
    using c by (simp add: usub_ok)
  have small: "length (e_dict e) + cur - candidate \<le> MAX_DISTANCE" using near cur by simp
  with dict_hit_match [OF c cur(2) _ small] False so show ?thesis
    by (auto simp: probe_readonly_def r cb u hit_if_def)
qed

lemma probe_candidate_ok:
  assumes e: "env_ok e" and cur: "cur < next_cur" "next_cur \<le> length (e_input e)"
      "cur + MFLIMIT \<le> length (e_input e)"
    and c: "READONLY (e_mode e) \<or> candidate < e_offset e + cur"
  shows "\<exists>p. probe_candidate e cur next_cur (bytes_at (e_input e) cur) candidate = Ok p \<and>
    (\<forall>c s off. p = Hit c s off \<longrightarrow> match_at (e_dict e) (e_input e) cur s c off)"
proof -
  have so: "usub (e_offset e) (length (e_dict e)) = (Ok (e_offset e - length (e_dict e)) :: (CompressError, nat) outcome)"
    using e by (simp add: env_ok_def usub_ok)
  show ?thesis
  proof (cases "READONLY (e_mode e)")
    case True
    with probe_readonly_ok [OF e True cur(1,3)] so show ?thesis by (simp add: probe_candidate_def Let_def)
  next
    case False
    with c have lt: "candidate < e_offset e + cur" by simp
    show ?thesis
    proof (cases "e_offset e \<le> candidate")
      case True
      define ip where "ip = candidate - e_offset e"
      have ip: "wrapping_sub candidate (e_offset e) = ip"
        using True e lt cur by (simp add: wrapping_sub_ge ip_def env_ok_def)
      have ipc: "ip < cur" "ip < next_cur" using True lt cur by (auto simp: ip_def)
      have u: "usub cur ip = (Ok (cur - ip) :: (CompressError, nat) outcome)" using ipc by (simp add: usub_ok)
      show ?thesis
      proof (cases "carry_hash (e_mode e) \<longrightarrow> cur - ip \<le> MAX_DISTANCE")
        case True
        then have "probe_candidate e cur next_cur (bytes_at (e_input e) cur) candidate =
            probe_input e cur next_cur (bytes_at (e_input e) cur) ip"
          using False lt ipc by (auto simp: probe_candidate_def so Let_def ip u)
        with probe_input_ok [OF e cur(1,3) ipc(1)] show ?thesis by simp
      next
        case far: False
        then have "\<not> USE_DICT (e_mode e)" by (simp add: carry_hash_def)
        with far False lt ipc have "probe_candidate e cur next_cur (bytes_at (e_input e) cur) candidate = Ok Miss"
          by (auto simp: probe_candidate_def so Let_def ip u)
        then show ?thesis by simp
      qed
    next
      case below: False
      have "wrapping_sub candidate (e_offset e) = candidate + 2 ^ 64 - e_offset e"
        using below e by (intro wrapping_sub_lt) (auto simp: env_ok_def)
      moreover have "e_offset e + next_cur < 2 ^ 63" using e cur(2) by (simp add: env_ok_def)
      ultimately have ip: "\<not> wrapping_sub candidate (e_offset e) < next_cur" by simp
      show ?thesis
      proof (cases "USE_DICT (e_mode e) \<and> e_offset e - length (e_dict e) \<le> candidate \<and>
          candidate - (e_offset e - length (e_dict e)) + 4 \<le> length (e_dict e)")
        case True
        define dp where "dp = candidate - (e_offset e - length (e_dict e))"
        have "probe_candidate e cur next_cur (bytes_at (e_input e) cur) candidate =
            probe_dict e cur next_cur (bytes_at (e_input e) cur) candidate dp"
          using True False lt ip by (auto simp: probe_candidate_def so Let_def dp_def)
        moreover have "dp + 4 \<le> length (e_dict e)" "candidate = e_offset e - length (e_dict e) + dp"
          using True by (auto simp: dp_def)
        ultimately show ?thesis using probe_dict_ok [OF e cur(1,3)] by simp
      next
        case none: False
        then have "probe_candidate e cur next_cur (bytes_at (e_input e) cur) candidate = Ok Miss"
          using False lt ip by (auto simp: probe_candidate_def so Let_def)
        then show ?thesis by simp
      qed
    qed
  qed
qed

section \<open>The loops\<close>

context hash_table
begin

text \<open>The forward bytes and hash are those of the next position, unless the input ends there.\<close>

definition forward :: "bytes \<Rightarrow> nat \<Rightarrow> 64 word \<Rightarrow> nat \<Rightarrow> bool" where
  "forward input cur fb fh \<longleftrightarrow>
     (cur + MFLIMIT \<le> length input \<longrightarrow> fb = bytes_at input cur \<and> fh = hash T fb)"

definition search_ok :: "'t env \<Rightarrow> nat \<Rightarrow> 't search_result \<Rightarrow> bool" where
  "search_ok e cur r \<longleftrightarrow>
     (case r of
        SearchEnd t \<Rightarrow> invar t \<and> (READONLY (e_mode e) \<or> below t (e_offset e + length (e_input e)))
      | SearchHit t cur' candidate source offset fb fh \<Rightarrow>
          cur \<le> cur' \<and> cur' + MFLIMIT \<le> length (e_input e) \<and> invar t \<and>
          (READONLY (e_mode e) \<or> below t (Suc (e_offset e + cur'))) \<and>
          match_at (e_dict e) (e_input e) cur' source candidate offset)"

lemma search_okay:
  assumes "env_ok e" "e_table e = T" "12 \<le> length (e_input e)" "cur \<le> length (e_input e)"
    "8 \<le> nmc" "invar table" "READONLY (e_mode e) \<or> below table (e_offset e + cur)"
    "forward (e_input e) cur fb fh"
  shows "\<exists>r. search e cur nmc table fb fh = Ok r \<and> search_ok e cur r"
  using assms
proof (induction "length (e_input e) - cur" arbitrary: cur nmc table fb fh rule: less_induct)
  case less
  define next_cur where "next_cur = cur + nmc div 8"
  have step: "cur < next_cur" using less.prems(5) by (simp add: next_cur_def div_greater_zero_iff)
  have u: "usub (length (e_input e)) 12 = (Ok (length (e_input e) - 12) :: (CompressError, nat) outcome)"
    using less.prems(3) by (simp add: usub_ok)
  have d8: "drop_bit 3 nmc = nmc div 8" by (simp add: drop_bit_eq_div)
  show ?case
  proof (cases "length (e_input e) - 12 + 1 < next_cur")
    case True
    then have "search e cur nmc table fb fh = Ok (SearchEnd table)"
      by (simp add: search.simps [of e cur] u d8 next_cur_def)
    moreover have "READONLY (e_mode e) \<or> below table (e_offset e + length (e_input e))"
      using less.prems(4,7) below_mono by fastforce
    ultimately show ?thesis using less.prems(6) by (simp add: search_ok_def)
  next
    case False
    then have fits: "next_cur + 8 \<le> length (e_input e)" "cur + 12 \<le> length (e_input e)"
      using step less.prems(3) by auto
    have fb: "fb = bytes_at (e_input e) cur" "fh = hash T fb"
      using less.prems(8) fits(2) by (simp_all add: forward_def)
    obtain c where c: "get_at T table (hash T fb) = Ok c" "READONLY (e_mode e) \<or> c < e_offset e + cur"
      using get_ok [OF less.prems(6)] get_below less.prems(7) by metis
    obtain t where t: "(if READONLY (e_mode e) then Ok table else put_at T table (hash T fb) (cur + e_offset e)) = Ok t"
      "invar t" "READONLY (e_mode e) \<or> below t (Suc (e_offset e + cur))"
    proof (cases "READONLY (e_mode e)")
      case True
      with less.prems(6) that show ?thesis by simp
    next
      case False
      with put_both [OF less.prems(6), of "e_offset e + cur" "cur + e_offset e" "Suc (e_offset e + cur)"]
        less.prems(7) that show ?thesis by auto
    qed
    obtain p where p: "probe_candidate e cur next_cur fb c = Ok p"
      "\<forall>c s off. p = Hit c s off \<longrightarrow> match_at (e_dict e) (e_input e) cur s c off"
      using probe_candidate_ok [OF less.prems(1) step, of c] fits c(2) fb(1) by auto
    have r: "rd64 (e_input e) next_cur = (Ok (bytes_at (e_input e) next_cur) :: (CompressError, 64 word) outcome)"
      using fits by (simp add: rd64_eq)
    have h: "(if carry_hash (e_mode e) then fh else hash T fb) = hash T fb" by (simp add: fb(2))
    have S: "search e cur nmc table fb fh =
        (case p of Hit candidate source offset \<Rightarrow>
            Ok (SearchHit t cur candidate source offset (bytes_at (e_input e) next_cur)
              (hash T (bytes_at (e_input e) next_cur)))
         | Miss \<Rightarrow> search e next_cur (Suc nmc) t (bytes_at (e_input e) next_cur)
             (hash T (bytes_at (e_input e) next_cur)))"
      using False t(1) c(1) p(1)
      by (cases "READONLY (e_mode e)")
        (simp_all add: search.simps [of e cur] u d8 next_cur_def [symmetric] less.prems(2) Let_def h r)
    show ?thesis
    proof (cases p)
      case (Hit candidate source offset)
      with S p(2) t fits show ?thesis by (simp add: search_ok_def)
    next
      case Miss
      have dec: "length (e_input e) - next_cur < length (e_input e) - cur" using step fits by simp
      have "READONLY (e_mode e) \<or> below t (e_offset e + next_cur)"
        using t(3) step below_mono [of t "Suc (e_offset e + cur)" "e_offset e + next_cur"] by auto
      then obtain r where "search e next_cur (Suc nmc) t (bytes_at (e_input e) next_cur)
            (hash T (bytes_at (e_input e) next_cur)) = Ok r" "search_ok e next_cur r"
        using less.hyps [OF dec less.prems(1-3), of "Suc nmc" t "bytes_at (e_input e) next_cur"
            "hash T (bytes_at (e_input e) next_cur)"] less.prems(5) t(2) fits
        by (auto simp: forward_def)
      moreover from this(2) have "search_ok e cur r"
        using step by (auto simp: search_ok_def split: search_result.splits)
      ultimately show ?thesis using S Miss by simp
    qed
  qed
qed


text \<open>What holds between two searches.\<close>

definition loop_inv :: "'t env \<Rightarrow> nat \<Rightarrow> nat \<Rightarrow> nat \<Rightarrow> nat \<Rightarrow> 't \<Rightarrow> tail \<Rightarrow> 64 word \<Rightarrow> nat \<Rightarrow> bool" where
  "loop_inv e p0 room cur literal_start table w fb fh \<longleftrightarrow>
     progress (e_dict e) (e_input e) p0 room w literal_start \<and> literal_start \<le> cur \<and>
     cur \<le> length (e_input e) \<and> invar table \<and>
     (READONLY (e_mode e) \<or> below table (e_offset e + cur)) \<and> forward (e_input e) cur fb fh"

lemma match_loop_ok:
  assumes "env_ok e" "e_table e = T" "12 \<le> length (e_input e)"
    "progress (e_dict e) (e_input e) p0 room w literal_start" "literal_start \<le> cur"
    "cur + MFLIMIT \<le> length (e_input e)" "match_at (e_dict e) (e_input e) cur source candidate offset"
    "invar table" "READONLY (e_mode e) \<or> below table (Suc (e_offset e + cur))"
    "length (e_input e) - literal_start < fuel"
  shows "\<exists>cur' table' w' fb' fh'. match_loop fuel e cur candidate source offset literal_start table w fb fh =
      Ok (cur', table', w', fb', fh') \<and> loop_inv e p0 room cur' cur' table' w' fb' fh' \<and> literal_start < cur'"
  using assms
proof (induction fuel arbitrary: cur candidate source offset literal_start table w)
  case 0
  then show ?case by simp
next
  case (Suc fuel)
  obtain c t w1 where m: "take_match T (READONLY (e_mode e)) (e_offset e) (e_input e) literal_start cur source
      candidate offset table w = Ok (c, t, w1)"
    and P: "progress (e_dict e) (e_input e) p0 room w1 c" and c: "cur < c" "c + END_OFFSET \<le> length (e_input e)"
    and t: "invar t" "READONLY (e_mode e) \<or> below t (e_offset e + c)"
    using take_match_ok [OF Suc.prems(4-9)] by blast
  have u: "usub (length (e_input e)) 12 = (Ok (length (e_input e) - 12) :: (CompressError, nat) outcome)"
    using Suc.prems(3) by (simp add: usub_ok)
  show ?case
  proof (cases "c \<le> length (e_input e) - 12")
    case False
    then have "\<not> c + MFLIMIT \<le> length (e_input e)" by simp
    then have "loop_inv e p0 room c c t w1 fb fh"
      using P t c by (simp add: loop_inv_def forward_def)
    moreover have "match_loop (Suc fuel) e cur candidate source offset literal_start table w fb fh =
        Ok (c, t, w1, fb, fh)"
      using False m by (simp add: Suc.prems(2) u)
    ultimately show ?thesis using Suc.prems(5) c(1) by auto
  next
    case True
    then have c12: "c + 12 \<le> length (e_input e)" using Suc.prems(3) by simp
    define b where "b = bytes_at (e_input e) c"
    have r: "rd64 (e_input e) c = (Ok b :: (CompressError, 64 word) outcome)"
      using c12 by (simp add: rd64_eq b_def)
    have inv: "loop_inv e p0 room c c t w1 b (hash T b)"
      using P t c c12 by (simp add: loop_inv_def forward_def b_def)
    show ?thesis
    proof (cases "USE_DICT (e_mode e)")
      case dict: True
      then have "match_loop (Suc fuel) e cur candidate source offset literal_start table w fb fh =
          Ok (c, t, w1, b, hash T b)"
        using True m by (simp add: Suc.prems(2) u r)
      with inv show ?thesis using Suc.prems(5) c(1) by auto
    next
      case plain: False
      then have ro: "\<not> READONLY (e_mode e)" using Suc.prems(1) by (auto simp: env_ok_def)
      obtain v where v: "get_at T t (hash T b) = Ok v" "v < e_offset e + c"
        using get_both [OF t(1), of "e_offset e + c" b] t(2) ro by auto
      define rc where "rc = wrapping_sub v (e_offset e)"
      define again where "again \<longleftrightarrow> rc < c \<and> first4 b = four_at (e_input e) rc \<and>
          (NEAR (e_mode e) \<or> c - rc \<le> MAX_DISTANCE)"
      have a: "rc < c \<Longrightarrow> rd32 (e_input e) rc = (Ok (four_at (e_input e) rc) :: (CompressError, 32 word) outcome)"
        using c12 by (intro rd32_eq) simp
      show ?thesis
      proof (cases again)
        case False
        then have "match_loop (Suc fuel) e cur candidate source offset literal_start table w fb fh =
            Ok (c, t, w1, b, hash T b)"
          using True plain m a by (auto simp: Suc.prems(2) u r v(1) Let_def rc_def [symmetric] again_def)
        with inv show ?thesis using Suc.prems(5) c(1) by auto
      next
        case hit: True
        then have rc: "rc < c" by (simp add: again_def)
        obtain t' where t': "put_at T t (hash T b) (c + e_offset e) = Ok t'" "invar t'"
          "below t' (Suc (e_offset e + c))"
          using put_both [OF t(1), of "e_offset e + c" "c + e_offset e" "Suc (e_offset e + c)"] t(2) ro by auto
        have small: "c - rc < 2 ^ 16" using hit Suc.prems(1) c12 by (auto simp: again_def env_ok_def)
        have "take 4 (drop rc (e_input e)) = take 4 (drop c (e_input e))"
          using hit rc c12 by (subst four_at_eq [symmetric]) (auto simp: again_def b_def first4_bytes_at)
        then have M: "match_at (e_dict e) (e_input e) c (e_input e) rc (c - rc)"
          unfolding match_at_def using rc c12 small
          by (intro exI [of _ "length (e_dict e)"]) (simp add: part_of_def)
        have F: "length (e_input e) - c < fuel" using Suc.prems(5,10) c by simp
        have pre: "c + MFLIMIT \<le> length (e_input e)" "READONLY (e_mode e) \<or> below t' (Suc (e_offset e + c))"
          using c12 t'(3) by simp_all
        obtain cur' table' w' fb' fh' where
          "match_loop fuel e c rc (e_input e) (c - rc) c t' w1 fb fh = Ok (cur', table', w', fb', fh')"
          "loop_inv e p0 room cur' cur' table' w' fb' fh'" "c < cur'"
          using Suc.IH [OF Suc.prems(1-3) P order_refl pre(1) M t'(2) pre(2) F] by blast
        moreover have "match_loop (Suc fuel) e cur candidate source offset literal_start table w fb fh =
            match_loop fuel e c rc (e_input e) (c - rc) c t' w1 fb fh"
          using True plain hit m a small t'(1)
          by (auto simp: Suc.prems(2) u r v(1) Let_def rc_def [symmetric] again_def)
        ultimately show ?thesis using Suc.prems(5) c(1) by auto
      qed
    qed
  qed
qed

lemma compress_loop_ok:
  assumes "env_ok e" "e_table e = T" "12 \<le> length (e_input e)"
    "loop_inv e p0 room cur literal_start table w fb fh" "length (e_input e) - literal_start < fuel"
  shows "\<exists>table' w'. compress_loop fuel e cur literal_start table w fb fh = Ok (table', w') \<and>
    invar table' \<and> (READONLY (e_mode e) \<or> below table' (e_offset e + length (e_input e))) \<and>
    ending_block (length (e_input e)) (e_dict e) (take p0 (e_input e)) (fst w') (e_input e) \<and>
    length (fst w') + length (snd w') = room \<and> 10 * length (fst w') \<le> 11 * (length (e_input e) - p0) + 20"
  using assms
proof (induction fuel arbitrary: cur literal_start table w fb fh)
  case 0
  then show ?case by simp
next
  case (Suc fuel)
  have inv: "progress (e_dict e) (e_input e) p0 room w literal_start" "literal_start \<le> cur"
    "cur \<le> length (e_input e)" "invar table" "READONLY (e_mode e) \<or> below table (e_offset e + cur)"
    "forward (e_input e) cur fb fh"
    using Suc.prems(4) by (auto simp: loop_inv_def)
  obtain r where r: "search e cur 8 table fb fh = Ok r" "search_ok e cur r"
    using search_okay [OF Suc.prems(1-3) inv(3) _ inv(4,5,6), of 8] by auto
  show ?case
  proof (cases r)
    case (SearchEnd t)
    then show ?thesis
      using r progress_last [OF inv(1), where ?'e = CompressError]
      by (fastforce simp: search_ok_def)
  next
    case (SearchHit t c candidate source offset fb1 fh1)
    have "literal_start \<le> c" "c + MFLIMIT \<le> length (e_input e)"
      "match_at (e_dict e) (e_input e) c source candidate offset" "invar t"
      "READONLY (e_mode e) \<or> below t (Suc (e_offset e + c))"
      using r(2) inv(2) by (auto simp: search_ok_def SearchHit)
    moreover have "length (e_input e) - literal_start < Suc (length (e_input e))" by simp
    ultimately
    obtain c' t' w' fb' fh' where m: "match_loop (Suc (length (e_input e))) e c candidate source offset literal_start t w fb1 fh1 =
        Ok (c', t', w', fb', fh')" "loop_inv e p0 room c' c' t' w' fb' fh'" "literal_start < c'"
      using match_loop_ok [OF Suc.prems(1-3) inv(1)] by blast
    have "length (e_input e) - c' < fuel"
      using m(2,3) Suc.prems(5) by (auto simp: loop_inv_def)
    from Suc.IH [OF Suc.prems(1-3) m(2) this] show ?thesis
      using r(1) m(1) by (simp add: SearchHit del: match_loop.simps)
  qed
qed

end

section \<open>The whole function\<close>

lemma get_maximum_output_size_eq:
  "n * 110 < 2 ^ 64 \<Longrightarrow> get_maximum_output_size n = Ok (20 + n * 110 div 100)"
  by (auto simp: get_maximum_output_size_def Let_def usize_max_def)

text \<open>What a call adds to the sink.\<close>

definition appends_block :: "bytes \<Rightarrow> nat \<Rightarrow> bytes \<Rightarrow> SliceSink \<Rightarrow> nat \<Rightarrow> SliceSink \<Rightarrow> bool" where
  "appends_block dict p0 input s n s' \<longleftrightarrow>
     sink_ok s' \<and> SliceSink_capacity s' = SliceSink_capacity s \<and>
     (\<exists>blk. sink_content s' = sink_content s @ blk \<and> length blk = n \<and>
       ending_block (length input) dict (take p0 input) blk input \<and> 10 * n \<le> 11 * (length input - p0) + 20)"

lemma finish_appends:
  assumes "sink_ok s" "rest = drop (sink_pos s) (sink_output s)"
    "length (fst w) + length (snd w) = length rest"
    "ending_block (length input) dict (take p0 input) (fst w) input" "10 * length (fst w) \<le> 11 * (length input - p0) + 20"
  shows "\<exists>s'. obind (finish_output (sink_pos s) (length rest) (length (snd w))) (\<lambda>(written, pos).
      Ok (written, \<lparr>sink_output = take (sink_pos s) (sink_output s) @ fst w @ snd w, sink_pos = pos\<rparr>, t)) =
    (Ok (length (fst w), s', t) :: ('e, nat \<times> SliceSink \<times> 't) outcome) \<and>
    appends_block dict p0 input s (length (fst w)) s'"
proof -
  have "finish_output (sink_pos s) (length rest) (length (snd w)) =
      (Ok (length (fst w), sink_pos s + length (fst w)) :: ('e, nat \<times> nat) outcome)"
    using assms(3) by (simp add: finish_output_def usub_ok flip: assms(3))
  moreover have "appends_block dict p0 input s (length (fst w))
      \<lparr>sink_output = take (sink_pos s) (sink_output s) @ fst w @ snd w, sink_pos = sink_pos s + length (fst w)\<rparr>"
    using assms by (auto simp: appends_block_def sink_ok_def sink_content_def SliceSink_capacity_def min_absorb2)
  ultimately show ?thesis by simp
qed

lemma check_mode_Ok:
  assumes "check_mode m input p0 dict so = Ok ()" "so + length input < 2 ^ 63"
  shows "p0 \<le> length input" "\<not> HAS_OFFSET m \<Longrightarrow> so = 0"
    "env_ok \<lparr>e_mode = m, e_table = T, e_input = input, e_dict = dict, e_offset = so\<rparr>"
  using assms
  by (auto simp: check_mode_def env_ok_def assert_stream_bounds_def obind_Ok_iff u16_max_def
      split: if_splits option.splits)

context hash_table
begin

lemma compress_internal_ok:
  assumes chk: "check_mode m input p0 dict so = Ok ()"
    and s: "sink_ok s" "20 + (length input - p0) * 110 div 100 \<le> SliceSink_capacity s - sink_pos s"
    and small: "length input * 110 < 2 ^ 64" "so + length input < 2 ^ 63"
    and t: "invar table" "READONLY m \<or> below table (max 1 (so + p0))"
  shows "\<exists>n s' t'. compress_internal m T input p0 s table dict so = Ok (n, s', t') \<and>
    appends_block dict p0 input s n s' \<and> invar t' \<and> (READONLY m \<or> below t' (max 1 (so + length input)))"
proof -
  define e where "e = \<lparr>e_mode = m, e_table = T, e_input = input, e_dict = dict, e_offset = so\<rparr>"
  define rest where "rest = drop (sink_pos s) (sink_output s)"
  have p0: "p0 \<le> length input" and e: "env_ok e"
    and so: "(if HAS_OFFSET m then so else 0) = so"
    using check_mode_Ok [OF chk small(2)] by (auto simp: e_def)
  have eq: "e_mode e = m" "e_table e = T" "e_input e = input" "e_dict e = dict" "e_offset e = so"
    by (simp_all add: e_def)
  have room: "20 + (length input - p0) * 110 div 100 \<le> length rest"
    using s by (simp add: rest_def SliceSink_capacity_def)
  have sub: "sub_slice (sink_output s) (sink_pos s) (length (sink_output s)) =
      (Ok rest :: (CompressError, bytes) outcome)"
    using s(1) by (simp add: sub_slice_ok rest_def sink_ok_def)
  have "(length input - p0) * 110 < 2 ^ 64" using small(1) by simp
  then have mx: "get_maximum_output_size (length input - p0) =
      (Ok (20 + (length input - p0) * 110 div 100) :: (CompressError, nat) outcome)"
    by (rule get_maximum_output_size_eq)
  note P = progress_start [OF p0 room, of dict]
  show ?thesis
  proof (cases "length input < LZ4_MIN_LENGTH \<or> length input - p0 < LZ4_MIN_LENGTH")
    case True
    obtain rest' where l: "handle_last_literals ([], rest) input p0 =
          (Ok (last_bytes (drop p0 input), rest') :: (CompressError, tail) outcome)"
      "length (last_bytes (drop p0 input)) + length rest' = length rest"
      "ending_block (length input) dict (take p0 input) (last_bytes (drop p0 input)) input"
      "10 * length (last_bytes (drop p0 input)) \<le> 11 * (length input - p0) + 20"
      using progress_last [OF P, where ?'e = CompressError] by auto
    obtain s' where f: "obind (finish_output (sink_pos s) (length rest) (length rest')) (\<lambda>(written, pos).
      Ok (written, \<lparr>sink_output = take (sink_pos s) (sink_output s) @ last_bytes (drop p0 input) @ rest', sink_pos = pos\<rparr>, table)) =
      (Ok (length (last_bytes (drop p0 input)), s', table) :: (CompressError, nat \<times> SliceSink \<times> 't) outcome)"
      "appends_block dict p0 input s (length (last_bytes (drop p0 input))) s'"
      using finish_appends [OF s(1) rest_def, of "(last_bytes (drop p0 input), rest')" input dict p0 table,
          where ?'e = CompressError] l by auto
    have "max 1 (so + p0) \<le> max 1 (so + length input)" using p0 by simp
    with t(2) below_mono have "READONLY m \<or> below table (max 1 (so + length input))" by blast
    then show ?thesis
      using chk sub mx room True l(1) f t(1) so
      by (simp add: compress_internal_def Let_def)
  next
    case False
    then have len: "LZ4_MIN_LENGTH \<le> length input" "p0 + LZ4_MIN_LENGTH \<le> length input" by auto
    have l12: "12 \<le> length (e_input e)" using len by (simp add: eq)
    have us: "usub so (length dict) = (Ok (so - length dict) :: (CompressError, nat) outcome)"
      using e by (simp add: env_ok_def eq usub_ok)
    obtain cur t1 where st: "(if p0 = 0 \<and> so = 0 then
            obind (get_hash_at T input 0) (\<lambda>h.
            obind (if READONLY m then Ok table else put_at T table h 0) (\<lambda>table. Ok (1, table)))
          else Ok (p0, table)) = Ok (cur, t1)"
      and t1: "invar t1" "READONLY m \<or> below t1 (so + cur)" and cur: "p0 \<le> cur" "cur \<le> p0 + 1"
    proof (cases "p0 = 0 \<and> so = 0")
      case True
      have h: "get_hash_at T input 0 = Ok (hash T (bytes_at input 0))"
        using get_hash_at_ok [of 0 input] len by simp
      show ?thesis
      proof (cases "READONLY m")
        case ro: True
        with True h t(1) that [of 1 table] show ?thesis by simp
      next
        case False
        with True t put_both [OF t(1), of 1 0 1 "bytes_at input 0"] h that show ?thesis by auto
      qed
    next
      case False
      with t that [of p0 table] show ?thesis by (auto simp: max_def split: if_splits)
    qed
    have r: "rd64 input cur = (Ok (bytes_at input cur) :: (CompressError, 64 word) outcome)"
      using cur len by (intro rd64_eq) simp
    have "loop_inv e p0 (length rest) cur p0 t1 ([], rest) (bytes_at input cur) (hash T (bytes_at input cur))"
      using P t1 cur len by (simp add: loop_inv_def eq forward_def)
    from compress_loop_ok [OF e eq(2) l12 this, of "Suc (length input)"]
    obtain t2 w where c: "compress_loop (Suc (length input)) e cur p0 t1 ([], rest) (bytes_at input cur)
          (hash T (bytes_at input cur)) = Ok (t2, w)"
      and t2: "invar t2" "READONLY m \<or> below t2 (so + length input)"
      and w: "ending_block (length input) dict (take p0 input) (fst w) input" "length (fst w) + length (snd w) = length rest"
        "10 * length (fst w) \<le> 11 * (length input - p0) + 20"
      unfolding eq by (metis diff_less_Suc)
    obtain s' where f: "obind (finish_output (sink_pos s) (length rest) (length (snd w))) (\<lambda>(written, pos).
      Ok (written, \<lparr>sink_output = take (sink_pos s) (sink_output s) @ fst w @ snd w, sink_pos = pos\<rparr>, t2)) =
      (Ok (length (fst w), s', t2) :: (CompressError, nat \<times> SliceSink \<times> 't) outcome)"
      "appends_block dict p0 input s (length (fst w)) s'"
      using finish_appends [OF s(1) rest_def w(2,1,3), of t2, where ?'e = CompressError]
      by (elim exE conjE) (rule that)
    have "compress_internal m T input p0 s table dict so = Ok (length (fst w), s', t2)"
      by (simp only: compress_internal_def Let_def chk obind.simps so sub mx if_not_P [OF False]
          if_not_P [OF room [folded not_less]] us st r prod.case e_def [symmetric] c f(1))
    moreover have "READONLY m \<or> below t2 (max 1 (so + length input))"
      using t2(2) below_mono [of t2 "so + length input" "max 1 (so + length input)"] by auto
    ultimately show ?thesis using f(2) t2(1) by auto
  qed
qed

lemma compress_internal_too_small:
  assumes "check_mode m input p0 dict so = Ok ()" "sink_ok s" "length input * 110 < 2 ^ 64"
    "SliceSink_capacity s - sink_pos s < 20 + (length input - p0) * 110 div 100"
  shows "compress_internal m T input p0 s table dict so = Err CompressOutputTooSmall"
proof -
  have "(length input - p0) * 110 < 2 ^ 64" using assms(3) by simp
  from get_maximum_output_size_eq [OF this, where ?'a = CompressError] assms show ?thesis
    by (simp add: compress_internal_def Let_def sink_ok_def sub_slice_ok SliceSink_capacity_def)
qed

end

end
