(* ===== verification/Encoder_Dict.thy ===== *)
theory Encoder_Dict
  imports Encoder_Correct
begin

text \<open>
  The loop with two tables: the table of the input, whose entries are positions above
  \<open>main_base\<close>, and the pristine table of the dictionary, which is only read.  The result is as
  for the main loop: \<open>compress_with_dict_table_ok\<close>.
\<close>

definition dict_env_ok :: "'t dict_env \<Rightarrow> bool" where
  "dict_env_ok e \<longleftrightarrow> d_base e + length (d_input e) \<le> u16_max \<and>
     length (d_dict e) + length (d_input e) \<le> MAX_DISTANCE + 1"

context hash_table
begin

text \<open>The candidate of the input's table is a position of the input or below \<open>main_base\<close>.\<close>

lemma dict_probe_ok:
  assumes e: "dict_env_ok e" "d_table e = T" "invar (d_pristine e)"
    and cur: "cur < next_cur" "cur + MFLIMIT \<le> length (d_input e)"
    and c: "main_candidate < d_base e + cur"
  shows "\<exists>p. dict_probe e cur next_cur (hash T b) main_candidate = Ok p \<and>
    (\<forall>c s off. p = Hit c s off \<longrightarrow> match_at (d_dict e) (d_input e) cur s c off)"
proof -
  define mp where "mp = main_candidate - d_base e"
  have sub: "wrapping_sub main_candidate (d_base e) = mp" if "d_base e \<le> main_candidate"
    using that c e(1) cur(2) by (simp add: wrapping_sub_ge mp_def dict_env_ok_def u16_max_def)
  have rc: "rd32 (d_input e) (min cur next_cur) = (Ok (four_at (d_input e) cur) :: (CompressError, 32 word) outcome)"
    using cur by (simp add: min_absorb1 rd32_eq)
  show ?thesis
  proof (cases "d_base e \<le> main_candidate \<and> four_at (d_input e) mp = four_at (d_input e) cur")
    case True
    have mp: "mp < cur" "mp < next_cur" using True c cur by (auto simp: mp_def)
    have r: "rd32 (d_input e) mp = (Ok (four_at (d_input e) mp) :: (CompressError, 32 word) outcome)"
      using mp cur by (intro rd32_eq) simp
    have small: "cur - mp < 2 ^ 16" using e(1) cur(2) by (auto simp: dict_env_ok_def u16_max_def)
    have "take 4 (drop mp (d_input e)) = take 4 (drop cur (d_input e))"
      using True mp cur by (subst four_at_eq [symmetric]) auto
    then have "match_at (d_dict e) (d_input e) cur (d_input e) mp (cur - mp)"
      unfolding match_at_def using mp cur small
      by (intro exI [of _ "length (d_dict e)"]) (simp add: part_of_def)
    with True mp small show ?thesis by (simp add: dict_probe_def sub r rc)
  next
    case main: False
    obtain dc where dc: "get_at T (d_pristine e) (hash T b) = Ok dc" using get_ok [OF e(3)] by blast
    have no: "(if d_base e \<le> main_candidate \<and> wrapping_sub main_candidate (d_base e) < next_cur then
           if wrapping_sub main_candidate (d_base e) < cur then
             obind (rd32 (d_input e) (wrapping_sub main_candidate (d_base e))) (\<lambda>x.
             obind (rd32 (d_input e) (min cur next_cur)) (\<lambda>y. Ok (x = y)))
           else Panic
         else Ok False) = (Ok False :: (CompressError, bool) outcome)"
    proof (cases "d_base e \<le> main_candidate")
      case True
      then have mp: "mp < cur" "mp < next_cur" using c cur by (auto simp: mp_def)
      have "rd32 (d_input e) mp = (Ok (four_at (d_input e) mp) :: (CompressError, 32 word) outcome)"
        using mp cur by (intro rd32_eq) simp
      with True mp main rc sub show ?thesis by simp
    qed simp
    show ?thesis
    proof (cases "dc + 4 \<le> length (d_dict e) \<and> length (d_dict e) + cur - dc \<le> MAX_DISTANCE \<and>
        four_at (d_dict e) dc = four_at (d_input e) cur")
      case True
      then have "rd32 (d_dict e) dc = (Ok (four_at (d_dict e) dc) :: (CompressError, 32 word) outcome)"
        by (intro rd32_eq) simp
      moreover have "usub (length (d_dict e) + cur) dc =
          (Ok (length (d_dict e) + cur - dc) :: (CompressError, nat) outcome)"
        using True by (simp add: usub_ok)
      moreover have "match_at (d_dict e) (d_input e) cur (d_dict e) dc (length (d_dict e) + cur - dc)"
        using True cur(2) by (intro dict_hit_match) auto
      ultimately show ?thesis using True rc by (simp add: dict_probe_def no Let_def e(2) dc)
    next
      case False
      have "rd32 (d_dict e) dc = (Ok (four_at (d_dict e) dc) :: (CompressError, 32 word) outcome)"
        "usub (length (d_dict e) + cur) dc =
          (Ok (length (d_dict e) + cur - dc) :: (CompressError, nat) outcome)"
        if "dc + 4 \<le> length (d_dict e)"
        using that by (simp_all add: rd32_eq usub_ok)
      moreover have "length (d_dict e) + cur - dc \<le> MAX_DISTANCE"
        using e(1) cur(2) by (auto simp: dict_env_ok_def)
      ultimately show ?thesis using False by (auto simp: dict_probe_def no Let_def e(2) dc rc)
    qed
  qed
qed

text \<open>The forward hash is that of the next position, unless the input ends there.\<close>

definition dict_forward :: "bytes \<Rightarrow> nat \<Rightarrow> nat \<Rightarrow> bool" where
  "dict_forward input cur fh \<longleftrightarrow>
     (cur + MFLIMIT \<le> length input \<longrightarrow> fh = hash T (bytes_at input cur))"

definition dict_search_ok :: "'t dict_env \<Rightarrow> nat \<Rightarrow> 't search_result \<Rightarrow> bool" where
  "dict_search_ok e cur r \<longleftrightarrow>
     (case r of
        SearchEnd t \<Rightarrow> invar t \<and> below t (d_base e + length (d_input e))
      | SearchHit t cur' candidate source offset fb fh \<Rightarrow>
          cur \<le> cur' \<and> cur' + MFLIMIT \<le> length (d_input e) \<and> invar t \<and>
          below t (Suc (d_base e + cur')) \<and>
          match_at (d_dict e) (d_input e) cur' source candidate offset)"

lemma dict_search_okay:
  assumes "dict_env_ok e" "d_table e = T" "invar (d_pristine e)" "12 \<le> length (d_input e)"
    "cur \<le> length (d_input e)" "8 \<le> nmc" "invar table" "below table (d_base e + cur)"
    "dict_forward (d_input e) cur fh"
  shows "\<exists>r. dict_search e cur nmc table fh = Ok r \<and> dict_search_ok e cur r"
  using assms
proof (induction "length (d_input e) - cur" arbitrary: cur nmc table fh rule: less_induct)
  case less
  define next_cur where "next_cur = cur + nmc div 8"
  have step: "cur < next_cur" using less.prems(6) by (simp add: next_cur_def div_greater_zero_iff)
  have u: "usub (length (d_input e)) 12 = (Ok (length (d_input e) - 12) :: (CompressError, nat) outcome)"
    using less.prems(4) by (simp add: usub_ok)
  have d8: "drop_bit 3 nmc = nmc div 8" by (simp add: drop_bit_eq_div)
  show ?case
  proof (cases "length (d_input e) - 12 + 1 < next_cur")
    case True
    then have "dict_search e cur nmc table fh = Ok (SearchEnd table)"
      by (simp add: dict_search.simps [of e cur] u d8 next_cur_def)
    moreover have "below table (d_base e + length (d_input e))"
      using less.prems(5,8) below_mono by fastforce
    ultimately show ?thesis using less.prems(7) by (simp add: dict_search_ok_def)
  next
    case False
    then have fits: "next_cur + 8 \<le> length (d_input e)" "cur + 12 \<le> length (d_input e)"
      using step less.prems(4) by auto
    have fh: "fh = hash T (bytes_at (d_input e) cur)"
      using less.prems(9) fits(2) by (simp add: dict_forward_def)
    obtain c where c: "get_at T table fh = Ok c" "c < d_base e + cur"
      using get_both [OF less.prems(7,8)] fh by blast
    obtain t where t: "put_at T table fh (cur + d_base e) = Ok t" "invar t" "below t (Suc (d_base e + cur))"
      using put_both [OF less.prems(7,8), of "cur + d_base e" "Suc (d_base e + cur)"] fh by auto
    obtain p where p: "dict_probe e cur next_cur fh c = Ok p"
      "\<forall>c s off. p = Hit c s off \<longrightarrow> match_at (d_dict e) (d_input e) cur s c off"
      using dict_probe_ok [OF less.prems(1-3) step _ c(2), of "bytes_at (d_input e) cur"] fits(2) fh by auto
    have S: "dict_search e cur nmc table fh =
        (case p of Hit candidate source offset \<Rightarrow>
            Ok (SearchHit t cur candidate source offset 0 (hash T (bytes_at (d_input e) next_cur)))
         | Miss \<Rightarrow> dict_search e next_cur (Suc nmc) t (hash T (bytes_at (d_input e) next_cur)))"
      using False t(1) c(1) p(1)
      by (simp add: dict_search.simps [of e cur] u d8 next_cur_def [symmetric] less.prems(2) Let_def
          get_hash_at_ok [OF fits(1)])
    show ?thesis
    proof (cases p)
      case (Hit candidate source offset)
      with S p(2) t fits show ?thesis by (simp add: dict_search_ok_def)
    next
      case Miss
      have dec: "length (d_input e) - next_cur < length (d_input e) - cur" using step fits by simp
      have "below t (d_base e + next_cur)"
        using t(3) step below_mono [of t "Suc (d_base e + cur)" "d_base e + next_cur"] by auto
      then obtain r where "dict_search e next_cur (Suc nmc) t (hash T (bytes_at (d_input e) next_cur)) = Ok r"
        "dict_search_ok e next_cur r"
        using less.hyps [OF dec less.prems(1-4), of "Suc nmc" t "hash T (bytes_at (d_input e) next_cur)"]
          less.prems(6) t(2) fits
        by (auto simp: dict_forward_def)
      moreover from this(2) have "dict_search_ok e cur r"
        using step by (auto simp: dict_search_ok_def split: search_result.splits)
      ultimately show ?thesis using S Miss by simp
    qed
  qed
qed

lemma dict_loop_ok:
  assumes "dict_env_ok e" "d_table e = T" "invar (d_pristine e)" "12 \<le> length (d_input e)"
    "progress (d_dict e) (d_input e) 0 room w literal_start" "literal_start \<le> cur"
    "cur \<le> length (d_input e)" "invar table" "below table (d_base e + cur)"
    "dict_forward (d_input e) cur fh" "length (d_input e) - literal_start < fuel"
  shows "\<exists>table' w'. dict_loop fuel e cur literal_start table w fh = Ok (table', w') \<and>
    invar table' \<and> below table' (d_base e + length (d_input e)) \<and>
    ending_block (length (d_input e)) (d_dict e) [] (fst w') (d_input e) \<and> length (fst w') + length (snd w') = room \<and>
    10 * length (fst w') \<le> 11 * length (d_input e) + 20"
  using assms
proof (induction fuel arbitrary: cur literal_start table w fh)
  case 0
  then show ?case by simp
next
  case (Suc fuel)
  obtain r where r: "dict_search e cur 8 table fh = Ok r" "dict_search_ok e cur r"
    using dict_search_okay [OF Suc.prems(1-4,7) _ Suc.prems(8-10), of 8] by auto
  show ?case
  proof (cases r)
    case (SearchEnd t)
    then show ?thesis
      using r progress_last [OF Suc.prems(5), where ?'e = CompressError]
      by (fastforce simp: dict_search_ok_def)
  next
    case (SearchHit t c candidate source offset fb1 fh1)
    have hit: "literal_start \<le> c" "c + MFLIMIT \<le> length (d_input e)"
      "match_at (d_dict e) (d_input e) c source candidate offset" "invar t" "below t (Suc (d_base e + c))"
      using r(2) Suc.prems(6) by (auto simp: dict_search_ok_def SearchHit)
    obtain c1 t1 w1 where m: "take_match T False (d_base e) (d_input e) literal_start c source
        candidate offset t w = Ok (c1, t1, w1)"
      and P: "progress (d_dict e) (d_input e) 0 room w1 c1" and c1: "c < c1" "c1 + END_OFFSET \<le> length (d_input e)"
      and t1: "invar t1" "below t1 (d_base e + c1)"
      using take_match_ok [OF Suc.prems(5) hit(1-4), of False "d_base e"] hit(5) by auto
    have u: "usub (length (d_input e)) 12 = (Ok (length (d_input e) - 12) :: (CompressError, nat) outcome)"
      using Suc.prems(4) by (simp add: usub_ok)
    obtain fh2 where f: "(if c1 \<le> length (d_input e) - 12 then get_hash_at T (d_input e) c1 else Ok fh1) = Ok fh2"
      "dict_forward (d_input e) c1 fh2"
    proof (cases "c1 \<le> length (d_input e) - 12")
      case True
      then have "c1 + 8 \<le> length (d_input e)" using Suc.prems(4) by simp
      from get_hash_at_ok [OF this] True that show ?thesis by (simp add: dict_forward_def)
    next
      case False
      then have "\<not> c1 + MFLIMIT \<le> length (d_input e)" by simp
      with False that [of fh1] show ?thesis by (simp add: dict_forward_def)
    qed
    have "length (d_input e) - c1 < fuel" using hit(1) c1 Suc.prems(11) by simp
    moreover have "c1 \<le> length (d_input e)" using c1(2) by simp
    moreover have "dict_loop (Suc fuel) e cur literal_start table w fh = dict_loop fuel e c1 c1 t1 w1 fh2"
      using r(1) m f(1)
      by (cases "c1 \<le> length (d_input e) - 12") (simp_all add: SearchHit Suc.prems(2) u)
    ultimately show ?thesis
      using Suc.IH [OF Suc.prems(1-4) P order_refl _ t1 f(2)] by simp
  qed
qed

lemma compress_with_dict_table_ok:
  assumes pre: "main_base + length input \<le> u16_max" "length dict + length input \<le> MAX_DISTANCE + 1"
    and s: "sink_ok s" "20 + length input * 110 div 100 \<le> SliceSink_capacity s - sink_pos s"
    and t: "invar table" "below table (max 1 main_base)" "invar pristine"
  shows "\<exists>n s' t'. compress_with_dict_table T input s table pristine dict (length dict) main_base = Ok (n, s', t') \<and>
    appends_block dict 0 input s n s' \<and> invar t' \<and> below t' (max 1 (main_base + length input))"
proof -
  define e where "e = \<lparr>d_table = T, d_input = input, d_dict = dict, d_pristine = pristine, d_base = main_base\<rparr>"
  define rest where "rest = drop (sink_pos s) (sink_output s)"
  have eq: "d_table e = T" "d_input e = input" "d_dict e = dict" "d_pristine e = pristine" "d_base e = main_base"
    by (simp_all add: e_def)
  have e: "dict_env_ok e" using pre by (simp add: dict_env_ok_def eq)
  have room: "20 + (length input - 0) * 110 div 100 \<le> length rest"
    using s by (simp add: rest_def SliceSink_capacity_def)
  have sub: "sub_slice (sink_output s) (sink_pos s) (length (sink_output s)) =
      (Ok rest :: (CompressError, bytes) outcome)"
    using s(1) by (simp add: sub_slice_ok rest_def sink_ok_def)
  have mx: "get_maximum_output_size (length input) =
      (Ok (20 + length input * 110 div 100) :: (CompressError, nat) outcome)"
    using pre(1) by (intro get_maximum_output_size_eq) (simp add: u16_max_def)
  have st: "assert_stream_bounds (length dict) (length input) (length dict) = (Ok () :: (CompressError, unit) outcome)"
    using pre by (simp add: assert_stream_bounds_def checked_add_def usize_max_def isize_max_def u16_max_def)
  have neg: "\<not> length rest < 20 + length input * 110 div 100" using room by simp
  have pos: "\<not> \<not> (length dict = length dict \<and> main_base + length input \<le> u16_max \<and> length dict \<le> WINDOW_SIZE)"
    using pre by simp
  note P = progress_start [OF le0 room, of dict]
  have done_: "compress_with_dict_table T input s table pristine dict (length dict) main_base = Ok (n, s', t')
      \<Longrightarrow> appends_block dict 0 input s n s' \<Longrightarrow> invar t' \<Longrightarrow> below t' (max 1 (main_base + length input)) \<Longrightarrow> ?thesis"
    for n s' t' by blast
  show ?thesis
  proof (cases "length input < LZ4_MIN_LENGTH")
    case True
    obtain rest' where l: "handle_last_literals ([], rest) input 0 =
          (Ok (last_bytes input, rest') :: (CompressError, tail) outcome)"
      "length (last_bytes input) + length rest' = length rest"
      "ending_block (length input) dict (take 0 input) (last_bytes input) input"
      "10 * length (last_bytes input) \<le> 11 * (length input - 0) + 20"
      using progress_last [OF P, where ?'e = CompressError] by auto
    obtain s' where f: "obind (finish_output (sink_pos s) (length rest) (length rest')) (\<lambda>(written, pos).
      Ok (written, \<lparr>sink_output = take (sink_pos s) (sink_output s) @ last_bytes input @ rest', sink_pos = pos\<rparr>, table)) =
      (Ok (length (last_bytes input), s', table) :: (CompressError, nat \<times> SliceSink \<times> 't) outcome)"
      "appends_block dict 0 input s (length (last_bytes input)) s'"
      using finish_appends [OF s(1) rest_def, of "(last_bytes input, rest')" input dict 0 table,
          where ?'e = CompressError] l by auto
    have eqn: "compress_with_dict_table T input s table pristine dict (length dict) main_base =
        Ok (length (last_bytes input), s', table)"
      by (simp only: compress_with_dict_table_def Let_def if_not_P [OF pos] st obind.simps sub mx
          if_not_P [OF neg] if_P [OF True] l(1) fst_conv snd_conv f(1))
    have "max 1 main_base \<le> max 1 (main_base + length input)" by simp
    with t(2) below_mono have "below table (max 1 (main_base + length input))" by blast
    with eqn f(2) t(1) show ?thesis by (rule done_)
  next
    case False
    then have len: "LZ4_MIN_LENGTH \<le> length input" by simp
    have h: "get_hash_at T input 0 = Ok (hash T (bytes_at input 0))"
      "get_hash_at T input 1 = Ok (hash T (bytes_at input 1))"
      using get_hash_at_ok [of 0 input] get_hash_at_ok [of 1 input] len by simp_all
    have "max 1 main_base \<le> main_base + 1" by simp
    from put_both [OF t(1,2) _ this, of main_base]
    obtain t1 where t1: "put_at T table (hash T (bytes_at input 0)) main_base = Ok t1" "invar t1"
      "below t1 (main_base + 1)" by auto
    have "dict_forward (d_input e) 1 (hash T (bytes_at input 1))" "invar (d_pristine e)"
      "12 \<le> length (d_input e)" "progress (d_dict e) (d_input e) 0 (length rest) ([], rest) 0"
      "1 \<le> length (d_input e)" "below t1 (d_base e + 1)" "length (d_input e) - 0 < Suc (length input)"
      using P t t1 len by (simp_all add: dict_forward_def eq)
    note dict_loop_ok [OF e eq(1) this(2-4) le0 this(5) t1(2) this(6,1,7)]
    then obtain t2 w where c: "dict_loop (Suc (length input)) e 1 0 t1 ([], rest) (hash T (bytes_at input 1)) = Ok (t2, w)"
      and t2: "invar t2" "below t2 (main_base + length input)"
      and w: "ending_block (length input) dict (take 0 input) (fst w) input" "length (fst w) + length (snd w) = length rest"
        "10 * length (fst w) \<le> 11 * (length input - 0) + 20"
      unfolding eq diff_zero take_0 by blast
    obtain s' where f: "obind (finish_output (sink_pos s) (length rest) (length (snd w))) (\<lambda>(written, pos).
      Ok (written, \<lparr>sink_output = take (sink_pos s) (sink_output s) @ fst w @ snd w, sink_pos = pos\<rparr>, t2)) =
      (Ok (length (fst w), s', t2) :: (CompressError, nat \<times> SliceSink \<times> 't) outcome)"
      "appends_block dict 0 input s (length (fst w)) s'"
      using finish_appends [OF s(1) rest_def w(2,1,3), of t2, where ?'e = CompressError]
      by (elim exE conjE) (rule that)
    have eqn: "compress_with_dict_table T input s table pristine dict (length dict) main_base =
        Ok (length (fst w), s', t2)"
      by (simp only: compress_with_dict_table_def Let_def if_not_P [OF pos] st obind.simps sub mx
          if_not_P [OF neg] if_not_P [OF False] h t1(1) e_def [symmetric] c prod.case f(1))
    have "below t2 (max 1 (main_base + length input))"
      using t2(2) below_mono by fastforce
    with eqn f(2) t2(1) show ?thesis by (rule done_)
  qed
qed

lemma compress_with_dict_table_too_small:
  assumes "main_base + length input \<le> u16_max" "length dict \<le> WINDOW_SIZE" "sink_ok s"
    "SliceSink_capacity s - sink_pos s < 20 + length input * 110 div 100"
  shows "compress_with_dict_table T input s table pristine dict (length dict) main_base =
    Err CompressOutputTooSmall"
proof -
  have "length input * 110 < 2 ^ 64" using assms(1) by (simp add: u16_max_def)
  from get_maximum_output_size_eq [OF this, where ?'a = CompressError] assms show ?thesis
    by (simp add: compress_with_dict_table_def Let_def sink_ok_def sub_slice_ok SliceSink_capacity_def
        assert_stream_bounds_def checked_add_def usize_max_def isize_max_def u16_max_def)
qed

end

end
