(* ===== verification/Copy_Primitives.thy ===== *)
theory Copy_Primitives
  imports Core_Crate
begin

text \<open>
  \<^verbatim>\<open>crates/decode/src/primitives.rs\<close>: the copy routines of the decoder.  Each routine is
  modelled with its chunk size, its window and its loop; a slice access out of range and a
  false \<^verbatim>\<open>debug_assert\<close> panic.  The contract every match copy fulfils is the locale
  \<open>match_copier\<close>: after the copy the output up to the end of the match is the byte-by-byte
  expansion of the match, and at most \<open>slack\<close> bytes after it have changed.
\<close>

section \<open>Constants\<close>

definition ML_BITS :: nat where [simp, const_defs]: "ML_BITS = 4"
definition ML_MASK :: nat where [simp, const_defs]: "ML_MASK = 2 ^ ML_BITS - 1"
definition RUN_MASK :: nat where [simp, const_defs]: "RUN_MASK = 2 ^ (8 - ML_BITS) - 1"
definition EXT_MORE :: byte where [simp, const_defs]: "EXT_MORE = 255"
definition TOKEN_LEN :: nat where [simp, const_defs]: "TOKEN_LEN = 1"
definition OFFSET_LEN :: nat where [simp, const_defs]: "OFFSET_LEN = 2"
definition EXT_LEN :: nat where [simp, const_defs]: "EXT_LEN = 1"
definition SHORT_LITERAL_MAX :: nat where [simp, const_defs]: "SHORT_LITERAL_MAX = RUN_MASK - 1"
definition SHORT_MATCH_MAX :: nat where [simp, const_defs]: "SHORT_MATCH_MAX = MINMATCH + ML_MASK - 1"
definition FAST_IN :: nat where
  [simp, const_defs]: "FAST_IN = TOKEN_LEN + SHORT_LITERAL_MAX + OFFSET_LEN + EXT_LEN"
definition WILD_LITERAL_MAX :: nat where [simp, const_defs]: "WILD_LITERAL_MAX = 256"

definition MATCH_CHUNK :: nat where [simp, const_defs]: "MATCH_CHUNK = 8"
definition WIDE_CHUNK :: nat where [simp, const_defs]: "WIDE_CHUNK = 2 * MATCH_CHUNK"
definition LONG_CHUNK :: nat where [simp, const_defs]: "LONG_CHUNK = 2 * WIDE_CHUNK"
definition MIN_COPY_OFFSET :: nat where [simp, const_defs]: "MIN_COPY_OFFSET = 2"
definition LONG_UNROLLED :: nat where [simp, const_defs]: "LONG_UNROLLED = 2 * LONG_CHUNK"

section \<open>Windows and chunks\<close>

text \<open>\<^verbatim>\<open>i as u32 as usize\<close>\<close>

definition idx :: "nat \<Rightarrow> nat" where
  "idx i = i mod 2 ^ 32"

definition chunk :: "nat \<Rightarrow> 'a list \<Rightarrow> nat \<Rightarrow> ('e, 'a list) outcome" where
  "chunk N buf at = sub_slice buf at (at + N)"

text \<open>
  A mutable window is returned with the parts of the buffer before and after it, so that the
  buffer can be put together again.
\<close>

definition tail_window :: "'a list \<Rightarrow> nat \<Rightarrow> nat \<Rightarrow> ('e, 'a list \<times> 'a list \<times> 'a list) outcome" where
  "tail_window buf stop len =
     (if stop \<le> length buf then
        obind (usub stop len) (\<lambda>start.
        Ok (take start buf, take len (drop start buf), drop stop buf))
      else Panic)"

definition store :: "'a list \<Rightarrow> nat \<Rightarrow> 'a list \<Rightarrow> ('e, 'a list) outcome" where
  "store buf at c = write_at buf at c"

definition copy_chunk :: "nat \<Rightarrow> 'a list \<Rightarrow> nat \<Rightarrow> nat \<Rightarrow> ('e, 'a list) outcome" where
  "copy_chunk N buf src dst = obind (chunk N buf src) (\<lambda>c. store buf dst c)"

section \<open>Match copies\<close>

definition wild_match_copy_18 ::
  "bytes \<Rightarrow> nat \<Rightarrow> nat \<Rightarrow> nat \<Rightarrow> ('e, bytes \<times> nat) outcome" where
  "wild_match_copy_18 buf dst_pos offset advance =
     (if MATCH_CHUNK \<le> offset \<and> advance \<le> SHORT_MATCH_MAX then
        obind (tail_window buf (dst_pos + SHORT_MATCH_MAX) (offset + SHORT_MATCH_MAX))
          (\<lambda>(pre, window, post).
        obind (copy_chunk MATCH_CHUNK window 0 offset) (\<lambda>window.
        obind (copy_chunk MATCH_CHUNK window MATCH_CHUNK (offset + MATCH_CHUNK)) (\<lambda>window.
        obind (copy_chunk (SHORT_MATCH_MAX - 2 * MATCH_CHUNK) window (2 * MATCH_CHUNK)
          (offset + 2 * MATCH_CHUNK)) (\<lambda>window.
        Ok (pre @ window @ post, dst_pos + advance)))))
      else Panic)"

text \<open>The loop of \<^verbatim>\<open>wild_copy_match_long\<close> past its unrolled first steps.\<close>

function long_loop :: "bytes \<Rightarrow> nat \<Rightarrow> nat \<Rightarrow> nat \<Rightarrow> ('e, bytes) outcome" where
  "long_loop window offset len filled =
     (if filled < len then
        obind (copy_chunk WIDE_CHUNK window filled (offset + filled)) (\<lambda>window.
        obind (copy_chunk WIDE_CHUNK window (filled + WIDE_CHUNK) (offset + filled + WIDE_CHUNK)) (\<lambda>window.
        long_loop window offset len (filled + LONG_CHUNK)))
      else Ok window)"
  by pat_completeness auto
termination
  by (relation "measure (\<lambda>(window, offset, len, filled). len - filled)") auto

declare long_loop.simps [simp del]

definition wild_copy_match_long ::
  "bytes \<Rightarrow> nat \<Rightarrow> nat \<Rightarrow> nat \<Rightarrow> ('e, bytes) outcome" where
  "wild_copy_match_long buf dst offset len =
     (if WIDE_CHUNK \<le> offset then
        if LONG_UNROLLED < len \<and> len \<le> offset then
          obind (sub_slice buf 0 dst) (\<lambda>history.
          obind (usub dst offset) (\<lambda>start.
          obind (sub_slice history start (start + len)) (\<lambda>src.
          copy_into buf dst (dst + len) src)))
        else
          obind (tail_window buf (dst + len + LONG_CHUNK) (offset + len + LONG_CHUNK))
            (\<lambda>(pre, window, post).
          obind (copy_chunk WIDE_CHUNK window 0 offset) (\<lambda>window.
          obind (copy_chunk WIDE_CHUNK window WIDE_CHUNK (offset + WIDE_CHUNK)) (\<lambda>window.
          obind
            (if LONG_CHUNK < len then
               obind (copy_chunk WIDE_CHUNK window LONG_CHUNK (offset + LONG_CHUNK)) (\<lambda>window.
               obind (copy_chunk WIDE_CHUNK window (LONG_CHUNK + WIDE_CHUNK)
                 (offset + LONG_CHUNK + WIDE_CHUNK)) (\<lambda>window.
               long_loop window offset len LONG_UNROLLED))
             else Ok window)
            (\<lambda>window. Ok (pre @ window @ post)))))
      else Panic)"

text \<open>The pattern of \<^verbatim>\<open>wild_copy_match_short_offset\<close>, spread over one chunk.\<close>

fun spread_pattern :: "bytes \<Rightarrow> nat \<Rightarrow> nat list \<Rightarrow> bytes \<Rightarrow> ('e, bytes) outcome" where
  "spread_pattern window offset [] pattern = Ok pattern"
| "spread_pattern window offset (i # is) pattern =
     obind (if i < offset then idx_get window i
            else obind (usub i offset) (\<lambda>k. idx_get pattern k)) (\<lambda>v.
     obind (write_at pattern i [v]) (\<lambda>pattern.
     spread_pattern window offset is pattern))"

text \<open>A step of 0 would loop forever; it cannot be 0, since the offset is below the chunk.\<close>

function short_offset_loop :: "bytes \<Rightarrow> nat \<Rightarrow> nat \<Rightarrow> bytes \<Rightarrow> nat \<Rightarrow> nat \<Rightarrow> ('e, bytes) outcome" where
  "short_offset_loop window offset len pattern step filled =
     (if filled < len then
        if step = 0 then Diverge
        else obind (store window (offset + filled) pattern) (\<lambda>window.
          short_offset_loop window offset len pattern step (filled + step))
      else Ok window)"
  by pat_completeness auto
termination
  by (relation "measure (\<lambda>(window, offset, len, pattern, step, filled). len - filled)") auto

declare short_offset_loop.simps [simp del]

definition wild_copy_match_short_offset ::
  "bytes \<Rightarrow> nat \<Rightarrow> nat \<Rightarrow> nat \<Rightarrow> ('e, bytes \<times> nat) outcome" where
  "wild_copy_match_short_offset buf dst_pos offset len =
     (if MIN_COPY_OFFSET \<le> offset \<and> offset < MATCH_CHUNK then
        obind (tail_window buf (dst_pos + len + MATCH_CHUNK) (offset + len + MATCH_CHUNK))
          (\<lambda>(pre, window, post).
        obind (idx_get window 0) (\<lambda>w0.
        obind (sub_slice window 0 MIN_COPY_OFFSET) (\<lambda>front.
        obind (copy_into (replicate MATCH_CHUNK w0) 0 MIN_COPY_OFFSET front) (\<lambda>pattern.
        obind (spread_pattern window offset [MIN_COPY_OFFSET..<MATCH_CHUNK] pattern) (\<lambda>pattern.
        obind (short_offset_loop window offset len pattern
            (MATCH_CHUNK - MATCH_CHUNK mod offset) 0) (\<lambda>window.
        Ok (pre @ window @ post, dst_pos + len)))))))
      else Panic)"

text \<open>The doubling loop of \<^verbatim>\<open>copy_within_overlapping\<close>, on the match's own bytes.\<close>

function overlap_loop :: "bytes \<Rightarrow> nat \<Rightarrow> nat \<Rightarrow> ('e, bytes) outcome" where
  "overlap_loop out match_len written =
     (if written < match_len then
        if written = 0 then Diverge
        else let copy_len = min written (match_len - written) in
          obind (sub_slice (take written out) 0 copy_len) (\<lambda>src.
          obind (copy_into out written (written + copy_len) src) (\<lambda>out.
          overlap_loop out match_len (written + copy_len)))
      else Ok out)"
  by pat_completeness auto
termination
  by (relation "measure (\<lambda>(out, match_len, written). match_len - written)") auto

declare overlap_loop.simps [simp del]

definition copy_within_overlapping ::
  "bytes \<Rightarrow> nat \<Rightarrow> nat \<Rightarrow> nat \<Rightarrow> nat \<Rightarrow> ('e, bytes \<times> nat) outcome" where
  "copy_within_overlapping buf start dst_pos match_len offset =
     (if MIN_COPY_OFFSET \<le> offset \<and> dst_pos = start + offset then
        obind (sub_slice buf 0 dst_pos) (\<lambda>history.
        obind (sub_slice buf dst_pos (dst_pos + match_len)) (\<lambda>out.
        obind (sub_slice history start (start + min offset match_len)) (\<lambda>src.
        obind (copy_into out 0 (min offset match_len) src) (\<lambda>out.
        obind (overlap_loop out match_len (min offset match_len)) (\<lambda>out.
        obind (write_at buf dst_pos out) (\<lambda>buf.
        Ok (buf, dst_pos + match_len)))))))
      else Panic)"

text \<open>\<^verbatim>\<open>wild_copy_match\<close> at chunk size \<open>STEP\<close>: its body runs at least once.\<close>

function wild_loop :: "nat \<Rightarrow> bytes \<Rightarrow> nat \<Rightarrow> nat \<Rightarrow> nat \<Rightarrow> ('e, bytes) outcome" where
  "wild_loop STEP window offset len filled =
     obind (copy_chunk STEP window filled (offset + filled)) (\<lambda>window.
     if len \<le> filled + STEP then Ok window
     else if STEP = 0 then Diverge
     else wild_loop STEP window offset len (filled + STEP))"
  by pat_completeness auto
termination
  by (relation "measure (\<lambda>(STEP, window, offset, len, filled). len - filled)") auto

declare wild_loop.simps [simp del]

definition wild_copy_match ::
  "nat \<Rightarrow> bytes \<Rightarrow> nat \<Rightarrow> nat \<Rightarrow> nat \<Rightarrow> ('e, bytes \<times> nat) outcome" where
  "wild_copy_match STEP buf src dst_pos len =
     obind (usub dst_pos src) (\<lambda>offset.
     if STEP \<le> offset then
       obind (tail_window buf (dst_pos + len + STEP) (offset + len + STEP)) (\<lambda>(pre, window, post).
       obind (wild_loop STEP window offset len 0) (\<lambda>window.
       Ok (pre @ window @ post, dst_pos + len)))
     else Panic)"

definition wild_copy_match_8 :: "bytes \<Rightarrow> nat \<Rightarrow> nat \<Rightarrow> nat \<Rightarrow> ('e, bytes \<times> nat) outcome" where
  "wild_copy_match_8 buf src dst_pos len = wild_copy_match MATCH_CHUNK buf src dst_pos len"

definition wild_copy_match_16 :: "bytes \<Rightarrow> nat \<Rightarrow> nat \<Rightarrow> nat \<Rightarrow> ('e, bytes \<times> nat) outcome" where
  "wild_copy_match_16 buf src dst_pos len = wild_copy_match WIDE_CHUNK buf src dst_pos len"

definition wild_copy_match_32 :: "bytes \<Rightarrow> nat \<Rightarrow> nat \<Rightarrow> nat \<Rightarrow> ('e, bytes \<times> nat) outcome" where
  "wild_copy_match_32 buf src dst_pos len =
     obind (usub dst_pos src) (\<lambda>offset.
     obind (wild_copy_match_long buf dst_pos offset len) (\<lambda>buf.
     Ok (buf, dst_pos + len)))"

definition copy_within_nonoverlap :: "bytes \<Rightarrow> nat \<Rightarrow> nat \<Rightarrow> nat \<Rightarrow> ('e, bytes \<times> nat) outcome" where
  "copy_within_nonoverlap buf src dst_pos len =
     (if src + len \<le> dst_pos then
        obind (sub_slice buf 0 dst_pos) (\<lambda>history.
        obind (sub_slice history src (src + len)) (\<lambda>chunk.
        obind (copy_into buf dst_pos (dst_pos + len) chunk) (\<lambda>buf.
        Ok (buf, dst_pos + len))))
      else Panic)"

section \<open>Literal copies\<close>

definition copy_from_src :: "bytes \<Rightarrow> nat \<Rightarrow> bytes \<Rightarrow> nat \<Rightarrow> nat \<Rightarrow> ('e, bytes \<times> nat) outcome" where
  "copy_from_src src src_pos dst dst_pos len =
     obind (sub_slice src src_pos (src_pos + len)) (\<lambda>lits.
     obind (copy_into dst dst_pos (dst_pos + len) lits) (\<lambda>dst.
     Ok (dst, dst_pos + len)))"

text \<open>The zip of the two slices' chunks: every destination chunk becomes the source chunk.\<close>

function assign_chunks :: "nat \<Rightarrow> bytes \<Rightarrow> bytes \<Rightarrow> bytes" where
  "assign_chunks N d s =
     (if 0 < N \<and> N \<le> length d \<and> N \<le> length s
      then take N s @ assign_chunks N (drop N d) (drop N s) else d)"
  by pat_completeness auto
termination
  by (relation "measure (\<lambda>(N, d, s). length d)") auto

declare assign_chunks.simps [simp del]

definition copy_literals_32 :: "bytes \<Rightarrow> nat \<Rightarrow> bytes \<Rightarrow> nat \<Rightarrow> nat \<Rightarrow> ('e, bytes) outcome" where
  "copy_literals_32 src src_pos dst dst_pos len =
     (let n = ((len + LONG_CHUNK - 1) div LONG_CHUNK) * LONG_CHUNK in
      obind (sub_slice src src_pos (src_pos + n)) (\<lambda>s.
      obind (sub_slice dst dst_pos (dst_pos + n)) (\<lambda>d.
      write_at dst dst_pos (assign_chunks LONG_CHUNK d s))))"

definition wild_copy_literals ::
  "bytes \<Rightarrow> nat \<Rightarrow> bytes \<Rightarrow> nat \<Rightarrow> nat \<Rightarrow> ('e, bytes \<times> nat) outcome" where
  "wild_copy_literals src src_pos dst dst_pos len =
     obind (copy_literals_32 src src_pos dst dst_pos len) (\<lambda>dst. Ok (dst, dst_pos + len))"

end
