(* ===== verification/Copy_Correct.thy ===== *)
theory Copy_Correct
  imports Copy_Primitives
begin

text \<open>
  Correctness of the copy routines: each match copy fulfils the contract \<open>match_copier\<close>, each
  literal copy writes the literals.  None of them panics under its stated precondition.
\<close>

section \<open>The contract of a match copy\<close>

text \<open>
  \<open>ready b d off n\<close> is the caller's obligation for a copy of \<open>n\<close> bytes at distance \<open>off\<close> to
  position \<open>d\<close> of buffer \<open>b\<close>; \<open>slack\<close> bounds how far past the match the copy may write.
\<close>

locale match_copier =
  fixes copy :: "bytes \<Rightarrow> nat \<Rightarrow> nat \<Rightarrow> nat \<Rightarrow> ('e, bytes \<times> nat) outcome"
    and ready :: "bytes \<Rightarrow> nat \<Rightarrow> nat \<Rightarrow> nat \<Rightarrow> bool"
    and slack :: nat
  assumes ready_dist: "ready b d off n \<Longrightarrow> 0 < off \<and> off \<le> d"
    and copies: "ready b d off n \<Longrightarrow>
      \<exists>b' m. copy b d off n = Ok (b', d + n) \<and> extends_match b d off m b' \<and> n \<le> m \<and> m \<le> n + slack"
begin

lemma copy_expands:
  assumes "ready b d off n"
  shows "\<exists>b'. copy b d off n = Ok (b', d + n) \<and> length b' = length b \<and>
           take (d + n) b' = match_expand (take d b) off n \<and>
           drop (d + n + slack) b' = drop (d + n + slack) b"
proof -
  from copies [OF assms] obtain b' m where
    b': "copy b d off n = Ok (b', d + n)" and E: "extends_match b d off m b'"
    and m: "n \<le> m" "m \<le> n + slack" by blast
  have "take (d + n) b' = match_expand (take d b) off n"
    using extends_match_take [OF E m(1)] ready_dist [OF assms] by simp
  moreover have "drop (d + n + slack) b' = drop (d + n + slack) b"
  proof -
    have "drop (d + n + slack - (d + m)) (drop (d + m) b') =
          drop (d + n + slack - (d + m)) (drop (d + m) b)"
      using extends_match_drop [OF E] by simp
    with m show ?thesis by (simp add: add_ac)
  qed
  ultimately show ?thesis using b' extends_match_length [OF E] by blast
qed

lemma copy_fits: "ready b d off n \<Longrightarrow> d + n \<le> length b"
  using copies extends_match_fits by fastforce

end

section \<open>Windows and chunks\<close>

lemma tail_window_eq:
  "len \<le> stop \<Longrightarrow> stop \<le> length buf \<Longrightarrow>
   tail_window buf stop len = Ok (take (stop - len) buf, take len (drop (stop - len) buf), drop stop buf)"
  by (simp add: tail_window_def slice_simps)

lemma window_parts:
  assumes "len \<le> stop" "stop \<le> length buf"
  shows "take (stop - len) buf @ take len (drop (stop - len) buf) @ drop stop buf = buf"
    and "length (take len (drop (stop - len) buf)) = len"
    and "length (take (stop - len) buf) = stop - len"
proof -
  have "drop stop buf = drop len (drop (stop - len) buf)" using assms by simp
  then show "take (stop - len) buf @ take len (drop (stop - len) buf) @ drop stop buf = buf"
    by (metis append_take_drop_id)
qed (use assms in simp_all)

lemma copy_chunk_eq:
  "src + N \<le> length buf \<Longrightarrow> dst + N \<le> length buf \<Longrightarrow>
   copy_chunk N buf src dst = Ok (blit buf dst (take N (drop src buf)))"
  by (simp add: copy_chunk_def chunk_def store_def slice_simps)

lemma take_drop_take: "a + n \<le> d \<Longrightarrow> take n (drop a (take d b)) = take n (drop a b)"
  by (simp add: drop_take min_def)

text \<open>One chunk of at most \<open>off\<close> bytes continues the match inside its window.\<close>

definition match_step :: "nat \<Rightarrow> nat \<Rightarrow> nat \<Rightarrow> bytes \<Rightarrow> bytes" where
  "match_step off n c w = blit w (off + n) (take c (drop n w))"

lemma match_step_extends:
  "extends_match w0 off off n w \<Longrightarrow> c \<le> off \<Longrightarrow> 0 < off \<Longrightarrow> off + n + c \<le> length w0 \<Longrightarrow>
   extends_match w0 off off (n + c) (match_step off n c w)"
  unfolding match_step_def using extends_match_chunk [of w0 off off n w c] by simp

lemma copy_chunk_match_step:
  "extends_match w0 off off n w \<Longrightarrow> off + n + c \<le> length w0 \<Longrightarrow>
   copy_chunk c w n (off + n) = Ok (match_step off n c w)"
  by (simp add: copy_chunk_eq match_step_def extends_match_length)

lemma window_lift:
  assumes E: "extends_match (take (off + k) (drop (dst - off) buf)) off off n w"
    and "off \<le> dst" "0 < off" "dst + k \<le> length buf"
  shows "extends_match buf dst off n (take (dst - off) buf @ w @ drop (dst + k) buf)"
proof -
  have "take (dst - off) buf @ take (off + k) (drop (dst - off) buf) @ drop (dst + k) buf = buf"
    using window_parts(1) [of "off + k" "dst + k" buf] assms by simp
  with extends_match_window [OF E, of "take (dst - off) buf" dst "drop (dst + k) buf"] assms
  show ?thesis by simp
qed

section \<open>The routines\<close>

lemma wild_match_copy_18_copies:
  assumes "8 \<le> off" "off \<le> d" "n \<le> 18" "d + 18 \<le> length b"
  shows "\<exists>b'. wild_match_copy_18 b d off n = (Ok (b', d + n) :: ('e, bytes \<times> nat) outcome) \<and>
              extends_match b d off 18 b'"
proof -
  define w0 where "w0 = take (off + 18) (drop (d - off) b)"
  have lw: "length w0 = off + 18" using assms by (simp add: w0_def)
  have tw: "d + 18 - (off + 18) = d - off" by simp
  have E0: "extends_match w0 off off 0 w0" using lw by (simp add: extends_match_refl)
  define w1 where "w1 = match_step off 0 8 w0"
  have E1: "extends_match w0 off off 8 w1"
    using match_step_extends [OF E0, of 8] assms lw by (simp add: w1_def)
  define w2 where "w2 = match_step off 8 8 w1"
  have E2: "extends_match w0 off off 16 w2"
    using match_step_extends [OF E1, of 8] assms lw by (simp add: w2_def)
  define w3 where "w3 = match_step off 16 2 w2"
  have E3: "extends_match w0 off off 18 w3"
    using match_step_extends [OF E2, of 2] assms lw by (simp add: w3_def)
  have "wild_match_copy_18 b d off n = Ok (take (d - off) b @ w3 @ drop (d + 18) b, d + n)"
    using assms lw
    by (simp add: wild_match_copy_18_def tail_window_eq tw w0_def [symmetric]
        copy_chunk_match_step [OF E0, of 8, simplified] copy_chunk_match_step [OF E1, of 8]
        copy_chunk_match_step [OF E2, of 2] w1_def [symmetric] w2_def [symmetric] w3_def [symmetric])
  moreover have "extends_match b d off 18 (take (d - off) b @ w3 @ drop (d + 18) b)"
    using window_lift [OF E3 [unfolded w0_def]] assms by simp
  ultimately show ?thesis by blast
qed

lemma long_loop_extends:
  assumes "extends_match w0 off off filled w" "16 \<le> off" "off + len + 32 \<le> length w0"
    "filled < len + 32"
  shows "\<exists>w' m. long_loop w off len filled = (Ok w' :: ('e, bytes) outcome) \<and>
           extends_match w0 off off m w' \<and> len \<le> m \<and> m \<le> len + 32"
  using assms
proof (induction "len - filled" arbitrary: w filled rule: less_induct)
  case less
  show ?case
  proof (cases "filled < len")
    case False
    with less.prems show ?thesis
      by (auto simp: long_loop.simps [of w off len filled] intro!: exI [of _ filled])
  next
    case True
    let ?w1 = "match_step off filled 16 w"
    let ?w2 = "match_step off (filled + 16) 16 ?w1"
    have E1: "extends_match w0 off off (filled + 16) ?w1"
      using less.prems True by (intro match_step_extends) auto
    have E2: "extends_match w0 off off (filled + 32) ?w2"
      using match_step_extends [OF E1, of 16] less.prems True by (simp add: add.assoc)
    have "long_loop w off len filled = (long_loop ?w2 off len (filled + 32) :: ('e, bytes) outcome)"
      using True less.prems
      by (simp add: long_loop.simps [of w off len filled] add.assoc
          copy_chunk_match_step [OF less.prems(1), of 16]
          copy_chunk_match_step [OF E1, of 16, unfolded add.assoc])
    moreover have "len - (filled + 32) < len - filled" "filled + 32 < len + 32" using True by auto
    ultimately show ?thesis using less.hyps [OF _ E2] less.prems by simp
  qed
qed

lemma wild_copy_match_long_copies:
  assumes "16 \<le> off" "off \<le> d" "d + n + 32 \<le> length b"
  shows "\<exists>b' m. wild_copy_match_long b d off n = (Ok b' :: ('e, bytes) outcome) \<and>
              extends_match b d off m b' \<and> n \<le> m \<and> m \<le> n + 32"
proof (cases "64 < n \<and> n \<le> off")
  case True
  let ?src = "take n (drop (d - off) b)"
  from True have "64 < n" "n \<le> off" by simp_all
  with assms have "wild_copy_match_long b d off n = (Ok (blit b d ?src) :: ('e, bytes) outcome)"
    by (simp add: wild_copy_match_long_def slice_simps take_drop_take)
  moreover have "extends_match b d off n (blit b d ?src)"
    using True assms by (intro extends_match_first) auto
  ultimately show ?thesis by (intro exI [of _ "blit b d ?src"] exI [of _ n]) simp
next
  case False
  define w0 where "w0 = take (off + (n + 32)) (drop (d - off) b)"
  have lw: "length w0 = off + n + 32" using assms by (simp add: w0_def)
  have tw: "d + n + 32 - (off + n + 32) = d - off" by simp
  have E0: "extends_match w0 off off 0 w0" using lw by (simp add: extends_match_refl)
  define w1 where "w1 = match_step off 0 16 w0"
  have E1: "extends_match w0 off off 16 w1"
    using match_step_extends [OF E0, of 16] assms lw by (simp add: w1_def)
  define w2 where "w2 = match_step off 16 16 w1"
  have E2: "extends_match w0 off off 32 w2"
    using match_step_extends [OF E1, of 16] assms lw by (simp add: w2_def)
  define tl where "tl = (if 32 < n then
     obind (copy_chunk 16 w2 32 (off + 32)) (\<lambda>w. obind (copy_chunk 16 w 48 (off + 48))
       (\<lambda>w. long_loop w off n 64)) else Ok w2 :: ('e, bytes) outcome)"
  have "\<exists>w' m. tl = Ok w' \<and> extends_match w0 off off m w' \<and> n \<le> m \<and> m \<le> n + 32"
  proof (cases "32 < n")
    case False
    with E2 show ?thesis by (auto simp: tl_def intro!: exI [of _ 32])
  next
    case True
    define w3 where "w3 = match_step off 32 16 w2"
    have E3: "extends_match w0 off off 48 w3"
      using match_step_extends [OF E2, of 16] assms lw True by (simp add: w3_def)
    define w4 where "w4 = match_step off 48 16 w3"
    have E4: "extends_match w0 off off 64 w4"
      using match_step_extends [OF E3, of 16] assms lw True by (simp add: w4_def)
    have "tl = long_loop w4 off n 64"
      using True lw
      by (simp add: tl_def copy_chunk_match_step [OF E2, of 16] copy_chunk_match_step [OF E3, of 16]
          w3_def [symmetric] w4_def [symmetric])
    with long_loop_extends [OF E4 assms(1), of n, where ?'e = 'e] True lw show ?thesis
      by auto
  qed
  then obtain w' m where tl: "tl = Ok w'" and E': "extends_match w0 off off m w'"
    and m: "n \<le> m" "m \<le> n + 32" by blast
  have "wild_copy_match_long b d off n = obind tl (\<lambda>w. Ok (take (d - off) b @ w @ drop (d + n + 32) b))"
    using assms lw
    by (simp add: wild_copy_match_long_def False tail_window_eq tw add.assoc w0_def [symmetric]
        copy_chunk_match_step [OF E0, of 16, simplified] copy_chunk_match_step [OF E1, of 16]
        w1_def [symmetric] w2_def [symmetric] tl_def)
  moreover have "extends_match b d off m (take (d - off) b @ w' @ drop (d + n + 32) b)"
    using window_lift [OF E' [unfolded w0_def]] assms by (simp add: add.assoc)
  ultimately show ?thesis using tl m by auto
qed

lemma wild_loop_extends:
  assumes "extends_match w0 off off filled w" "0 < c" "c \<le> off" "off + len + c \<le> length w0"
    "filled < len + c" "filled = 0 \<or> filled < len"
  shows "\<exists>w' m. wild_loop c w off len filled = (Ok w' :: ('e, bytes) outcome) \<and>
           extends_match w0 off off m w' \<and> len \<le> m \<and> m \<le> len + c"
  using assms
proof (induction "len - filled" arbitrary: w filled rule: less_induct)
  case less
  have fit: "off + filled + c \<le> length w0" using less.prems by auto
  have E1: "extends_match w0 off off (filled + c) (match_step off filled c w)"
    using less.prems fit by (intro match_step_extends) auto
  have step: "wild_loop c w off len filled =
      (if len \<le> filled + c then Ok (match_step off filled c w)
       else wild_loop c (match_step off filled c w) off len (filled + c) :: ('e, bytes) outcome)"
    using less.prems fit
    by (simp add: wild_loop.simps [of c w off len filled] copy_chunk_match_step [OF less.prems(1)])
  show ?case
  proof (cases "len \<le> filled + c")
    case True
    with step E1 less.prems show ?thesis by (auto intro!: exI [of _ "filled + c"])
  next
    case False
    then show ?thesis using step less.hyps [OF _ E1] less.prems by auto
  qed
qed

lemma wild_copy_match_copies:
  assumes "0 < c" "c \<le> off" "off \<le> d" "d + n + c \<le> length b"
  shows "\<exists>b' m. wild_copy_match c b (d - off) d n = (Ok (b', d + n) :: ('e, bytes \<times> nat) outcome) \<and>
              extends_match b d off m b' \<and> n \<le> m \<and> m \<le> n + c"
proof -
  define w0 where "w0 = take (off + (n + c)) (drop (d - off) b)"
  have lw: "length w0 = off + n + c" using assms by (simp add: w0_def)
  have tw: "d + n + c - (off + n + c) = d - off" by simp
  have E0: "extends_match w0 off off 0 w0" using lw by (simp add: extends_match_refl)
  obtain w' m where w': "wild_loop c w0 off n 0 = (Ok w' :: ('e, bytes) outcome)"
    and E': "extends_match w0 off off m w'" and m: "n \<le> m" "m \<le> n + c"
    using wild_loop_extends [OF E0 assms(1,2), of n, where ?'e = 'e] lw assms(1) by auto
  have "wild_copy_match c b (d - off) d n =
      (Ok (take (d - off) b @ w' @ drop (d + n + c) b, d + n) :: ('e, bytes \<times> nat) outcome)"
    using assms w' by (simp add: wild_copy_match_def slice_simps tail_window_eq tw
        add.assoc w0_def [symmetric])
  moreover have "extends_match b d off m (take (d - off) b @ w' @ drop (d + n + c) b)"
    using window_lift [OF E' [unfolded w0_def]] assms by (simp add: add.assoc)
  ultimately show ?thesis using m by blast
qed

text \<open>The spread pattern is the cyclic one.\<close>

lemma spread_pattern_cyclic:
  assumes "1 < off" "k \<le> 8" "8 \<le> length w" "off \<le> 8" "length p = 8" "0 < k"
    "\<And>i. i < k \<Longrightarrow> p ! i = w ! (i mod off)"
  shows "\<exists>p'. spread_pattern w off [k..<8] p = (Ok p' :: ('e, bytes) outcome) \<and> length p' = 8 \<and>
           (\<forall>i < 8. p' ! i = w ! (i mod off))"
  using assms
proof (induction "8 - k" arbitrary: k p)
  case 0
  then show ?case by simp
next
  case (Suc d)
  then have k: "k < 8" by simp
  define v where "v = w ! (k mod off)"
  have v: "(if k < off then idx_get w k else obind (usub k off) (\<lambda>j. idx_get p j)) =
      (Ok v :: ('e, byte) outcome)"
  proof (cases "k < off")
    case True
    with k Suc.prems show ?thesis by (simp add: slice_simps v_def)
  next
    case False
    then have "p ! (k - off) = w ! ((k - off) mod off)" using Suc.prems by simp
    with False k Suc.prems show ?thesis by (simp add: slice_simps v_def le_mod_geq)
  qed
  have "(blit p k [v]) ! i = w ! (i mod off)" if "i < Suc k" for i
    using that k Suc.prems nth_blit [of k "[v]" p i] by (cases "i = k") (auto simp: v_def)
  with Suc.hyps(1) [of "Suc k" "blit p k [v]"] Suc.hyps(2) Suc.prems k
  have "\<exists>p'. spread_pattern w off [Suc k..<8] (blit p k [v]) = (Ok p' :: ('e, bytes) outcome) \<and>
      length p' = 8 \<and> (\<forall>i < 8. p' ! i = w ! (i mod off))"
    by auto
  moreover have "spread_pattern w off [k..<8] p =
      (spread_pattern w off [Suc k..<8] (blit p k [v]) :: ('e, bytes) outcome)"
    using k v Suc.prems by (simp add: upt_conv_Cons slice_simps)
  ultimately show ?case by simp
qed

lemma short_offset_loop_extends:
  assumes "extends_match w0 off off n w" "0 < off" "off dvd step" "0 < step" "step \<le> 8"
    "off + len + 8 \<le> length w0" "length p = 8" "\<And>i. i < 8 \<Longrightarrow> p ! i = w0 ! (i mod off)"
    "off dvd filled" "filled \<le> n" "n \<le> filled + 8" "filled < len + 8" "n < len + 8"
  shows "\<exists>w' m. short_offset_loop w off len p step filled = (Ok w' :: ('e, bytes) outcome) \<and>
           extends_match w0 off off m w' \<and> len \<le> m \<and> m \<le> len + 8"
  using assms
proof (induction "len - filled" arbitrary: w n filled rule: less_induct)
  case less
  show ?case
  proof (cases "filled < len")
    case False
    with less.prems show ?thesis
      by (auto simp: short_offset_loop.simps [of w off len p step filled] intro!: exI [of _ n])
  next
    case True
    let ?w = "blit w (off + filled) p"
    have lw: "length w = length w0" using less.prems(1) by (rule extends_match_length)
    have E: "extends_match w0 off off (filled + 8) ?w"
      using less.prems True
      by (intro extends_match_pattern [OF less.prems(1)]) auto
    have "short_offset_loop w off len p step filled =
        (short_offset_loop ?w off len p step (filled + step) :: ('e, bytes) outcome)"
      using True less.prems lw
      by (simp add: short_offset_loop.simps [of w off len p step filled] store_def slice_simps)
    moreover have "len - (filled + step) < len - filled" using True less.prems by simp
    moreover have "off dvd filled + step" using less.prems by simp
    ultimately show ?thesis using less.hyps [OF _ E] less.prems True by simp
  qed
qed

lemma chunk_step_multiple:
  assumes "1 < (off :: nat)" "off < 8"
  shows "off dvd 8 - 8 mod off" "0 < 8 - 8 mod off" "8 - 8 mod off \<le> 8"
  using assms by (auto simp: minus_mod_eq_mult_div div_greater_zero_iff)

lemma wild_copy_match_short_offset_copies:
  assumes "2 \<le> off" "off < 8" "off \<le> d" "d + n + 8 \<le> length b"
  shows "\<exists>b' m. wild_copy_match_short_offset b d off n = (Ok (b', d + n) :: ('e, bytes \<times> nat) outcome) \<and>
              extends_match b d off m b' \<and> n \<le> m \<and> m \<le> n + 8"
proof -
  define w0 where "w0 = take (off + (n + 8)) (drop (d - off) b)"
  have lw: "length w0 = off + n + 8" using assms by (simp add: w0_def)
  have tw: "d + n + 8 - (off + n + 8) = d - off" by simp
  have E0: "extends_match w0 off off 0 w0" using lw by (simp add: extends_match_refl)
  define p0 where "p0 = blit (replicate 8 (w0 ! 0)) 0 (take 2 w0)"
  have p0: "length p0 = 8" "\<And>i. i < 2 \<Longrightarrow> p0 ! i = w0 ! (i mod off)"
    using lw assms by (auto simp: p0_def nth_blit)
  obtain p where p: "spread_pattern w0 off [2..<8] p0 = (Ok p :: ('e, bytes) outcome)"
    and lp: "length p = 8" and pn: "\<And>i. i < 8 \<Longrightarrow> p ! i = w0 ! (i mod off)"
    using spread_pattern_cyclic [of off 2 w0 p0, where ?'e = 'e] lw assms p0 by auto
  define step where "step = 8 - 8 mod off"
  have step: "off dvd step" "0 < step" "step \<le> 8"
    using chunk_step_multiple [of off] assms by (simp_all add: step_def)
  have "\<exists>w' m. short_offset_loop w0 off n p step 0 = (Ok w' :: ('e, bytes) outcome) \<and>
      extends_match w0 off off m w' \<and> n \<le> m \<and> m \<le> n + 8"
    using assms lw by (intro short_offset_loop_extends [OF E0 _ step _ lp pn]) auto
  then obtain w' m where w': "short_offset_loop w0 off n p step 0 = (Ok w' :: ('e, bytes) outcome)"
    and E': "extends_match w0 off off m w'" and m: "n \<le> m" "m \<le> n + 8" by blast
  have "wild_copy_match_short_offset b d off n =
      (Ok (take (d - off) b @ w' @ drop (d + n + 8) b, d + n) :: ('e, bytes \<times> nat) outcome)"
    using assms p w' lw
    by (simp add: wild_copy_match_short_offset_def slice_simps tail_window_eq tw add.assoc
        w0_def [symmetric] p0_def [symmetric] step_def [symmetric]
        del: upt_rec_numeral spread_pattern.simps)
  moreover have "extends_match b d off m (take (d - off) b @ w' @ drop (d + n + 8) b)"
    using window_lift [OF E' [unfolded w0_def]] assms by (simp add: add.assoc)
  ultimately show ?thesis using m by blast
qed

lemma overlap_loop_cyclic:
  assumes "length out = len" "0 < off" "0 < written" "written \<le> len"
    "off dvd written \<or> len \<le> written" "\<And>i. i < written \<Longrightarrow> out ! i = h (i mod off)"
  shows "\<exists>out'. overlap_loop out len written = (Ok out' :: ('e, bytes) outcome) \<and> length out' = len \<and>
           (\<forall>i < len. out' ! i = h (i mod off))"
  using assms
proof (induction "len - written" arbitrary: out written rule: less_induct)
  case less
  show ?case
  proof (cases "written < len")
    case False
    then have "overlap_loop out len written = (Ok out :: ('e, bytes) outcome)"
      by (simp add: overlap_loop.simps [of out len written])
    with less.prems False show ?thesis by auto
  next
    case True
    define n where "n = min written (len - written)"
    have n: "0 < n" "n \<le> written" "written + n \<le> len" using True less.prems by (auto simp: n_def)
    let ?o = "blit out written (take n out)"
    have dvd: "off dvd written" using less.prems True by auto
    have "?o ! i = h (i mod off)" if "i < written + n" for i
    proof (cases "i < written")
      case True
      then show ?thesis using less.prems n nth_blit [of written "take n out" out i] by simp
    next
      case False
      then have "?o ! i = out ! (i - written)"
        using less.prems n that nth_blit [of written "take n out" out i] by simp
      also have "\<dots> = h ((i - written) mod off)" using less.prems n that False by simp
      also have "(i - written) mod off = i mod off"
        using dvd False by (metis dvdE le_add_diff_inverse mod_mult_self4 not_less)
      finally show ?thesis .
    qed
    moreover have "off dvd written + n \<or> len \<le> written + n"
      using dvd by (auto simp: n_def min_def)
    moreover have "len - (written + n) < len - written" using n True by simp
    ultimately have "\<exists>out'. overlap_loop ?o len (written + n) = (Ok out' :: ('e, bytes) outcome) \<and>
        length out' = len \<and> (\<forall>i < len. out' ! i = h (i mod off))"
      using less.prems n by (intro less.hyps) auto
    moreover have "overlap_loop out len written = (overlap_loop ?o len (written + n) :: ('e, bytes) outcome)"
      using True less.prems n
      by (simp add: overlap_loop.simps [of out len written] n_def [symmetric] slice_simps take_drop_take)
    ultimately show ?thesis by simp
  qed
qed

lemma copy_within_overlapping_copies:
  assumes "2 \<le> off" "off \<le> d" "d + n \<le> length b"
  shows "\<exists>b'. copy_within_overlapping b (d - off) d n off = (Ok (b', d + n) :: ('e, bytes \<times> nat) outcome) \<and>
              extends_match b d off n b'"
proof (cases "n = 0")
  case True
  with assms show ?thesis
    by (simp add: copy_within_overlapping_def slice_simps overlap_loop.simps [of _ 0 0] extends_match_refl)
next
  case False
  define k where "k = min off n"
  have k: "0 < k" "k \<le> n" "k \<le> off" "off dvd k \<or> n \<le> k"
    using False assms by (auto simp: k_def min_def)
  define o1 where "o1 = blit (take n (drop d b)) 0 (take k (drop (d - off) b))"
  have lo1: "length o1 = n" using assms k by (simp add: o1_def)
  have "o1 ! i = b ! (d - off + i mod off)" if "i < k" for i
    using that assms k by (simp add: o1_def nth_blit)
  then have "\<exists>out'. overlap_loop o1 n k = (Ok out' :: ('e, bytes) outcome) \<and> length out' = n \<and>
      (\<forall>i < n. out' ! i = b ! (d - off + i mod off))"
    using k assms lo1 by (intro overlap_loop_cyclic) auto
  then obtain o2 where o2: "overlap_loop o1 n k = (Ok o2 :: ('e, bytes) outcome)" "length o2 = n"
    "\<And>i. i < n \<Longrightarrow> o2 ! i = b ! (d - off + i mod off)" by blast
  have "copy_within_overlapping b (d - off) d n off = (Ok (blit b d o2, d + n) :: ('e, bytes \<times> nat) outcome)"
    using assms k o2 by (simp add: copy_within_overlapping_def slice_simps take_drop_take
        k_def [symmetric] o1_def [symmetric])
  moreover have "extends_match b d off n (blit b d o2)"
    by (rule extends_matchI) (use assms o2 in \<open>auto simp: nth_blit\<close>)
  ultimately show ?thesis by blast
qed

lemma copy_within_nonoverlap_copies:
  assumes "0 < off" "off \<le> d" "n \<le> off" "d + n \<le> length b"
  shows "\<exists>b'. copy_within_nonoverlap b (d - off) d n = (Ok (b', d + n) :: ('e, bytes \<times> nat) outcome) \<and>
              extends_match b d off n b'"
proof -
  let ?b = "blit b d (take n (drop (d - off) b))"
  have "copy_within_nonoverlap b (d - off) d n = (Ok (?b, d + n) :: ('e, bytes \<times> nat) outcome)"
    using assms by (simp add: copy_within_nonoverlap_def slice_simps take_drop_take)
  moreover have "extends_match b d off n ?b" using assms by (intro extends_match_first) auto
  ultimately show ?thesis by blast
qed

section \<open>The routines fulfil the contract\<close>

interpretation mc18: match_copier wild_match_copy_18
  "\<lambda>b d off n. 8 \<le> off \<and> off \<le> d \<and> n \<le> 18 \<and> d + 18 \<le> length b" 18
proof (unfold_locales, goal_cases)
  case (2 b d off n)
  then show ?case using wild_match_copy_18_copies [of off d n b, where ?'e = 'a] by fastforce
qed auto

interpretation mc32: match_copier "\<lambda>b d off n. wild_copy_match_32 b (d - off) d n"
  "\<lambda>b d off n. 16 \<le> off \<and> off \<le> d \<and> d + n + 32 \<le> length b" 32
proof (unfold_locales, goal_cases)
  case (2 b d off n)
  then obtain b' m where "wild_copy_match_long b d off n = (Ok b' :: ('a, bytes) outcome)"
    "extends_match b d off m b'" "n \<le> m" "m \<le> n + 32"
    using wild_copy_match_long_copies [of off d n b, where ?'e = 'a] by blast
  with 2 show ?case by (auto simp: wild_copy_match_32_def slice_simps)
qed auto

interpretation mc16: match_copier "\<lambda>b d off n. wild_copy_match_16 b (d - off) d n"
  "\<lambda>b d off n. 16 \<le> off \<and> off \<le> d \<and> d + n + 16 \<le> length b" 16
proof (unfold_locales, goal_cases)
  case (2 b d off n)
  then show ?case using wild_copy_match_copies [of 16 off d n b] by (simp add: wild_copy_match_16_def)
qed auto

interpretation mc8: match_copier "\<lambda>b d off n. wild_copy_match_8 b (d - off) d n"
  "\<lambda>b d off n. 8 \<le> off \<and> off \<le> d \<and> d + n + 8 \<le> length b" 8
proof (unfold_locales, goal_cases)
  case (2 b d off n)
  then show ?case using wild_copy_match_copies [of 8 off d n b] by (simp add: wild_copy_match_8_def)
qed auto

interpretation mcshort: match_copier wild_copy_match_short_offset
  "\<lambda>b d off n. 2 \<le> off \<and> off < 8 \<and> off \<le> d \<and> d + n + 8 \<le> length b" 8
proof (unfold_locales, goal_cases)
  case (2 b d off n)
  then show ?case using wild_copy_match_short_offset_copies [of off d n b] by simp
qed auto

interpretation mcover: match_copier "\<lambda>b d off n. copy_within_overlapping b (d - off) d n off"
  "\<lambda>b d off n. 2 \<le> off \<and> off \<le> d \<and> d + n \<le> length b" 0
proof (unfold_locales, goal_cases)
  case (2 b d off n)
  then show ?case using copy_within_overlapping_copies [of off d n b, where ?'e = 'a] by fastforce
qed auto

interpretation mcnon: match_copier "\<lambda>b d off n. copy_within_nonoverlap b (d - off) d n"
  "\<lambda>b d off n. 0 < off \<and> off \<le> d \<and> n \<le> off \<and> d + n \<le> length b" 0
proof (unfold_locales, goal_cases)
  case (2 b d off n)
  then show ?case using copy_within_nonoverlap_copies [of off d n b, where ?'e = 'a] by fastforce
qed auto

section \<open>Literal copies\<close>

lemma copy_from_src_eq:
  "sp + n \<le> length src \<Longrightarrow> d + n \<le> length dst \<Longrightarrow>
   copy_from_src src sp dst d n = Ok (blit dst d (take n (drop sp src)), d + n)"
  by (simp add: copy_from_src_def slice_simps)

lemma assign_chunks_eq:
  "length d = length s \<Longrightarrow> 0 < N \<Longrightarrow> N dvd length s \<Longrightarrow> assign_chunks N d s = s"
proof (induction N d s rule: assign_chunks.induct)
  case (1 N d s)
  show ?case
  proof (cases "s = []")
    case True
    with "1.prems" show ?thesis by (simp add: assign_chunks.simps [of N "[]" "[]"])
  next
    case False
    with "1.prems" have "N \<le> length s" by (simp add: dvd_imp_le)
    moreover have "assign_chunks N (drop N d) (drop N s) = drop N s"
      using "1" \<open>N \<le> length s\<close> by simp
    ultimately show ?thesis using "1.prems" by (simp add: assign_chunks.simps [of N d s])
  qed
qed

lemma div_ceil_32: "n \<le> (n + 31) div 32 * 32" "(n + 31) div 32 * 32 \<le> n + (31 :: nat)"
  by presburger+

lemma copy_literals_32_eq:
  assumes "sp + n + 32 \<le> length src" "d + n + 32 \<le> length dst"
  shows "\<exists>m. copy_literals_32 src sp dst d n = Ok (blit dst d (take m (drop sp src))) \<and>
             n \<le> m \<and> m \<le> n + 31"
proof -
  define m where "m = (n + 31) div 32 * 32"
  have m: "n \<le> m" "m \<le> n + 31" "32 dvd m" using div_ceil_32 [of n] by (auto simp: m_def)
  then have "assign_chunks 32 (take m (drop d dst)) (take m (drop sp src)) = take m (drop sp src)"
    using assms by (intro assign_chunks_eq) auto
  with m assms show ?thesis
    by (intro exI [of _ m]) (simp add: copy_literals_32_def slice_simps Let_def m_def [symmetric] add.commute)
qed

text \<open>Both literal copies leave the literals after the old output.\<close>

lemma take_blit_literals:
  "n \<le> m \<Longrightarrow> sp + m \<le> length src \<Longrightarrow> d \<le> length dst \<Longrightarrow>
   take (d + n) (blit dst d (take m (drop sp src))) = take d dst @ take n (drop sp src)"
  by (auto simp: blit_def min_def)

end
