(* ===== verification/Decoder.thy ===== *)
theory Decoder
  imports Copy_Correct
begin

text \<open>
  \<^verbatim>\<open>crates/decode/src/decompress.rs\<close> and \<^verbatim>\<open>out.rs\<close>: the block decoder with its fast loop and
  its general path, the functions and the types of its interface.

  The decoder mutates the output slice and its position; both are the record \<open>OutSink\<close>,
  which is returned with the result and also with an error.  The fast loop and the outer
  loop take fuel, one unit per token; \<open>decompress_body\<close> gives them one unit more than the
  input has bytes.
\<close>

unbundle bit_operations_syntax

section \<open>The output buffer\<close>

record OutSink =
  os_output :: bytes
  os_pos :: nat

definition OutSink_new :: "bytes \<Rightarrow> nat \<Rightarrow> OutSink" where
  "OutSink_new output pos = \<lparr>os_output = output, os_pos = pos\<rparr>"

definition OutSink_capacity :: "OutSink \<Rightarrow> nat" where
  "OutSink_capacity s = length (os_output s)"

text \<open>The copy routine is compiled for the baseline target, without AVX.\<close>

definition OutSink_extend_from_slice :: "OutSink \<Rightarrow> bytes \<Rightarrow> ('e, OutSink) outcome" where
  "OutSink_extend_from_slice s data =
     obind (sub_slice (os_output s) (os_pos s) (os_pos s + length data)) (\<lambda>dst.
     obind (slice_copy False data dst) (\<lambda>dst.
     obind (write_at (os_output s) (os_pos s) dst) (\<lambda>out.
     Ok (OutSink_new out (os_pos s + length data)))))"

section \<open>Reading lengths and offsets\<close>

text \<open>A reader gets the position and returns the new one with the value.\<close>

function read_integer_loop ::
  "bytes \<Rightarrow> nat \<Rightarrow> nat \<Rightarrow> nat \<Rightarrow> (DecompressError, nat \<times> nat) outcome" where
  "read_integer_loop input input_pos limit n =
     (if input_pos < length input then
        let extra = input ! input_pos in
        (case checked_add n (unat extra) of
           None \<Rightarrow> Err LiteralOutOfBounds
         | Some n \<Rightarrow>
             if extra \<noteq> EXT_MORE then Ok (n, input_pos + EXT_LEN)
             else if limit < n then Ok (n, input_pos + EXT_LEN)
             else read_integer_loop input (input_pos + EXT_LEN) limit n)
      else Err ExpectedAnotherByte)"
  by pat_completeness auto
termination
  by (relation "measure (\<lambda>(input, input_pos, limit, n). length input - input_pos)") auto

declare read_integer_loop.simps [simp del]

definition read_integer_bounded :: "bytes \<Rightarrow> nat \<Rightarrow> nat \<Rightarrow> (DecompressError, nat \<times> nat) outcome" where
  "read_integer_bounded input input_pos limit = read_integer_loop input input_pos limit 0"

definition read_integer :: "bytes \<Rightarrow> nat \<Rightarrow> (DecompressError, nat \<times> nat) outcome" where
  "read_integer input input_pos = read_integer_bounded input input_pos usize_max"

definition read_literal_length ::
  "bytes \<Rightarrow> nat \<Rightarrow> byte \<Rightarrow> nat \<Rightarrow> (DecompressError, nat \<times> nat) outcome" where
  "read_literal_length input input_pos token max_extension =
     (let literal_length = unat (drop_bit ML_BITS token) in
      if literal_length = RUN_MASK then
        obind (read_integer_bounded input input_pos max_extension) (\<lambda>(n, input_pos).
        case checked_add literal_length n of
          None \<Rightarrow> Err LiteralOutOfBounds
        | Some len \<Rightarrow> Ok (len, input_pos))
      else Ok (literal_length, input_pos))"

definition read_match_length ::
  "bytes \<Rightarrow> nat \<Rightarrow> byte \<Rightarrow> nat \<Rightarrow> (DecompressError, nat \<times> nat) outcome" where
  "read_match_length input input_pos token max_extension =
     (let match_length = MINMATCH + unat (token AND word_of_nat ML_MASK) in
      if match_length = MINMATCH + ML_MASK then
        obind (read_integer_bounded input input_pos max_extension) (\<lambda>(n, input_pos).
        case checked_add match_length n of
          None \<Rightarrow> Err LiteralOutOfBounds
        | Some len \<Rightarrow> Ok (len, input_pos))
      else Ok (match_length, input_pos))"

definition read_offset :: "bytes \<Rightarrow> nat \<Rightarrow> (DecompressError, nat \<times> nat) outcome" where
  "read_offset input input_pos =
     (if input_pos \<le> length input \<and> OFFSET_LEN \<le> length (drop input_pos input) then
        let offset = le_nat (take OFFSET_LEN (drop input_pos input)) in
        if offset = 0 then Err OffsetZero else Ok (offset, input_pos + OFFSET_LEN)
      else Err ExpectedAnotherByte)"

section \<open>Capacity tests\<close>

text \<open>The variants for 64-bit targets, then those for 32-bit targets.\<close>

definition has_headroom :: "nat \<Rightarrow> nat \<Rightarrow> nat \<Rightarrow> nat \<Rightarrow> bool" where
  "has_headroom pos len slack cap \<longleftrightarrow> pos + len + slack \<le> cap"

definition len_exceeds_capacity :: "nat \<Rightarrow> nat \<Rightarrow> nat \<Rightarrow> bool" where
  "len_exceeds_capacity pos len cap \<longleftrightarrow> cap < pos + len"

definition expected_output_size :: "nat \<Rightarrow> nat \<Rightarrow> nat" where
  "expected_output_size pos len = pos + len"

definition checked_add_32 :: "nat \<Rightarrow> nat \<Rightarrow> nat option" where
  "checked_add_32 a b = (if a + b \<le> u32_max then Some (a + b) else None)"

definition has_headroom_32 :: "nat \<Rightarrow> nat \<Rightarrow> nat \<Rightarrow> nat \<Rightarrow> bool" where
  "has_headroom_32 pos len slack cap \<longleftrightarrow>
     (case checked_add_32 pos len of
        None \<Rightarrow> False
      | Some e \<Rightarrow> (case checked_add_32 e slack of None \<Rightarrow> False | Some e \<Rightarrow> e \<le> cap))"

definition len_exceeds_capacity_32 :: "nat \<Rightarrow> nat \<Rightarrow> nat \<Rightarrow> bool" where
  "len_exceeds_capacity_32 pos len cap \<longleftrightarrow> cap - pos < len"

definition expected_output_size_32 :: "nat \<Rightarrow> nat \<Rightarrow> nat" where
  "expected_output_size_32 pos len = min (pos + len) u32_max"

section \<open>The fast loop\<close>

text \<open>
  One iteration.  A \<^verbatim>\<open>break\<close> happens before anything is consumed or written, so it
  carries no state; a \<^verbatim>\<open>continue\<close> carries the new positions and the output.
\<close>

datatype fast_result = FastBreak | FastContinue nat bytes nat | FastReturn bytes nat

text \<open>270 literals and more: decoded only as the last sequence.\<close>

definition fast_many_literals :: "bytes \<Rightarrow> bytes \<Rightarrow> nat \<Rightarrow> nat \<Rightarrow> ('e, fast_result) outcome" where
  "fast_many_literals input out ip op =
     (case read_integer_bounded input (ip + TOKEN_LEN) (length out) of
        Ok (n, start) \<Rightarrow>
          let literal_length = RUN_MASK + n in
          if start + literal_length = length input \<and> op + literal_length \<le> length out then
            obind (copy_from_src input start out op literal_length) (\<lambda>(out, fin).
            Ok (FastReturn out fin))
          else Ok FastBreak
      | Err _ \<Rightarrow> Ok FastBreak
      | Panic \<Rightarrow> Panic
      | Diverge \<Rightarrow> Diverge)"

text \<open>A literal with a one-byte length extension, then a short match.\<close>

definition fast_long_literal ::
  "bytes \<Rightarrow> bytes \<Rightarrow> nat \<Rightarrow> nat \<Rightarrow> byte \<Rightarrow> byte \<Rightarrow> ('e, fast_result) outcome" where
  "fast_long_literal input out ip op token extra =
     (let literal_length = RUN_MASK + unat extra;
          literal_start = ip + TOKEN_LEN + EXT_LEN;
          literal_end = literal_start + literal_length in
      if literal_end = length input \<and> op + literal_length \<le> length out then
        obind (copy_from_src input literal_start out op literal_length) (\<lambda>(out, fin).
        Ok (FastReturn out fin))
      else if length input < literal_end + LONG_CHUNK \<or>
              length out < op + literal_length + LONG_CHUNK then Ok FastBreak
      else
        obind (chunk OFFSET_LEN input literal_end) (\<lambda>offset_bytes.
        let offset = le_nat offset_bytes;
            match_nib = unat (token AND word_of_nat ML_MASK);
            dst = op + literal_length in
        if match_nib = ML_MASK \<or> offset < MATCH_CHUNK \<or> dst < offset then Ok FastBreak
        else
          obind (copy_literals_32 input literal_start out op literal_length) (\<lambda>out.
          obind (wild_match_copy_18 out dst offset (MINMATCH + match_nib)) (\<lambda>(out, fin).
          Ok (FastContinue (literal_end + OFFSET_LEN) out fin)))))"

text \<open>A short literal and a short match, from the output or wholly from the dictionary.\<close>

definition fast_short_match ::
  "bool \<Rightarrow> bytes \<Rightarrow> bytes \<Rightarrow> bytes \<Rightarrow> nat \<Rightarrow> nat \<Rightarrow> nat \<Rightarrow> nat \<Rightarrow> nat \<Rightarrow> ('e, fast_result) outcome" where
  "fast_short_match use_dict ext_dict window out ip op literal_length offset match_nib =
     (let dst = op + literal_length;
          match_length = MINMATCH + match_nib in
      if MATCH_CHUNK \<le> offset \<and> offset \<le> dst then
        obind (chunk WIDE_CHUNK window TOKEN_LEN) (\<lambda>lits.
        obind (store out op lits) (\<lambda>out.
        obind (wild_match_copy_18 out dst offset match_length) (\<lambda>(out, fin).
        Ok (FastContinue (ip + TOKEN_LEN + OFFSET_LEN + literal_length) out fin))))
      else if use_dict \<and> dst < offset then
        let back = offset - dst in
        if SHORT_MATCH_MAX \<le> back \<and> back \<le> length ext_dict then
          obind (chunk WIDE_CHUNK window TOKEN_LEN) (\<lambda>lits.
          obind (store out op lits) (\<lambda>out.
          obind (chunk SHORT_MATCH_MAX ext_dict (length ext_dict - back)) (\<lambda>from.
          obind (store out dst from) (\<lambda>out.
          Ok (FastContinue (ip + TOKEN_LEN + OFFSET_LEN + literal_length) out (dst + match_length))))))
        else Ok FastBreak
      else Ok FastBreak)"

text \<open>A short literal and a match with a one-byte length extension.\<close>

definition fast_long_match ::
  "bytes \<Rightarrow> bytes \<Rightarrow> nat \<Rightarrow> nat \<Rightarrow> nat \<Rightarrow> nat \<Rightarrow> ('e, fast_result) outcome" where
  "fast_long_match window out ip op literal_length offset =
     (let dst = op + literal_length in
      obind (idx_get window (TOKEN_LEN + OFFSET_LEN + literal_length)) (\<lambda>extra.
      if extra = EXT_MORE \<or> offset < WIDE_CHUNK \<or> dst < offset then Ok FastBreak
      else
        let match_length = MINMATCH + ML_MASK + unat extra in
        if length out < dst + match_length + LONG_CHUNK then Ok FastBreak
        else
          obind (chunk WIDE_CHUNK window TOKEN_LEN) (\<lambda>lits.
          obind (store out op lits) (\<lambda>out.
          obind (wild_copy_match_long out dst offset match_length) (\<lambda>out.
          Ok (FastContinue (ip + TOKEN_LEN + OFFSET_LEN + EXT_LEN + literal_length) out
            (dst + match_length)))))))"

definition fast_iteration ::
  "bool \<Rightarrow> bytes \<Rightarrow> bytes \<Rightarrow> nat \<Rightarrow> bytes \<Rightarrow> nat \<Rightarrow> ('e, fast_result) outcome" where
  "fast_iteration use_dict input ext_dict input_pos out pos =
     (let ip = idx input_pos; op = idx pos in
      if length input < ip + FAST_IN then Ok FastBreak
      else
        obind (chunk FAST_IN input ip) (\<lambda>window.
        obind (idx_get window 0) (\<lambda>token.
        let literal_length = unat (drop_bit ML_BITS token) in
        if literal_length = RUN_MASK then
          obind (idx_get window TOKEN_LEN) (\<lambda>extra.
          if extra = EXT_MORE then fast_many_literals input out ip op
          else fast_long_literal input out ip op token extra)
        else if length out < op + literal_length + SHORT_MATCH_MAX then Ok FastBreak
        else
          obind (chunk OFFSET_LEN window (TOKEN_LEN + literal_length)) (\<lambda>offset_bytes.
          let offset = le_nat offset_bytes;
              match_nib = unat (token AND word_of_nat ML_MASK) in
          if match_nib \<noteq> ML_MASK then
            fast_short_match use_dict ext_dict window out ip op literal_length offset match_nib
          else fast_long_match window out ip op literal_length offset))))"

datatype loop_exit = LeaveAt nat bytes nat | ReturnAt bytes nat

fun fast_loop ::
  "nat \<Rightarrow> bool \<Rightarrow> bytes \<Rightarrow> bytes \<Rightarrow> nat \<Rightarrow> bytes \<Rightarrow> nat \<Rightarrow> ('e, loop_exit) outcome" where
  "fast_loop 0 use_dict input ext_dict input_pos out pos = Diverge"
| "fast_loop (Suc fuel) use_dict input ext_dict input_pos out pos =
     obind (fast_iteration use_dict input ext_dict input_pos out pos) (\<lambda>r.
     case r of
       FastBreak \<Rightarrow> Ok (LeaveAt input_pos out pos)
     | FastReturn out pos \<Rightarrow> Ok (ReturnAt out pos)
     | FastContinue input_pos out pos \<Rightarrow>
         fast_loop fuel use_dict input ext_dict input_pos out pos)"

section \<open>The general path\<close>

definition copy_from_dict ::
  "OutSink \<Rightarrow> bytes \<Rightarrow> nat \<Rightarrow> nat \<Rightarrow> (DecompressError \<times> OutSink, nat \<times> OutSink) outcome" where
  "copy_from_dict s ext_dict offset match_length =
     (if offset \<le> os_pos s then Panic
      else
        let back = offset - os_pos s in
        if length ext_dict < back then Err (OffsetOutOfBounds, s)
        else
          let dict_offset = length ext_dict - back;
              dict_match_length = min match_length (length ext_dict - dict_offset) in
          obind (sub_slice ext_dict dict_offset (dict_offset + dict_match_length)) (\<lambda>ext_match.
          obind (OutSink_extend_from_slice s ext_match) (\<lambda>s.
          Ok (dict_match_length, s))))"

text \<open>The choice of copy routine for a match inside the output.\<close>

definition general_match_copy :: "bytes \<Rightarrow> nat \<Rightarrow> nat \<Rightarrow> nat \<Rightarrow> ('e, bytes \<times> nat) outcome" where
  "general_match_copy out pos offset match_length =
     (let start = pos - offset in
      if WIDE_CHUNK \<le> offset \<and> has_headroom pos match_length LONG_CHUNK (length out) then
        wild_copy_match_32 out start pos match_length
      else if WIDE_CHUNK \<le> offset \<and> has_headroom pos match_length WIDE_CHUNK (length out) then
        wild_copy_match_16 out start pos match_length
      else if MATCH_CHUNK \<le> offset \<and> has_headroom pos match_length MATCH_CHUNK (length out) then
        wild_copy_match_8 out start pos match_length
      else if (MIN_COPY_OFFSET \<le> offset \<and> offset < MATCH_CHUNK) \<and>
              has_headroom pos match_length MATCH_CHUNK (length out) then
        wild_copy_match_short_offset out pos offset match_length
      else if offset < match_length then
        if offset < MIN_COPY_OFFSET then
          obind (idx_get out start) (\<lambda>val.
          obind (copy_into out pos (pos + match_length) (replicate match_length val)) (\<lambda>out.
          Ok (out, pos + match_length)))
        else copy_within_overlapping out start pos match_length offset
      else copy_within_nonoverlap out start pos match_length)"

definition general_literals ::
  "bytes \<Rightarrow> nat \<Rightarrow> OutSink \<Rightarrow> nat \<Rightarrow> (DecompressError \<times> OutSink, nat \<times> OutSink) outcome" where
  "general_literals input input_pos s literal_length =
     (if literal_length \<noteq> 0 then
        if len_exceeds_capacity input_pos literal_length (length input) then
          Err (LiteralOutOfBounds, s)
        else if len_exceeds_capacity (os_pos s) literal_length (OutSink_capacity s) then
          Err (OutputTooSmall (expected_output_size (os_pos s) literal_length) (OutSink_capacity s), s)
        else
          obind
            (if literal_length \<le> WILD_LITERAL_MAX \<and>
                has_headroom input_pos literal_length LONG_CHUNK (length input) \<and>
                has_headroom (os_pos s) literal_length LONG_CHUNK (length (os_output s)) then
               wild_copy_literals input input_pos (os_output s) (os_pos s) literal_length
             else copy_from_src input input_pos (os_output s) (os_pos s) literal_length)
            (\<lambda>(out, pos). Ok (input_pos + literal_length, OutSink_new out pos))
      else Ok (input_pos, s))"

definition general_match ::
  "bool \<Rightarrow> bytes \<Rightarrow> OutSink \<Rightarrow> nat \<Rightarrow> nat \<Rightarrow> (DecompressError \<times> OutSink, OutSink) outcome" where
  "general_match use_dict ext_dict s offset match_length =
     (let in_output = (\<lambda>s match_length.
        if os_pos s < offset then Err (OffsetOutOfBounds, s)
        else
          obind (general_match_copy (os_output s) (os_pos s) offset match_length) (\<lambda>(out, pos).
          Ok (OutSink_new out pos))) in
      if len_exceeds_capacity (os_pos s) match_length (OutSink_capacity s) then
        Err (OutputTooSmall (expected_output_size (os_pos s) match_length) (OutSink_capacity s), s)
      else if use_dict \<and> os_pos s < offset then
        obind (copy_from_dict s ext_dict offset match_length) (\<lambda>(copied, s).
        if copied = match_length then Ok s
        else obind (usub match_length copied) (\<lambda>match_length. in_output s match_length))
      else in_output s match_length)"

datatype token_result = LastToken OutSink | NextToken nat OutSink

text \<open>One token of any kind, with checked reads.\<close>

definition general_token ::
  "bool \<Rightarrow> bytes \<Rightarrow> bytes \<Rightarrow> nat \<Rightarrow> OutSink \<Rightarrow> (DecompressError \<times> OutSink, token_result) outcome" where
  "general_token use_dict input ext_dict input_pos s =
     (if input_pos < length input then
        let token = input ! input_pos;
            input_pos = input_pos + TOKEN_LEN in
        obind (map_err (\<lambda>e. (e, s)) (read_literal_length input input_pos token (OutSink_capacity s)))
          (\<lambda>(literal_length, input_pos).
        obind (general_literals input input_pos s literal_length) (\<lambda>(input_pos, s).
        if length input \<le> input_pos then Ok (LastToken s)
        else
          obind (map_err (\<lambda>e. (e, s)) (read_offset input input_pos)) (\<lambda>(offset, input_pos).
          obind (map_err (\<lambda>e. (e, s)) (read_match_length input input_pos token (OutSink_capacity s)))
            (\<lambda>(match_length, input_pos).
          obind (general_match use_dict ext_dict s offset match_length) (\<lambda>s.
          Ok (NextToken input_pos s))))))
      else Err (ExpectedAnotherByte, s))"

section \<open>The decoder\<close>

fun decompress_tokens ::
  "nat \<Rightarrow> bool \<Rightarrow> bool \<Rightarrow> bytes \<Rightarrow> bytes \<Rightarrow> nat \<Rightarrow> nat \<Rightarrow> OutSink \<Rightarrow>
   (DecompressError \<times> OutSink, nat \<times> OutSink) outcome" where
  "decompress_tokens 0 use_dict fast input ext_dict initial input_pos s = Diverge"
| "decompress_tokens (Suc fuel) use_dict fast input ext_dict initial input_pos s =
     obind
       (if fast then
          fast_loop (Suc (length input)) use_dict input ext_dict input_pos (os_output s) (os_pos s)
        else Ok (LeaveAt input_pos (os_output s) (os_pos s)))
       (\<lambda>r. case r of
          ReturnAt out pos \<Rightarrow>
            obind (usub pos initial) (\<lambda>n. Ok (n, OutSink_new out pos))
        | LeaveAt input_pos out pos \<Rightarrow>
            obind (general_token use_dict input ext_dict input_pos (OutSink_new out pos)) (\<lambda>t.
            case t of
              LastToken s \<Rightarrow> obind (usub (os_pos s) initial) (\<lambda>n. Ok (n, s))
            | NextToken input_pos s \<Rightarrow>
                decompress_tokens fuel use_dict fast input ext_dict initial input_pos s))"

definition decompress_body ::
  "bool \<Rightarrow> bytes \<Rightarrow> OutSink \<Rightarrow> bytes \<Rightarrow> (DecompressError \<times> OutSink, nat \<times> OutSink) outcome" where
  "decompress_body use_dict input s ext_dict =
     (if os_pos s \<le> OutSink_capacity s then
        decompress_tokens (Suc (length input)) use_dict
          (length input \<le> u32_max \<and> OutSink_capacity s \<le> u32_max)
          input ext_dict (os_pos s) 0 s
      else Panic)"

text \<open>
  \<^verbatim>\<open>decompress_internal\<close> and \<^verbatim>\<open>decompress_loop\<close> pass the slice and position of the caller's sink
  and write the final position back, also on error.
\<close>

definition decompress_loop ::
  "bool \<Rightarrow> bytes \<Rightarrow> bytes \<Rightarrow> nat \<Rightarrow> bytes \<Rightarrow>
   (DecompressError \<times> bytes \<times> nat, nat \<times> bytes \<times> nat) outcome" where
  "decompress_loop use_dict input out pos ext_dict =
     obind (map_err (\<lambda>(e, s). (e, os_output s, os_pos s))
       (decompress_body use_dict input (OutSink_new out pos) ext_dict)) (\<lambda>(n, s).
     Ok (n, os_output s, os_pos s))"

definition decompress_internal ::
  "bool \<Rightarrow> bytes \<Rightarrow> OutSink \<Rightarrow> bytes \<Rightarrow> (DecompressError \<times> OutSink, nat \<times> OutSink) outcome" where
  "decompress_internal use_dict input s ext_dict =
     obind (map_err (\<lambda>(e, out, pos). (e, OutSink_new out pos))
       (decompress_loop use_dict input (os_output s) (os_pos s) ext_dict)) (\<lambda>(n, out, pos).
     Ok (n, OutSink_new out pos))"

definition decompress_into_sink_with_dict ::
  "bool \<Rightarrow> bytes \<Rightarrow> SliceSink \<Rightarrow> bytes \<Rightarrow>
   (DecompressError \<times> SliceSink, nat \<times> SliceSink) outcome" where
  "decompress_into_sink_with_dict use_dict input output ext_dict =
     (let back = (\<lambda>s. \<lparr>sink_output = os_output s, sink_pos = os_pos s\<rparr>) in
      obind (map_err (\<lambda>(e, s). (e, back s))
        (decompress_internal use_dict input (OutSink_new (sink_output output) (sink_pos output)) ext_dict))
        (\<lambda>(n, s). Ok (n, back s)))"

text \<open>
  The slice interface returns the count and the caller's buffer; on error the buffer is
  returned too, since the caller keeps it.
\<close>

definition decompress_slice ::
  "bool \<Rightarrow> bytes \<Rightarrow> bytes \<Rightarrow> bytes \<Rightarrow> (DecompressError \<times> bytes, nat \<times> bytes) outcome" where
  "decompress_slice use_dict input output dict =
     obind (map_err (\<lambda>(e, s). (e, os_output s))
       (decompress_internal use_dict input (OutSink_new output 0) dict)) (\<lambda>(n, s).
     Ok (n, os_output s))"

definition decompress_into :: "bytes \<Rightarrow> bytes \<Rightarrow> (DecompressError \<times> bytes, nat \<times> bytes) outcome" where
  "decompress_into input output = decompress_slice False input output []"

definition decompress_into_with_dict ::
  "bytes \<Rightarrow> bytes \<Rightarrow> bytes \<Rightarrow> (DecompressError \<times> bytes, nat \<times> bytes) outcome" where
  "decompress_into_with_dict input output dict = decompress_slice True input output dict"

text \<open>
  The vector interface: zero-filled new bytes, cut to the decoded length, or to nothing.  A vector
  that would have more than \<^verbatim>\<open>isize::MAX\<close> bytes is a panic of \<^verbatim>\<open>reserve_exact\<close>.
\<close>

definition decompress_append_internal ::
  "bool \<Rightarrow> bytes \<Rightarrow> bytes \<Rightarrow> nat \<Rightarrow> bytes \<Rightarrow> (DecompressError \<times> bytes, nat \<times> bytes) outcome" where
  "decompress_append_internal use_dict input output max_size ext_dict =
     (let start = length output; resized = output @ replicate max_size 0 in
      if isize_max < start + max_size then Panic
      else
      case decompress_slice use_dict input (drop start resized) ext_dict of
        Ok (n, tail) \<Rightarrow> Ok (n, take (start + n) (take start resized @ tail))
      | Err (e, tail) \<Rightarrow> Err (e, take (start + 0) (take start resized @ tail))
      | Panic \<Rightarrow> Panic
      | Diverge \<Rightarrow> Diverge)"

definition decompress_append ::
  "bytes \<Rightarrow> bytes \<Rightarrow> nat \<Rightarrow> (DecompressError \<times> bytes, nat \<times> bytes) outcome" where
  "decompress_append input output max_size = decompress_append_internal False input output max_size []"

definition decompress :: "bytes \<Rightarrow> nat \<Rightarrow> (DecompressError, bytes) outcome" where
  "decompress input uncompressed_size =
     obind (map_err fst (decompress_append input [] uncompressed_size)) (\<lambda>(n, decompressed).
     Ok decompressed)"

text \<open>The borrowing and the owning decompressor hold the dictionary bytes.\<close>

record DecompressorRef =
  dref_dict :: bytes

definition DecompressorRef_with_dict :: "bytes \<Rightarrow> DecompressorRef" where
  "DecompressorRef_with_dict dict = \<lparr>dref_dict = dict\<rparr>"

definition DecompressorRef_decompress_into ::
  "DecompressorRef \<Rightarrow> bytes \<Rightarrow> bytes \<Rightarrow> (DecompressError \<times> bytes, nat \<times> bytes) outcome" where
  "DecompressorRef_decompress_into self input output = decompress_slice True input output (dref_dict self)"

definition DecompressorRef_decompress_append ::
  "DecompressorRef \<Rightarrow> bytes \<Rightarrow> bytes \<Rightarrow> nat \<Rightarrow> (DecompressError \<times> bytes, nat \<times> bytes) outcome" where
  "DecompressorRef_decompress_append self input output max_size =
     decompress_append_internal True input output max_size (dref_dict self)"

definition DecompressorRef_decompress :: "DecompressorRef \<Rightarrow> bytes \<Rightarrow> nat \<Rightarrow> (DecompressError, bytes) outcome" where
  "DecompressorRef_decompress self input uncompressed_size =
     obind (map_err fst (DecompressorRef_decompress_append self input [] uncompressed_size))
       (\<lambda>(n, decompressed). Ok decompressed)"

record Decompressor =
  dec_dict :: bytes

definition Decompressor_new :: Decompressor where
  "Decompressor_new = \<lparr>dec_dict = []\<rparr>"

definition Decompressor_with_dict :: "bytes \<Rightarrow> Decompressor" where
  "Decompressor_with_dict dict = \<lparr>dec_dict = dict\<rparr>"

definition Decompressor_decompress :: "Decompressor \<Rightarrow> bytes \<Rightarrow> nat \<Rightarrow> (DecompressError, bytes) outcome" where
  "Decompressor_decompress self input uncompressed_size =
     DecompressorRef_decompress (DecompressorRef_with_dict (dec_dict self)) input uncompressed_size"

definition Decompressor_decompress_into ::
  "Decompressor \<Rightarrow> bytes \<Rightarrow> bytes \<Rightarrow> (DecompressError \<times> bytes, nat \<times> bytes) outcome" where
  "Decompressor_decompress_into self input output =
     DecompressorRef_decompress_into (DecompressorRef_with_dict (dec_dict self)) input output"

definition Decompressor_decompress_append ::
  "Decompressor \<Rightarrow> bytes \<Rightarrow> bytes \<Rightarrow> nat \<Rightarrow> (DecompressError \<times> bytes, nat \<times> bytes) outcome" where
  "Decompressor_decompress_append self input output max_size =
     DecompressorRef_decompress_append (DecompressorRef_with_dict (dec_dict self)) input output max_size"

end
