(* ===== verification/Decoder_Correct.thy ===== *)
theory Decoder_Correct
  imports Decoder Block_Format
begin

text \<open>
  The decoder refines the block format.  Every token, on the fast loop and on the general
  path, is one step of the reference decoder (\<open>spec_sequence\<close>), so the decoder never panics,
  always ends, and leaves in its buffer what \<open>decode_block\<close> says, errors included.
\<close>

unbundle bit_operations_syntax

section \<open>Readers\<close>

text \<open>A reader that works on positions does what the one on the remaining bytes does.\<close>

fun agrees :: "bytes \<Rightarrow> (DecompressError, nat \<times> nat) outcome \<Rightarrow> (DecompressError, nat \<times> bytes) outcome \<Rightarrow> bool" where
  "agrees input (Ok (v, q)) (Ok (v', rest)) \<longleftrightarrow> v = v' \<and> q \<le> length input \<and> rest = drop q input"
| "agrees input (Err e) (Err e') \<longleftrightarrow> e = e'"
| "agrees input _ _ \<longleftrightarrow> False"

lemma agrees_Ok: "agrees input r (Ok (v, rest)) \<longleftrightarrow> (\<exists>q. r = Ok (v, q) \<and> q \<le> length input \<and> rest = drop q input)"
  by (cases r) auto

lemma agrees_Err: "agrees input r (Err e) \<longleftrightarrow> r = Err e"
  by (cases r) auto

lemma read_integer_loop_agrees:
  "p \<le> length input \<Longrightarrow> agrees input (read_integer_loop input p limit n) (spec_varint limit n (drop p input))"
proof (induction "length input - p" arbitrary: p n)
  case 0
  then show ?case by (simp add: read_integer_loop.simps [of input p])
next
  case (Suc d)
  then have p: "p < length input" by simp
  have IH: "agrees input (read_integer_loop input (Suc p) limit n') (spec_varint limit n' (drop (Suc p) input))" for n'
    using Suc.hyps(1) [of "Suc p" n'] Suc.hyps(2) p by simp
  show ?case
    using p IH by (auto simp: read_integer_loop.simps [of input p] drop_nth_Cons Let_def split: option.splits)
qed

lemma read_literal_length_agrees:
  assumes "p \<le> length input"
  shows "agrees input (read_literal_length input p t limit) (spec_length limit 0 (lit_nibble t) (drop p input))"
proof -
  have "agrees input (read_integer_bounded input p limit) (spec_varint limit 0 (drop p input))"
    using read_integer_loop_agrees [OF assms] by (simp add: read_integer_bounded_def)
  then show ?thesis
    using assms
    by (cases "spec_varint limit 0 (drop p input)")
      (auto simp: read_literal_length_def spec_length_def Let_def lit_nibble_word agrees_Ok agrees_Err
        split: option.splits)
qed

lemma read_match_length_agrees:
  assumes "p \<le> length input"
  shows "agrees input (read_match_length input p t limit) (spec_length limit MINMATCH (match_nibble t) (drop p input))"
proof -
  have "agrees input (read_integer_bounded input p limit) (spec_varint limit 0 (drop p input))"
    using read_integer_loop_agrees [OF assms] by (simp add: read_integer_bounded_def)
  then show ?thesis
    using assms
    by (cases "spec_varint limit 0 (drop p input)")
      (auto simp: read_match_length_def spec_length_def Let_def match_nibble_word agrees_Ok agrees_Err
        split: option.splits)
qed

lemma le_nat_two: "le_nat [b0, b1] = offset_value b0 b1"
  by (simp add: offset_value_def)

lemma read_offset_cases:
  assumes "p < length input"
  shows "read_offset input p =
    (case drop p input of
       b0 # b1 # rest \<Rightarrow> if offset_value b0 b1 = 0 then Err OffsetZero else Ok (offset_value b0 b1, p + 2)
     | _ \<Rightarrow> Err ExpectedAnotherByte)"
proof (cases "Suc p < length input")
  case True
  then have "drop p input = input ! p # input ! Suc p # drop (Suc (Suc p)) input"
    by (simp add: drop_nth_Cons)
  with True show ?thesis by (simp add: read_offset_def offset_value_def numeral_2_eq_2)
next
  case False
  with assms have "drop p input = [input ! p]" by (simp add: drop_nth_Cons)
  with False show ?thesis by (simp add: read_offset_def)
qed

section \<open>Capacity tests on the two targets\<close>

text \<open>On a 32-bit target every capacity fits in 32 bits; the tests then mean the same.\<close>

lemma has_headroom_32_eq:
  "cap \<le> u32_max \<Longrightarrow> has_headroom_32 pos len slack cap = has_headroom pos len slack cap"
  by (auto simp: has_headroom_32_def has_headroom_def checked_add_32_def)

lemma len_exceeds_capacity_32_eq:
  "pos \<le> cap \<Longrightarrow> len_exceeds_capacity_32 pos len cap = len_exceeds_capacity pos len cap"
  by (auto simp: len_exceeds_capacity_32_def len_exceeds_capacity_def)

section \<open>The general path\<close>

text \<open>The sink holds output \<open>h\<close> in a buffer of \<open>cap\<close> bytes.\<close>

definition holds :: "OutSink \<Rightarrow> nat \<Rightarrow> bytes \<Rightarrow> bool" where
  "holds s cap h \<longleftrightarrow> length (os_output s) = cap \<and> os_pos s = length h \<and> length h \<le> cap \<and>
     take (length h) (os_output s) = h"

lemma holds_new:
  "holds (OutSink_new out pos) cap h \<longleftrightarrow>
   length out = cap \<and> pos = length h \<and> length h \<le> cap \<and> take (length h) out = h"
  by (simp add: holds_def OutSink_new_def)

lemma holds_capacity: "holds s cap h \<Longrightarrow> OutSink_capacity s = cap"
  by (simp add: holds_def OutSink_capacity_def)

lemma holds_pos: "holds s cap h \<Longrightarrow> os_pos s = length h"
  by (simp add: holds_def)

interpretation general_copier: match_copier general_match_copy
  "\<lambda>b d off n. 0 < off \<and> off \<le> d \<and> d + n \<le> length b" 32
proof (unfold_locales, goal_cases)
  case (2 b d off n)
  then have off: "0 < off" "off \<le> d" "d + n \<le> length b" by auto
  let ?R = "\<exists>b' m. general_match_copy b d off n = (Ok (b', d + n) :: ('a, bytes \<times> nat) outcome) \<and>
      extends_match b d off m b' \<and> n \<le> m \<and> m \<le> n + 32"
  consider (c32) "16 \<le> off" "d + n + 32 \<le> length b"
    | (c16) "16 \<le> off" "\<not> d + n + 32 \<le> length b" "d + n + 16 \<le> length b"
    | (c8) "8 \<le> off" "\<not> (16 \<le> off \<and> d + n + 16 \<le> length b)" "d + n + 8 \<le> length b"
    | (short) "2 \<le> off" "off < 8" "d + n + 8 \<le> length b"
    | (fill) "off = 1" "off < n"
    | (over) "2 \<le> off" "off < n" "\<not> d + n + 8 \<le> length b"
    | (non) "n \<le> off" "off = 1 \<or> \<not> d + n + 8 \<le> length b"
    using off by linarith
  then show ?R
  proof cases
    case c32
    then show ?thesis using mc32.copies [where b = b and d = d and off = off and n = n and ?'a = 'a] off
      by (simp add: general_match_copy_def has_headroom_def)
  next
    case c16
    then show ?thesis using mc16.copies [where b = b and d = d and off = off and n = n and ?'a = 'a] off
      by (fastforce simp: general_match_copy_def has_headroom_def)
  next
    case c8
    have "\<exists>b' m. wild_copy_match_8 b (d - off) d n = (Ok (b', d + n) :: ('a, bytes \<times> nat) outcome) \<and>
      extends_match b d off m b' \<and> n \<le> m \<and> m \<le> n + 8"
      using mc8.copies [where b = b and d = d and off = off and n = n and ?'a = 'a] off c8 by simp
    moreover have "general_match_copy b d off n = (wild_copy_match_8 b (d - off) d n :: ('a, bytes \<times> nat) outcome)"
      using c8 by (auto simp: general_match_copy_def has_headroom_def)
    ultimately show ?thesis by fastforce
  next
    case short
    then show ?thesis using mcshort.copies [where b = b and d = d and off = off and n = n and ?'a = 'a] off
      by (fastforce simp: general_match_copy_def has_headroom_def)
  next
    case fill
    then show ?thesis using extends_match_fill [of d n b] off
      by (auto simp: general_match_copy_def has_headroom_def slice_simps intro!: exI [of _ n])
  next
    case over
    then show ?thesis using mcover.copies [where b = b and d = d and off = off and n = n and ?'a = 'a] off
      by (fastforce simp: general_match_copy_def has_headroom_def)
  next
    case non
    then show ?thesis using mcnon.copies [where b = b and d = d and off = off and n = n and ?'a = 'a] off
      by (fastforce simp: general_match_copy_def has_headroom_def)
  qed
qed auto


lemma extend_from_slice_holds:
  assumes "holds s cap h" "length h + length data \<le> cap"
  shows "\<exists>s'. OutSink_extend_from_slice s data = (Ok s' :: ('e, OutSink) outcome) \<and> holds s' cap (h @ data)"
  using assms take_blit [of "length h" "os_output s" data]
  by (auto simp: OutSink_extend_from_slice_def holds_def slice_copy_eq slice_simps OutSink_new_def)

text \<open>A match inside the output.\<close>

lemma general_match_copy_holds:
  assumes "holds s cap h" "0 < off" "off \<le> length h" "length h + n \<le> cap"
  shows "\<exists>s'. obind (general_match_copy (os_output s) (os_pos s) off n)
             (\<lambda>(out, pos). Ok (OutSink_new out pos)) = (Ok s' :: ('e, OutSink) outcome) \<and>
           holds s' cap (apply_match dict h off n)"
proof -
  have s: "os_pos s = length h" "length (os_output s) = cap" "take (length h) (os_output s) = h"
    using assms by (auto simp: holds_def)
  obtain b' where "general_match_copy (os_output s) (length h) off n = (Ok (b', length h + n) :: ('e, bytes \<times> nat) outcome)"
    "length b' = cap" "take (length h + n) b' = match_expand h off n"
    using general_copier.copy_expands [where b = "os_output s" and d = "length h" and off = off and n = n and ?'a = 'e]
      assms s by auto
  with assms s show ?thesis
    by (simp add: holds_def OutSink_new_def apply_match_output)
qed

text \<open>A match that starts in the dictionary is a copy from it and a match of the result.\<close>

lemma apply_match_dict:
  assumes "length h < off" "off \<le> length dict + length h" "k = min m (off - length h)"
  shows "apply_match dict h off m =
    apply_match dict (h @ take k (drop (length dict + length h - off) dict)) off (m - k)"
proof -
  have "match_expand (dict @ h) off m = match_expand (match_expand (dict @ h) off k) off (m - k)"
    using assms(3) by (simp add: match_expand_add)
  also have "match_expand (dict @ h) off k = (dict @ h) @ take k (drop (length (dict @ h) - off) (dict @ h))"
    using assms by (intro match_expand_nonoverlap) auto
  also have "take k (drop (length (dict @ h) - off) (dict @ h)) =
      take k (drop (length dict + length h - off) dict)"
    using assms by simp
  finally show ?thesis by (simp add: apply_match_def)
qed

lemma copy_from_dict_holds:
  assumes "holds s cap h" "length h < off" "length h + m \<le> cap"
  shows "if length dict + length h < off then copy_from_dict s dict off m = Err (OffsetOutOfBounds, s)
    else \<exists>s'. copy_from_dict s dict off m = Ok (min m (off - length h), s') \<and>
      holds s' cap (h @ take (min m (off - length h)) (drop (length dict + length h - off) dict))"
proof (cases "length dict + length h < off")
  case True
  with assms show ?thesis by (auto simp: copy_from_dict_def holds_def Let_def)
next
  case False
  define k where "k = min m (off - length h)"
  define data where "data = take k (drop (length dict + length h - off) dict)"
  have ld: "length data = k" using False assms(2) by (simp add: data_def k_def)
  have "length h + length data \<le> cap" using ld assms(3) by (simp add: k_def)
  from extend_from_slice_holds [OF assms(1) this] obtain s' where
    s': "OutSink_extend_from_slice s data = (Ok s' :: (DecompressError \<times> OutSink, OutSink) outcome)"
    "holds s' cap (h @ data)" by blast
  have "sub_slice dict (length dict + length h - off) (length dict + length h - off + k) =
      (Ok data :: (DecompressError \<times> OutSink, bytes) outcome)"
    using False assms(2) by (simp add: sub_slice_ok data_def k_def)
  with False assms s' show ?thesis
    by (auto simp: copy_from_dict_def holds_pos Let_def k_def [symmetric] data_def [symmetric])
qed

lemma general_match_holds:
  assumes "holds s cap h" "0 < off" "dict = (if use_dict then ext_dict else [])"
  shows "if cap < length h + m then
      general_match use_dict ext_dict s off m = Err (OutputTooSmall (length h + m) cap, s)
    else if length dict + length h < off then
      general_match use_dict ext_dict s off m = Err (OffsetOutOfBounds, s)
    else \<exists>s'. general_match use_dict ext_dict s off m = Ok s' \<and> holds s' cap (apply_match dict h off m)"
proof -
  have s: "os_pos s = length h" "OutSink_capacity s = cap"
    using assms by (auto simp: holds_pos holds_capacity)
  consider (full) "cap < length h + m"
    | (inside) "length h + m \<le> cap" "off \<le> length h"
    | (far) "length h + m \<le> cap" "length dict + length h < off"
    | (dict) "length h + m \<le> cap" "length h < off" "off \<le> length dict + length h" "use_dict"
    using assms(3)
    by (cases "cap < length h + m"; cases "off \<le> length h"; cases "length dict + length h < off")
      (auto simp: not_less not_le split: if_splits)
  then show ?thesis
  proof cases
    case full
    then show ?thesis using s by (simp add: general_match_def len_exceeds_capacity_def expected_output_size_def)
  next
    case inside
    with general_match_copy_holds [OF assms(1,2), of m dict] s show ?thesis
      by (auto simp: general_match_def len_exceeds_capacity_def)
  next
    case far
    with copy_from_dict_holds [OF assms(1), of off m dict] s assms(3) show ?thesis
      by (auto simp: general_match_def len_exceeds_capacity_def)
  next
    case dict
    define k where "k = min m (off - length h)"
    define g where "g = h @ take k (drop (length dict + length h - off) dict)"
    obtain s1 where s1: "copy_from_dict s dict off m = Ok (k, s1)" "holds s1 cap g"
      using copy_from_dict_holds [OF assms(1), of off m dict] dict by (auto simp: k_def g_def)
    have am: "apply_match dict h off m = apply_match dict g off (m - k)"
      unfolding g_def using dict by (intro apply_match_dict) (auto simp: k_def)
    show ?thesis
    proof (cases "k = m")
      case True
      then have "apply_match dict h off m = g" using am by (simp add: apply_match_def)
      with True s s1 dict assms(3) show ?thesis
        by (auto simp: general_match_def len_exceeds_capacity_def)
    next
      case False
      then have lg: "length g = off" "k = off - length h" "k \<le> m"
        using dict by (auto simp: g_def k_def)
      then have "length g + (m - k) \<le> cap" using dict by simp
      then obtain s2 where "obind (general_match_copy (os_output s1) (os_pos s1) off (m - k))
            (\<lambda>(out, pos). Ok (OutSink_new out pos)) = (Ok s2 :: (DecompressError \<times> OutSink, OutSink) outcome)"
          "holds s2 cap (apply_match dict h off m)"
        unfolding am using general_match_copy_holds [OF s1(2) assms(2), of "m - k" dict, where ?'e = "DecompressError \<times> OutSink"] lg by auto
      with False s s1 dict assms(3) lg holds_pos [OF s1(2)] show ?thesis
        by (auto simp: general_match_def len_exceeds_capacity_def usub_ok)
    qed
  qed
qed


lemma general_literals_holds:
  assumes "holds s cap h" "p \<le> length input"
  shows "if length (drop p input) < l then general_literals input p s l = Err (LiteralOutOfBounds, s)
    else if cap < length h + l then
      general_literals input p s l = Err (OutputTooSmall (length h + l) cap, s)
    else \<exists>s'. general_literals input p s l = Ok (p + l, s') \<and> holds s' cap (h @ take l (drop p input))"
proof (cases "length input < p + l \<or> cap < length h + l \<or> l = 0")
  case True
  with assms show ?thesis
    by (auto simp: general_literals_def len_exceeds_capacity_def expected_output_size_def holds_def
        OutSink_capacity_def)
next
  case False
  have s: "os_pos s = length h" "length (os_output s) = cap" "take (length h) (os_output s) = h"
    "length h \<le> cap" using assms by (auto simp: holds_def)
  let ?copy = "if l \<le> WILD_LITERAL_MAX \<and> has_headroom p l LONG_CHUNK (length input) \<and>
      has_headroom (os_pos s) l LONG_CHUNK (length (os_output s))
    then wild_copy_literals input p (os_output s) (os_pos s) l
    else copy_from_src input p (os_output s) (os_pos s) l :: (DecompressError \<times> OutSink, bytes \<times> nat) outcome"
  have "\<exists>m. ?copy = Ok (blit (os_output s) (length h) (take m (drop p input)), length h + l) \<and>
      l \<le> m \<and> p + m \<le> length input \<and> length h + m \<le> cap"
  proof (cases "l \<le> WILD_LITERAL_MAX \<and> has_headroom p l LONG_CHUNK (length input) \<and>
      has_headroom (os_pos s) l LONG_CHUNK (length (os_output s))")
    case True
    then have fit: "p + l + 32 \<le> length input" "length h + l + 32 \<le> length (os_output s)"
      using s by (auto simp: has_headroom_def)
    from copy_literals_32_eq [OF fit] obtain m where
      "copy_literals_32 input p (os_output s) (length h) l =
        (Ok (blit (os_output s) (length h) (take m (drop p input))) :: (DecompressError \<times> OutSink, bytes) outcome)"
      "l \<le> m" "m \<le> l + 31" by blast
    with fit s show ?thesis unfolding if_P [OF True]
      by (intro exI [of _ m]) (simp add: wild_copy_literals_def)
  next
    case wild: False
    show ?thesis unfolding if_not_P [OF wild]
      using False s by (intro exI [of _ l]) (simp add: copy_from_src_eq)
  qed
  then obtain m where m: "?copy = Ok (blit (os_output s) (length h) (take m (drop p input)), length h + l)"
    "l \<le> m" "p + m \<le> length input" "length h + m \<le> cap" by blast
  have "general_literals input p s l =
      Ok (p + l, OutSink_new (blit (os_output s) (length h) (take m (drop p input))) (length h + l))"
    unfolding general_literals_def m(1) using False s
    by (simp add: len_exceeds_capacity_def OutSink_capacity_def)
  moreover have "take (length h + l) (blit (os_output s) (length h) (take m (drop p input))) =
      h @ take l (drop p input)"
    using take_blit_literals [OF m(2,3), of "length h" "os_output s"] s by simp
  moreover have "length (blit (os_output s) (length h) (take m (drop p input))) = cap"
    "length h + length (take l (drop p input)) = length h + l"
    using m s by simp_all
  ultimately have "holds (OutSink_new (blit (os_output s) (length h) (take m (drop p input))) (length h + l))
      cap (h @ take l (drop p input))"
    using False by (simp add: holds_def OutSink_new_def)
  then show ?thesis using False \<open>general_literals input p s l = _\<close> by auto
qed

text \<open>One token of the general path is one step of the reference decoder.\<close>

fun step_rel :: "bytes \<Rightarrow> nat \<Rightarrow> (DecompressError \<times> OutSink, token_result) outcome \<Rightarrow>
   (DecompressError \<times> bytes, spec_step) outcome \<Rightarrow> bool" where
  "step_rel input cap (Err (e, s)) (Err (e', h)) \<longleftrightarrow> e = e' \<and> holds s cap h"
| "step_rel input cap (Ok (LastToken s)) (Ok (Finished h)) \<longleftrightarrow> holds s cap h"
| "step_rel input cap (Ok (NextToken p s)) (Ok (More h rest)) \<longleftrightarrow>
     holds s cap h \<and> p \<le> length input \<and> rest = drop p input"
| "step_rel input cap _ _ \<longleftrightarrow> False"

lemma general_tail_step:
  assumes s: "holds s cap h" and q: "q < length input"
    and dict: "dict = (if use_dict then ext_dict else [])"
  shows "step_rel input cap
     (obind (map_err (\<lambda>e. (e, s)) (read_offset input q)) (\<lambda>(offset, p).
      obind (map_err (\<lambda>e. (e, s)) (read_match_length input p t cap)) (\<lambda>(m, p).
      obind (general_match use_dict ext_dict s offset m) (\<lambda>s. Ok (NextToken p s)))))
     (case drop q input of
        [] \<Rightarrow> Ok (Finished h)
      | [b0] \<Rightarrow> Err (ExpectedAnotherByte, h)
      | b0 # b1 # inp3 \<Rightarrow>
          if offset_value b0 b1 = 0 then Err (OffsetZero, h)
          else
            obind (map_err (\<lambda>e. (e, h)) (spec_length cap MINMATCH (match_nibble t) inp3)) (\<lambda>(m, inp4).
            if cap < length h + m then Err (OutputTooSmall (length h + m) cap, h)
            else if length dict + length h < offset_value b0 b1 then Err (OffsetOutOfBounds, h)
            else Ok (More (apply_match dict h (offset_value b0 b1) m) inp4)))"
proof (cases "Suc q < length input")
  case False
  with q have "drop q input = [input ! q]" by (simp add: drop_nth_Cons)
  with q s show ?thesis by (simp add: read_offset_cases)
next
  case True
  define off where "off = offset_value (input ! q) (input ! Suc q)"
  have d: "drop q input = input ! q # input ! Suc q # drop (Suc (Suc q)) input"
    using True by (simp add: drop_nth_Cons)
  have ro: "read_offset input q = (if off = 0 then Err OffsetZero else Ok (off, Suc (Suc q)))"
    using read_offset_cases [OF q] d by (simp add: off_def)
  have A: "agrees input (read_match_length input (Suc (Suc q)) t cap)
      (spec_length cap MINMATCH (match_nibble t) (drop (Suc (Suc q)) input))"
    using True by (intro read_match_length_agrees) simp
  show ?thesis
  proof (cases "spec_length cap MINMATCH (match_nibble t) (drop (Suc (Suc q)) input)")
    case (Ok r)
    then obtain m p where "spec_length cap MINMATCH (match_nibble t) (drop (Suc (Suc q)) input) = Ok (m, drop p input)"
      and "read_match_length input (Suc (Suc q)) t cap = Ok (m, p)" and "p \<le> length input"
      using A by (cases r) (auto simp: agrees_Ok)
    with s general_match_holds [OF s, of off dict use_dict ext_dict m] dict show ?thesis
      unfolding d ro by (auto simp: off_def [symmetric] split: if_splits)
  next
    case (Err e)
    with A s show ?thesis unfolding d ro by (simp add: off_def [symmetric] agrees_Err)
  qed (use spec_length_returns [of cap MINMATCH "match_nibble t" "drop (Suc (Suc q)) input"] in simp_all)
qed

lemma general_token_step:
  assumes s: "holds s cap h" and p: "p \<le> length input"
    and dict: "dict = (if use_dict then ext_dict else [])"
  shows "step_rel input cap (general_token use_dict input ext_dict p s)
           (spec_sequence dict cap h (drop p input))"
proof (cases "p = length input")
  case True
  with s show ?thesis by (simp add: general_token_def spec_sequence_def)
next
  case False
  with p have pl: "p < length input" by simp
  define t where "t = input ! p"
  have dp: "drop p input = t # drop (Suc p) input" using pl by (simp add: drop_nth_Cons t_def)
  have cap: "OutSink_capacity s = cap" using s by (rule holds_capacity)
  note L = read_literal_length_agrees [of "Suc p" input t cap]
  show ?thesis
  proof (cases "spec_length cap 0 (lit_nibble t) (drop (Suc p) input)")
    case (Err e)
    then have "read_literal_length input (Suc p) t cap = Err e" using L pl by (simp add: agrees_Err)
    with pl s cap Err show ?thesis
      by (simp add: general_token_def spec_sequence_def dp t_def [symmetric])
  next
    case (Ok r)
    then obtain l q where l: "spec_length cap 0 (lit_nibble t) (drop (Suc p) input) = Ok (l, drop q input)"
      and rl: "read_literal_length input (Suc p) t cap = Ok (l, q)" and q: "q \<le> length input"
      using L pl by (cases r) (auto simp: agrees_Ok)
    note G = general_literals_holds [OF s q, of l]
    show ?thesis
    proof (cases "length (drop q input) < l \<or> cap < length h + l")
      case True
      with G pl s cap l rl show ?thesis
        by (auto simp: general_token_def spec_sequence_def dp t_def [symmetric] split: if_splits)
    next
      case False
      with G obtain s1 where s1: "general_literals input q s l = Ok (q + l, s1)"
        "holds s1 cap (h @ take l (drop q input))" by auto
      have cap1: "OutSink_capacity s1 = cap" using s1(2) by (rule holds_capacity)
      show ?thesis
      proof (cases "q + l < length input")
        case True
        with general_tail_step [OF s1(2) True dict, of t] False pl cap cap1 l rl s1(1) show ?thesis
          by (simp add: general_token_def spec_sequence_def dp t_def [symmetric] Let_def add.commute)
      next
        case ended: False
        with False pl cap l rl s1 show ?thesis
          by (simp add: general_token_def spec_sequence_def dp t_def [symmetric])
      qed
    qed
  qed (use spec_length_returns [of cap 0 "lit_nibble t" "drop (Suc p) input"] in simp_all)
qed

section \<open>The fast loop\<close>

text \<open>
  An iteration that does not break is one step of the reference decoder; a break leaves
  everything to the general path.
\<close>

definition fast_ok :: "bytes \<Rightarrow> nat \<Rightarrow> bytes \<Rightarrow> bytes \<Rightarrow> nat \<Rightarrow> fast_result \<Rightarrow> bool" where
  "fast_ok dict cap h input p r \<longleftrightarrow>
     (case r of
        FastBreak \<Rightarrow> True
      | FastContinue p' out pos \<Rightarrow> \<exists>h'. holds (OutSink_new out pos) cap h' \<and> p' \<le> length input \<and>
          spec_sequence dict cap h (drop p input) = Ok (More h' (drop p' input))
      | FastReturn out pos \<Rightarrow> \<exists>h'. holds (OutSink_new out pos) cap h' \<and>
          spec_sequence dict cap h (drop p input) = Ok (Finished h'))"

lemma fast_ok_Break [simp]: "fast_ok dict cap h input p FastBreak"
  by (simp add: fast_ok_def)

lemma spec_MoreI:
  assumes "p < length input" "spec_length cap 0 (lit_nibble (input ! p)) (drop (Suc p) input) = Ok (l, drop q input)"
    "q + l + 2 \<le> length input" "off = le_nat (take 2 (drop (q + l) input))" "off \<noteq> 0"
    "off \<le> length dict + (length h + l)"
    "spec_length cap MINMATCH (match_nibble (input ! p)) (drop (q + l + 2) input) = Ok (m, drop r input)"
    "length h + l + m \<le> cap"
  shows "spec_sequence dict cap h (drop p input) =
    Ok (More (apply_match dict (h @ take l (drop q input)) off m) (drop r input))"
proof -
  have d: "drop l (drop q input) = input ! (q + l) # input ! Suc (q + l) # drop (q + l + 2) input"
  proof -
    have "drop (q + l) input = input ! (q + l) # input ! Suc (q + l) # drop (q + l + 2) input"
      using assms(3) by (simp add: drop_nth_Cons)
    then show ?thesis by (simp add: add.commute)
  qed
  then have off: "offset_value (input ! (q + l)) (input ! Suc (q + l)) = off"
    using assms(4) by (simp add: offset_value_def numeral_2_eq_2 add.commute)
  have p: "drop p input = input ! p # drop (Suc p) input" using assms(1) by (rule drop_nth_Cons)
  have fit: "l \<le> length (drop q input)" "length h + l \<le> cap" using assms(3,8) by simp_all
  show ?thesis
    unfolding spec_sequence_More_iff
    by (intro exI conjI, rule p, rule assms(2), rule fit, rule fit, rule d)
      (unfold off, rule assms(5), rule assms(7), rule assms(8), rule assms(6), rule refl)
qed

lemma spec_FinishedI:
  assumes "p < length input" "spec_length cap 0 (lit_nibble (input ! p)) (drop (Suc p) input) = Ok (l, drop q input)"
    "q + l = length input" "length h + l \<le> cap"
  shows "spec_sequence dict cap h (drop p input) = Ok (Finished (h @ drop q input))"
  unfolding spec_sequence_Finished_iff using assms
  by (intro exI [of _ "input ! p"] exI [of _ "drop (Suc p) input"] exI [of _ l] exI [of _ "drop q input"])
    (simp add: drop_nth_Cons)

lemma spec_length_short: "nib \<noteq> 15 \<Longrightarrow> spec_length cap base nib inp = Ok (base + nib, inp)"
  by (simp add: spec_length_def)

lemma spec_length_one_ext:
  assumes "q < length input" "input ! q \<noteq> 255" "base \<le> 4"
  shows "spec_length cap base 15 (drop q input) = Ok (base + 15 + unat (input ! q), drop (Suc q) input)"
proof -
  have "274 \<le> usize_max" by (simp add: const_defs)
  then have "unat (input ! q) + 19 \<le> usize_max" using unat_byte_le [of "input ! q"] by linarith
  with assms show ?thesis
    by (simp add: spec_length_def drop_nth_Cons checked_add_def)
qed

text \<open>The literals after the old output, then a match after them.\<close>

lemma holds_literals:
  assumes "length out = cap" "take (length h) out = h" "l \<le> m" "q + m \<le> length input" "length h + m \<le> cap"
  shows "length (blit out (length h) (take m (drop q input))) = cap \<and>
    take (length h + l) (blit out (length h) (take m (drop q input))) = h @ take l (drop q input)"
  using assms take_blit_literals [of l m q input "length h" out] by simp

lemma match18_holds:
  assumes "length out = cap" "take (length h) out = h" "8 \<le> off" "off \<le> length h" "n \<le> 18"
    "length h + 18 \<le> cap"
  shows "\<exists>out'. wild_match_copy_18 out (length h) off n = (Ok (out', length h + n) :: ('e, bytes \<times> nat) outcome) \<and>
    holds (OutSink_new out' (length h + n)) cap (apply_match dict h off n)"
  using mc18.copy_expands [where b = out and d = "length h" and off = off and n = n and ?'a = 'e] assms
  by (auto simp: holds_def OutSink_new_def apply_match_output)

lemma match_long_holds:
  assumes "length out = cap" "take (length h) out = h" "16 \<le> off" "off \<le> length h"
    "length h + n + 32 \<le> cap"
  shows "\<exists>out'. wild_copy_match_long out (length h) off n = (Ok out' :: ('e, bytes) outcome) \<and>
    holds (OutSink_new out' (length h + n)) cap (apply_match dict h off n)"
proof -
  obtain out' m where "wild_copy_match_long out (length h) off n = (Ok out' :: ('e, bytes) outcome)"
    and E: "extends_match out (length h) off m out'" "n \<le> m"
    using wild_copy_match_long_copies [of off "length h" n out, where ?'e = 'e] assms by auto
  moreover have "take (length h + n) out' = match_expand h off n"
    using extends_match_take [OF E] assms by simp
  ultimately show ?thesis
    using assms extends_match_length [OF E(1)]
    by (auto simp: holds_def OutSink_new_def apply_match_output)
qed

lemma fast_many_literals_ok:
  assumes "length out = cap" "take (length h) out = h" "length h \<le> cap" "cap \<le> u32_max"
    "p < length input" "lit_nibble (input ! p) = 15"
  shows "\<exists>r. fast_many_literals input out p (length h) = (Ok r :: ('e, fast_result) outcome) \<and>
    fast_ok dict cap h input p r"
proof -
  have A: "agrees input (read_integer_bounded input (Suc p) cap) (spec_varint cap 0 (drop (Suc p) input))"
    using read_integer_loop_agrees [of "Suc p" input cap 0] assms by (simp add: read_integer_bounded_def)
  show ?thesis
  proof (cases "spec_varint cap 0 (drop (Suc p) input)")
    case (Ok r)
    then obtain n q where n: "spec_varint cap 0 (drop (Suc p) input) = Ok (n, drop q input)"
      and rd: "read_integer_bounded input (Suc p) cap = Ok (n, q)" and q: "q \<le> length input"
      using A by (cases r) (auto simp: agrees_Ok)
    show ?thesis
    proof (cases "q + (15 + n) = length input \<and> length h + (15 + n) \<le> cap")
      case True
      have "15 + n \<le> usize_max" using True assms(4) by (simp add: const_defs)
      then have sl: "spec_length cap 0 (lit_nibble (input ! p)) (drop (Suc p) input) = Ok (15 + n, drop q input)"
        using n assms(6) by (simp add: spec_length_def checked_add_def)
      have "fast_many_literals input out p (length h) =
          (Ok (FastReturn (blit out (length h) (take (15 + n) (drop q input))) (length h + (15 + n)))
            :: ('e, fast_result) outcome)"
        using True rd assms by (simp add: fast_many_literals_def Let_def copy_from_src_eq)
      moreover have "holds (OutSink_new (blit out (length h) (take (15 + n) (drop q input))) (length h + (15 + n)))
          cap (h @ drop q input)"
      proof -
        have "length (drop q input) = 15 + n" using True unfolding length_drop by linarith
        with holds_literals [OF assms(1,2), of "15 + n" "15 + n" q input] True show ?thesis
          by (simp only: holds_new length_append take_all order_refl)
      qed
      ultimately show ?thesis
        using spec_FinishedI [OF assms(5) sl] True by (auto simp: fast_ok_def)
    next
      case False
      with rd assms show ?thesis by (auto simp: fast_many_literals_def Let_def)
    qed
  next
    case (Err e)
    with A assms show ?thesis by (simp add: fast_many_literals_def agrees_Err)
  qed (use spec_varint_returns [of cap 0 "drop (Suc p) input"] in simp_all)
qed


lemma take_drop_window: "k + n \<le> w \<Longrightarrow> take n (drop k (take w xs)) = take n (drop k xs)"
  by (rule take_drop_take)

lemma fast_long_literal_ok:
  assumes out: "length out = cap" "take (length h) out = h" "length h \<le> cap"
    and p: "p + 18 \<le> length input" "lit_nibble (input ! p) = 15" "input ! Suc p \<noteq> 255"
  shows "\<exists>r. fast_long_literal input out p (length h) (input ! p) (input ! Suc p) =
      (Ok r :: ('e, fast_result) outcome) \<and> fast_ok dict cap h input p r"
proof -
  define l where "l = 15 + unat (input ! Suc p)"
  define q where "q = Suc (Suc p)"
  define t where "t = input ! p"
  define off where "off = le_nat (take 2 (drop (q + l) input))"
  have pl: "p < length input" using p by simp
  have sl: "spec_length cap 0 (lit_nibble (input ! p)) (drop (Suc p) input) = Ok (l, drop q input)"
    using spec_length_one_ext [of "Suc p" input 0 cap] p by (simp add: l_def q_def)
  note unfold_it = fast_long_literal_def Let_def match_nibble_word l_def [symmetric] t_def [symmetric]
  consider (last) "q + l = length input" "length h + l \<le> cap"
    | (narrow) "\<not> (q + l = length input \<and> length h + l \<le> cap)"
        "length input < q + l + 32 \<or> cap < length h + l + 32"
    | (odd) "q + l + 32 \<le> length input" "length h + l + 32 \<le> cap"
        "match_nibble t = 15 \<or> off < 8 \<or> length h + l < off"
    | (go) "q + l + 32 \<le> length input" "length h + l + 32 \<le> cap"
        "match_nibble t \<noteq> 15" "8 \<le> off" "off \<le> length h + l"
    by linarith
  then show ?thesis
  proof cases
    case last
    then have eq: "fast_long_literal input out p (length h) t (input ! Suc p) =
        (Ok (FastReturn (blit out (length h) (take l (drop q input))) (length h + l)) :: ('e, fast_result) outcome)"
      using out by (simp add: unfold_it copy_from_src_eq q_def)
    have "length (drop q input) = l" using last unfolding length_drop by linarith
    then have "holds (OutSink_new (blit out (length h) (take l (drop q input))) (length h + l)) cap (h @ drop q input)"
      using holds_literals [OF out(1,2), of l l q input] last
      by (simp only: holds_new length_append take_all order_refl)
    with eq spec_FinishedI [OF pl sl last] show ?thesis by (auto simp: fast_ok_def t_def)
  next
    case narrow
    then have "fast_long_literal input out p (length h) t (input ! Suc p) = (Ok FastBreak :: ('e, fast_result) outcome)"
      using out by (auto simp: unfold_it q_def)
    then show ?thesis by (simp add: t_def)
  next
    case odd
    then have "fast_long_literal input out p (length h) t (input ! Suc p) = (Ok FastBreak :: ('e, fast_result) outcome)"
      using out by (auto simp: unfold_it q_def off_def chunk_def sub_slice_ok)
    then show ?thesis by (simp add: t_def)
  next
    case go
    obtain k where k: "copy_literals_32 input q out (length h) l =
        (Ok (blit out (length h) (take k (drop q input))) :: ('e, bytes) outcome)" "l \<le> k" "k \<le> l + 31"
      using copy_literals_32_eq [of q l input "length h" out, where ?'a = 'e] go out by auto
    define out1 where "out1 = blit out (length h) (take k (drop q input))"
    define h1 where "h1 = h @ take l (drop q input)"
    have lh1: "length h1 = length h + l" using go by (simp add: h1_def)
    have out1: "length out1 = cap" "take (length h1) out1 = h1"
      using holds_literals [OF out(1,2) k(2), of q input] k(3) go lh1 by (simp_all add: out1_def h1_def)
    have "match_nibble t < 15" using go match_nibble_le [of t] by linarith
    then obtain out2 where out2: "wild_match_copy_18 out1 (length h1) off (4 + match_nibble t) =
        (Ok (out2, length h1 + (4 + match_nibble t)) :: ('e, bytes \<times> nat) outcome)"
      "holds (OutSink_new out2 (length h1 + (4 + match_nibble t))) cap (apply_match dict h1 off (4 + match_nibble t))"
      using match18_holds [OF out1 go(4), of "4 + match_nibble t" dict, where ?'e = 'e] go lh1 by auto
    have "fast_long_literal input out p (length h) t (input ! Suc p) =
        (Ok (FastContinue (q + l + 2) out2 (length h1 + (4 + match_nibble t))) :: ('e, fast_result) outcome)"
      using go out k(1) out2(1) lh1
      by (simp add: unfold_it q_def [symmetric] off_def [symmetric] out1_def [symmetric] chunk_def sub_slice_ok)
    moreover have "spec_sequence dict cap h (drop p input) =
        Ok (More (apply_match dict h1 off (4 + match_nibble t)) (drop (q + l + 2) input))"
      unfolding h1_def
      by (rule spec_MoreI [OF pl sl]) (use go \<open>match_nibble t < 15\<close> in \<open>auto simp: off_def spec_length_short t_def\<close>)
    ultimately show ?thesis using out2(2) go by (auto simp: fast_ok_def t_def)
  qed
qed


text \<open>The 16 bytes after the token, stored in one piece.\<close>

lemma store_literals:
  assumes "length out = cap" "take (length h) out = h" "length h + 16 \<le> cap" "p + 18 \<le> length input" "l \<le> 14"
  defines "out1 \<equiv> blit out (length h) (take 16 (drop (Suc p) input))"
  shows "chunk WIDE_CHUNK (take 18 (drop p input)) TOKEN_LEN = Ok (take 16 (drop (Suc p) input))"
    and "store out (length h) (take 16 (drop (Suc p) input)) = Ok out1"
    and "length out1 = cap" "take (length (h @ take l (drop (Suc p) input))) out1 = h @ take l (drop (Suc p) input)"
proof -
  show "chunk WIDE_CHUNK (take 18 (drop p input)) TOKEN_LEN = Ok (take 16 (drop (Suc p) input))"
    using assms by (simp add: chunk_def sub_slice_ok take_drop_window)
  show "store out (length h) (take 16 (drop (Suc p) input)) = Ok out1"
    using assms by (simp add: store_def write_at_ok)
  show "length out1 = cap" "take (length (h @ take l (drop (Suc p) input))) out1 = h @ take l (drop (Suc p) input)"
    using holds_literals [OF assms(1,2), of l 16 "Suc p" input] assms by simp_all
qed

text \<open>A short match that lies wholly in the dictionary.\<close>

lemma apply_match_in_dict:
  assumes "length h < off" "off \<le> length dict + length h" "n \<le> off - length h"
  shows "apply_match dict h off n = h @ take n (drop (length dict + length h - off) dict)"
  using apply_match_dict [OF assms(1,2), of "min n (off - length h)" n] assms(3)
  by (simp add: min_absorb1 apply_match_def)

lemma fast_short_match_ok:
  assumes out: "length out = cap" "take (length h) out = h" "length h + l + 18 \<le> cap"
    and p: "p + 18 \<le> length input"
    and l: "l = lit_nibble (input ! p)" "l \<noteq> 15"
    and m: "m = match_nibble (input ! p)" "m \<noteq> 15"
    and off: "off = le_nat (take 2 (drop (Suc p + l) input))"
    and dict: "dict = (if use_dict then ext_dict else [])"
  shows "\<exists>r. fast_short_match use_dict ext_dict (take 18 (drop p input)) out p (length h) l off m =
      (Ok r :: ('e, fast_result) outcome) \<and> fast_ok dict cap h input p r"
proof -
  have lm: "l \<le> 14" "4 + m \<le> 18" using l m lit_nibble_le [of "input ! p"] match_nibble_le [of "input ! p"] by auto
  have pl: "p < length input" using p by simp
  define h1 where "h1 = h @ take l (drop (Suc p) input)"
  define out1 where "out1 = blit out (length h) (take 16 (drop (Suc p) input))"
  have lh1: "length h1 = length h + l" using p lm by (simp add: h1_def)
  have "length h + 16 \<le> cap" using out(3) by simp
  note st = store_literals [OF out(1,2) this p lm(1), folded out1_def h1_def]
  have sp: "spec_sequence dict cap h (drop p input) =
      Ok (More (apply_match dict h1 off (4 + m)) (drop (Suc p + l + 2) input))"
    if "off \<noteq> 0" "off \<le> length dict + (length h + l)"
    unfolding h1_def
    by (rule spec_MoreI [OF pl])
      (use that p lm l m off out(3) in \<open>auto simp: spec_length_short\<close>)
  consider (near) "8 \<le> off" "off \<le> length h1"
    | (dict) "\<not> (8 \<le> off \<and> off \<le> length h1)" "use_dict" "length h1 < off" "18 \<le> off - length h1"
        "off - length h1 \<le> length ext_dict"
    | (other) "\<not> (8 \<le> off \<and> off \<le> length h1)"
        "\<not> (use_dict \<and> length h1 < off \<and> 18 \<le> off - length h1 \<and> off - length h1 \<le> length ext_dict)"
    by blast
  then show ?thesis
  proof cases
    case near
    obtain out2 where out2: "wild_match_copy_18 out1 (length h1) off (4 + m) =
        (Ok (out2, length h1 + (4 + m)) :: ('e, bytes \<times> nat) outcome)"
      "holds (OutSink_new out2 (length h1 + (4 + m))) cap (apply_match dict h1 off (4 + m))"
      using match18_holds [OF st(3,4) near lm(2), of dict, where ?'e = 'e] lh1 out(3) by auto
    have "fast_short_match use_dict ext_dict (take 18 (drop p input)) out p (length h) l off m =
        (Ok (FastContinue (Suc p + l + 2) out2 (length h1 + (4 + m))) :: ('e, fast_result) outcome)"
      using near out2(1) lh1 by (simp add: fast_short_match_def Let_def st(1) [simplified] st(2))
    with out2(2) sp near lh1 p lm show ?thesis by (auto simp: fast_ok_def)
  next
    case dict
    define b where "b = length ext_dict + (length h + l) - off"
    define out2 where "out2 = blit out1 (length h1) (take 18 (drop b ext_dict))"
    have D: "dict = ext_dict" using \<open>dict = _\<close> dict by simp
    have ch: "chunk SHORT_MATCH_MAX ext_dict b = (Ok (take 18 (drop b ext_dict)) :: ('e, bytes) outcome)"
      using dict lh1 by (auto simp: chunk_def sub_slice_ok b_def)
    have sto: "store out1 (length h1) (take 18 (drop b ext_dict)) = (Ok out2 :: ('e, bytes) outcome)"
      using lh1 st(3) out(3) by (simp add: store_def write_at_ok out2_def)
    have am: "apply_match dict h1 off (4 + m) = h1 @ take (4 + m) (drop b ext_dict)"
      using apply_match_in_dict [of h1 off dict "4 + m"] dict lm D lh1 by (simp add: b_def)
    have "fast_short_match use_dict ext_dict (take 18 (drop p input)) out p (length h) l off m =
        (Ok (FastContinue (Suc p + l + 2) out2 (length h1 + (4 + m))) :: ('e, fast_result) outcome)"
      using dict lh1 ch sto
      by (simp add: fast_short_match_def Let_def st(1) [simplified] st(2) b_def [symmetric])
    moreover have "holds (OutSink_new out2 (length h1 + (4 + m))) cap (apply_match dict h1 off (4 + m))"
      using holds_literals [OF st(3,4), of "4 + m" 18 b ext_dict] dict lh1 out(3) lm
      unfolding am by (simp add: holds_new out2_def b_def)
    ultimately show ?thesis using sp dict lh1 p lm D by (auto simp: fast_ok_def)
  next
    case other
    then have "fast_short_match use_dict ext_dict (take 18 (drop p input)) out p (length h) l off m =
        (Ok FastBreak :: ('e, fast_result) outcome)"
      using lh1 by (auto simp: fast_short_match_def Let_def)
    then show ?thesis by simp
  qed
qed

lemma fast_long_match_ok:
  assumes out: "length out = cap" "take (length h) out = h" "length h + l + 18 \<le> cap"
    and p: "p + 18 \<le> length input"
    and l: "l = lit_nibble (input ! p)" "l \<noteq> 15"
    and m: "match_nibble (input ! p) = 15"
    and off: "off = le_nat (take 2 (drop (Suc p + l) input))"
  shows "\<exists>r. fast_long_match (take 18 (drop p input)) out p (length h) l off =
      (Ok r :: ('e, fast_result) outcome) \<and> fast_ok dict cap h input p r"
proof -
  have lm: "l \<le> 14" using l lit_nibble_le [of "input ! p"] by simp
  have pl: "p < length input" using p by simp
  define h1 where "h1 = h @ take l (drop (Suc p) input)"
  define out1 where "out1 = blit out (length h) (take 16 (drop (Suc p) input))"
  define x where "x = input ! (Suc p + l + 2)"
  define m where "m = 19 + unat x"
  have lh1: "length h1 = length h + l" using p lm by (simp add: h1_def)
  have "length h + 16 \<le> cap" using out(3) by simp
  note st = store_literals [OF out(1,2) this p lm(1), folded out1_def h1_def]
  have gx: "idx_get (take 18 (drop p input)) (Suc (Suc (Suc l))) = Ok x"
    using p lm by (simp add: idx_get_ok x_def)
  show ?thesis
  proof (cases "x = 255 \<or> off < 16 \<or> length h1 < off \<or> cap < length h1 + m + 32")
    case True
    then have "fast_long_match (take 18 (drop p input)) out p (length h) l off =
        (Ok FastBreak :: ('e, fast_result) outcome)"
      using lh1 out(1) by (auto simp: fast_long_match_def Let_def gx m_def)
    then show ?thesis by simp
  next
    case False
    then have F: "x \<noteq> 255" "16 \<le> off" "off \<le> length h1" "length h1 + m + 32 \<le> cap" by auto
    obtain out2 where out2: "wild_copy_match_long out1 (length h1) off m = (Ok out2 :: ('e, bytes) outcome)"
      "holds (OutSink_new out2 (length h1 + m)) cap (apply_match dict h1 off m)"
      using match_long_holds [OF st(3,4) F(2,3,4), of dict, where ?'e = 'e] by auto
    have "fast_long_match (take 18 (drop p input)) out p (length h) l off =
        (Ok (FastContinue (Suc p + l + 3) out2 (length h1 + m)) :: ('e, fast_result) outcome)"
      using F out2(1) lh1 out(1)
      by (simp add: fast_long_match_def Let_def gx st(1) [simplified] st(2) m_def)
    moreover have "spec_sequence dict cap h (drop p input) =
      Ok (More (apply_match dict h1 off m) (drop (Suc p + l + 3) input))"
      unfolding h1_def
    proof (rule spec_MoreI [OF pl])
      show "spec_length cap MINMATCH (match_nibble (input ! p)) (drop (Suc p + l + 2) input) =
          Ok (m, drop (Suc p + l + 3) input)"
        using spec_length_one_ext [of "Suc p + l + 2" input 4 cap] F(1) p lm \<open>match_nibble (input ! p) = 15\<close>
        by (simp add: x_def m_def numeral_3_eq_3)
    qed (use p lm l off F lh1 in \<open>auto simp: spec_length_short\<close>)
    ultimately show ?thesis using out2(2) p lm by (auto simp: fast_ok_def)
  qed
qed

lemma idx_id: "n \<le> u32_max \<Longrightarrow> idx n = n"
  by (simp add: idx_def const_defs)

lemma fast_iteration_ok:
  assumes s: "holds (OutSink_new out pos) cap h" and p: "p \<le> length input"
    and small: "length input \<le> u32_max" "cap \<le> u32_max"
    and dict: "dict = (if use_dict then ext_dict else [])"
  shows "\<exists>r. fast_iteration use_dict input ext_dict p out pos = (Ok r :: ('e, fast_result) outcome) \<and>
    fast_ok dict cap h input p r"
proof -
  have out: "length out = cap" "take (length h) out = h" "length h \<le> cap" "pos = length h"
    using s by (auto simp: holds_new)
  have ix: "idx p = p" "idx pos = length h" using p out small by (auto intro!: idx_id)
  show ?thesis
  proof (cases "length input < p + 18")
    case True
    then show ?thesis by (simp add: fast_iteration_def ix)
  next
    case False
    then have p18: "p + 18 \<le> length input" by simp
    have w: "chunk FAST_IN input p = Ok (take 18 (drop p input))"
      using p18 by (simp add: chunk_def sub_slice_ok)
    have t: "idx_get (take 18 (drop p input)) 0 = Ok (input ! p)"
      "idx_get (take 18 (drop p input)) (Suc 0) = Ok (input ! Suc p)"
      using p18 by (simp_all add: idx_get_ok)
    have c: "chunk OFFSET_LEN (take 18 (drop p input)) (Suc l) = Ok (take 2 (drop (Suc p + l) input))"
      if "l < 15" for l
      using that p18 by (simp add: chunk_def sub_slice_ok take_drop_window add.commute)
    note unfold_it = fast_iteration_def Let_def ix w [simplified] t lit_nibble_word match_nibble_word
    show ?thesis
    proof (cases "lit_nibble (input ! p) = 15")
      case True
      then show ?thesis
        using False fast_many_literals_ok [OF out(1,2,3) small(2), of p input dict, where ?'e = 'e]
          fast_long_literal_ok [OF out(1,2,3) p18 True, of dict, where ?'e = 'e]
        by (auto simp: unfold_it)
    next
      case short: False
      then have l15: "lit_nibble (input ! p) < 15" using lit_nibble_le [of "input ! p"] by linarith
      show ?thesis
      proof (cases "cap < length h + lit_nibble (input ! p) + 18")
        case True
        with short False out(1) show ?thesis by (simp add: unfold_it)
      next
        case fits: False
        then have fit: "length h + lit_nibble (input ! p) + 18 \<le> cap" by simp
        show ?thesis
          using False short fits out(1)
            fast_short_match_ok [OF out(1,2) fit p18 refl short refl _ refl dict, where ?'e = 'e]
            fast_long_match_ok [OF out(1,2) fit p18 refl short _ refl, of dict, where ?'e = 'e]
          by (auto simp: unfold_it c [OF l15, simplified])
      qed
    qed
  qed
qed


lemma decode_block_More:
  "spec_sequence dict cap h inp = Ok (More h' rest) \<Longrightarrow> decode_block dict cap h inp = decode_block dict cap h' rest"
  by (subst decode_block.simps) simp

lemma decode_block_Finished:
  "spec_sequence dict cap h inp = Ok (Finished h') \<Longrightarrow> decode_block dict cap h inp = Ok h'"
  by (subst decode_block.simps) simp

definition loop_ok :: "bytes \<Rightarrow> nat \<Rightarrow> bytes \<Rightarrow> bytes \<Rightarrow> nat \<Rightarrow> loop_exit \<Rightarrow> bool" where
  "loop_ok dict cap h input p x \<longleftrightarrow>
     (case x of
        LeaveAt p' out pos \<Rightarrow> \<exists>h'. holds (OutSink_new out pos) cap h' \<and> p \<le> p' \<and> p' \<le> length input \<and>
          length h \<le> length h' \<and>
          decode_block dict cap h (drop p input) = decode_block dict cap h' (drop p' input)
      | ReturnAt out pos \<Rightarrow> \<exists>h'. holds (OutSink_new out pos) cap h' \<and>
          decode_block dict cap h (drop p input) = Ok h')"

lemma loop_ok_step:
  assumes "spec_sequence dict cap h (drop p input) = Ok (More h' (drop p' input))"
    "p' \<le> length input" "loop_ok dict cap h' input p' x"
  shows "loop_ok dict cap h input p x"
  using assms(3) decode_block_More [OF assms(1)] spec_sequence_More_grows [OF assms(1)]
    spec_sequence_shorter [OF assms(1)] assms(2)
  by (auto simp: loop_ok_def split: loop_exit.splits)

lemma fast_loop_ok:
  assumes "holds (OutSink_new out pos) cap h" "p \<le> length input" "length input - p < fuel"
    and small: "length input \<le> u32_max" "cap \<le> u32_max"
    and dict: "dict = (if use_dict then ext_dict else [])"
  shows "\<exists>x. fast_loop fuel use_dict input ext_dict p out pos = (Ok x :: ('e, loop_exit) outcome) \<and>
    loop_ok dict cap h input p x"
  using assms(1-3)
proof (induction fuel arbitrary: p out pos h)
  case 0
  then show ?case by simp
next
  case (Suc fuel)
  obtain r where r: "fast_iteration use_dict input ext_dict p out pos = (Ok r :: ('e, fast_result) outcome)"
    and ok: "fast_ok dict cap h input p r"
    using fast_iteration_ok [OF Suc.prems(1,2) small dict] by blast
  show ?case
  proof (cases r)
    case FastBreak
    with r Suc.prems show ?thesis by (auto simp: loop_ok_def)
  next
    case (FastReturn out' pos')
    with r ok show ?thesis by (auto simp: fast_ok_def loop_ok_def dest: decode_block_Finished)
  next
    case (FastContinue p' out' pos')
    with ok obtain h' where h': "holds (OutSink_new out' pos') cap h'" "p' \<le> length input"
      and sp: "spec_sequence dict cap h (drop p input) = Ok (More h' (drop p' input))"
      by (auto simp: fast_ok_def)
    have "length input - p' < fuel"
      using spec_sequence_shorter [OF sp] Suc.prems h'(2) by simp
    from Suc.IH [OF h' this] loop_ok_step [OF sp h'(2)] FastContinue r show ?thesis by auto
  qed
qed

section \<open>The whole decoder\<close>

fun body_rel :: "nat \<Rightarrow> nat \<Rightarrow> (DecompressError \<times> OutSink, nat \<times> OutSink) outcome \<Rightarrow>
   (DecompressError \<times> bytes, bytes) outcome \<Rightarrow> bool" where
  "body_rel initial cap (Ok (n, s)) (Ok h) \<longleftrightarrow> holds s cap h \<and> n = length h - initial"
| "body_rel initial cap (Err (e, s)) (Err (e', h)) \<longleftrightarrow> e = e' \<and> holds s cap h"
| "body_rel initial cap _ _ \<longleftrightarrow> False"

lemma decode_block_length:
  "decode_block dict cap h inp = Ok h' \<Longrightarrow> length h \<le> cap \<Longrightarrow> length h \<le> length h'"
  using decode_block_sound lz4_block_longer by blast

lemma decompress_tokens_step:
  assumes s: "holds (OutSink_new out pos) cap h" and p: "p \<le> length input" "initial \<le> length h"
    and dict: "dict = (if use_dict then ext_dict else [])"
    and cont: "\<And>p' s' h'. holds s' cap h' \<Longrightarrow> p < p' \<Longrightarrow> p' \<le> length input \<Longrightarrow> initial \<le> length h' \<Longrightarrow>
       body_rel initial cap (k p' s') (decode_block dict cap h' (drop p' input))"
  shows "body_rel initial cap
     (obind (general_token use_dict input ext_dict p (OutSink_new out pos)) (\<lambda>t.
      case t of LastToken s \<Rightarrow> obind (usub (os_pos s) initial) (\<lambda>n. Ok (n, s)) | NextToken p s \<Rightarrow> k p s))
     (decode_block dict cap h (drop p input))"
proof -
  note S = general_token_step [OF s p(1) dict]
  show ?thesis
  proof (cases "spec_sequence dict cap h (drop p input)")
    case (Ok r)
    show ?thesis
    proof (cases r)
      case (Finished h')
      then have d: "decode_block dict cap h (drop p input) = Ok h'" using Ok decode_block_Finished by simp
      from S Ok Finished obtain s' where
        "general_token use_dict input ext_dict p (OutSink_new out pos) = Ok (LastToken s')" "holds s' cap h'"
        by (elim step_rel.elims) auto
      moreover have "initial \<le> length h'" using decode_block_length [OF d] s p(2) by (simp add: holds_new)
      ultimately show ?thesis using d by (simp add: usub_ok holds_pos)
    next
      case (More h' rest)
      then have sp: "spec_sequence dict cap h (drop p input) = Ok (More h' rest)" using Ok by simp
      with S obtain s' p' where
        g: "general_token use_dict input ext_dict p (OutSink_new out pos) = Ok (NextToken p' s')"
        "holds s' cap h'" "p' \<le> length input" "rest = drop p' input"
        by (elim step_rel.elims) auto
      have "p < p'" using spec_sequence_shorter [OF sp] g by simp
      moreover have "initial \<le> length h'" using spec_sequence_More_grows [OF sp] p(2) by simp
      ultimately show ?thesis using g cont decode_block_More [OF sp] by simp
    qed
  next
    case (Err e)
    then have "decode_block dict cap h (drop p input) = Err e" by (subst decode_block.simps) simp
    with S Err show ?thesis by (elim step_rel.elims) auto
  qed (use spec_sequence_returns [of dict cap h "drop p input"] in simp_all)
qed

lemma decompress_tokens_refines:
  assumes "holds s cap h" "p \<le> length input" "length input - p < fuel" "initial \<le> length h"
    and small: "fast \<Longrightarrow> length input \<le> u32_max \<and> cap \<le> u32_max"
    and dict: "dict = (if use_dict then ext_dict else [])"
  shows "body_rel initial cap (decompress_tokens fuel use_dict fast input ext_dict initial p s)
    (decode_block dict cap h (drop p input))"
  using assms(1-4)
proof (induction fuel arbitrary: p s h)
  case 0
  then show ?case by simp
next
  case (Suc fuel)
  have new: "OutSink_new (os_output s) (os_pos s) = s" by (simp add: OutSink_new_def)
  define front where "front = (if fast then
      fast_loop (Suc (length input)) use_dict input ext_dict p (os_output s) (os_pos s)
    else Ok (LeaveAt p (os_output s) (os_pos s)) :: (DecompressError \<times> OutSink, loop_exit) outcome)"
  obtain x where x: "front = Ok x" and ok: "loop_ok dict cap h input p x"
  proof (cases fast)
    case True
    have "length input - p < Suc (length input)" by simp
    then obtain x where "fast_loop (Suc (length input)) use_dict input ext_dict p (os_output s) (os_pos s) =
        (Ok x :: (DecompressError \<times> OutSink, loop_exit) outcome)" "loop_ok dict cap h input p x"
      using fast_loop_ok [of "os_output s" "os_pos s" cap h p input "Suc (length input)" dict use_dict ext_dict]
        Suc.prems small [OF True] dict unfolding new by blast
    with True that show ?thesis by (simp only: front_def if_True)
  next
    case False
    with Suc.prems that show ?thesis by (auto simp: front_def loop_ok_def new)
  qed
  show ?case
  proof (cases x)
    case (ReturnAt out pos)
    then obtain h' where h': "holds (OutSink_new out pos) cap h'"
      and d: "decode_block dict cap h (drop p input) = Ok h'" using ok by (auto simp: loop_ok_def)
    have "initial \<le> length h'" using decode_block_length [OF d] Suc.prems by (simp add: holds_def)
    with x ReturnAt h' d show ?thesis
      by (simp add: front_def [symmetric] usub_ok holds_new)
  next
    case (LeaveAt p' out pos)
    then obtain h' where h': "holds (OutSink_new out pos) cap h'" "p \<le> p'" "p' \<le> length input"
      "length h \<le> length h'"
      and d: "decode_block dict cap h (drop p input) = decode_block dict cap h' (drop p' input)"
      using ok by (auto simp: loop_ok_def)
    have "body_rel initial cap (decompress_tokens fuel use_dict fast input ext_dict initial p'' s'')
        (decode_block dict cap h'' (drop p'' input))"
      if "holds s'' cap h''" "p' < p''" "p'' \<le> length input" "initial \<le> length h''" for p'' s'' h''
      using that Suc.prems h' by (intro Suc.IH) auto
    with decompress_tokens_step [OF h'(1,3) _ dict, of initial
        "\<lambda>p s. decompress_tokens fuel use_dict fast input ext_dict initial p s"] Suc.prems h'(4)
    show ?thesis by (simp add: front_def [symmetric] x LeaveAt d)
  qed
qed

lemma decompress_body_refines:
  assumes "holds s cap h" "dict = (if use_dict then ext_dict else [])"
  shows "body_rel (length h) cap (decompress_body use_dict input s ext_dict) (decode_block dict cap h input)"
proof -
  have "length h \<le> cap" "os_pos s = length h" "OutSink_capacity s = cap"
    using assms(1) by (simp_all add: holds_capacity) (simp_all add: holds_def)
  then have eq: "decompress_body use_dict input s ext_dict = decompress_tokens (Suc (length input)) use_dict
      (length input \<le> u32_max \<and> cap \<le> u32_max) input ext_dict (length h) 0 s"
    by (simp add: decompress_body_def)
  show ?thesis
    unfolding eq using decompress_tokens_refines [OF assms(1), of 0 input "Suc (length input)" "length h"
      "length input \<le> u32_max \<and> cap \<le> u32_max" dict use_dict ext_dict] assms(2) by simp
qed

end
