(* ===== verification/Decoder_Interface.thy ===== *)
theory Decoder_Interface
  imports Decoder_Correct
begin

text \<open>
  What the callers of the decoder rely on: the functions of the interface, over slices,
  vectors and sinks, with and without a dictionary, do what the block format says.
\<close>

section \<open>Sinks and slices\<close>

lemma sink_holds:
  "sink_ok s \<Longrightarrow> holds (OutSink_new (sink_output s) (sink_pos s)) (SliceSink_capacity s) (sink_content s)"
  by (simp add: holds_new sink_ok_def sink_content_def SliceSink_capacity_def)

lemma decompress_internal_refines:
  assumes "holds s cap h" "dict = (if use_dict then ext_dict else [])"
  shows "body_rel (length h) cap (decompress_internal use_dict input s ext_dict) (decode_block dict cap h input)"
proof -
  have "OutSink_new (os_output s) (os_pos s) = s" for s by (simp add: OutSink_new_def)
  then have "decompress_internal use_dict input s ext_dict = decompress_body use_dict input s ext_dict"
    by (cases "decompress_body use_dict input s ext_dict")
      (auto simp: decompress_internal_def decompress_loop_def)
  with decompress_body_refines [OF assms] show ?thesis by simp
qed

lemma decompress_slice_refines:
  assumes "dict = (if use_dict then ext_dict else [])"
  shows "case decode_block dict (length output) [] input of
      Ok h \<Rightarrow> \<exists>tail. decompress_slice use_dict input output ext_dict = Ok (length h, h @ tail) \<and>
        length (h @ tail) = length output
    | Err (e, h) \<Rightarrow> \<exists>tail. decompress_slice use_dict input output ext_dict = Err (e, h @ tail) \<and>
        length (h @ tail) = length output
    | _ \<Rightarrow> False"
proof -
  have H: "\<exists>tail. os_output s = h @ tail \<and> length h + length tail = cap"
    if "holds s cap h" for s cap h
    using that append_take_drop_id [of "length h" "os_output s"]
    by (intro exI [of _ "drop (length h) (os_output s)"]) (simp add: holds_def)
  have "holds (OutSink_new output 0) (length output) []" by (simp add: holds_new)
  from decompress_internal_refines [OF this assms, of input] show ?thesis
    by (elim body_rel.elims) (auto simp: decompress_slice_def dest!: H)
qed

lemma decode_block_cases:
  obtains (Ok) h where "decode_block dict cap h0 input = Ok h"
    | (Err) e h where "decode_block dict cap h0 input = Err (e, h)"
  using decode_block_returns [of dict cap h0 input]
  by (cases "decode_block dict cap h0 input") auto

lemma decompress_append_internal_eq:
  assumes "dict = (if use_dict then ext_dict else [])"
  shows "decompress_append_internal use_dict input output max_size ext_dict =
    (if isize_max < length output + max_size then Panic
     else case decode_block dict max_size [] input of
       Ok h \<Rightarrow> Ok (length h, output @ h)
     | Err (e, h) \<Rightarrow> Err (e, output)
     | Panic \<Rightarrow> Panic
     | Diverge \<Rightarrow> Diverge)"
proof (cases rule: decode_block_cases [of dict max_size "[]" input])
  case (Ok h)
  then show ?thesis using decompress_slice_refines [OF assms, of input "replicate max_size 0"]
    by (auto simp: decompress_append_internal_def Let_def)
next
  case (Err e h)
  then show ?thesis using decompress_slice_refines [OF assms, of input "replicate max_size 0"]
    by (auto simp: decompress_append_internal_def Let_def)
qed

lemma decompress_eq:
  "decompress input n = (if isize_max < n then Panic else map_err fst (decode_block [] n [] input))"
  by (rule decode_block_cases [of "[]" n "[]" input])
    (auto simp: decompress_def decompress_append_def decompress_append_internal_eq)

section \<open>Properties\<close>

text \<open>
  C1: decoding into a slice with a dictionary gives what the reference decoder of the block
  format gives, the count, the decoded bytes at the start of the slice, or the same error
  with the bytes decoded before it; it never panics and always ends.
\<close>

theorem decompress_into_with_dict_refines_spec:
  "case decode_block dict (length output) [] input of
      Ok h \<Rightarrow> \<exists>tail. decompress_into_with_dict input output dict = Ok (length h, h @ tail) \<and>
        length (h @ tail) = length output
    | Err (e, h) \<Rightarrow> \<exists>tail. decompress_into_with_dict input output dict = Err (e, h @ tail) \<and>
        length (h @ tail) = length output
    | _ \<Rightarrow> False"
  unfolding decompress_into_with_dict_def by (rule decompress_slice_refines) simp

text \<open>
  C2: decoding into a slice with a dictionary accepts exactly the blocks of the grammar whose
  output fits, and leaves that output at the start of the slice.
\<close>

theorem decompress_into_with_dict_accepts:
  assumes "length output + 4 \<le> usize_max"
  shows "(\<exists>tail. decompress_into_with_dict input output dict = Ok (length h, h @ tail)) \<longleftrightarrow>
    lz4_block dict [] input h \<and> length h \<le> length output"
  (is "?A \<longleftrightarrow> ?B")
proof
  assume ?A
  moreover note decompress_slice_refines [of dict True dict input "output"]
  ultimately have "decode_block dict (length output) [] input = Ok h"
    by (cases rule: decode_block_cases [of dict "length output" "[]" input])
      (auto simp: decompress_into_with_dict_def)
  then show ?B using decode_block_sound by fastforce
next
  assume ?B
  with assms have "decode_block dict (length output) [] input = Ok h"
    by (intro decode_block_complete) auto
  then show ?A using decompress_slice_refines [of dict True dict input "output"]
    by (auto simp: decompress_into_with_dict_def)
qed

text \<open>A literal, a match that starts in the dictionary and continues in the output, no more literals.\<close>

lemma lz4_block_example: "lz4_block [98, 99] [] [17, 97, 3, 0, 0] [97, 98, 99, 97, 98, 99]"
proof -
  have "lz4_block [98, 99] [97, 98, 99, 97, 98, 99] (0 # [] @ []) ([97, 98, 99, 97, 98, 99] @ [])"
    by (rule lz4_block.last_literals) (simp add: len_code_def lit_nibble_def)
  moreover have "apply_match [98, 99] ([] @ [97]) 3 (MINMATCH + 1) = [97, 98, 99, 97, 98, 99]"
    by (simp add: apply_match_def match_expand.simps eval_nat_numeral)
  ultimately have "lz4_block [98, 99] [] (17 # [] @ [97] @ 3 # 0 # [] @ [0]) [97, 98, 99, 97, 98, 99]"
    by (intro lz4_block.sequence [where m = 1 and off = 3])
      (simp_all add: len_code_def lit_nibble_def match_nibble_def offset_value_def)
  then show ?thesis by simp
qed

theorem decompress_into_with_dict_accepts_witness:
  "\<exists>tail. decompress_into_with_dict [17, 97, 3, 0, 0] (replicate 8 0) [98, 99] =
     Ok (6, [97, 98, 99, 97, 98, 99] @ tail)"
proof -
  have "length (replicate 8 0 :: bytes) + 4 \<le> usize_max" by (simp add: const_defs)
  from decompress_into_with_dict_accepts [OF this, of "[17, 97, 3, 0, 0]" "[98, 99]" "[97, 98, 99, 97, 98, 99]"]
  show ?thesis using lz4_block_example by (simp add: eval_nat_numeral)
qed

text \<open>
  C20: a block of the grammar whose output does not fit is refused with \<open>OutputTooSmall\<close>, which
  reports the slice length and a size that is larger than it and at most the decoded size.
\<close>

theorem decompress_into_with_dict_too_small:
  assumes "lz4_block dict [] input h" "length output < length h" "length h + 4 \<le> usize_max"
  shows "\<exists>x out. decompress_into_with_dict input output dict = Err (OutputTooSmall x (length output), out) \<and>
    length output < x \<and> x \<le> length h"
  using decode_block_too_small [OF assms(1) _ assms(2,3)] decompress_slice_refines [of dict True dict input "output"]
  by (auto simp: decompress_into_with_dict_def)

theorem decompress_into_with_dict_too_small_witness:
  "\<exists>x out. decompress_into_with_dict [17, 97, 3, 0, 0] [0, 0, 0] [98, 99] = Err (OutputTooSmall x 3, out) \<and>
     3 < x \<and> x \<le> 6"
proof -
  have "length ([97, 98, 99, 97, 98, 99] :: bytes) + 4 \<le> usize_max" by (simp add: const_defs)
  from decompress_into_with_dict_too_small [OF lz4_block_example _ this, of "[0, 0, 0]"]
  show ?thesis by (simp add: eval_nat_numeral)
qed

text \<open>
  C18: the vector interface appends the decoded block to the output, and an error leaves the
  output as it was, with and without a dictionary; it panics exactly when a vector of the output
  and the size asked for would have more than \<^verbatim>\<open>isize::MAX\<close> bytes.
\<close>

theorem decompress_append_appends:
  "DecompressorRef_decompress_append self input output max_size =
     (if isize_max < length output + max_size then Panic
      else case decode_block (dref_dict self) max_size [] input of
        Ok h \<Rightarrow> Ok (length h, output @ h)
      | Err (e, h) \<Rightarrow> Err (e, output)
      | Panic \<Rightarrow> Panic
      | Diverge \<Rightarrow> Diverge) \<and>
   decompress_append input output max_size =
     (if isize_max < length output + max_size then Panic
      else case decode_block [] max_size [] input of
        Ok h \<Rightarrow> Ok (length h, output @ h)
      | Err (e, h) \<Rightarrow> Err (e, output)
      | Panic \<Rightarrow> Panic
      | Diverge \<Rightarrow> Diverge)"
  by (simp add: DecompressorRef_decompress_append_def decompress_append_def decompress_append_internal_eq)

text \<open>
  C19: the functions over slices neither panic nor run forever, on any input, any output buffer and
  any dictionary; those over vectors panic exactly when the size asked for does not fit in a
  vector, whatever the input, and else return as well.
\<close>

theorem decoder_returns:
  "returns (decompress_into input output) \<and>
   returns (decompress_into_with_dict input output dict) \<and>
   (if isize_max < length output + max_size
    then decompress_append input output max_size = Panic \<and> DecompressorRef_decompress_append self input output max_size = Panic
    else returns (decompress_append input output max_size) \<and>
      returns (DecompressorRef_decompress_append self input output max_size)) \<and>
   (if isize_max < max_size
    then decompress input max_size = Panic \<and> DecompressorRef_decompress self input max_size = Panic
    else returns (decompress input max_size) \<and> returns (DecompressorRef_decompress self input max_size))"
proof -
  have sl: "returns (decompress_slice use_dict input output d)" for use_dict d
    using decompress_slice_refines [OF refl, of use_dict input "output" d]
    by (cases rule: decode_block_cases [of "if use_dict then d else []" "length output" "[]" input]) auto
  have ap: "returns (decompress_append_internal use_dict input output max_size d)"
    if "\<not> isize_max < length output + max_size" for use_dict "output" d
    using that decode_block_returns [of "if use_dict then d else []" max_size "[]" input]
    by (cases "decode_block (if use_dict then d else []) max_size [] input")
      (auto simp: decompress_append_internal_eq [OF refl])
  have panics: "decompress_append_internal use_dict input output max_size d = Panic"
    if "isize_max < length output + max_size" for use_dict "output" d
    using that by (simp add: decompress_append_internal_def Let_def)
  show ?thesis
    by (auto simp: decompress_into_def decompress_into_with_dict_def decompress_append_def decompress_def
        DecompressorRef_decompress_append_def DecompressorRef_decompress_def sl ap panics intro!: returns_obind)
qed

text \<open>
  \<open>decompress\<close> returns exactly the output the grammar assigns to the block, as long as it
  has at most the given size.
\<close>

lemma decompress_exact:
  assumes "n \<le> isize_max"
  shows "decompress input n = Ok h \<longleftrightarrow> lz4_block [] [] input h \<and> length h \<le> n"
proof -
  have "n + 4 \<le> usize_max" using assms by (simp add: isize_max_def usize_max_def)
  from decode_block_complete [OF _ _ this, of "[]" "[]" input h] decode_block_sound [of "[]" n "[]" input h] assms
  show ?thesis by (auto simp: decompress_eq map_err_Ok_iff)
qed

lemma decompress_into_sink_refines:
  assumes "sink_ok s" "dict = (if use_dict then ext_dict else [])"
  shows "case decode_block dict (SliceSink_capacity s) (sink_content s) input of
      Ok h \<Rightarrow> \<exists>s'. decompress_into_sink_with_dict use_dict input s ext_dict = Ok (length h - sink_pos s, s') \<and>
        sink_content s' = h \<and> SliceSink_capacity s' = SliceSink_capacity s
    | Err (e, h) \<Rightarrow> \<exists>s'. decompress_into_sink_with_dict use_dict input s ext_dict = Err (e, s') \<and>
        sink_content s' = h \<and> SliceSink_capacity s' = SliceSink_capacity s
    | _ \<Rightarrow> False"
proof -
  have len: "length (sink_content s) = sink_pos s"
    using assms(1) by (simp add: sink_content_def sink_ok_def)
  have B: "sink_content \<lparr>sink_output = os_output t, sink_pos = os_pos t\<rparr> = h \<and>
      SliceSink_capacity \<lparr>sink_output = os_output t, sink_pos = os_pos t\<rparr> = cap"
    if "holds t cap h" for t cap h
    using that by (simp add: sink_content_def SliceSink_capacity_def holds_def)
  show ?thesis
    using decompress_internal_refines [OF sink_holds [OF assms(1)] assms(2), of input]
    by (cases rule: body_rel.elims(2), simp)
      (auto simp: decompress_into_sink_with_dict_def len dest!: B)
qed

text \<open>
  C21: decoding into a sink continues the bytes already in it.  They stay, matches may refer to
  them, and the sink's new content is the reference decoder's output, also when the block is
  refused.
\<close>

theorem decompress_into_sink_continues:
  assumes "sink_ok s"
  shows "case decode_block dict (SliceSink_capacity s) (sink_content s) input of
      Ok h \<Rightarrow> \<exists>s'. decompress_into_sink_with_dict True input s dict = Ok (length h - sink_pos s, s') \<and>
        sink_content s' = h \<and> SliceSink_capacity s' = SliceSink_capacity s
    | Err (e, h) \<Rightarrow> \<exists>s'. decompress_into_sink_with_dict True input s dict = Err (e, s') \<and>
        sink_content s' = h \<and> SliceSink_capacity s' = SliceSink_capacity s
    | _ \<Rightarrow> False"
  using decompress_into_sink_refines [OF assms, of dict True dict] by simp

theorem decompress_into_sink_continues_witness:
  "\<exists>s'. decompress_into_sink_with_dict True [0, 1, 0, 0] \<lparr>sink_output = [7, 0, 0, 0, 0, 0], sink_pos = 1\<rparr> [] =
     Ok (4, s') \<and> sink_content s' = [7, 7, 7, 7, 7]"
proof -
  have "apply_match [] [7] 1 4 = [7, 7, 7, 7, 7 :: byte]"
    by (simp add: apply_match_def match_expand.simps eval_nat_numeral)
  then have "spec_sequence [] 6 [7] [0, 1, 0, 0] = Ok (More [7, 7, 7, 7, 7] [0])"
    "spec_sequence [] 6 [7, 7, 7, 7, 7] [0] = Ok (Finished [7, 7, 7, 7, 7])"
    by (simp_all add: spec_sequence_def spec_length_def lit_nibble_def match_nibble_def
        offset_value_def)
  then have "decode_block [] 6 [7] [0, 1, 0, 0] = Ok [7, 7, 7, 7, 7]"
    by (rule trans [OF decode_block_More decode_block_Finished])
  moreover let ?s = "\<lparr>sink_output = [7, 0, 0, 0, 0, 0], sink_pos = 1\<rparr> :: SliceSink"
  have "sink_ok ?s" "SliceSink_capacity ?s = 6" "sink_content ?s = [7]"
    by (simp_all add: sink_ok_def SliceSink_capacity_def sink_content_def)
  ultimately show ?thesis
    using decompress_into_sink_continues [of ?s "[0, 1, 0, 0]" "[]"] by auto
qed

text \<open>
  C28: the match copy of the general path, whichever of its routines it chooses, writes the
  byte-by-byte expansion of the match, whatever the overlap, and changes at most 32 bytes
  after it.
\<close>

theorem general_match_copy_expands:
  assumes "0 < off" "off \<le> d" "d + n \<le> length b"
  shows "\<exists>b'. general_match_copy b d off n = (Ok (b', d + n) :: ('e, bytes \<times> nat) outcome) \<and>
    length b' = length b \<and> take (d + n) b' = match_expand (take d b) off n \<and>
    drop (d + n + 32) b' = drop (d + n + 32) b"
  using general_copier.copy_expands [where b = b and d = d and off = off and n = n and ?'a = 'e] assms by blast

theorem general_match_copy_expands_witness:
  "\<exists>b'. general_match_copy ([1, 2, 3] @ replicate 17 0) 3 3 5 = (Ok (b', 8) :: (DecompressError, bytes \<times> nat) outcome) \<and>
    take 8 b' = [1, 2, 3, 1, 2, 3, 1, 2]"
  using general_match_copy_expands [of 3 3 5 "[1, 2, 3] @ replicate 17 0", where ?'e = DecompressError]
  by (auto simp: match_expand.simps eval_nat_numeral)

end
