(* ===== verification/Encoder_Interface.thy ===== *)
theory Encoder_Interface
  imports Encoder_Dict Decoder_Interface
begin

text \<open>
  The one-shot functions of the encoder: filling a table from a dictionary, the choice of
  table, the buffers of the caller.  In an output of the maximum size they write a block that
  the decoder turns back into the input; in a smaller one they fail before they write.
\<close>

section \<open>Dictionaries\<close>

text \<open>What the decoder reads with the end of a dictionary it also reads with the whole of it.\<close>

lemma apply_match_longer_dict:
  "off \<le> length dict + length h \<Longrightarrow> 0 < off \<Longrightarrow> apply_match (pre @ dict) h off n = apply_match dict h off n"
  by (simp add: apply_match_def match_expand_append_hist)

lemma lz4_block_longer_dict: "lz4_block dict h blk h' \<Longrightarrow> lz4_block (pre @ dict) h blk h'"
proof (induction rule: lz4_block.induct)
  case (last_literals t e lits h)
  then show ?case by (rule lz4_block.last_literals)
next
  case (sequence t e lits off b0 b1 h e' m rest h')
  show ?case
    using sequence.hyps(2-4) sequence.IH
    by (intro lz4_block.sequence [OF sequence.hyps(1,2,3) _ sequence.hyps(5)])
      (simp_all add: apply_match_longer_dict)
qed

lemma ending_block_longer_dict: "ending_block n dict h blk h' \<Longrightarrow> ending_block n (pre @ dict) h blk h'"
proof (induction rule: ending_block.induct)
  case (ending_literals t e lits h)
  then show ?case by (rule ending_block.ending_literals)
next
  case (ending_sequence t e lits off b0 b1 h e' m rest h')
  show ?case
    using ending_sequence.hyps(2-4) ending_sequence.IH
    by (intro ending_block.ending_sequence [OF ending_sequence.hyps(1,2,3) _ ending_sequence.hyps(5-7)])
      (simp_all add: apply_match_longer_dict)
qed

text \<open>The part of a dictionary the encoder uses: nothing if it is too short, else its last window.\<close>

definition effective_dict :: "bool \<Rightarrow> bytes \<Rightarrow> bytes" where
  "effective_dict use_dict dict =
     (if use_dict \<and> MINMATCH \<le> length dict then drop (length dict - WINDOW_SIZE) dict else [])"

lemma effective_dict_window: "length (effective_dict use_dict dict) \<le> WINDOW_SIZE"
  by (auto simp: effective_dict_def)

lemma effective_dict_decodes:
  assumes "lz4_block (effective_dict use_dict dict) h blk h'"
  shows "lz4_block dict h blk h'"
proof (cases "use_dict \<and> MINMATCH \<le> length dict")
  case True
  with lz4_block_longer_dict [OF assms, of "take (length dict - WINDOW_SIZE) dict"] show ?thesis
    by (simp add: effective_dict_def)
next
  case False
  with lz4_block_longer_dict [OF assms, of dict] show ?thesis by (auto simp: effective_dict_def)
qed

lemma effective_dict_ends:
  "ending_block n (effective_dict use_dict dict) h blk h' \<Longrightarrow> ending_block n dict h blk h'"
  using ending_block_longer_dict [of n "effective_dict use_dict dict" h blk h' "take (length dict - WINDOW_SIZE) dict"]
    ending_block_longer_dict [of n "[]" h blk h' dict]
  by (cases "use_dict \<and> MINMATCH \<le> length dict") (auto simp: effective_dict_def)

lemma assert_stream_bounds_eq:
  "d \<le> so \<Longrightarrow> so + n + d < 2 ^ 63 \<Longrightarrow> assert_stream_bounds so n d = Ok ()"
  by (simp add: assert_stream_bounds_def checked_add_def usize_max_def isize_max_def)

lemma check_mode_fresh:
  assumes "use_dict \<or> d = []" "near \<longrightarrow> length d + length input \<le> MAX_DISTANCE + 1"
    "length d \<le> WINDOW_SIZE" "length input * 110 < 2 ^ 64"
  shows "check_mode \<lparr>USE_DICT = use_dict, HAS_OFFSET = use_dict, READONLY = False, NEAR = near\<rparr> input 0 d (length d) = Ok ()"
proof -
  have "length d + length input + length d < 2 ^ 63" using assms(3,4) by simp
  then show ?thesis
    using assms(1-3) by (cases use_dict) (simp_all add: check_mode_def assert_stream_bounds_eq)
qed

context hash_table
begin

lemma put_every_third_ok:
  "invar t \<Longrightarrow> below t n \<Longrightarrow> base + length input \<le> n \<Longrightarrow>
   \<exists>t'. put_every_third T t input base i = Ok t' \<and> invar t' \<and> below t' n"
proof (induction "length input - i" arbitrary: t i rule: less_induct)
  case less
  show ?case
  proof (cases "i + 8 \<le> length input")
    case False
    with less.prems show ?thesis by (simp add: put_every_third.simps [of T t input base i])
  next
    case True
    obtain t1 where t1: "put_at T t (hash T (bytes_at input i)) (i + base) = Ok t1" "invar t1" "below t1 n"
      using put_both [OF less.prems(1,2), of "i + base" n] True less.prems(3) by auto
    have "length input - (i + 3) < length input - i" using True by simp
    from less.hyps [OF this t1(2,3) less.prems(3)] show ?thesis
      using True t1(1) get_hash_at_ok [of i input]
      by (simp add: put_every_third.simps [of T t input base i])
  qed
qed

lemma init_dict_ok:
  assumes "invar t" "below t 1"
  shows "\<exists>t'. init_dict T t dict = Ok (t', drop (length dict - WINDOW_SIZE) dict) \<and> invar t' \<and>
    below t' (max 1 (length (drop (length dict - WINDOW_SIZE) dict)))"
proof -
  let ?d = "drop (length dict - WINDOW_SIZE) dict"
  have "below t (max 1 (length ?d))" using assms(2) below_mono by fastforce
  then have "\<exists>t'. put_every_third T t ?d 0 0 = Ok t' \<and> invar t' \<and> below t' (max 1 (length ?d))"
    by (intro put_every_third_ok [OF assms(1)]) simp_all
  moreover have "(if WINDOW_SIZE < length dict then drop (length dict - WINDOW_SIZE) dict else dict) = ?d"
    by simp
  ultimately show ?thesis by (auto simp only: init_dict_def Let_def obind.simps)
qed

text \<open>
  A fresh table filled from a dictionary, then the main loop; the arguments of the mode are
  those the callers use.
\<close>

lemma compress_with_fresh_table_ok:
  assumes t: "invar t" "below t 1"
    and d: "use_dict \<or> dict = []" "near \<longrightarrow> length dict + length input \<le> MAX_DISTANCE + 1"
    and s: "sink_ok s" "20 + length input * 110 div 100 \<le> SliceSink_capacity s - sink_pos s"
      "length input * 110 < 2 ^ 64"
  shows "\<exists>t' dict' n s' t''. init_dict T t dict = Ok (t', dict') \<and>
    dict' = drop (length dict - WINDOW_SIZE) dict \<and>
    compress_internal \<lparr>USE_DICT = use_dict, HAS_OFFSET = use_dict, READONLY = False, NEAR = near\<rparr> T input 0 s t' dict'
      (length dict') = Ok (n, s', t'') \<and> appends_block dict' 0 input s n s'"
proof -
  define d' where "d' = drop (length dict - WINDOW_SIZE) dict"
  define m where "m = \<lparr>USE_DICT = use_dict, HAS_OFFSET = use_dict, READONLY = False, NEAR = near\<rparr>"
  obtain t' where t': "init_dict T t dict = Ok (t', d')" "invar t'" "below t' (max 1 (length d' + 0))"
    using init_dict_ok [OF t, of dict] by (auto simp: d'_def)
  have len: "length d' \<le> WINDOW_SIZE" "length d' \<le> length dict" by (simp_all add: d'_def)
  have chk: "check_mode m input 0 d' (length d') = Ok ()"
    unfolding m_def using d len s(3) by (intro check_mode_fresh) (auto simp: d'_def)
  have "length d' + length input < 2 ^ 63" using len s(3) by simp
  with compress_internal_ok [OF chk s(1) _ s(3) _ t'(2)] s(2) t'(3)
  obtain n s' t'' where "compress_internal m T input 0 s t' d' (length d') = Ok (n, s', t'')"
    "appends_block d' 0 input s n s'" by auto
  with t'(1) show ?thesis unfolding m_def d'_def by blast
qed

lemma compress_with_fresh_table_too_small:
  assumes t: "invar t" "below t 1"
    and d: "use_dict \<or> dict = []" "near \<longrightarrow> length dict + length input \<le> MAX_DISTANCE + 1"
    and s: "sink_ok s" "SliceSink_capacity s - sink_pos s < 20 + length input * 110 div 100"
      "length input * 110 < 2 ^ 64"
  shows "\<exists>t' dict'. init_dict T t dict = Ok (t', dict') \<and>
    compress_internal \<lparr>USE_DICT = use_dict, HAS_OFFSET = use_dict, READONLY = False, NEAR = near\<rparr> T input 0 s t' dict'
      (length dict') = Err CompressOutputTooSmall"
proof -
  define d' where "d' = drop (length dict - WINDOW_SIZE) dict"
  obtain t' where t': "init_dict T t dict = Ok (t', d')"
    using init_dict_ok [OF t, of dict] by (auto simp: d'_def)
  have "check_mode \<lparr>USE_DICT = use_dict, HAS_OFFSET = use_dict, READONLY = False, NEAR = near\<rparr> input 0 d' (length d') = Ok ()"
    using d s(3) by (intro check_mode_fresh) (auto simp: d'_def)
  with t' compress_internal_too_small [OF _ s(1,3)] s(2) show ?thesis by fastforce
qed

end

section \<open>Compressing into a sink\<close>

lemma valid_default_entries: "valid_entries DEFAULT_DICT_ENTRIES" "valid_entries DEFAULT_NODICT_ENTRIES"
  by (simp_all add: valid_entries_def DEFAULT_DICT_ENTRIES_def DEFAULT_NODICT_ENTRIES_def MIN_ENTRIES_def
      ilog2.simps [of "numeral _"]
      ilog2.simps [of "Suc 0"])

lemma default_entries_pos: "0 < DEFAULT_DICT_ENTRIES" "0 < DEFAULT_NODICT_ENTRIES"
  by (simp_all add: DEFAULT_DICT_ENTRIES_def DEFAULT_NODICT_ENTRIES_def)

lemma entries_below_zeros: "entries_below (replicate n 0) 1"
  using entries_below_replicate by simp

lemma compress_sink_sized_ok:
  assumes d: "use_dict \<or> dict = []"
    and s: "sink_ok s" "20 + length input * 110 div 100 \<le> SliceSink_capacity s - sink_pos s"
      "length input * 110 < 2 ^ 64"
  shows "\<exists>n s'. compress_sink_sized use_dict input s dict = Ok (n, s') \<and>
    appends_block (drop (length dict - WINDOW_SIZE) dict) 0 input s n s'"
proof (cases "length dict + length input < u16_max")
  case True
  then have "True \<longrightarrow> length dict + length input \<le> MAX_DISTANCE + 1" by (simp add: u16_max_def)
  from u16.compress_with_fresh_table_ok [OF _ entries_below_zeros d this s, of DEFAULT_DICT_ENTRIES DEFAULT_DICT_ENTRIES]
  show ?thesis
    using True valid_default_entries default_entries_pos
    by (auto simp: compress_sink_sized_def HashTableU32U16_new_def)
next
  case False
  have "False \<longrightarrow> length dict + length input \<le> MAX_DISTANCE + 1" by simp
  from u32.compress_with_fresh_table_ok [OF _ entries_below_zeros d this s, of DEFAULT_NODICT_ENTRIES DEFAULT_NODICT_ENTRIES]
  show ?thesis
    using False valid_default_entries default_entries_pos
    by (auto simp: compress_sink_sized_def HashTableU32_new_def)
qed

lemma compress_sink_sized_too_small:
  assumes d: "use_dict \<or> dict = []"
    and s: "sink_ok s" "SliceSink_capacity s - sink_pos s < 20 + length input * 110 div 100"
      "length input * 110 < 2 ^ 64"
  shows "compress_sink_sized use_dict input s dict = Err CompressOutputTooSmall"
proof (cases "length dict + length input < u16_max")
  case True
  then have "True \<longrightarrow> length dict + length input \<le> MAX_DISTANCE + 1" by (simp add: u16_max_def)
  from u16.compress_with_fresh_table_too_small [OF _ entries_below_zeros d this s, of DEFAULT_DICT_ENTRIES DEFAULT_DICT_ENTRIES]
  show ?thesis
    using True valid_default_entries default_entries_pos
    by (auto simp: compress_sink_sized_def HashTableU32U16_new_def)
next
  case False
  have "False \<longrightarrow> length dict + length input \<le> MAX_DISTANCE + 1" by simp
  from u32.compress_with_fresh_table_too_small [OF _ entries_below_zeros d this s, of DEFAULT_NODICT_ENTRIES DEFAULT_NODICT_ENTRIES]
  show ?thesis
    using False valid_default_entries default_entries_pos
    by (auto simp: compress_sink_sized_def HashTableU32_new_def)
qed

lemma compress_into_sink_with_dict_ok:
  assumes "use_dict \<or> dict = []" "sink_ok s"
    "20 + length input * 110 div 100 \<le> SliceSink_capacity s - sink_pos s" "length input * 110 < 2 ^ 64"
  shows "\<exists>n s'. compress_into_sink_with_dict use_dict input s dict = Ok (n, s') \<and>
    appends_block (effective_dict use_dict dict) 0 input s n s'"
  using compress_sink_sized_ok [of False "[]", OF _ assms(2-4)] compress_sink_sized_ok [OF assms] assms(1)
  by (auto simp: compress_into_sink_with_dict_def effective_dict_def not_less)

lemma compress_into_sink_with_dict_too_small:
  assumes "use_dict \<or> dict = []" "sink_ok s"
    "SliceSink_capacity s - sink_pos s < 20 + length input * 110 div 100" "length input * 110 < 2 ^ 64"
  shows "compress_into_sink_with_dict use_dict input s dict = Err CompressOutputTooSmall"
  using compress_sink_sized_too_small [of False "[]", OF _ assms(2-4)] compress_sink_sized_too_small [OF assms]
  by (simp add: compress_into_sink_with_dict_def)

section \<open>Compressing into a slice\<close>

text \<open>A block of the input, within the bound of its size.\<close>

definition encodes :: "bytes \<Rightarrow> bytes \<Rightarrow> bytes \<Rightarrow> bool" where
  "encodes dict input blk \<longleftrightarrow>
     lz4_block dict [] blk input \<and> ending_block (length input) dict [] blk input \<and> 10 * length blk \<le> 11 * length input + 20"

lemma encodes_bound: "encodes dict input blk \<Longrightarrow> length blk \<le> 20 + length input * 110 div 100"
  unfolding encodes_def by linarith

lemma SliceSink_new_0: "SliceSink_new out 0 = Ok \<lparr>sink_output = out, sink_pos = 0\<rparr>"
  by (simp add: SliceSink_new_def sub_slice_def)

lemma fresh_sink:
  "sink_ok \<lparr>sink_output = out, sink_pos = 0\<rparr>" "sink_content \<lparr>sink_output = out, sink_pos = 0\<rparr> = []"
  "SliceSink_capacity \<lparr>sink_output = out, sink_pos = 0\<rparr> = length out"
  by (simp_all add: sink_ok_def sink_content_def SliceSink_capacity_def)

lemma appends_block_fresh:
  assumes "appends_block dict 0 input \<lparr>sink_output = out, sink_pos = 0\<rparr> n s'"
  shows "\<exists>blk tail. n = length blk \<and> sink_output s' = blk @ tail \<and> length (blk @ tail) = length out \<and>
    encodes dict input blk"
proof -
  obtain blk where blk: "sink_content s' = blk" "length blk = n" "lz4_block dict [] blk input" "ending_block (length input) dict [] blk input"
      "10 * n \<le> 11 * length input + 20"
    and s': "sink_ok s'" "SliceSink_capacity s' = length out"
    using assms ending_block_lz4 by (auto simp: appends_block_def fresh_sink)
  then have "sink_output s' = blk @ drop (sink_pos s') (sink_output s')"
    by (metis append_take_drop_id sink_content_def)
  with blk s' show ?thesis
    unfolding encodes_def SliceSink_capacity_def by metis
qed

text \<open>A block of an input decodes to it in every buffer that holds it.\<close>

lemma encodes_decodes:
  assumes "encodes (effective_dict use_dict dict) input blk" "length input \<le> length out"
    "length out + 4 \<le> usize_max"
  shows "\<exists>tail. decompress_into_with_dict blk out dict = Ok (length input, input @ tail)"
proof -
  have "lz4_block dict [] blk input" using assms(1) effective_dict_decodes by (auto simp: encodes_def)
  with assms(2,3) have "decode_block dict (length out) [] blk = Ok input"
    by (intro decode_block_complete) auto
  with decompress_slice_refines [of dict True dict blk out] show ?thesis
    by (auto simp: decompress_into_with_dict_def)
qed

lemma compress_slice_ok:
  assumes "use_dict \<or> dict = []" "20 + length input * 110 div 100 \<le> length out" "length input * 110 < 2 ^ 64"
  obtains blk tail s' where
    "compress_into_sink_with_dict use_dict input \<lparr>sink_output = out, sink_pos = 0\<rparr> dict = Ok (length blk, s')"
    "sink_output s' = blk @ tail" "length (blk @ tail) = length out" "encodes (effective_dict use_dict dict) input blk"
proof -
  obtain n s' where c: "compress_into_sink_with_dict use_dict input \<lparr>sink_output = out, sink_pos = 0\<rparr> dict = Ok (n, s')"
    "appends_block (effective_dict use_dict dict) 0 input \<lparr>sink_output = out, sink_pos = 0\<rparr> n s'"
    using compress_into_sink_with_dict_ok [OF assms(1) fresh_sink(1) _ assms(3), of out] assms(2)
    by (auto simp: fresh_sink)
  with appends_block_fresh [OF c(2)] that show thesis by blast
qed

lemma compress_into_with_dict_ok:
  assumes "20 + length input * 110 div 100 \<le> length out" "length input * 110 < 2 ^ 64"
  shows "\<exists>blk tail. compress_into_with_dict input out dict = Ok (length blk, blk @ tail) \<and>
    length (blk @ tail) = length out \<and> encodes (effective_dict True dict) input blk"
proof -
  obtain blk tail s' where
    "compress_into_sink_with_dict True input \<lparr>sink_output = out, sink_pos = 0\<rparr> dict = Ok (length blk, s')"
    "sink_output s' = blk @ tail" "length (blk @ tail) = length out" "encodes (effective_dict True dict) input blk"
    by (rule compress_slice_ok [OF _ assms, of True dict]) (simp, rule that)
  then show ?thesis
    by (intro exI [of _ blk] exI [of _ tail]) (simp add: compress_into_with_dict_def SliceSink_new_0)
qed

lemma compress_into_ok:
  assumes "20 + length input * 110 div 100 \<le> length out" "length input * 110 < 2 ^ 64"
  shows "\<exists>blk tail. compress_into input out = Ok (length blk, blk @ tail) \<and>
    length (blk @ tail) = length out \<and> encodes [] input blk"
proof -
  obtain blk tail s' where
    "compress_into_sink_with_dict False input \<lparr>sink_output = out, sink_pos = 0\<rparr> [] = Ok (length blk, s')"
    "sink_output s' = blk @ tail" "length (blk @ tail) = length out" "encodes (effective_dict False []) input blk"
    by (rule compress_slice_ok [OF _ assms, of False "[]"]) (simp, rule that)
  then show ?thesis
    by (intro exI [of _ blk] exI [of _ tail]) (simp add: compress_into_def SliceSink_new_0 effective_dict_def)
qed

lemma compress_ok:
  assumes "length input * 110 < 2 ^ 64"
  shows "\<exists>blk. compress input = (Ok blk :: ('e, bytes) outcome) \<and> encodes [] input blk"
proof -
  let ?out = "replicate (20 + length input * 110 div 100) 0 :: bytes"
  obtain blk tail s' where
    "compress_into_sink_with_dict False input \<lparr>sink_output = ?out, sink_pos = 0\<rparr> [] = Ok (length blk, s')"
    "sink_output s' = blk @ tail" "encodes (effective_dict False []) input blk"
    by (rule compress_slice_ok [OF _ _ assms, of False "[]" ?out]) (simp, simp, rule that)
  with get_maximum_output_size_eq [OF assms, where ?'a = 'e] show ?thesis
    by (simp add: compress_def SliceSink_new_0 effective_dict_def)
qed

text \<open>
  The bounds check of 32-bit targets accepts exactly the streams whose span fits an
  \<^verbatim>\<open>i32\<close>, for all sizes, also where the sums leave 32 bits, and never panics; what it
  accepts the assertion of 64-bit targets accepts.
\<close>

lemma stream_bounds_32_bit:
  "(ensure_stream_bounds so n d = Ok () \<longleftrightarrow> d \<le> so \<and> so + n + d < 2 ^ 31) \<and>
   (ensure_stream_bounds so n d \<noteq> Ok () \<longrightarrow> ensure_stream_bounds so n d = Err InputTooLarge) \<and>
   (ensure_stream_bounds so n d = Ok () \<longrightarrow> assert_stream_bounds so n d = (Ok () :: ('e, unit) outcome))"
  by (auto simp: ensure_stream_bounds_def assert_stream_bounds_def checked_add_def u32_max_def usize_max_def
      isize_max_def Let_def split: Option.bind_splits if_splits)

section \<open>Properties\<close>

text \<open>
  C3: compressing with a dictionary into a buffer of the maximum size succeeds, stays within the
  bound, and decoding the block with the same dictionary, into any buffer that holds the
  input, gives the input back, also where the encoder cut the dictionary or ignored it.
\<close>

theorem compress_into_with_dict_round_trip:
  assumes "20 + length input * 110 div 100 \<le> length out" "length input * 110 < 2 ^ 64"
    "length input \<le> length buf" "length buf + 4 \<le> usize_max"
  shows "\<exists>n out' tail. compress_into_with_dict input out dict = Ok (n, out') \<and>
    n \<le> 20 + length input * 110 div 100 \<and> length out' = length out \<and>
    decompress_into_with_dict (take n out') buf dict = Ok (length input, input @ tail)"
proof -
  obtain blk tl where c: "compress_into_with_dict input out dict = Ok (length blk, blk @ tl)"
    "length (blk @ tl) = length out" "encodes (effective_dict True dict) input blk"
    using compress_into_with_dict_ok [OF assms(1,2)] by blast
  obtain tail where "decompress_into_with_dict blk buf dict = Ok (length input, input @ tail)"
    using encodes_decodes [OF c(3) assms(3,4)] by blast
  with c encodes_bound [OF c(3)] show ?thesis by simp
qed

theorem compress_into_with_dict_round_trip_witness:
  "\<exists>n out' tail. compress_into_with_dict [104, 101, 108, 108, 111] (replicate 25 0) [1, 2, 3, 4] = Ok (n, out') \<and>
     n \<le> 25 \<and> length out' = 25 \<and>
     decompress_into_with_dict (take n out') (replicate 5 0) [1, 2, 3, 4] = Ok (5, [104, 101, 108, 108, 111] @ tail)"
proof -
  have l: "length ([104, 101, 108, 108, 111] :: bytes) = 5" by simp
  show ?thesis
    using compress_into_with_dict_round_trip
      [of "[104, 101, 108, 108, 111]" "replicate 25 0" "replicate 5 0" "[1, 2, 3, 4]", unfolded l]
    by (simp add: const_defs)
qed

text \<open>
  C6: \<open>compress\<close> never fails, and \<open>decompress\<close> with the length of the input gives the input
  back.
\<close>

theorem compress_round_trip:
  assumes "length input * 110 < 2 ^ 64"
  shows "\<exists>blk. compress input = (Ok blk :: ('e, bytes) outcome) \<and>
    length blk \<le> 20 + length input * 110 div 100 \<and> decompress blk (length input) = Ok input"
proof -
  obtain blk where c: "compress input = (Ok blk :: ('e, bytes) outcome)" "encodes [] input blk"
    using compress_ok [OF assms] by blast
  have "length input + 4 \<le> usize_max" using assms by (simp add: usize_max_def)
  with c(2) have "decode_block [] (length input) [] blk = Ok input"
    by (intro decode_block_complete) (auto simp: encodes_def)
  with assms c encodes_bound [OF c(2)] show ?thesis by (simp add: decompress_eq isize_max_def)
qed

theorem compress_round_trip_witness:
  "\<exists>blk. compress [104, 101, 108, 108, 111] = (Ok blk :: (CompressError, bytes) outcome) \<and>
     length blk \<le> 25 \<and> decompress blk 5 = Ok [104, 101, 108, 108, 111]"
proof -
  have l: "length ([104, 101, 108, 108, 111] :: bytes) = 5" by simp
  show ?thesis
    using compress_round_trip [of "[104, 101, 108, 108, 111]", where ?'e = CompressError, unfolded l] by simp
qed

text \<open>
  C7: every block the encoder writes, with or without a dictionary, is well-formed under the end
  rules of the format, which other decoders rely on: each match starts at least 12 bytes before
  the end of the output and ends at least 5 bytes before it, so the last 5 bytes are literals.
\<close>

theorem compress_into_with_dict_end_rules:
  assumes "20 + length input * 110 div 100 \<le> length out" "length input * 110 < 2 ^ 64"
  shows "\<exists>blk tail. compress_into_with_dict input out dict = Ok (length blk, blk @ tail) \<and>
    ending_block (length input) dict [] blk input"
  using compress_into_with_dict_ok [OF assms] effective_dict_ends by (fastforce simp: encodes_def)

theorem compress_into_with_dict_end_rules_witness:
  "\<exists>blk tail. compress_into_with_dict [104, 101, 108, 108, 111] (replicate 25 0) [1, 2, 3, 4] = Ok (length blk, blk @ tail) \<and>
     ending_block 5 [1, 2, 3, 4] [] blk [104, 101, 108, 108, 111]"
proof -
  have l: "length ([104, 101, 108, 108, 111] :: bytes) = 5" by simp
  show ?thesis
    using compress_into_with_dict_end_rules [of "[104, 101, 108, 108, 111]" "replicate 25 0" "[1, 2, 3, 4]", unfolded l]
    by simp
qed

text \<open>
  C23: compressing into a slice fails exactly when the slice is shorter than the maximum output
  size; it does not panic and always ends.
\<close>

theorem compress_into_too_small:
  assumes "length input * 110 < 2 ^ 64"
  shows "(compress_into input out = Err CompressOutputTooSmall \<longleftrightarrow> length out < 20 + length input * 110 div 100) \<and>
    (compress_into_with_dict input out dict = Err CompressOutputTooSmall \<longleftrightarrow>
      length out < 20 + length input * 110 div 100) \<and>
    returns (compress_into input out) \<and> returns (compress_into_with_dict input out dict)"
proof -
  let ?s = "\<lparr>sink_output = out, sink_pos = 0\<rparr>"
  have small: "compress_into input out = Err CompressOutputTooSmall"
    "compress_into_with_dict input out dict = Err CompressOutputTooSmall"
    if "length out < 20 + length input * 110 div 100"
    using that assms compress_into_sink_with_dict_too_small [of False "[]" ?s input]
      compress_into_sink_with_dict_too_small [of True dict ?s input]
    by (simp_all add: compress_into_def compress_into_with_dict_def SliceSink_new_0 fresh_sink)
  have fits: "\<exists>r. compress_into input out = Ok r" "\<exists>r. compress_into_with_dict input out dict = Ok r"
    if "\<not> length out < 20 + length input * 110 div 100"
    using compress_into_ok [OF _ assms, of out] compress_into_with_dict_ok [OF _ assms, of out dict] that
    by auto
  show ?thesis
  proof (cases "length out < 20 + length input * 110 div 100")
    case True
    with small show ?thesis by simp
  next
    case False
    with fits show ?thesis by auto
  qed
qed

theorem compress_into_too_small_witness:
  "compress_into [1, 2] [0, 0, 0] = Err CompressOutputTooSmall"
  using compress_into_too_small [of "[1, 2]" "[0, 0, 0]"] by simp

text \<open>A block that decodes has a size in proportion to its output, and the other way round.\<close>

lemma decoded_size:
  assumes "decompress_into_with_dict input out dict = Ok (n, out')"
  shows "255 * length input \<le> 256 * n + 510 \<and> n \<le> 255 * length input"
proof -
  obtain h where "decode_block dict (length out) [] input = Ok h" "n = length h"
    using assms decompress_slice_refines [of dict True dict input out]
    by (cases rule: decode_block_cases [of dict "length out" "[]" input]) (auto simp: decompress_into_with_dict_def)
  with decode_block_sound [of dict "length out" "[]" input h] lz4_block_size [of dict "[]" input h] show ?thesis by simp
qed

text \<open>
  C27: a block of \<open>n\<close> bytes of output has at most \<open>n + n div 255 + 2\<close> bytes, well below the bound of
  \<^verbatim>\<open>get_maximum_output_size\<close>, and at least a 255th of \<open>n\<close>: this holds for the blocks that
  compress makes, and for every block that the decoder accepts.
\<close>

theorem block_size_bounds:
  assumes "length input * 110 < 2 ^ 64"
  shows "(\<exists>blk. compress input = (Ok blk :: ('e, bytes) outcome) \<and>
      length blk \<le> length input + length input div 255 + 2 \<and> length input \<le> 255 * length blk) \<and>
    (decompress_into_with_dict block out dict = Ok (n, out') \<longrightarrow>
      length block \<le> n + n div 255 + 2 \<and> n \<le> 255 * length block)"
proof -
  obtain blk where blk: "compress input = (Ok blk :: ('e, bytes) outcome)" "encodes [] input blk"
    using compress_ok [OF assms] by blast
  then have "lz4_block [] [] blk input" by (simp add: encodes_def)
  from lz4_block_size [OF this] blk(1) show ?thesis using decoded_size [of block out dict n out'] by auto
qed

theorem block_size_bounds_witness:
  "\<exists>blk tail. compress [104, 101, 108, 108, 111] = (Ok blk :: (CompressError, bytes) outcome) \<and>
     decompress_into_with_dict blk [0, 0, 0, 0, 0] [] = Ok (5, [104, 101, 108, 108, 111] @ tail) \<and> 1 \<le> length blk \<and> length blk \<le> 7"
proof -
  let ?i = "[104, 101, 108, 108, 111] :: bytes" and ?o = "[0, 0, 0, 0, 0] :: bytes"
  obtain blk where blk: "compress ?i = (Ok blk :: (CompressError, bytes) outcome)" "encodes [] ?i blk"
    using compress_ok [of ?i] by auto
  then have "encodes (effective_dict True []) ?i blk" by (simp add: effective_dict_def)
  from encodes_decodes [OF this, of ?o] obtain tail where
    d: "decompress_into_with_dict blk ?o [] = Ok (5, ?i @ tail)" by (auto simp: usize_max_def)
  from block_size_bounds [of ?i blk ?o "[]" 5 "?i @ tail"] blk(1) d show ?thesis by auto
qed

end
