(* ===== verification/Frame_Format.thy ===== *)
theory Frame_Format
  imports Frame_Header_Correct Encoder_Interface
begin

text \<open>
  The frame format as an abstract specification, which mentions neither buffers nor positions.
  \<open>frame_block\<close> relates the bytes of one block to the content it stands for, after the content
  before it; \<open>frame_blocks\<close> a sequence of blocks; \<open>frame\<close> a whole frame with its header, end mark
  and checksums; \<open>frame_stream\<close> a concatenation of frames.

  A block reaches back into a history: the dictionary, followed in a linked frame by the content
  before the block.  The encoder and the decoder keep only a window of it.  The lemmas on
  windows show that this is enough, because an offset has 16 bits.
\<close>

section \<open>Windows\<close>

lemma offset_value_le: "offset_value b0 b1 \<le> MAX_DISTANCE"
proof -
  have "unat b0 + 256 * unat b1 \<le> 65535" using unat_byte_le [of b0] unat_byte_le [of b1] by linarith
  then show ?thesis by (simp add: offset_value_def)
qed

lemma apply_match_shift: "apply_match d (p @ h) off n = p @ apply_match (d @ p) h off n"
proof -
  have e: "match_expand (d @ p @ h) off n = (d @ p @ h) @ drop (length (d @ p @ h)) (match_expand (d @ p @ h) off n)"
    by (rule match_expand_eq_append)
  show ?thesis
    unfolding apply_match_def append.assoc by (subst (1 2) e) simp
qed

lemma lz4_block_unshift: "lz4_block (d @ p) h blk h' \<Longrightarrow> lz4_block d (p @ h) blk (p @ h')"
proof (induction rule: lz4_block.induct)
  case (last_literals t e lits h)
  then show ?case using lz4_block.last_literals [of t e lits d "p @ h"] by simp
next
  case (sequence t e lits off b0 b1 h e' m rest h')
  have eq: "apply_match d ((p @ h) @ lits) off (MINMATCH + m) = p @ apply_match (d @ p) (h @ lits) off (MINMATCH + m)"
    unfolding append.assoc by (rule apply_match_shift)
  have off: "off \<le> length d + length ((p @ h) @ lits)" using sequence.hyps(4) by simp
  show ?case
    using sequence.IH by (intro lz4_block.sequence [OF sequence.hyps(1-3) off sequence.hyps(5)]) (simp only: eq)
qed

lemma lz4_block_shift: "lz4_block d g blk g' \<Longrightarrow> g = p @ h \<Longrightarrow> \<exists>h'. g' = p @ h' \<and> lz4_block (d @ p) h blk h'"
proof (induction arbitrary: h rule: lz4_block.induct)
  case (last_literals t e lits g)
  then show ?case using lz4_block.last_literals [OF last_literals.hyps, of "d @ p" h] by auto
next
  case (sequence t e lits off b0 b1 g e' m rest g')
  have "apply_match d (g @ lits) off (MINMATCH + m) = p @ apply_match (d @ p) (h @ lits) off (MINMATCH + m)"
    using apply_match_shift [of d p "h @ lits"] sequence.prems by simp
  from sequence.IH [OF this] obtain h' where h': "g' = p @ h'"
    "lz4_block (d @ p) (apply_match (d @ p) (h @ lits) off (MINMATCH + m)) rest h'" by auto
  have "off \<le> length (d @ p) + length (h @ lits)" using sequence.hyps(4) sequence.prems by simp
  from lz4_block.sequence [OF sequence.hyps(1-3) this sequence.hyps(5) h'(2)] h'(1) show ?case by blast
qed

text \<open>A history of 65535 bytes is as good as a longer one.\<close>

lemma lz4_block_shorter_dict:
  "lz4_block dict h blk h' \<Longrightarrow> dict = pre @ d \<Longrightarrow> MAX_DISTANCE \<le> length d + length h \<Longrightarrow> lz4_block d h blk h'"
proof (induction rule: lz4_block.induct)
  case (last_literals t e lits h)
  then show ?case by (intro lz4_block.last_literals)
next
  case (sequence t e lits off b0 b1 h e' m rest h')
  have off: "off \<le> length d + length (h @ lits)"
    using sequence.hyps(2) sequence.prems(2) offset_value_le [of b0 b1] by simp
  then have eq: "apply_match dict (h @ lits) off (MINMATCH + m) = apply_match d (h @ lits) off (MINMATCH + m)"
    unfolding sequence.prems(1) using sequence.hyps(3) by (intro apply_match_longer_dict) auto
  show ?case
    using sequence.IH [OF sequence.prems(1)] sequence.prems(2)
    by (intro lz4_block.sequence [OF sequence.hyps(1-3) off sequence.hyps(5)]) (simp only: eq length_apply_match length_append)
qed

text \<open>
  An encoder needs no more of the history than that what it sees is the end of it: the
  dictionary \<open>d\<close> and the content \<open>p\<close> in the buffer.
\<close>

definition window_of :: "bytes \<Rightarrow> bytes \<Rightarrow> bytes \<Rightarrow> bool" where
  "window_of hist d p \<longleftrightarrow> (\<exists>pre. hist = pre @ d @ p)"

lemma window_block:
  assumes "window_of hist d p" "lz4_block d p blk h'"
  obtains c where "h' = p @ c" "lz4_block hist [] blk c"
proof -
  obtain pre where pre: "hist = pre @ d @ p" using assms(1) by (auto simp: window_of_def)
  obtain c where "h' = p @ c" "lz4_block (d @ p) [] blk c" using lz4_block_shift [OF assms(2), of p "[]"] by auto
  with that lz4_block_longer_dict [of "d @ p" "[]" blk c pre] pre show thesis by simp
qed

text \<open>
  A decoder may see nothing else: its dictionary and buffer are the history, or agree with it on
  a whole window.
\<close>

definition sees :: "bytes \<Rightarrow> bytes \<Rightarrow> bytes \<Rightarrow> bool" where
  "sees hist d p \<longleftrightarrow> hist = d @ p \<or>
     (\<exists>pre pre' t. hist = pre @ t \<and> d @ p = pre' @ t \<and> MAX_DISTANCE \<le> length t)"

lemma lz4_block_dict_suffix:
  "MAX_DISTANCE \<le> length t \<Longrightarrow> lz4_block (pre @ t) [] blk c \<longleftrightarrow> lz4_block t [] blk c"
  using lz4_block_longer_dict [of t "[]" blk c pre] lz4_block_shorter_dict [of "pre @ t" "[]" blk c pre t] by auto

lemma sees_block:
  assumes "sees hist d p"
  shows "lz4_block d p blk h' \<longleftrightarrow> (\<exists>c. h' = p @ c \<and> lz4_block hist [] blk c)"
proof -
  have "lz4_block d p blk h' \<longleftrightarrow> (\<exists>c. h' = p @ c \<and> lz4_block (d @ p) [] blk c)"
    using lz4_block_shift [of d p blk h' p "[]"] lz4_block_unshift [of d p "[]" blk] by auto
  moreover have "lz4_block (d @ p) [] blk c \<longleftrightarrow> lz4_block hist [] blk c" for c
    using assms by (auto simp: sees_def lz4_block_dict_suffix)
  ultimately show ?thesis by simp
qed

section \<open>Blocks\<close>

definition block_history :: "FrameInfo \<Rightarrow> bytes \<Rightarrow> bytes \<Rightarrow> bytes" where
  "block_history info dict h = (if block_mode info = Linked then dict @ h else dict)"

fun max_block_size :: "BlockSize \<Rightarrow> nat" where
  "max_block_size Auto = 0"
| "max_block_size Max64KB = 64 * 1024"
| "max_block_size Max256KB = 256 * 1024"
| "max_block_size Max1MB = 1024 * 1024"
| "max_block_size Max4MB = 4 * 1024 * 1024"

lemma get_size_eq: "b \<noteq> Auto \<Longrightarrow> get_size b = Ok (max_block_size b)"
  by (cases b) auto

lemma max_block_size_bounds: "max_block_size b \<le> 4194304" "b \<noteq> Auto \<Longrightarrow> 65536 \<le> max_block_size b"
  by (cases b; simp)+

text \<open>What the bytes of a block stand for.\<close>

fun block_content :: "FrameInfo \<Rightarrow> bytes \<Rightarrow> bytes \<Rightarrow> BlockInfo \<Rightarrow> bytes \<Rightarrow> bytes \<Rightarrow> bool" where
  "block_content info dict h (Uncompressed n) data c \<longleftrightarrow> length data = unat n \<and> c = data"
| "block_content info dict h (Compressed n) data c \<longleftrightarrow>
     length data = unat n \<and> lz4_block (block_history info dict h) [] data c"
| "block_content info dict h EndMark data c \<longleftrightarrow> False"

definition block_checksum :: "'h hasher \<Rightarrow> bytes \<Rightarrow> 32 word" where
  "block_checksum H data = ucast (hash_finish H (hash_write H (with_seed H 0) data))"

definition block_trailer :: "'h hasher \<Rightarrow> FrameInfo \<Rightarrow> bytes \<Rightarrow> bytes" where
  "block_trailer H info data = (if block_checksums info then le_of_word 4 (block_checksum H data) else [])"

definition frame_block :: "'h hasher \<Rightarrow> FrameInfo \<Rightarrow> bytes \<Rightarrow> bytes \<Rightarrow> bytes \<Rightarrow> bytes \<Rightarrow> bool" where
  "frame_block H info dict h wire c \<longleftrightarrow>
     (\<exists>bi data. block_info_ok bi \<and> block_content info dict h bi data c \<and>
       length data \<le> max_block_size (block_size info) \<and> length c \<le> max_block_size (block_size info) \<and>
       wire = le_of_word 4 (block_info_word bi) @ data @ block_trailer H info data)"

definition hash_content :: "'h hasher \<Rightarrow> FrameInfo \<Rightarrow> 'h \<Rightarrow> bytes \<Rightarrow> 'h" where
  "hash_content H info s c = (if content_checksum info then hash_write H s c else s)"

text \<open>
  A sequence of blocks: the content and the state of the content hash before it, the bytes, and
  the content and the hash after it.
\<close>

inductive frame_blocks ::
  "'h hasher \<Rightarrow> FrameInfo \<Rightarrow> bytes \<Rightarrow> bytes \<Rightarrow> 'h \<Rightarrow> bytes \<Rightarrow> bytes \<Rightarrow> 'h \<Rightarrow> bool" for H info dict where
  no_blocks: "frame_blocks H info dict h s [] h s"
| more_blocks: "frame_block H info dict h w c \<Longrightarrow> frame_blocks H info dict (h @ c) (hash_content H info s c) ws h' s' \<Longrightarrow>
    frame_blocks H info dict h s (w @ ws) h' s'"

lemma frame_blocks_snoc:
  "frame_blocks H info dict h s ws h1 s1 \<Longrightarrow> frame_block H info dict h1 w c \<Longrightarrow>
   frame_blocks H info dict h s (ws @ w) (h1 @ c) (hash_content H info s1 c)"
proof (induction rule: frame_blocks.induct)
  case (no_blocks h s)
  from more_blocks [OF this frame_blocks.no_blocks] show ?case by simp
next
  case (more_blocks h w' c' s ws h' s')
  from frame_blocks.more_blocks [OF more_blocks.hyps(1) more_blocks.IH [OF more_blocks.prems]] show ?case by simp
qed

lemma frame_blocks_longer: "frame_blocks H info dict h s ws h' s' \<Longrightarrow> \<exists>c. h' = h @ c"
  by (induction rule: frame_blocks.induct) auto

section \<open>Frames\<close>

definition end_of_frame :: "'h hasher \<Rightarrow> FrameInfo \<Rightarrow> 'h \<Rightarrow> bytes" where
  "end_of_frame H info s = le_of_word 4 (0 :: 32 word) @
     (if content_checksum info then le_of_word 4 (ucast (hash_finish H s) :: 32 word) else [])"

definition size_matches :: "FrameInfo \<Rightarrow> bytes \<Rightarrow> bool" where
  "size_matches info c \<longleftrightarrow> (case content_size info of None \<Rightarrow> True | Some n \<Rightarrow> unat n = length c)"

definition frame :: "'h hasher \<Rightarrow> bytes \<Rightarrow> FrameInfo \<Rightarrow> bytes \<Rightarrow> bytes \<Rightarrow> bool" where
  "frame H dict info wire c \<longleftrightarrow>
     (\<exists>ws s. block_size info \<noteq> Auto \<and> frame_blocks H info dict [] (with_seed H 0) ws c s \<and> size_matches info c \<and>
       wire = header_bytes H info @ ws @ end_of_frame H info s)"

inductive frame_stream :: "'h hasher \<Rightarrow> bytes \<Rightarrow> 32 word option \<Rightarrow> bytes \<Rightarrow> bytes \<Rightarrow> bool" for H dict did where
  no_frames: "frame_stream H dict did [] []"
| more_frames: "frame H dict info w c \<Longrightarrow> dict_id info = did \<Longrightarrow> frame_stream H dict did ws cs \<Longrightarrow>
    frame_stream H dict did (w @ ws) (c @ cs)"

lemma frame_stream_snoc:
  "frame_stream H dict did ws cs \<Longrightarrow> frame H dict info w c \<Longrightarrow> dict_id info = did \<Longrightarrow>
   frame_stream H dict did (ws @ w) (cs @ c)"
proof (induction rule: frame_stream.induct)
  case no_frames
  from more_frames [OF no_frames frame_stream.no_frames] show ?case by simp
next
  case (more_frames info' w' c' ws cs)
  from frame_stream.more_frames [OF more_frames.hyps(1,2) more_frames.IH [OF more_frames.prems]] show ?case by simp
qed

lemma frame_stream_one: "frame H dict info w c \<Longrightarrow> frame_stream H dict (dict_id info) w c"
  using more_frames [OF _ refl no_frames] by fastforce

section \<open>Frames from the front\<close>

text \<open>What a decoder finds at the front of its input.\<close>

fun info_len :: "BlockInfo \<Rightarrow> nat" where
  "info_len (Compressed n) = unat n"
| "info_len (Uncompressed n) = unat n"
| "info_len EndMark = 0"

lemma word_bit_rebuild:
  assumes "(w :: 'a :: len word) AND m = m"
  shows "(w AND NOT m) OR m = w"
proof (rule bit_word_eqI)
  fix n assume n: "n < LENGTH('a)"
  have "bit w n" if "bit m n"
  proof -
    from that have "bit (w AND m) n" by (simp only: assms)
    then show ?thesis by (simp only: bit_and_iff)
  qed
  then show "bit ((w AND NOT m) OR m) n = bit w n" using n by (auto simp: bit_or_iff bit_and_iff bit_not_iff)
qed

lemma size_bit_set: "(w :: 32 word) AND BLOCK_UNCOMPRESSED_SIZE_BIT \<noteq> 0 \<Longrightarrow> w AND BLOCK_UNCOMPRESSED_SIZE_BIT = BLOCK_UNCOMPRESSED_SIZE_BIT"
proof -
  assume a: "w AND BLOCK_UNCOMPRESSED_SIZE_BIT \<noteq> 0"
  have "BLOCK_UNCOMPRESSED_SIZE_BIT = 2 ^ 31" by (simp add: BLOCK_UNCOMPRESSED_SIZE_BIT_def)
  with a word_and_bit [of w 31] show ?thesis by (cases "bit w 31") simp_all
qed

lemma BlockInfo_read_Ok:
  assumes "length b = 4"
  shows "\<exists>bi. BlockInfo_read b = Ok bi \<and> block_info_ok bi \<and> b = le_of_word 4 (block_info_word bi)"
proof -
  define n where "n = (word_of_le b :: 32 word)"
  have b: "b = le_of_word 4 n" using le_of_word_word_of_le [of b, where 'a = 32] assms by (simp add: n_def)
  have te: "take_exact 4 b = Ok (b, [])" using assms by (simp add: take_exact_def)
  consider "n = 0" | "n \<noteq> 0" "n AND BLOCK_UNCOMPRESSED_SIZE_BIT \<noteq> 0" | "n \<noteq> 0" "n AND BLOCK_UNCOMPRESSED_SIZE_BIT = 0"
    by blast
  then show ?thesis
  proof cases
    case 1
    have "BlockInfo_read b = Ok EndMark" using te 1 by (simp add: BlockInfo_read_def n_def [symmetric])
    with b 1 show ?thesis by (intro exI [of _ EndMark]) simp
  next
    case 2
    let ?m = "n AND NOT BLOCK_UNCOMPRESSED_SIZE_BIT"
    have "BlockInfo_read b = Ok (Uncompressed ?m)" using te 2 by (simp add: BlockInfo_read_def n_def [symmetric])
    moreover have "?m OR BLOCK_UNCOMPRESSED_SIZE_BIT = n"
      by (rule word_bit_rebuild [OF size_bit_set [OF 2(2)]])
    moreover have "unat ?m < 2 ^ 31" by (simp only: size_bit [symmetric] and.assoc) simp
    ultimately show ?thesis using b by (intro exI [of _ "Uncompressed ?m"]) simp
  next
    case 3
    have "BlockInfo_read b = Ok (Compressed n)" using te 3 by (simp add: BlockInfo_read_def n_def [symmetric])
    with b 3 size_bit [of n] show ?thesis by (intro exI [of _ "Compressed n"]) simp
  qed
qed

definition payload :: "'h hasher \<Rightarrow> FrameInfo \<Rightarrow> nat \<Rightarrow> bytes \<Rightarrow> (bytes \<times> bytes) option" where
  "payload H info n inp =
     (let data = take n inp; r = drop n inp in
      if length inp < n then None
      else if block_checksums info then
        (if length r < 4 \<or> word_of_le (take 4 r) \<noteq> block_checksum H data then None else Some (data, drop 4 r))
      else Some (data, r))"

lemma payload_Some:
  "payload H info n inp = Some (data, r) \<longleftrightarrow> length data = n \<and> inp = data @ block_trailer H info data @ r"
proof
  assume p: "payload H info n inp = Some (data, r)"
  show "length data = n \<and> inp = data @ block_trailer H info data @ r"
  proof (cases "block_checksums info")
    case False
    with p show ?thesis by (auto simp: payload_def block_trailer_def Let_def split: if_splits)
  next
    case True
    with p have d: "data = take n inp" "n \<le> length inp" "4 \<le> length (drop n inp)" "r = drop 4 (drop n inp)"
      "word_of_le (take 4 (drop n inp)) = block_checksum H data"
      by (auto simp: payload_def Let_def split: if_splits)
    have "take 4 (drop n inp) = le_of_word 4 (block_checksum H data)"
      unfolding d(5) [symmetric] using le_of_word_word_of_le [of "take 4 (drop n inp)", where 'a = 32] d(3) by simp
    then have "block_trailer H info data @ r = drop n inp"
      using True d(4) append_take_drop_id [of 4 "drop n inp"] by (simp add: block_trailer_def)
    with d(1,2) show ?thesis by simp
  qed
next
  assume "length data = n \<and> inp = data @ block_trailer H info data @ r"
  then show "payload H info n inp = Some (data, r)"
    by (auto simp: payload_def block_trailer_def Let_def word_of_le_le_of_word)
qed

text \<open>A block at the front of the input, with its content and what follows it.\<close>

definition block_at :: "'h hasher \<Rightarrow> FrameInfo \<Rightarrow> bytes \<Rightarrow> bytes \<Rightarrow> bytes \<Rightarrow> bytes \<Rightarrow> bytes \<Rightarrow> bool" where
  "block_at H info dict h inp c r \<longleftrightarrow> (\<exists>w. inp = w @ r \<and> frame_block H info dict h w c)"

lemma block_at_iff:
  assumes b: "4 \<le> length inp" "BlockInfo_read (take 4 inp) = Ok bi"
  shows "block_at H info dict h inp c r \<longleftrightarrow>
    (\<exists>data. payload H info (info_len bi) (drop 4 inp) = Some (data, r) \<and> block_content info dict h bi data c \<and>
      info_len bi \<le> max_block_size (block_size info) \<and> length c \<le> max_block_size (block_size info))"
proof -
  have bi: "block_info_ok bi" "take 4 inp = le_of_word 4 (block_info_word bi)"
    using BlockInfo_read_Ok [of "take 4 inp"] b by auto
  have len: "block_content info dict h bi' data c \<Longrightarrow> info_len bi' = length data" for bi' data
    by (cases bi') auto
  show ?thesis
  proof
    assume "block_at H info dict h inp c r"
    then obtain bi' data where F: "block_info_ok bi'" "block_content info dict h bi' data c"
      "length data \<le> max_block_size (block_size info)" "length c \<le> max_block_size (block_size info)"
      "inp = le_of_word 4 (block_info_word bi') @ data @ block_trailer H info data @ r"
      by (auto simp: block_at_def frame_block_def)
    have "BlockInfo_read (take 4 inp) = Ok bi'" using BlockInfo_read_eq [OF F(1), of "[]"] F(5) by simp
    then have "bi' = bi" using b by simp
    with F len show "\<exists>data. payload H info (info_len bi) (drop 4 inp) = Some (data, r) \<and> block_content info dict h bi data c \<and>
      info_len bi \<le> max_block_size (block_size info) \<and> length c \<le> max_block_size (block_size info)"
      by (intro exI [of _ data]) (simp add: payload_Some)
  next
    assume "\<exists>data. payload H info (info_len bi) (drop 4 inp) = Some (data, r) \<and> block_content info dict h bi data c \<and>
      info_len bi \<le> max_block_size (block_size info) \<and> length c \<le> max_block_size (block_size info)"
    then obtain data where D: "payload H info (info_len bi) (drop 4 inp) = Some (data, r)" "block_content info dict h bi data c"
      "info_len bi \<le> max_block_size (block_size info)" "length c \<le> max_block_size (block_size info)" by blast
    then have "inp = (le_of_word 4 (block_info_word bi) @ data @ block_trailer H info data) @ r"
      using append_take_drop_id [of 4 inp] by (simp add: payload_Some bi(2))
    moreover have "frame_block H info dict h (le_of_word 4 (block_info_word bi) @ data @ block_trailer H info data) c"
      unfolding frame_block_def using D(2-4) len [OF D(2)] bi(1) by auto
    ultimately show "block_at H info dict h inp c r" by (auto simp: block_at_def)
  qed
qed

lemma block_at_short: "block_at H info dict h inp c r \<Longrightarrow> 4 \<le> length inp \<and> length r < length inp"
  by (auto simp: block_at_def frame_block_def)

lemma end_not_block: "inp = end_of_frame H info s @ r \<Longrightarrow> \<not> block_at H info dict h inp c r'"
proof -
  assume i: "inp = end_of_frame H info s @ r"
  have "BlockInfo_read (take 4 inp) = Ok EndMark" "4 \<le> length inp"
    using BlockInfo_read_eq [of EndMark "[]"] i by (simp_all add: end_of_frame_def)
  with block_at_iff [of inp EndMark H info dict h c r'] show ?thesis by simp
qed

lemma block_content_unique:
  assumes "block_content info dict h bi data c" "block_content info dict h bi data c'"
    "length c \<le> max_block_size (block_size info)" "length c' \<le> max_block_size (block_size info)"
  shows "c = c'"
proof -
  have "length c + 4 \<le> usize_max" "length c' + 4 \<le> usize_max"
    using assms(3,4) max_block_size_bounds(1) [of "block_size info"] by (simp_all add: usize_max_def)
  with assms(1,2) show ?thesis by (cases bi) (auto dest: lz4_block_deterministic)
qed

section \<open>The rest of a stream\<close>

text \<open>
  Where a decoder is: before a frame, or in one with its header, the content so far and the state
  of its hash.  \<open>decodes\<close> says what content the rest of the input stands for.
\<close>

datatype 'h stage = Idle | In FrameInfo bytes 'h

inductive decodes :: "'h hasher \<Rightarrow> bytes \<Rightarrow> 32 word option \<Rightarrow> 'h stage \<Rightarrow> bytes \<Rightarrow> bytes \<Rightarrow> bool" for H dict did where
  all_read: "decodes H dict did Idle [] []"
| header: "block_size info \<noteq> Auto \<Longrightarrow> dict_id info = did \<Longrightarrow> decodes H dict did (In info [] (with_seed H 0)) inp c \<Longrightarrow>
    decodes H dict did Idle (header_bytes H info @ inp) c"
| block: "frame_block H info dict h w c1 \<Longrightarrow> decodes H dict did (In info (h @ c1) (hash_content H info s c1)) inp c \<Longrightarrow>
    decodes H dict did (In info h s) (w @ inp) (c1 @ c)"
| frame_end: "size_matches info h \<Longrightarrow> decodes H dict did Idle inp c \<Longrightarrow>
    decodes H dict did (In info h s) (end_of_frame H info s @ inp) c"

inductive_cases decodes_IdleE: "decodes H dict did Idle inp c"
inductive_cases decodes_InE: "decodes H dict did (In info h s) inp c"

lemma frame_blocks_decode:
  "frame_blocks H info dict h s ws h' s' \<Longrightarrow> size_matches info h' \<Longrightarrow> decodes H dict did Idle inp c \<Longrightarrow> h' = h @ c1 \<Longrightarrow>
   decodes H dict did (In info h s) (ws @ end_of_frame H info s' @ inp) (c1 @ c)"
proof (induction arbitrary: c1 rule: frame_blocks.induct)
  case (no_blocks h s)
  then show ?case using frame_end by fastforce
next
  case (more_blocks h w d s ws h' s')
  obtain c2 where c2: "h' = (h @ d) @ c2" using frame_blocks_longer [OF more_blocks.hyps(2)] by blast
  with more_blocks.prems(3) have "c1 = d @ c2" by simp
  with block [OF more_blocks.hyps(1) more_blocks.IH [OF more_blocks.prems(1,2) c2]] show ?case by simp
qed

lemma stream_decodes: "frame_stream H dict did inp c \<Longrightarrow> decodes H dict did Idle inp c"
proof (induction rule: frame_stream.induct)
  case no_frames
  show ?case by (rule all_read)
next
  case (more_frames info w c ws cs)
  obtain bs s where f: "block_size info \<noteq> Auto" "frame_blocks H info dict [] (with_seed H 0) bs c s" "size_matches info c"
    "w = header_bytes H info @ bs @ end_of_frame H info s"
    using more_frames.hyps(1) by (auto simp: frame_def)
  from header [OF f(1) more_frames.hyps(2) frame_blocks_decode [OF f(2,3) more_frames.IH, of c]] f(4) show ?case by simp
qed

text \<open>Conversely, what a stage decodes is the rest of its frame and the frames after it.\<close>

fun stage_stream :: "'h hasher \<Rightarrow> bytes \<Rightarrow> 32 word option \<Rightarrow> 'h stage \<Rightarrow> bytes \<Rightarrow> bytes \<Rightarrow> bool" where
  "stage_stream H dict did Idle inp c \<longleftrightarrow> frame_stream H dict did inp c"
| "stage_stream H dict did (In info h s) inp c \<longleftrightarrow>
     (\<exists>ws c1 s' inp' c2. frame_blocks H info dict h s ws (h @ c1) s' \<and> size_matches info (h @ c1) \<and>
        inp = ws @ end_of_frame H info s' @ inp' \<and> c = c1 @ c2 \<and> frame_stream H dict did inp' c2)"

lemma decodes_stage_stream: "decodes H dict did st inp c \<Longrightarrow> stage_stream H dict did st inp c"
proof (induction rule: decodes.induct)
  case all_read
  show ?case by (simp add: no_frames)
next
  case (header info inp c)
  then obtain ws c1 s' inp' c2 where b: "frame_blocks H info dict [] (with_seed H 0) ws c1 s'" "size_matches info c1"
    "inp = ws @ end_of_frame H info s' @ inp'" "c = c1 @ c2" "frame_stream H dict did inp' c2" by auto
  then have "frame H dict info (header_bytes H info @ ws @ end_of_frame H info s') c1"
    unfolding frame_def using header.hyps(1) by blast
  from more_frames [OF this header.hyps(2) b(5)] b(3,4) show ?case by simp
next
  case (block info h w c1 s inp c)
  then obtain ws c2 s' inp' c3 where "frame_blocks H info dict (h @ c1) (hash_content H info s c1) ws ((h @ c1) @ c2) s'"
    "size_matches info ((h @ c1) @ c2)" "inp = ws @ end_of_frame H info s' @ inp'" "c = c2 @ c3" "frame_stream H dict did inp' c3"
    by auto
  with more_blocks [OF block.hyps(1) this(1)] show ?case
    unfolding stage_stream.simps
    by (intro exI [of _ "w @ ws"] exI [of _ "c1 @ c2"] exI [of _ s'] exI [of _ inp'] exI [of _ c3]) simp
next
  case (frame_end info h inp c s)
  then show ?case
    unfolding stage_stream.simps
    by (intro exI [of _ "[]"] exI [of _ s] exI [of _ inp] exI [of _ c]) (simp add: no_blocks)
qed

lemma decodes_Idle: "decodes H dict did Idle inp c \<longleftrightarrow> frame_stream H dict did inp c"
  using stream_decodes decodes_stage_stream [of H dict did Idle] by fastforce

end
