(* ===== verification/Encoder_Reuse.thy ===== *)
theory Encoder_Reuse
  imports Encoder_Interface
begin

text \<open>
  Compressors that are used more than once.  Their tables keep the positions of earlier calls;
  the invariants \<open>plain_ok\<close> and \<open>dict_ok\<close> say that these lie below the base of the next call, so
  that a call never takes a stale entry for a match, and every operation keeps them, also one
  that fails.  \<open>CompressorRefN_reachable\<close> and \<open>DictCompressorRefN_reachable\<close> are the states that
  the operations can reach.
\<close>

section \<open>Without a dictionary\<close>

definition plain_ok :: "nat \<Rightarrow> HashTableU32 \<Rightarrow> nat \<Rightarrow> bool" where
  "plain_ok N table stream_offset \<longleftrightarrow>
     valid_entries N \<and> length table = N \<and> entries_below table (max 1 stream_offset)"

lemma valid_entries_pos: "valid_entries N \<Longrightarrow> 0 < N"
  by (auto simp: valid_entries_def MIN_ENTRIES_def)

lemma entries_below_clear: "entries_below (HashTableU32_clear t) 1" "entries_below (HashTableU32U16_clear t') 1"
  by (simp_all add: HashTableU32_clear_def HashTableU32U16_clear_def entries_below_replicate)

lemma prepare_plain_table_ok:
  assumes "plain_ok N table so"
  obtains t' so' off where "prepare_plain_table table so len = (t', so', off)"
    "length t' = N" "entries_below t' (max 1 off)" "off + len \<le> so'" "off = 0 \<or> len \<le> EPOCH_THRESHOLD \<and> so' \<le> u32_max"
proof (cases "len \<le> EPOCH_THRESHOLD \<and> so + len + (MAX_DISTANCE + 1) \<le> u32_max")
  case True
  then have "so + len \<le> usize_max" "so + len + (MAX_DISTANCE + 1) \<le> usize_max"
    by (simp_all add: usize_max_def u32_max_def)
  with True that [of table "so + len + (MAX_DISTANCE + 1)" so] assms show thesis
    by (simp add: prepare_plain_table_def checked_add_def plain_ok_def)
next
  case False
  then have "prepare_plain_table table so len = (HashTableU32_clear table, len + MAX_DISTANCE + 1, 0)"
    by (auto simp: prepare_plain_table_def checked_add_def Let_def split: option.splits)
  with that [of "HashTableU32_clear table" "len + MAX_DISTANCE + 1" 0] assms entries_below_clear(1) show thesis
    by (simp add: plain_ok_def HashTableU32_clear_def entries_below_replicate)
qed

text \<open>The modes the three cases of a call use.\<close>

definition plain_mode :: "nat \<Rightarrow> nat \<Rightarrow> mode" where
  "plain_mode off len =
     (if 0 < off then \<lparr>USE_DICT = False, HAS_OFFSET = True, READONLY = False, NEAR = True\<rparr>
      else if len \<le> MAX_DISTANCE + 1 then
        \<lparr>USE_DICT = False, HAS_OFFSET = False, READONLY = False, NEAR = True\<rparr>
      else \<lparr>USE_DICT = False, HAS_OFFSET = False, READONLY = False, NEAR = False\<rparr>)"

lemma check_plain_mode:
  "off = 0 \<or> length input \<le> EPOCH_THRESHOLD \<Longrightarrow> check_mode (plain_mode off (length input)) input 0 [] off = Ok ()"
  by (auto simp: check_mode_def plain_mode_def)

lemma plain_mode_readonly: "\<not> READONLY (plain_mode off len)"
  by (simp add: plain_mode_def)

lemma compress_plain_table_eq:
  "prepare_plain_table table so (length input) = (t', so', off) \<Longrightarrow>
   compress_plain_table table so input out =
     obind (map_err (\<lambda>e. (e, t', so'))
       (compress_internal (plain_mode off (length input)) (u32_table (length t')) input 0
         \<lparr>sink_output = out, sink_pos = 0\<rparr> t' [] off)) (\<lambda>(n, s, t). Ok (n, t, so', sink_output s))"
  by (simp add: compress_plain_table_def SliceSink_new_0 plain_mode_def [symmetric])

lemma compress_plain_table_ok:
  assumes "plain_ok N table so" "20 + length input * 110 div 100 \<le> length out" "length input * 110 < 2 ^ 64"
  obtains blk tail t so' where "compress_plain_table table so input out = Ok (length blk, t, so', blk @ tail)"
    "length (blk @ tail) = length out" "encodes [] input blk" "plain_ok N t so'"
proof -
  obtain t' so' off where p: "prepare_plain_table table so (length input) = (t', so', off)"
    "length t' = N" "entries_below t' (max 1 off)" "off + length input \<le> so'"
    "off = 0 \<or> length input \<le> EPOCH_THRESHOLD \<and> so' \<le> u32_max"
    by (rule prepare_plain_table_ok [OF assms(1), of "length input"])
  have chk: "check_mode (plain_mode off (length input)) input 0 [] off = Ok ()"
    using p(5) by (intro check_plain_mode) auto
  have "off + length input < 2 ^ 63" using p(4,5) assms(3) by (auto simp: u32_max_def)
  moreover have "length t' = N \<and> 0 < N" using p(2) assms(1) valid_entries_pos by (auto simp: plain_ok_def)
  ultimately obtain n s t where c: "compress_internal (plain_mode off (length input)) (u32_table N) input 0
      \<lparr>sink_output = out, sink_pos = 0\<rparr> t' [] off = Ok (n, s, t)"
    "appends_block [] 0 input \<lparr>sink_output = out, sink_pos = 0\<rparr> n s" "length t = N"
    "entries_below t (max 1 (off + length input))"
    using u32.compress_internal_ok [where N = N and table = t', OF chk fresh_sink(1) _ assms(3), of out] p(3) plain_mode_readonly assms(2)
    by (auto simp: fresh_sink)
  have "entries_below t (max 1 so')" using c(4) p(4) entries_below_mono by fastforce
  moreover obtain blk tail where "n = length blk" "sink_output s = blk @ tail" "length (blk @ tail) = length out"
    "encodes [] input blk" using appends_block_fresh [OF c(2)] by blast
  ultimately show thesis
    using that [of blk t so' tail] compress_plain_table_eq [OF p(1), of out] c(1,3) p(2) assms(1)
    by (simp add: plain_ok_def)
qed

lemma compress_plain_table_too_small:
  assumes "plain_ok N table so" "length out < 20 + length input * 110 div 100" "length input * 110 < 2 ^ 64"
  obtains t so' where "compress_plain_table table so input out = Err (CompressOutputTooSmall, t, so')" "plain_ok N t so'"
proof -
  obtain t' so' off where p: "prepare_plain_table table so (length input) = (t', so', off)"
    "length t' = N" "entries_below t' (max 1 off)" "off + length input \<le> so'"
    "off = 0 \<or> length input \<le> EPOCH_THRESHOLD \<and> so' \<le> u32_max"
    by (rule prepare_plain_table_ok [OF assms(1)])
  have chk: "check_mode (plain_mode off (length input)) input 0 [] off = Ok ()"
    using p(5) by (intro check_plain_mode) auto
  from u32.compress_internal_too_small [OF chk fresh_sink(1) assms(3), of out N t'] assms(2)
  have "compress_plain_table table so input out = Err (CompressOutputTooSmall, t', so')"
    by (simp add: compress_plain_table_eq [OF p(1)] p(2) fresh_sink)
  moreover have "entries_below t' (max 1 so')" using p(3,4) entries_below_mono by fastforce
  ultimately show thesis using that assms(1) p(2) by (simp add: plain_ok_def)
qed

lemma CompressorRefN_new_ok: "CompressorRefN_new N = Ok c \<longleftrightarrow>
    valid_entries N \<and> c = \<lparr>cr_table = replicate N 0, cr_stream_offset = 0\<rparr>"
  by (auto simp: CompressorRefN_new_def HashTableU32_new_def)

inductive CompressorRefN_reachable :: "nat \<Rightarrow> CompressorRefN \<Rightarrow> bool" for N where
  created: "CompressorRefN_new N = (Ok self :: (CompressError, CompressorRefN) outcome) \<Longrightarrow>
    CompressorRefN_reachable N self"
| compressed: "CompressorRefN_reachable N self \<Longrightarrow> length input * 110 < 2 ^ 64 \<Longrightarrow>
    CompressorRefN_compress_into self input out = Ok (n, self', out') \<Longrightarrow> CompressorRefN_reachable N self'"
| refused: "CompressorRefN_reachable N self \<Longrightarrow> length input * 110 < 2 ^ 64 \<Longrightarrow>
    CompressorRefN_compress_into self input out = Err (e, self') \<Longrightarrow> CompressorRefN_reachable N self'"

abbreviation "CompressorRefN_ok N self \<equiv> plain_ok N (cr_table self) (cr_stream_offset self)"

lemma CompressorRefN_call:
  assumes "CompressorRefN_ok N self" "length input * 110 < 2 ^ 64"
  obtains (fits) blk tail self' where "20 + length input * 110 div 100 \<le> length out"
      "CompressorRefN_compress_into self input out = Ok (length blk, self', blk @ tail)"
      "length (blk @ tail) = length out" "encodes [] input blk" "CompressorRefN_ok N self'"
    | (small) self' where "length out < 20 + length input * 110 div 100"
      "CompressorRefN_compress_into self input out = Err (CompressOutputTooSmall, self')" "CompressorRefN_ok N self'"
proof (cases "length out < 20 + length input * 110 div 100")
  case True
  obtain t so' where "compress_plain_table (cr_table self) (cr_stream_offset self) input out =
      Err (CompressOutputTooSmall, t, so')" "plain_ok N t so'"
    by (rule compress_plain_table_too_small [OF assms(1) True assms(2)])
  with True small [of "\<lparr>cr_table = t, cr_stream_offset = so'\<rparr>"] show thesis
    by (simp add: CompressorRefN_compress_into_def)
next
  case False
  then have room: "20 + length input * 110 div 100 \<le> length out" by simp
  obtain blk tail t so' where "compress_plain_table (cr_table self) (cr_stream_offset self) input out =
      Ok (length blk, t, so', blk @ tail)" "length (blk @ tail) = length out" "encodes [] input blk" "plain_ok N t so'"
    by (rule compress_plain_table_ok [OF assms(1) room assms(2)])
  with room fits [of blk "\<lparr>cr_table = t, cr_stream_offset = so'\<rparr>" tail] show thesis
    by (simp add: CompressorRefN_compress_into_def)
qed

lemma CompressorRefN_reachable_ok: "CompressorRefN_reachable N self \<Longrightarrow> CompressorRefN_ok N self"
proof (induction rule: CompressorRefN_reachable.induct)
  case (created self)
  then show ?case by (auto simp: CompressorRefN_new_ok plain_ok_def entries_below_replicate)
next
  case (compressed self input out n self' out')
  from CompressorRefN_call [OF compressed.IH compressed.hyps(2), of out] compressed.hyps(3) show ?case
    by (metis outcome.distinct(1) outcome.inject(1) prod.inject)
next
  case (refused self input out e self')
  from CompressorRefN_call [OF refused.IH refused.hyps(2), of out] refused.hyps(3) show ?case
    by (metis outcome.distinct(1) outcome.inject(2) prod.inject)
qed

section \<open>With a dictionary\<close>

definition dict_ok :: "nat \<Rightarrow> HashTableU32U16 \<Rightarrow> HashTableU32U16 \<Rightarrow> nat \<Rightarrow> bytes \<Rightarrow> bool" where
  "dict_ok N table pristine main_base dict \<longleftrightarrow>
     valid_entries N \<and> length table = N \<and> length pristine = N \<and> 0 < main_base \<and> main_base \<le> u16_max \<and>
     entries_below table main_base \<and> length dict \<le> WINDOW_SIZE"

text \<open>Every call gives a block and keeps the invariant, or fails and keeps it.\<close>

definition dict_call_ok ::
  "nat \<Rightarrow> bytes \<Rightarrow> bytes \<Rightarrow> bytes \<Rightarrow>
   (CompressError \<times> HashTableU32U16 \<times> HashTableU32U16 \<times> nat,
    nat \<times> HashTableU32U16 \<times> HashTableU32U16 \<times> nat \<times> bytes) outcome \<Rightarrow> bool" where
  "dict_call_ok N dict input out r \<longleftrightarrow>
     (if 20 + length input * 110 div 100 \<le> length out then
        \<exists>blk tail t p b. r = Ok (length blk, t, p, b, blk @ tail) \<and> length (blk @ tail) = length out \<and>
          encodes dict input blk \<and> dict_ok N t p b dict
      else \<exists>t p b. r = Err (CompressOutputTooSmall, t, p, b) \<and> dict_ok N t p b dict)"

lemma dict_call_ok_fits:
  assumes "appends_block dict 0 input \<lparr>sink_output = out, sink_pos = 0\<rparr> n s"
    "r = Ok (n, t, p, b, sink_output s)" "dict_ok N t p b dict" "20 + length input * 110 div 100 \<le> length out"
  shows "dict_call_ok N dict input out r"
  using appends_block_fresh [OF assms(1)] assms(2-4) unfolding dict_call_ok_def by fastforce

lemma dict_call_ok_small:
  "length out < 20 + length input * 110 div 100 \<Longrightarrow> dict_ok N t p b dict \<Longrightarrow>
   dict_call_ok N dict input out (Err (CompressOutputTooSmall, t, p, b))"
  by (auto simp: dict_call_ok_def)

text \<open>A short input reads the table of the dictionary only.\<close>

lemma compress_dict_tables_readonly:
  assumes inv: "dict_ok N table pristine main_base dict"
    and short: "length input \<le> DICT_READONLY_LIMIT" "length dict + length input < u16_max"
  shows "dict_call_ok N dict input out (compress_dict_tables table pristine main_base dict input out)"
proof -
  let ?s = "\<lparr>sink_output = out, sink_pos = 0\<rparr>"
  define m where "m = \<lparr>USE_DICT = True, HAS_OFFSET = True, READONLY = True, NEAR = True\<rparr>"
  have N: "length table = N" "0 < N" using inv valid_entries_pos by (auto simp: dict_ok_def)
  have chk: "check_mode m input 0 dict (length dict) = Ok ()"
    using short inv by (simp add: check_mode_def m_def assert_stream_bounds_eq dict_ok_def u16_max_def)
  have small: "length input * 110 < 2 ^ 64" "length dict + length input < 2 ^ 63"
    using short by (simp_all add: u16_max_def)
  have eq: "compress_dict_tables table pristine main_base dict input out =
      obind (map_err (\<lambda>e. (e, table, pristine, main_base))
        (compress_internal m (u16_table N) input 0 ?s pristine dict (length dict)))
        (\<lambda>(n, s, pristine). Ok (n, table, pristine, main_base, sink_output s))"
    using short N by (simp add: compress_dict_tables_def SliceSink_new_0 m_def)
  show ?thesis
  proof (cases "length out < 20 + length input * 110 div 100")
    case True
    with u16.compress_internal_too_small [OF chk fresh_sink(1) small(1), of out N pristine] inv
    show ?thesis by (simp add: eq fresh_sink dict_call_ok_small)
  next
    case False
    have "length pristine = N \<and> 0 < N" using inv N by (simp add: dict_ok_def)
    then obtain n s t where c: "compress_internal m (u16_table N) input 0 ?s pristine dict (length dict) = Ok (n, s, t)"
      "appends_block dict 0 input ?s n s" "length t = N"
      using u16.compress_internal_ok [where N = N and table = pristine, OF chk fresh_sink(1) _ small, of out] False
      by (auto simp: fresh_sink m_def)
    show ?thesis
    proof (rule dict_call_ok_fits [OF c(2)])
      show "compress_dict_tables table pristine main_base dict input out = Ok (n, table, t, main_base, sink_output s)"
        by (simp add: eq c(1))
      show "dict_ok N table t main_base dict" using inv c(3) by (simp add: dict_ok_def)
    qed (use False in simp)
  qed
qed

text \<open>A longer one has a table of its own, above the entries of the calls before.\<close>

lemma compress_dict_tables_two:
  assumes inv: "dict_ok N table pristine main_base dict"
    and len: "\<not> length input \<le> DICT_READONLY_LIMIT" "length dict + length input < u16_max"
  shows "dict_call_ok N dict input out (compress_dict_tables table pristine main_base dict input out)"
proof -
  let ?s = "\<lparr>sink_output = out, sink_pos = 0\<rparr>"
  define c where "c \<longleftrightarrow> DICT_EPOCH_THRESHOLD < length input \<or> u16_max < main_base + length input"
  define t where "t = (if c then HashTableU32U16_clear table else table)"
  define b where "b = (if c then 1 else main_base)"
  have N: "length t = N" "0 < N" "length pristine = N" "length table = N"
    using inv valid_entries_pos by (auto simp: dict_ok_def t_def HashTableU32U16_clear_def)
  have bt: "0 < b" "entries_below t (max 1 b)" "entries_below t b"
    using inv entries_below_clear(2) [of table] by (auto simp: dict_ok_def t_def b_def max_def)
  have sum: "b + length input \<le> u16_max" "length dict + length input \<le> MAX_DISTANCE + 1" "length dict \<le> WINDOW_SIZE"
    using len(2) by (auto simp: b_def c_def u16_max_def)
  have eq: "compress_dict_tables table pristine main_base dict input out =
      obind (map_err (\<lambda>e. (e, t, pristine, b + length input))
        (compress_with_dict_table (u16_table N) input ?s t pristine dict (length dict) b))
        (\<lambda>(n, s, t). Ok (n, t, pristine, b + length input, sink_output s))"
    using len N by (simp add: compress_dict_tables_def SliceSink_new_0 t_def b_def c_def Let_def)
  have ok: "dict_ok N t' pristine (b + length input) dict"
    if "length t' = N" "entries_below t' (b + length input)" for t'
    using that inv sum N bt(1) by (simp add: dict_ok_def)
  show ?thesis
  proof (cases "length out < 20 + length input * 110 div 100")
    case True
    have "entries_below t (b + length input)" using bt(3) by (rule entries_below_mono) simp
    with ok N True u16.compress_with_dict_table_too_small [OF sum(1,3) fresh_sink(1), of out N t pristine]
    show ?thesis by (simp add: eq fresh_sink dict_call_ok_small)
  next
    case False
    then obtain n s t' where c: "compress_with_dict_table (u16_table N) input ?s t pristine dict (length dict) b = Ok (n, s, t')"
      "appends_block dict 0 input ?s n s" "length t' = N" "entries_below t' (max 1 (b + length input))"
      using u16.compress_with_dict_table_ok [where N = N and table = t and pristine = pristine, OF sum(1,2) fresh_sink(1), of out] N bt(2)
      by (auto simp: fresh_sink)
    show ?thesis
    proof (rule dict_call_ok_fits [OF c(2)])
      show "compress_dict_tables table pristine main_base dict input out =
          Ok (n, t', pristine, b + length input, sink_output s)" by (simp add: eq c(1))
      show "dict_ok N t' pristine (b + length input) dict" using c(3,4) bt(1) by (intro ok) (simp_all add: max_def)
    qed (use False in simp)
  qed
qed

text \<open>A long one has a table of 32-bit positions for the call alone.\<close>

lemma compress_dict_tables_wide:
  assumes inv: "dict_ok N table pristine main_base dict"
    and len: "\<not> length dict + length input < u16_max" "length input * 110 < 2 ^ 64"
  shows "dict_call_ok N dict input out (compress_dict_tables table pristine main_base dict input out)"
proof -
  let ?s = "\<lparr>sink_output = out, sink_pos = 0\<rparr>"
  have N: "length table = N" "0 < N" "valid_entries N" using inv valid_entries_pos by (auto simp: dict_ok_def)
  have win: "drop (length dict - WINDOW_SIZE) dict = dict" using inv by (simp add: dict_ok_def)
  have near: "False \<longrightarrow> length dict + length input \<le> MAX_DISTANCE + 1" by simp
  have zeros: "length (replicate N 0 :: HashTableU32) = N \<and> 0 < N" using N by simp
  show ?thesis
  proof (cases "length out < 20 + length input * 110 div 100")
    case True
    from u32.compress_with_fresh_table_too_small
      [OF zeros entries_below_zeros _ near fresh_sink(1) _ len(2), of True out] True
    have "compress_dict_tables table pristine main_base dict input out =
        Err (CompressOutputTooSmall, table, pristine, main_base)"
      using len(1) N by (auto simp: compress_dict_tables_def SliceSink_new_0 HashTableU32_new_def fresh_sink)
    with True inv show ?thesis by (simp add: dict_call_ok_small)
  next
    case False
    obtain t' n s t'' where "init_dict (u32_table N) (replicate N 0) dict = Ok (t', dict)"
      "compress_internal \<lparr>USE_DICT = True, HAS_OFFSET = True, READONLY = False, NEAR = False\<rparr> (u32_table N) input 0 ?s
        t' dict (length dict) = Ok (n, s, t'')" "appends_block dict 0 input ?s n s"
      using u32.compress_with_fresh_table_ok
        [where dict = dict, OF zeros entries_below_zeros _ near fresh_sink(1) _ len(2), of True out] False
      unfolding win by (auto simp: fresh_sink)
    moreover from this(1,2) have "compress_dict_tables table pristine main_base dict input out =
        Ok (n, table, pristine, main_base, sink_output s)"
      using len(1) N by (simp add: compress_dict_tables_def SliceSink_new_0 HashTableU32_new_def)
    ultimately show ?thesis using False inv by (intro dict_call_ok_fits) auto
  qed
qed

lemma compress_dict_tables_ok:
  "dict_ok N table pristine main_base dict \<Longrightarrow> length input * 110 < 2 ^ 64 \<Longrightarrow>
   dict_call_ok N dict input out (compress_dict_tables table pristine main_base dict input out)"
  by (cases "length dict + length input < u16_max"; cases "length input \<le> DICT_READONLY_LIMIT")
    (blast intro: compress_dict_tables_readonly compress_dict_tables_two compress_dict_tables_wide)+

end
