(* ===== verification/Frame_Encoder_Correct.thy ===== *)
theory Frame_Encoder_Correct
  imports Frame_Encoder Frame_Format Encoder_Reuse
begin

text \<open>
  The frame encoder writes frames.  \<open>between_blocks\<close> is the state of an open frame: the part of
  the content that is already in blocks, the window of it that the buffer still holds, and the
  hash table whose positions lie before the next byte.  Each block extends the content and keeps
  the state; whatever the sequence of calls, the bytes that reach the writer are frames of what
  was written.

  \<open>writer\<close> is the contract of a writer that accepts all bytes; a vector is one.
\<close>

locale writer =
  fixes W :: "'w io_write" and written :: "'w \<Rightarrow> bytes"
  assumes write_all_ok: "\<exists>w'. write_all W w bs = (None, w') \<and> written w' = written w @ bs"
    and flush_ok: "\<exists>w'. flush_w W w = (None, w') \<and> written w' = written w"
begin

lemma w_all_ok:
  "\<exists>w'. w_all W self bs = Ok (self\<lparr>fe_w := w'\<rparr>) \<and> written w' = written (fe_w self) @ bs"
  using write_all_ok [of "fe_w self" bs] by (auto simp: w_all_def)

end

interpretation vec: writer vec_writer "\<lambda>w. w"
  by unfold_locales (simp_all add: vec_writer_def)

section \<open>Buffers\<close>

lemma vec_sink_for_compression_ok:
  "vec_sink_for_compression v 0 0 n = Ok ([], \<lparr>sink_output = resize v n, sink_pos = 0\<rparr>) \<and> length (resize v n) = n"
  by (simp add: vec_sink_for_compression_def resize_def sub_slice_def SliceSink_new_0)

lemma vec_copy_overwriting_ok:
  assumes "a \<le> length v"
  shows "vec_copy_overwriting v a bs = (Ok (take a v @ bs @ drop (a + length bs) v) :: ('e, bytes) outcome)"
proof -
  define k where "k = min (length v - a) (length bs)"
  have "copy_into v a (a + k) (take k bs) = (Ok (blit v a (take k bs)) :: ('e, bytes) outcome)"
    using assms by (intro copy_into_ok) (auto simp: k_def)
  moreover have "blit v a (take k bs) @ drop k bs = take a v @ bs @ drop (a + length bs) v"
  proof (cases "length bs \<le> length v - a")
    case True
    then show ?thesis by (simp add: k_def blit_def min_absorb2)
  next
    case False
    then have "k = length v - a" "length v \<le> a + length bs" by (auto simp: k_def)
    with assms show ?thesis by (simp add: blit_def)
  qed
  ultimately show ?thesis
    using assms by (simp add: vec_copy_overwriting_def usub_ok k_def [symmetric])
qed

lemma reposition_table:
  assumes "entries_below t n"
  shows "entries_below (HashTableU32_reposition t delta) (max 1 (n - unat delta))"
proof (cases "unat delta < n")
  case True
  with reposition_below [OF assms] show ?thesis by (auto intro: entries_below_mono)
next
  case False
  then have "\<forall>x \<in> set t. x \<le> delta" using assms by (auto simp: entries_below_def word_le_nat_alt)
  then have "\<forall>x \<in> set (HashTableU32_reposition t delta). x = 0"
    by (auto simp: HashTableU32_reposition_def not_less)
  then show ?thesis by (auto simp: entries_below_def)
qed

section \<open>The state between two blocks\<close>

definition enc_ext :: "('h, 'w) FrameEncoder \<Rightarrow> bytes" where
  "enc_ext self = take (fe_ext_dict_len self) (drop (fe_ext_dict_offset self) (fe_src self))"

abbreviation enc_block_size :: "('h, 'w) FrameEncoder \<Rightarrow> nat" where
  "enc_block_size self \<equiv> max_block_size (block_size (fe_frame_info self))"

text \<open>The bytes that wait for a block.\<close>

definition pending :: "('h, 'w) FrameEncoder \<Rightarrow> bytes" where
  "pending self = take (fe_src_end self - fe_src_start self) (drop (fe_src_start self) (fe_src self))"

text \<open>
  The buffer: the content before the block reaches up to \<open>src_start\<close>, and the external
  dictionary lies behind the room of the next block.
\<close>

definition buffer_ok :: "bytes \<Rightarrow> ('h, 'w) FrameEncoder \<Rightarrow> bool" where
  "buffer_ok h self \<longleftrightarrow>
     fe_src_start self \<le> fe_src_end self \<and> fe_src_end self \<le> length (fe_src self) \<and>
     fe_src_end self - fe_src_start self \<le> enc_block_size self \<and>
     (if block_mode (fe_frame_info self) = Linked then
        window_of h (enc_ext self) (take (fe_src_start self) (fe_src self)) \<and>
        fe_src_start self < enc_block_size self + WINDOW_SIZE \<and>
        (fe_ext_dict_len self \<noteq> 0 \<longrightarrow>
          fe_ext_dict_offset self + fe_ext_dict_len self \<le> length (fe_src self) \<and>
          fe_src_start self + enc_block_size self \<le> fe_ext_dict_offset self \<and>
          enc_block_size self + WINDOW_SIZE \<le> fe_ext_dict_offset self + fe_ext_dict_len self \<and>
          fe_src_start self + fe_ext_dict_len self = WINDOW_SIZE)
      else fe_src_start self = 0 \<and> fe_ext_dict_len self = 0)"

definition table_ok :: "('h, 'w) FrameEncoder \<Rightarrow> bool" where
  "table_ok self \<longleftrightarrow>
     length (fe_table self) = DEFAULT_NODICT_ENTRIES \<and>
     entries_below (fe_table self) (max 1 (fe_src_stream_offset self + fe_src_start self)) \<and>
     fe_ext_dict_len self \<le> fe_src_stream_offset self \<and> fe_src_stream_offset self < 2 ^ 31 + 2 ^ 24"

definition between_blocks :: "'h hasher \<Rightarrow> bytes \<Rightarrow> 'h \<Rightarrow> ('h, 'w) FrameEncoder \<Rightarrow> bool" where
  "between_blocks H h s self \<longleftrightarrow>
     block_size (fe_frame_info self) \<noteq> Auto \<and> buffer_ok h self \<and> table_ok self \<and>
     fe_content_len self = length h \<and> length h < 2 ^ 64 \<and> fe_hasher self = s \<and>
     (h = [] \<longrightarrow> s = with_seed H 0 \<and> fe_src_stream_offset self = 0)"

lemma between_blocks_other [simp]:
  "between_blocks H h s (self\<lparr>fe_failed := b\<rparr>) = between_blocks H h s self"
  "between_blocks H h s (self\<lparr>fe_w := w\<rparr>) = between_blocks H h s self"
  "pending (self\<lparr>fe_failed := b\<rparr>) = pending self"
  "pending (self\<lparr>fe_w := w\<rparr>) = pending self"
  by (cases "block_mode (fe_frame_info self) = Linked";
      simp add: between_blocks_def buffer_ok_def table_ok_def enc_ext_def pending_def)+

text \<open>What the calls of an open frame never change.\<close>

definition same_frame :: "('h, 'w) FrameEncoder \<Rightarrow> ('h, 'w) FrameEncoder \<Rightarrow> bool" where
  "same_frame self self' \<longleftrightarrow>
     fe_frame_info self' = fe_frame_info self \<and> fe_dict self' = fe_dict self \<and>
     fe_is_frame_open self' = fe_is_frame_open self \<and> fe_failed self' = fe_failed self \<and>
     fe_data_to_frame_written self' = fe_data_to_frame_written self"

lemma same_frame_refl [simp]: "same_frame self self"
  by (simp add: same_frame_def)

lemma same_frame_trans: "same_frame a b \<Longrightarrow> same_frame b c \<Longrightarrow> same_frame a c"
  by (simp add: same_frame_def)

lemma buffer_ok_start:
  assumes "buffer_ok h self" "h = []"
  shows "fe_src_start self = 0" "fe_ext_dict_len self = 0"
proof -
  have "fe_src_start self \<le> length (fe_src self)" using assms(1) by (auto simp: buffer_ok_def)
  with assms show "fe_src_start self = 0" "fe_ext_dict_len self = 0"
    by (auto simp: buffer_ok_def window_of_def enc_ext_def split: if_splits)
qed

section \<open>Repositioning the table\<close>

lemma reposition_ok:
  assumes t: "table_ok self" and b: "buffer_ok h self" and e: "block_size (fe_frame_info self) \<noteq> Auto"
  obtains t' so' where
    "reposition (enc_block_size self) self = Ok (self\<lparr>fe_table := t', fe_src_stream_offset := so'\<rparr>)"
    "length t' = DEFAULT_NODICT_ENTRIES" "entries_below t' (max 1 (so' + fe_src_start self))"
    "fe_ext_dict_len self \<le> so'" "so' < 2 ^ 31" "fe_src_stream_offset self = 0 \<longrightarrow> so' = 0"
proof (cases "u32_max div 2 \<le> fe_src_stream_offset self + enc_block_size self + WINDOW_SIZE")
  case False
  then have "fe_src_stream_offset self < 2 ^ 31" by (simp add: u32_max_def)
  with False t that [of "fe_src_stream_offset self" "fe_table self"] show thesis
    by (simp add: reposition_def table_ok_def)
next
  case True
  let ?so = "fe_src_stream_offset self" and ?x = "fe_ext_dict_len self"
  have so: "?x \<le> ?so" "?so < 2 ^ 32" "length (fe_table self) = DEFAULT_NODICT_ENTRIES"
    "entries_below (fe_table self) (max 1 (?so + fe_src_start self))"
    using t by (auto simp: table_ok_def)
  have x: "?x \<le> WINDOW_SIZE" using b by (auto simp: buffer_ok_def split: if_splits)
  have z: "?so \<noteq> 0" using True max_block_size_bounds(1) [of "block_size (fe_frame_info self)"] by (auto simp: u32_max_def)
  define d where "d = (word_of_nat (?so - ?x) :: 32 word)"
  have "unat d = ?so - ?x" using so(2) by (simp add: d_def unat_of_nat)
  with reposition_table [OF so(4), of d] so(1) z
  have "entries_below (HashTableU32_reposition (fe_table self) d) (max 1 (?x + fe_src_start self))"
    by (auto elim!: entries_below_mono)
  moreover have "length (HashTableU32_reposition (fe_table self) d) = DEFAULT_NODICT_ENTRIES"
    using so(3) by (simp add: HashTableU32_reposition_def)
  ultimately show thesis
    using that [of ?x "HashTableU32_reposition (fe_table self) d"] True so(1) x z
    by (simp add: reposition_def usub_ok d_def)
qed

section \<open>Compressing a block\<close>

lemma appends_block_sink:
  assumes "appends_block d p0 input \<lparr>sink_output = out, sink_pos = 0\<rparr> n s'"
  obtains blk tail where "n = length blk" "sink_output s' = blk @ tail" "lz4_block d (take p0 input) blk input"
proof -
  obtain blk where blk: "sink_content s' = blk" "length blk = n" "lz4_block d (take p0 input) blk input"
    using assms ending_block_lz4 by (auto simp: appends_block_def fresh_sink)
  then have "sink_output s' = blk @ drop (sink_pos s') (sink_output s')"
    by (metis append_take_drop_id sink_content_def)
  with blk that show thesis by blast
qed

text \<open>The table based modes of the encoder, with and without a dictionary.\<close>

lemma compress_with_table_ok:
  assumes t: "length t = DEFAULT_NODICT_ENTRIES" "entries_below t (max 1 (so + p0))"
    and d: "use_dict \<or> d = []" "length d \<le> WINDOW_SIZE" "length d \<le> so" "so < 2 ^ 32"
    and p: "p0 \<le> length input" "length input < 2 ^ 32" "20 + (length input - p0) * 110 div 100 \<le> length out"
  obtains blk tail s' t' where
    "compress_into_sink_with_table \<lparr>USE_DICT = use_dict, HAS_OFFSET = True, READONLY = False, NEAR = False\<rparr>
       DEFAULT_NODICT_ENTRIES input p0 \<lparr>sink_output = out, sink_pos = 0\<rparr> t d so = Ok (length blk, s', t')"
    "sink_output s' = blk @ tail" "lz4_block d (take p0 input) blk input"
    "length t' = DEFAULT_NODICT_ENTRIES" "entries_below t' (max 1 (so + length input))"
proof -
  let ?m = "\<lparr>USE_DICT = use_dict, HAS_OFFSET = True, READONLY = False, NEAR = False\<rparr>"
  have chk: "check_mode ?m input p0 d so = Ok ()"
    using d p by (auto simp: check_mode_def assert_stream_bounds_eq)
  have N: "length t = DEFAULT_NODICT_ENTRIES \<and> 0 < DEFAULT_NODICT_ENTRIES" using t(1) default_entries_pos by simp
  have S: "20 + (length input - p0) * 110 div 100 \<le>
      SliceSink_capacity \<lparr>sink_output = out, sink_pos = 0\<rparr> - sink_pos \<lparr>sink_output = out, sink_pos = 0\<rparr>"
    using p(3) by (simp add: fresh_sink)
  have B: "length input * 110 < 2 ^ 64" "so + length input < 2 ^ 63" using p(2) d(4) by simp_all
  have "READONLY ?m \<or> entries_below t (max 1 (so + p0))" using t(2) by simp
  from u32.compress_internal_ok [where N = DEFAULT_NODICT_ENTRIES and table = t,
      OF chk fresh_sink(1) S B N this]
  obtain n s' t' where c: "compress_internal ?m (u32_table DEFAULT_NODICT_ENTRIES) input p0
      \<lparr>sink_output = out, sink_pos = 0\<rparr> t d so = Ok (n, s', t')"
    "appends_block d p0 input \<lparr>sink_output = out, sink_pos = 0\<rparr> n s'"
    "length t' = DEFAULT_NODICT_ENTRIES" "entries_below t' (max 1 (so + length input))"
    by (elim exE conjE disjE) (simp, rule that)
  obtain blk tail where "n = length blk" "sink_output s' = blk @ tail" "lz4_block d (take p0 input) blk input"
    by (rule appends_block_sink [OF c(2)])
  with c show thesis using that [of blk s' t' tail] by (simp add: compress_into_sink_with_table_def)
qed

lemma enc_ext_length: "buffer_ok h self \<Longrightarrow> length (enc_ext self) = fe_ext_dict_len self"
  by (auto simp: buffer_ok_def enc_ext_def split: if_splits)

lemma ext_slice:
  "buffer_ok h self \<Longrightarrow> fe_ext_dict_len self \<noteq> 0 \<Longrightarrow>
   sub_slice (fe_src self) (fe_ext_dict_offset self) (fe_ext_dict_offset self + fe_ext_dict_len self) =
     (Ok (enc_ext self) :: ('e, bytes) outcome)"
  by (auto simp: buffer_ok_def sub_slice_def enc_ext_def split: if_splits)

lemma compress_block_ok:
  assumes b: "buffer_ok h self" and len: "fe_content_len self = length h"
    and t: "length (fe_table self) = DEFAULT_NODICT_ENTRIES"
      "entries_below (fe_table self) (max 1 (fe_src_stream_offset self + fe_src_start self))"
    and x: "fe_ext_dict_len self \<le> fe_src_stream_offset self" "fe_src_stream_offset self < 2 ^ 32"
    and input: "input = take (fe_src_end self) (fe_src self)" "src = drop (fe_src_start self) input"
  obtains blk tail t' where
    "compress_block self input src = Ok (length blk, blk @ tail, t')"
    "lz4_block (block_history (fe_frame_info self) (fe_dict self) h) [] blk src"
    "length t' = DEFAULT_NODICT_ENTRIES" "entries_below t' (max 1 (fe_src_stream_offset self + fe_src_end self))"
proof -
  let ?info = "fe_frame_info self" and ?p0 = "fe_src_start self" and ?so = "fe_src_stream_offset self"
  have bounds: "?p0 \<le> fe_src_end self" "fe_src_end self \<le> length (fe_src self)"
    "fe_src_end self - ?p0 \<le> enc_block_size self" "?p0 < enc_block_size self + WINDOW_SIZE \<or> ?p0 = 0"
    using b by (auto simp: buffer_ok_def split: if_splits)
  have li: "length input = fe_src_end self" "length src = fe_src_end self - ?p0" using bounds input by simp_all
  have small: "length input < 2 ^ 32" "length src * 110 < 2 ^ 64"
    using bounds li max_block_size_bounds(1) [of "block_size ?info"] by auto
  define out where "out = resize (fe_dst self) (20 + length src * 110 div 100)"
  have vs: "vec_sink_for_compression (fe_dst self) 0 0 (20 + length src * 110 div 100) =
      (Ok ([], \<lparr>sink_output = out, sink_pos = 0\<rparr>) :: (CompressError, bytes \<times> SliceSink) outcome)"
    and lo: "length out = 20 + length src * 110 div 100"
    using vec_sink_for_compression_ok [where ?'a = CompressError] unfolding out_def by blast+
  note G = get_maximum_output_size_eq [OF small(2), where ?'a = CompressError]
  have mono: "entries_below (fe_table self) (max 1 (?so + fe_src_end self))"
    using t(2) bounds(1) by (elim entries_below_mono) auto
  consider (dict) "fe_dict self \<noteq> [] \<and> (block_mode ?info = Independent \<or> fe_content_len self = 0)"
    | (ext) "\<not> (fe_dict self \<noteq> [] \<and> (block_mode ?info = Independent \<or> fe_content_len self = 0))" "fe_ext_dict_len self \<noteq> 0"
    | (plain) "\<not> (fe_dict self \<noteq> [] \<and> (block_mode ?info = Independent \<or> fe_content_len self = 0))" "fe_ext_dict_len self = 0"
    by metis
  then show thesis
  proof cases
    case dict
    then have d: "block_mode ?info = Independent \<or> h = []" using len by simp
    then have "fe_ext_dict_len self = 0"
      using b buffer_ok_start(2) [OF b] by (auto simp: buffer_ok_def)
    moreover have "block_history ?info (fe_dict self) h = fe_dict self" using d by (auto simp: block_history_def)
    moreover obtain blk tail s' where
      "compress_into_sink_with_dict True src \<lparr>sink_output = out, sink_pos = 0\<rparr> (fe_dict self) = Ok (length blk, s')"
      "sink_output s' = blk @ tail" "encodes (effective_dict True (fe_dict self)) src blk"
      by (rule compress_slice_ok [of True "fe_dict self" src out]) (use lo small(2) in simp_all)
    ultimately show thesis
      using that [of blk tail "fe_table self"] dict vs G t(1) mono effective_dict_decodes
      by (auto simp: compress_block_def encodes_def)
  next
    case ext
    with b have linked: "block_mode ?info = Linked" "window_of h (enc_ext self) (take ?p0 (fe_src self))"
      by (auto simp: buffer_ok_def split: if_splits)
    have w: "length (enc_ext self) \<le> WINDOW_SIZE"
      using b ext(2) linked(1) enc_ext_length [OF b] by (auto simp: buffer_ok_def)
    obtain blk tail s' t' where c:
      "compress_into_sink_with_table \<lparr>USE_DICT = True, HAS_OFFSET = True, READONLY = False, NEAR = False\<rparr>
         DEFAULT_NODICT_ENTRIES input ?p0 \<lparr>sink_output = out, sink_pos = 0\<rparr> (fe_table self) (enc_ext self) ?so = Ok (length blk, s', t')"
      "sink_output s' = blk @ tail" "lz4_block (enc_ext self) (take ?p0 input) blk input"
      "length t' = DEFAULT_NODICT_ENTRIES" "entries_below t' (max 1 (?so + length input))"
      by (rule compress_with_table_ok [OF t, of True "enc_ext self" input out])
        (use w x enc_ext_length [OF b] bounds li small lo in simp_all)
    have "window_of (fe_dict self @ h) (enc_ext self) (take ?p0 input)"
      using linked(2) bounds(1) by (auto simp: window_of_def input min_absorb1)
    from window_block [OF this c(3)] obtain c' where c': "input = take ?p0 input @ c'"
      "lz4_block (fe_dict self @ h) [] blk c'" .
    have "c' = src" using c'(1) by (metis append_eq_conv_conj append_take_drop_id input(2) same_append_eq)
    with c'(2) c linked(1) show thesis
      using that [of blk tail t'] ext vs G ext_slice [OF b ext(2), where ?'e = CompressError] li(1)
      by (auto simp: compress_block_def block_history_def)
  next
    case plain
    obtain blk tail s' t' where c:
      "compress_into_sink_with_table \<lparr>USE_DICT = False, HAS_OFFSET = True, READONLY = False, NEAR = False\<rparr>
         DEFAULT_NODICT_ENTRIES input ?p0 \<lparr>sink_output = out, sink_pos = 0\<rparr> (fe_table self) [] ?so = Ok (length blk, s', t')"
      "sink_output s' = blk @ tail" "lz4_block [] (take ?p0 input) blk input"
      "length t' = DEFAULT_NODICT_ENTRIES" "entries_below t' (max 1 (?so + length input))"
      by (rule compress_with_table_ok [OF t, of False "[]" input out]) (use x bounds li small lo in simp_all)
    have "window_of (block_history ?info (fe_dict self) h) [] (take ?p0 input)"
    proof (cases "block_mode ?info = Linked")
      case True
      then have "window_of h (enc_ext self) (take ?p0 (fe_src self))" using b by (simp add: buffer_ok_def)
      with plain(2) True bounds(1) show ?thesis
        by (auto simp: window_of_def input min_absorb1 enc_ext_def block_history_def)
    next
      case False
      with b have "?p0 = 0" by (simp add: buffer_ok_def)
      then show ?thesis by (simp add: window_of_def)
    qed
    from window_block [OF this c(3)] obtain c' where c': "input = take ?p0 input @ c'"
      "lz4_block (block_history ?info (fe_dict self) h) [] blk c'" .
    have "c' = src" using c'(1) by (metis append_eq_conv_conj append_take_drop_id input(2) same_append_eq)
    with c'(2) c show thesis
      using that [of blk tail t'] plain vs G li(1) by (auto simp: compress_block_def)
  qed
qed

section \<open>The buffer after a block\<close>

lemma window_of_suffix: "window_of h d p \<Longrightarrow> window_of h (drop k d) p"
  unfolding window_of_def by (metis append.assoc append_take_drop_id)

lemma advance_linked_ok:
  assumes L: "block_mode (fe_frame_info self) = Linked"
    and e: "fe_src_start self = e" "fe_src_end self = e" "e \<le> length (fe_src self)"
      "e < 2 * enc_block_size self + WINDOW_SIZE"
    and w: "window_of h (enc_ext self) (take e (fe_src self))"
    and x: "fe_ext_dict_len self \<noteq> 0 \<Longrightarrow> fe_ext_dict_offset self + fe_ext_dict_len self \<le> length (fe_src self) \<and>
      enc_block_size self + WINDOW_SIZE \<le> fe_ext_dict_offset self + fe_ext_dict_len self \<and>
      WINDOW_SIZE < e + fe_ext_dict_len self"
    and t: "length (fe_table self) = DEFAULT_NODICT_ENTRIES"
      "entries_below (fe_table self) (max 1 (fe_src_stream_offset self + e))"
      "fe_ext_dict_len self \<le> fe_src_stream_offset self" "fe_src_stream_offset self < 2 ^ 31"
  obtains xo xl so st where
    "advance_linked (enc_block_size self) self = Ok (self\<lparr>fe_ext_dict_offset := xo, fe_ext_dict_len := xl,
       fe_src_stream_offset := so, fe_src_start := st, fe_src_end := st\<rparr>)"
    "buffer_ok h (self\<lparr>fe_ext_dict_offset := xo, fe_ext_dict_len := xl,
       fe_src_stream_offset := so, fe_src_start := st, fe_src_end := st\<rparr>)"
    "table_ok (self\<lparr>fe_ext_dict_offset := xo, fe_ext_dict_len := xl,
       fe_src_stream_offset := so, fe_src_start := st, fe_src_end := st\<rparr>)"
proof -
  let ?B = "enc_block_size self" and ?so = "fe_src_stream_offset self"
  let ?xo = "fe_ext_dict_offset self" and ?xl = "fe_ext_dict_len self"
  have B: "?B \<le> 4194304" by (rule max_block_size_bounds)
  consider (full) "?B + WINDOW_SIZE \<le> e" | (shift) "e < ?B + WINDOW_SIZE" "WINDOW_SIZE < e + ?xl"
    | (keep) "e < ?B + WINDOW_SIZE" "e + ?xl \<le> WINDOW_SIZE" by linarith
  then show thesis
  proof cases
    case full
    let ?s = "self\<lparr>fe_ext_dict_offset := e - WINDOW_SIZE, fe_ext_dict_len := WINDOW_SIZE,
      fe_src_stream_offset := ?so + e, fe_src_start := 0, fe_src_end := 0\<rparr>"
    have "take e (fe_src self) = take (e - WINDOW_SIZE) (fe_src self) @ enc_ext ?s"
      using full e(3) by (simp add: enc_ext_def flip: take_add)
    then have "window_of h (enc_ext ?s) (take 0 (fe_src self))"
      using w unfolding window_of_def by (metis append.assoc append_Nil2 take_0)
    then have "buffer_ok h ?s" using L e full B by (simp add: buffer_ok_def)
    moreover have "table_ok ?s" using t e(4) B full by (simp add: table_ok_def)
    ultimately show thesis
      using that [of 0 "?so + e" WINDOW_SIZE "e - WINDOW_SIZE"] full e(1,2) by (simp add: advance_linked_def usub_ok)
  next
    case shift
    define d where "d = min ?xl (e + ?xl - WINDOW_SIZE)"
    let ?s = "self\<lparr>fe_ext_dict_offset := ?xo + d, fe_ext_dict_len := ?xl - d,
      fe_src_stream_offset := ?so, fe_src_start := e, fe_src_end := e\<rparr>"
    have d: "WINDOW_SIZE \<le> e + (?xl - d)" "?xl - d \<noteq> 0 \<Longrightarrow> e + (?xl - d) = WINDOW_SIZE" "d \<le> ?xl"
      using shift(2) by (auto simp: d_def)
    have "enc_ext ?s = drop d (enc_ext self)" by (simp add: enc_ext_def drop_take add.commute)
    then have win: "window_of h (enc_ext ?s) (take e (fe_src self))" using w window_of_suffix by simp
    have pos: "?xo + d + (?xl - d) \<le> length (fe_src self)" "e + ?B \<le> ?xo + d"
      "?B + WINDOW_SIZE \<le> ?xo + d + (?xl - d)" if "?xl - d \<noteq> 0"
      using x d that by auto
    have "buffer_ok h ?s" using L e win shift(1) d pos by (simp add: buffer_ok_def)
    moreover have "table_ok ?s" using t by (simp add: table_ok_def)
    moreover have "advance_linked ?B self = Ok ?s"
    proof -
      have m: "min ?xl (fe_src_start self + ?xl - WINDOW_SIZE) = d" by (simp only: d_def e(1))
      have s: "self\<lparr>fe_ext_dict_offset := ?xo + d, fe_ext_dict_len := ?xl - d\<rparr> = ?s" using e(1,2) by simp
      have c: "\<not> ?B + WINDOW_SIZE \<le> fe_src_start self" "WINDOW_SIZE < fe_src_start self + ?xl"
        using shift e(1) by simp_all
      have "?xl - d = 0 \<or> e + ?B \<le> ?xo + d" using pos(2) by blast
      then have "advance_linked ?B self = Ok (self\<lparr>fe_ext_dict_offset := ?xo + d, fe_ext_dict_len := ?xl - d\<rparr>)"
        unfolding advance_linked_def Let_def if_not_P [OF c(1)] if_P [OF c(2)] m using d(1) e(1) by simp
      then show ?thesis by (rule trans) (rule arg_cong [OF s])
    qed
    ultimately show thesis by (rule that [rotated])
  next
    case keep
    then have z: "?xl = 0" using x by auto
    let ?s = "self\<lparr>fe_ext_dict_offset := ?xo, fe_ext_dict_len := ?xl,
      fe_src_stream_offset := ?so, fe_src_start := e, fe_src_end := e\<rparr>"
    have "enc_ext ?s = enc_ext self" by (simp add: enc_ext_def)
    then have "buffer_ok h ?s" using L e w keep(1) z by (simp add: buffer_ok_def)
    moreover have "table_ok ?s" using t by (simp add: table_ok_def)
    moreover have "?s = self" using e(1,2) by simp
    ultimately show thesis
      using that [of e ?so ?xl ?xo] keep z e(1,2) by (simp add: advance_linked_def)
  qed
qed

section \<open>Writing a block\<close>

text \<open>Whichever form of the block is shorter, it stands for the input.\<close>

lemma block_choice:
  assumes "lz4_block (block_history info dict h) [] blk src" "length src \<le> max_block_size (block_size info)"
  obtains bi data where
    "choose_block (length blk) (blk @ tail) src = (Ok (bi, data) :: ('e, _) outcome)"
    "block_info_ok bi" "block_content info dict h bi data src" "length data \<le> max_block_size (block_size info)"
proof -
  have small: "length src < 2 ^ 31" using assms(2) max_block_size_bounds(1) [of "block_size info"] by simp
  show thesis
  proof (cases "length blk < length src")
    case True
    then have u: "unat (word_of_nat (length blk) :: 32 word) = length blk" using small by (simp add: unat_of_nat)
    moreover have "length blk \<noteq> 0" using lz4_block_nonempty [OF assms(1)] by simp
    ultimately have "(word_of_nat (length blk) :: 32 word) \<noteq> 0" by (metis unsigned_0)
    with that [of "Compressed (word_of_nat (length blk))" blk] True u small assms show thesis
      by (simp add: sub_slice_def choose_block_def)
  next
    case False
    have "unat (word_of_nat (length src) :: 32 word) = length src" using small by (simp add: unat_of_nat)
    with that [of "Uncompressed (word_of_nat (length src))" src] False small assms(2) show thesis
      by (simp add: choose_block_def)
  qed
qed

lemma BlockInfo_write_ok:
  "block_info_ok bi \<Longrightarrow> BlockInfo_write bi (replicate BLOCK_INFO_SIZE 0) = Ok (4, le_of_word 4 (block_info_word bi))"
  by (simp add: BlockInfo_write_eq)

lemma seed_table_ok:
  assumes "length t = DEFAULT_NODICT_ENTRIES" "entries_below t n" "so + length src \<le> n"
  obtains t' where "seed_table_with_input DEFAULT_NODICT_ENTRIES t src so = Ok t'"
    "length t' = DEFAULT_NODICT_ENTRIES" "entries_below t' n"
proof -
  have "length t = DEFAULT_NODICT_ENTRIES \<and> 0 < DEFAULT_NODICT_ENTRIES" using assms(1) default_entries_pos by simp
  from u32.put_every_third_ok [where N = DEFAULT_NODICT_ENTRIES, OF this assms(2,3), of 0] that show thesis
    by (auto simp: seed_table_with_input_def)
qed

text \<open>What is left of the block once it is written: the counts and the buffer.\<close>

definition after_block :: "('h, 'w) FrameEncoder \<Rightarrow> ('h, 'w) FrameEncoder \<Rightarrow> bool" where
  "after_block self self' \<longleftrightarrow> same_frame self self' \<and> fe_w self' = fe_w self \<and> fe_hasher self' = fe_hasher self \<and>
     fe_content_len self' = fe_content_len self \<and> fe_src_start self' = fe_src_end self'"

lemma advance_ok:
  assumes b: "buffer_ok h self0" and n: "fe_src_start self0 < fe_src_end self0"
    and t: "length t = DEFAULT_NODICT_ENTRIES" "entries_below t (max 1 (so + fe_src_end self0))"
      "fe_ext_dict_len self0 \<le> so" "so < 2 ^ 31"
    and self: "self = self0\<lparr>fe_src_stream_offset := so, fe_table := t, fe_dst := dst, fe_w := w, fe_hasher := hs,
      fe_content_len := cl, fe_src_start := fe_src_end self0\<rparr>"
  obtains self' where
    "(if block_mode (fe_frame_info self0) = Linked then advance_linked (enc_block_size self0) self
      else advance_independent (length (pending self0)) self) = (Ok self' :: ('e, ('h, 'w) FrameEncoder) outcome)"
    "buffer_ok (h @ pending self0) self'" "table_ok self'" "after_block self self'"
proof -
  let ?e = "fe_src_end self0"
  have e: "?e \<le> length (fe_src self0)" "?e - fe_src_start self0 \<le> enc_block_size self0" using b by (auto simp: buffer_ok_def)
  show thesis
  proof (cases "block_mode (fe_frame_info self0) = Linked")
    case True
    have w: "window_of h (enc_ext self0) (take (fe_src_start self0) (fe_src self0))"
      and st: "fe_src_start self0 < enc_block_size self0 + WINDOW_SIZE"
      and x: "fe_ext_dict_len self0 \<noteq> 0 \<longrightarrow> fe_ext_dict_offset self0 + fe_ext_dict_len self0 \<le> length (fe_src self0) \<and>
        enc_block_size self0 + WINDOW_SIZE \<le> fe_ext_dict_offset self0 + fe_ext_dict_len self0 \<and>
        fe_src_start self0 + fe_ext_dict_len self0 = WINDOW_SIZE"
      using b True by (auto simp: buffer_ok_def)
    have "take ?e (fe_src self0) = take (fe_src_start self0) (fe_src self0) @ pending self0"
      using n by (simp add: pending_def flip: take_add)
    then have "window_of (h @ pending self0) (enc_ext self0) (take ?e (fe_src self0))"
      using w by (auto simp: window_of_def)
    moreover have "enc_ext self = enc_ext self0" by (simp add: enc_ext_def self)
    ultimately have win: "window_of (h @ pending self0) (enc_ext self) (take ?e (fe_src self))" by (simp add: self)
    obtain xo xl so' st' where a: "advance_linked (enc_block_size self) self = (Ok (self\<lparr>fe_ext_dict_offset := xo,
         fe_ext_dict_len := xl, fe_src_stream_offset := so', fe_src_start := st', fe_src_end := st'\<rparr>) :: ('e, ('h, 'w) FrameEncoder) outcome)"
      "buffer_ok (h @ pending self0) (self\<lparr>fe_ext_dict_offset := xo, fe_ext_dict_len := xl,
         fe_src_stream_offset := so', fe_src_start := st', fe_src_end := st'\<rparr>)"
      "table_ok (self\<lparr>fe_ext_dict_offset := xo, fe_ext_dict_len := xl,
         fe_src_stream_offset := so', fe_src_start := st', fe_src_end := st'\<rparr>)"
      by (rule advance_linked_ok [OF _ _ _ _ _ win]) (use True e st x n t in \<open>auto simp: self\<close>)
    have "enc_block_size self = enc_block_size self0" by (simp add: self)
    then have 1: "(if block_mode (fe_frame_info self0) = Linked then advance_linked (enc_block_size self0) self
        else advance_independent (length (pending self0)) self) = (Ok (self\<lparr>fe_ext_dict_offset := xo,
         fe_ext_dict_len := xl, fe_src_stream_offset := so', fe_src_start := st', fe_src_end := st'\<rparr>) :: ('e, ('h, 'w) FrameEncoder) outcome)"
      using a(1) True by simp
    show thesis by (rule that [OF 1 a(2,3)]) (simp add: after_block_def same_frame_def)
  next
    case False
    then have z: "fe_src_start self0 = 0" "fe_ext_dict_len self0 = 0" using b by (auto simp: buffer_ok_def)
    have p: "length (pending self0) = ?e" using e z n by (simp add: pending_def)
    let ?s = "self\<lparr>fe_src_start := 0, fe_src_end := 0, fe_src_stream_offset := so + ?e\<rparr>"
    have "advance_independent (length (pending self0)) self = (Ok ?s :: ('e, ('h, 'w) FrameEncoder) outcome)"
      using z p by (simp add: advance_independent_def self)
    moreover have "buffer_ok (h @ pending self0) ?s" using False z by (simp add: buffer_ok_def self)
    moreover have "table_ok ?s"
      using t z e(2) max_block_size_bounds(1) [of "block_size (fe_frame_info self0)"] by (simp add: table_ok_def self)
    moreover have "after_block self ?s" by (simp add: after_block_def same_frame_def)
    ultimately show thesis using that False by simp
  qed
qed

text \<open>
  XxHash32 has two interfaces, which give the same hash.  The encoder uses one for the checksum
  of a block, the decoder the other.
\<close>

definition oneshot_consistent :: "'h hasher \<Rightarrow> bool" where
  "oneshot_consistent H \<longleftrightarrow> (\<forall>data. oneshot H 0 data = block_checksum H data)"

lemma pending_slices:
  assumes "buffer_ok h self"
  shows "usub (fe_src_end self) (fe_src_start self) = Ok (fe_src_end self - fe_src_start self)"
    "sub_slice (fe_src self) 0 (fe_src_end self) = Ok (take (fe_src_end self) (fe_src self))"
    "sub_slice (take (fe_src_end self) (fe_src self)) (fe_src_start self) (length (take (fe_src_end self) (fe_src self))) =
      Ok (pending self)"
    "pending self = drop (fe_src_start self) (take (fe_src_end self) (fe_src self))"
    "length (pending self) = fe_src_end self - fe_src_start self"
    "fe_src_start self + length (pending self) = fe_src_end self"
    "length (pending self) \<le> enc_block_size self"
  using assms by (auto simp: buffer_ok_def usub_def sub_slice_def pending_def drop_take min_absorb1)

text \<open>The state a block is compressed in and the block that comes out of it.\<close>

lemma block_step:
  assumes b: "buffer_ok h self" and t: "table_ok self" and len: "fe_content_len self = length h"
    and e: "block_size (fe_frame_info self) \<noteq> Auto" and so0: "h = [] \<longrightarrow> fe_src_stream_offset self = 0"
  obtains t1 so self1 blk tail t2 bi data t3 where
    "self1 = self\<lparr>fe_table := t1, fe_src_stream_offset := so\<rparr>"
    "reposition (enc_block_size self) self = (Ok self1 :: ('e, _) outcome)"
    "compress_block self1 (take (fe_src_end self) (fe_src self)) (pending self) = Ok (length blk, blk @ tail, t2)"
    "choose_block (length blk) (blk @ tail) (pending self) = (Ok (bi, data) :: ('e, _) outcome)"
    "block_info_ok bi" "block_content (fe_frame_info self) (fe_dict self) h bi data (pending self)"
    "length data \<le> enc_block_size self"
    "block_mode (fe_frame_info self) = Linked \<and> fe_dict self \<noteq> [] \<and> fe_content_len self = 0 \<Longrightarrow>
      seed_table_with_input DEFAULT_NODICT_ENTRIES t2 (pending self) so = Ok t3"
    "\<not> (block_mode (fe_frame_info self) = Linked \<and> fe_dict self \<noteq> [] \<and> fe_content_len self = 0) \<Longrightarrow> t3 = t2"
    "length t3 = DEFAULT_NODICT_ENTRIES" "entries_below t3 (max 1 (so + fe_src_end self))"
    "fe_ext_dict_len self \<le> so" "so < 2 ^ 31"
proof -
  obtain t1 so where r: "reposition (enc_block_size self) self =
      (Ok (self\<lparr>fe_table := t1, fe_src_stream_offset := so\<rparr>) :: ('e, _) outcome)"
    "length t1 = DEFAULT_NODICT_ENTRIES" "entries_below t1 (max 1 (so + fe_src_start self))"
    "fe_ext_dict_len self \<le> so" "so < 2 ^ 31"
    by (rule reposition_ok [OF t b e])
  define self1 where "self1 = self\<lparr>fe_table := t1, fe_src_stream_offset := so\<rparr>"
  have same: "fe_src self1 = fe_src self" "fe_src_start self1 = fe_src_start self" "fe_src_end self1 = fe_src_end self"
    "fe_frame_info self1 = fe_frame_info self" "fe_dict self1 = fe_dict self" "fe_table self1 = t1"
    "fe_src_stream_offset self1 = so" "fe_content_len self1 = fe_content_len self" "pending self1 = pending self"
    "fe_ext_dict_len self1 = fe_ext_dict_len self"
    by (simp_all add: self1_def pending_def)
  have "buffer_ok h self1 = buffer_ok h self" by (simp add: buffer_ok_def self1_def enc_ext_def)
  with b have b1: "buffer_ok h self1" by simp
  obtain blk tail t2 where c: "compress_block self1 (take (fe_src_end self) (fe_src self)) (pending self) =
      Ok (length blk, blk @ tail, t2)"
    "lz4_block (block_history (fe_frame_info self1) (fe_dict self1) h) [] blk (pending self)"
    "length t2 = DEFAULT_NODICT_ENTRIES" "entries_below t2 (max 1 (fe_src_stream_offset self1 + fe_src_end self1))"
    by (rule compress_block_ok [OF b1, of "take (fe_src_end self) (fe_src self)" "pending self"])
      (use r len same pending_slices(4) [OF b] in simp_all)
  obtain bi data where d: "choose_block (length blk) (blk @ tail) (pending self) = (Ok (bi, data) :: ('e, _) outcome)"
    "block_info_ok bi" "block_content (fe_frame_info self) (fe_dict self) h bi data (pending self)"
    "length data \<le> enc_block_size self"
    by (rule block_choice [OF c(2) [unfolded same] pending_slices(7) [OF b], of tail])
  let ?first = "block_mode (fe_frame_info self) = Linked \<and> fe_dict self \<noteq> [] \<and> fe_content_len self = 0"
  obtain t3 where t3: "?first \<Longrightarrow> seed_table_with_input DEFAULT_NODICT_ENTRIES t2 (pending self) so = Ok t3"
    "\<not> ?first \<Longrightarrow> t3 = t2" "length t3 = DEFAULT_NODICT_ENTRIES" "entries_below t3 (max 1 (so + fe_src_end self))"
  proof (cases ?first)
    case True
    obtain t' where "seed_table_with_input DEFAULT_NODICT_ENTRIES t2 (pending self) so = Ok t'"
      "length t' = DEFAULT_NODICT_ENTRIES" "entries_below t' (max 1 (so + fe_src_end self))"
      by (rule seed_table_ok [OF c(3), of "max 1 (so + fe_src_end self)" so "pending self"])
        (use c(4) same pending_slices(5) [OF b] in auto)
    with True that show thesis by blast
  next
    case False
    show thesis by (rule that [of t2]) (use False c(3,4) same in simp_all)
  qed
  show thesis
    by (rule that [OF self1_def r(1) [folded self1_def] c(1) d t3 r(4,5)])
qed

context writer
begin

lemma write_block_ok:
  fixes self :: "('h, 'w) FrameEncoder"
  assumes I: "between_blocks H h s self" and op: "fe_is_frame_open self" and ne: "pending self \<noteq> []"
    and len: "length h + length (pending self) < 2 ^ 64"
    and one: "block_checksums (fe_frame_info self) \<longrightarrow> oneshot_consistent H"
  obtains self' w where "write_block H W self = Ok self'" "written (fe_w self') = written (fe_w self) @ w"
    "frame_block H (fe_frame_info self) (fe_dict self) h w (pending self)"
    "between_blocks H (h @ pending self) (hash_content H (fe_frame_info self) s (pending self)) self'"
    "pending self' = []" "same_frame self self'"
proof -
  let ?info = "fe_frame_info self" and ?src = "pending self"
  have b: "buffer_ok h self" and t: "table_ok self" and cl: "fe_content_len self = length h"
    and e: "block_size ?info \<noteq> Auto" and s: "fe_hasher self = s" and z: "h = [] \<longrightarrow> fe_src_stream_offset self = 0"
    using I by (auto simp: between_blocks_def)
  note P = pending_slices [OF b]
  obtain t1 so self1 blk tail t2 bi data t3 where B:
    "self1 = self\<lparr>fe_table := t1, fe_src_stream_offset := so\<rparr>"
    "reposition (enc_block_size self) self = (Ok self1 :: (io_error \<times> ('h, 'w) FrameEncoder, _) outcome)"
    "compress_block self1 (take (fe_src_end self) (fe_src self)) ?src = Ok (length blk, blk @ tail, t2)"
    "choose_block (length blk) (blk @ tail) ?src = (Ok (bi, data) :: (io_error \<times> ('h, 'w) FrameEncoder, _) outcome)"
    "block_info_ok bi" "block_content ?info (fe_dict self) h bi data ?src" "length data \<le> enc_block_size self"
    "block_mode ?info = Linked \<and> fe_dict self \<noteq> [] \<and> fe_content_len self = 0 \<Longrightarrow>
      seed_table_with_input DEFAULT_NODICT_ENTRIES t2 ?src so = Ok t3"
    "\<not> (block_mode ?info = Linked \<and> fe_dict self \<noteq> [] \<and> fe_content_len self = 0) \<Longrightarrow> t3 = t2"
    "length t3 = DEFAULT_NODICT_ENTRIES" "entries_below t3 (max 1 (so + fe_src_end self))"
    "fe_ext_dict_len self \<le> so" "so < 2 ^ 31"
    by (rule block_step [OF b t cl e z]) (rule that)
  let ?IB = "le_of_word 4 (block_info_word bi)"
  let ?sum = "if block_checksums ?info then le_of_word 4 (oneshot H 0 data) else []"
  obtain w1 where w1: "write_all W (fe_w self) ?IB = (None, w1)" "written w1 = written (fe_w self) @ ?IB"
    using write_all_ok by blast
  obtain w2 where w2: "write_all W w1 data = (None, w2)" "written w2 = written (fe_w self) @ ?IB @ data"
    using write_all_ok [of w1 data] w1(2) by auto
  obtain w3 where w3: "block_checksums ?info \<Longrightarrow> write_all W w2 (le_of_word 4 (oneshot H 0 data)) = (None, w3)"
    "\<not> block_checksums ?info \<Longrightarrow> w3 = w2" "written w3 = written (fe_w self) @ ?IB @ data @ ?sum"
    using write_all_ok [of w2 "le_of_word 4 (oneshot H 0 data)"] w2(2) by (cases "block_checksums ?info") auto
  define self8 where "self8 = self\<lparr>fe_src_stream_offset := so, fe_table := t3, fe_dst := blk @ tail, fe_w := w3,
    fe_hasher := hash_content H ?info s ?src, fe_content_len := length h + length ?src, fe_src_start := fe_src_end self\<rparr>"
  have lt: "fe_src_start self < fe_src_end self" using ne P(5) by (cases "fe_src_start self < fe_src_end self") auto
  obtain self' where A: "(if block_mode ?info = Linked then advance_linked (enc_block_size self) self8
      else advance_independent (length ?src) self8) = (Ok self' :: (io_error \<times> ('h, 'w) FrameEncoder, _) outcome)"
    "buffer_ok (h @ ?src) self'" "table_ok self'" "after_block self8 self'"
    by (rule advance_ok [OF b lt B(10-13) self8_def])
  define self3 where "self3 = self1\<lparr>fe_dst := blk @ tail, fe_table := t3\<rparr>"
  have seed: "seed_first_block (self1\<lparr>fe_dst := blk @ tail, fe_table := t2\<rparr>) ?src = Ok self3"
    using B(8,9) by (auto simp: seed_first_block_def lift_def self3_def B(1))
  have put: "put_block H W self3 bi data = Ok (self3\<lparr>fe_w := w3\<rparr>)"
    using w1(1) w2(1) w3(1,2) BlockInfo_write_ok [OF B(5)]
    by (auto simp: put_block_def lift_def w_all_def self3_def B(1))
  have count: "count_block H (self3\<lparr>fe_w := w3\<rparr>) ?src = Ok self8"
    using cl s P(6) len by (auto simp: count_block_def self8_def self3_def B(1) hash_content_def Let_def)
  have f1: "fe_src self1 = fe_src self" "fe_src_start self1 = fe_src_start self" "fe_src_end self1 = fe_src_end self"
    by (simp_all add: B(1))
  have f8: "fe_frame_info self8 = ?info" by (simp add: self8_def)
  have fin: "fe_src_start self' \<le> fe_src_end self'" using A(4) by (simp add: after_block_def)
  have fit: "(\<not> fe_src_end self - fe_src_start self \<le> enc_block_size self) = False" using P(5,7) by simp
  have "write_block H W self = Ok self'"
    using op fin
    by (simp only: write_block_def not_True_eq_False if_False get_size_eq [OF e] obind.simps P(1-3) B(2) f1 B(3)
      lift_def map_err.simps prod.case B(4) seed put count f8 A(1) fit if_True)
  moreover have "written (fe_w self') = written (fe_w self) @ ?IB @ data @ ?sum"
    using A(4) w3(3) by (simp add: after_block_def self8_def)
  moreover have "?sum = block_trailer H ?info data" using one by (simp add: block_trailer_def oneshot_consistent_def)
  then have "frame_block H ?info (fe_dict self) h (?IB @ data @ ?sum) ?src"
    unfolding frame_block_def using B(5-7) P(7) by (intro exI [of _ bi] exI [of _ data]) simp
  moreover have "same_frame self self'" using A(4) by (simp add: after_block_def same_frame_def self8_def)
  moreover have "pending self' = []" using A(4) by (simp add: after_block_def pending_def)
  moreover have "between_blocks H (h @ ?src) (hash_content H ?info s ?src) self'"
    using A(2-4) e len ne by (simp add: between_blocks_def after_block_def same_frame_def self8_def)
  ultimately show thesis using that by blast
qed

end

section \<open>Filling the buffer\<close>

lemma fill_buffer:
  assumes I: "between_blocks H h s self" and k: "length bs \<le> enc_block_size self - (fe_src_end self - fe_src_start self)"
    and self': "self' = self\<lparr>fe_src := take (fe_src_end self) (fe_src self) @ bs @ drop (fe_src_end self + length bs) (fe_src self),
      fe_src_end := fe_src_end self + length bs\<rparr>"
  shows "between_blocks H h s self'" "pending self' = pending self @ bs" "same_frame self self'" "fe_w self' = fe_w self"
proof -
  let ?e = "fe_src_end self" and ?st = "fe_src_start self" and ?v = "fe_src self"
  let ?v' = "take ?e ?v @ bs @ drop (?e + length bs) ?v"
  have b: "?st \<le> ?e" "?e \<le> length ?v" "?e - ?st \<le> enc_block_size self" using I by (auto simp: between_blocks_def buffer_ok_def)
  have st: "take ?st ?v' = take ?st ?v" using b by simp
  have ext: "enc_ext self' = enc_ext self"
    if "fe_ext_dict_len self \<noteq> 0 \<longrightarrow> ?st + enc_block_size self \<le> fe_ext_dict_offset self"
  proof (cases "fe_ext_dict_len self = 0")
    case True
    then show ?thesis by (simp add: enc_ext_def self')
  next
    case False
    with that k b have "?e + length bs \<le> fe_ext_dict_offset self" by simp
    then show ?thesis using b(2) by (simp add: enc_ext_def self')
  qed
  have "buffer_ok h self'"
  proof (cases "block_mode (fe_frame_info self) = Linked")
    case True
    have "length ?v \<le> length ?v'" by simp
    with True I ext st b k show ?thesis by (auto simp: between_blocks_def buffer_ok_def self')
  next
    case False
    with I b k show ?thesis by (auto simp: between_blocks_def buffer_ok_def self')
  qed
  then show "between_blocks H h s self'" using I by (simp add: between_blocks_def table_ok_def self')
  show "pending self' = pending self @ bs"
    using b by (simp add: pending_def self' drop_take)
  show "same_frame self self'" "fe_w self' = fe_w self" by (simp_all add: self' same_frame_def)
qed

section \<open>An open frame\<close>

text \<open>
  What the writer has received of an open frame, after the bytes \<open>pre\<close>: the header and the
  blocks; the content so far is in the blocks or waits in the buffer.
\<close>

context writer
begin

definition in_frame :: "'h hasher \<Rightarrow> bytes \<Rightarrow> bytes \<Rightarrow> ('h, 'w) FrameEncoder \<Rightarrow> bool" where
  "in_frame H pre content self \<longleftrightarrow> fe_is_frame_open self \<and> length content < 2 ^ 64 \<and>
     (block_checksums (fe_frame_info self) \<longrightarrow> oneshot_consistent H) \<and>
     (\<exists>ws h s. written (fe_w self) = pre @ header_bytes H (fe_frame_info self) @ ws \<and>
        frame_blocks H (fe_frame_info self) (fe_dict self) [] (with_seed H 0) ws h s \<and>
        between_blocks H h s self \<and> content = h @ pending self)"

lemma in_frame_buffer: "in_frame H pre content self \<Longrightarrow>
    block_size (fe_frame_info self) \<noteq> Auto \<and> fe_src_start self \<le> fe_src_end self \<and> fe_src_end self \<le> length (fe_src self) \<and>
    fe_src_end self - fe_src_start self \<le> enc_block_size self \<and> length (pending self) = fe_src_end self - fe_src_start self"
  by (auto simp: in_frame_def between_blocks_def buffer_ok_def pending_def)

lemma in_frame_block:
  assumes "in_frame H pre content self" "pending self \<noteq> []"
  obtains self' where "write_block H W self = Ok self'" "in_frame H pre content self'" "pending self' = []"
    "same_frame self self'"
proof -
  obtain ws h s where F: "fe_is_frame_open self" "block_checksums (fe_frame_info self) \<longrightarrow> oneshot_consistent H"
    "written (fe_w self) = pre @ header_bytes H (fe_frame_info self) @ ws"
    "frame_blocks H (fe_frame_info self) (fe_dict self) [] (with_seed H 0) ws h s"
    "between_blocks H h s self" "content = h @ pending self" "length (h @ pending self) < 2 ^ 64"
    using assms(1) by (auto simp: in_frame_def)
  have len: "length h + length (pending self) < 2 ^ 64" using F(7) by simp
  obtain self' w where w: "write_block H W self = Ok self'" "written (fe_w self') = written (fe_w self) @ w"
    "frame_block H (fe_frame_info self) (fe_dict self) h w (pending self)"
    "between_blocks H (h @ pending self) (hash_content H (fe_frame_info self) s (pending self)) self'"
    "pending self' = []" "same_frame self self'"
    by (rule write_block_ok [OF F(5,1) assms(2) len F(2)])
  from frame_blocks_snoc [OF F(4) w(3)] have "in_frame H pre content self'"
    unfolding in_frame_def using F w
    by (intro conjI exI [of _ "ws @ w"] exI [of _ "h @ pending self"]
        exI [of _ "hash_content H (fe_frame_info self) s (pending self)"]) (auto simp: same_frame_def)
  with w that show thesis by blast
qed

lemma in_frame_fill:
  assumes "in_frame H pre content self" "length bs \<le> enc_block_size self - (fe_src_end self - fe_src_start self)"
    "length content + length bs < 2 ^ 64"
    "self' = self\<lparr>fe_src := take (fe_src_end self) (fe_src self) @ bs @ drop (fe_src_end self + length bs) (fe_src self),
      fe_src_end := fe_src_end self + length bs\<rparr>"
  shows "in_frame H pre (content @ bs) self'" "same_frame self self'"
proof -
  obtain ws h s where F: "fe_is_frame_open self" "block_checksums (fe_frame_info self) \<longrightarrow> oneshot_consistent H"
    "written (fe_w self) = pre @ header_bytes H (fe_frame_info self) @ ws"
    "frame_blocks H (fe_frame_info self) (fe_dict self) [] (with_seed H 0) ws h s"
    "between_blocks H h s self" "content = h @ pending self"
    using assms(1) by (auto simp: in_frame_def)
  note fill = fill_buffer [OF F(5) assms(2,4)]
  show "in_frame H pre (content @ bs) self'"
    unfolding in_frame_def using F fill assms(3)
    by (intro conjI exI [of _ ws] exI [of _ h] exI [of _ s]) (auto simp: same_frame_def)
  show "same_frame self self'" by (rule fill(3))
qed

lemma write_loop_ok:
  assumes "in_frame H pre content self" "length content + length buf < 2 ^ 64"
    "2 * length buf + (if fe_src_end self - fe_src_start self = enc_block_size self then 1 else 0) < fuel"
  obtains self' where "write_loop fuel H W self buf = Ok self'" "in_frame H pre (content @ buf) self'" "same_frame self self'"
  using assms
proof (induction fuel arbitrary: self buf content thesis)
  case 0
  then show ?case by simp
next
  case (Suc fuel)
  let ?B = "enc_block_size self" and ?n = "fe_src_end self - fe_src_start self"
  have B: "block_size (fe_frame_info self) \<noteq> Auto" "fe_src_start self \<le> fe_src_end self" "fe_src_end self \<le> length (fe_src self)"
    "?n \<le> ?B" "length (pending self) = ?n"
    using in_frame_buffer [OF Suc.prems(2)] by auto
  have "0 < ?B" using max_block_size_bounds(2) [OF B(1)] by simp
  show ?case
  proof (cases "buf = []")
    case True
    with Suc.prems(1) [of self] Suc.prems(2) show ?thesis by simp
  next
    case ne: False
    note step = get_size_eq [OF B(1)] usub_ok [OF B(2)] usub_ok [OF B(4)]
    show ?thesis
    proof (cases "?n = ?B")
      case True
      then have p: "pending self \<noteq> []" using B(5) \<open>0 < ?B\<close> by auto
      obtain self1 where s1: "write_block H W self = Ok self1" "in_frame H pre content self1" "pending self1 = []"
        "same_frame self self1" by (rule in_frame_block [OF Suc.prems(2) p])
      have e: "fe_src_end self1 = fe_src_start self1" using in_frame_buffer [OF s1(2)] s1(3) by auto
      have "0 < enc_block_size self1" using s1(4) \<open>0 < ?B\<close> by (simp add: same_frame_def)
      then have m: "2 * length buf + (if fe_src_end self1 - fe_src_start self1 = enc_block_size self1 then 1 else 0) < fuel"
        using Suc.prems(4) True e by simp
      obtain self' where "write_loop fuel H W self1 buf = Ok self'" "in_frame H pre (content @ buf) self'" "same_frame self1 self'"
        by (rule Suc.IH [OF _ s1(2) Suc.prems(3) m])
      with Suc.prems(1) [of self'] same_frame_trans [OF s1(4)] show ?thesis
        using ne True s1(1) e by (simp add: step usub_ok)
    next
      case False
      define k where "k = min (?B - ?n) (length buf)"
      have k: "0 < k" "k \<le> length buf" "k \<le> ?B - ?n" using False B(4) ne by (auto simp: k_def)
      define self1 where "self1 = self\<lparr>fe_src := take (fe_src_end self) (fe_src self) @ take k buf @
        drop (fe_src_end self + length (take k buf)) (fe_src self), fe_src_end := fe_src_end self + length (take k buf)\<rparr>"
      have lk: "length (take k buf) = k" using k(2) by simp
      have "length (take k buf) \<le> ?B - ?n" "length content + length (take k buf) < 2 ^ 64" using k lk Suc.prems(3) by simp_all
      note fill = in_frame_fill [OF Suc.prems(2) this self1_def]
      have len: "length (content @ take k buf) + length (drop k buf) < 2 ^ 64" using Suc.prems(3) k(2) by simp
      have m: "2 * length (drop k buf) + (if fe_src_end self1 - fe_src_start self1 = enc_block_size self1 then 1 else 0) < fuel"
        using Suc.prems(4) k by auto
      obtain self' where "write_loop fuel H W self1 (drop k buf) = Ok self'"
        "in_frame H pre ((content @ take k buf) @ drop k buf) self'" "same_frame self1 self'"
        by (rule Suc.IH [OF _ fill(1) len m])
      moreover have "write_loop (Suc fuel) H W self buf = write_loop fuel H W self1 (drop k buf)"
        using ne False k lk B(3,4)
        by (simp add: step vec_copy_overwriting_ok k_def [symmetric] self1_def Let_def)
      ultimately show ?thesis
        using Suc.prems(1) [of self'] same_frame_trans [OF fill(2)] by simp
    qed
  qed
qed

lemma in_frame_failed [simp]: "in_frame H pre content (self\<lparr>fe_failed := b\<rparr>) = in_frame H pre content self"
  by (simp add: in_frame_def)

lemma in_frame_w:
  "in_frame H pre content self \<Longrightarrow> written w = written (fe_w self) \<Longrightarrow> in_frame H pre content (self\<lparr>fe_w := w\<rparr>)"
  by (simp add: in_frame_def)

end

section \<open>Between two frames\<close>

text \<open>
  An encoder without an open frame: nothing waits in its buffer, and if its last frame was empty
  it is as good as new.
\<close>

definition no_frame :: "'h hasher \<Rightarrow> ('h, 'w) FrameEncoder \<Rightarrow> bool" where
  "no_frame H self \<longleftrightarrow> \<not> fe_is_frame_open self \<and> fe_src_start self = fe_src_end self \<and>
     length (fe_table self) = DEFAULT_NODICT_ENTRIES \<and>
     (fe_content_len self = 0 \<longrightarrow> fe_src_stream_offset self = 0 \<and> fe_src_end self = 0 \<and> fe_ext_dict_len self = 0 \<and>
        fe_hasher self = with_seed H 0 \<and> entries_below (fe_table self) 1)"

text \<open>What no call changes, and the block size, which the first frame settles.\<close>

definition same_setup :: "('h, 'w) FrameEncoder \<Rightarrow> ('h, 'w) FrameEncoder \<Rightarrow> bool" where
  "same_setup self self' \<longleftrightarrow> fe_dict self' = fe_dict self \<and>
     (\<exists>b. fe_frame_info self' = (fe_frame_info self)\<lparr>block_size := b\<rparr>)"

lemma same_setup_eq: "fe_dict b = fe_dict a \<Longrightarrow> fe_frame_info b = fe_frame_info a \<Longrightarrow> same_setup a b"
  unfolding same_setup_def by (intro conjI exI [of _ "block_size (fe_frame_info a)"]) simp_all

lemma same_setup_refl [simp]: "same_setup self self"
  by (rule same_setup_eq) simp_all

lemma same_setup_trans: "same_setup a b \<Longrightarrow> same_setup b c \<Longrightarrow> same_setup a c"
  by (auto simp: same_setup_def)

lemma same_frame_setup: "same_frame a b \<Longrightarrow> same_setup a b"
  by (rule same_setup_eq) (simp_all add: same_frame_def)

lemma from_buf_length_ok: "\<exists>b. from_buf_length n = (Ok b :: ('e, BlockSize) outcome) \<and> b \<noteq> Auto"
  by (simp add: from_buf_length_def)

context writer
begin

lemma begin_frame_ok:
  fixes self :: "('h, 'w) FrameEncoder"
  assumes N: "no_frame H self" and one: "block_checksums (fe_frame_info self) \<longrightarrow> oneshot_consistent H"
  obtains self' where "begin_frame H W self n = Ok self'" "in_frame H (written (fe_w self)) [] self'" "same_setup self self'"
    "pending self' = []" "fe_data_to_frame_written self' = fe_data_to_frame_written self"
proof -
  obtain b where b: "(if block_size (fe_frame_info self) = Auto then
         obind (from_buf_length n) (\<lambda>b.
         Ok (self\<lparr>fe_frame_info := (fe_frame_info self)\<lparr>block_size := b\<rparr>\<rparr>))
       else Ok self) = (Ok (self\<lparr>fe_frame_info := (fe_frame_info self)\<lparr>block_size := b\<rparr>\<rparr>)
         :: (io_error \<times> ('h, 'w) FrameEncoder, ('h, 'w) FrameEncoder) outcome)" "b \<noteq> Auto"
  proof (cases "block_size (fe_frame_info self) = Auto")
    case True
    with from_buf_length_ok [of n, where ?'e = "io_error \<times> ('h, 'w) FrameEncoder"] that show thesis by auto
  next
    case False
    with that [of "block_size (fe_frame_info self)"] show thesis by simp
  qed
  define info where "info = (fe_frame_info self)\<lparr>block_size := b\<rparr>"
  let ?s1 = "self\<lparr>fe_frame_info := info\<rparr>"
  have "FrameInfo_write_size info \<le> length (replicate MAX_FRAME_INFO_SIZE (0 :: byte))"
    by (simp add: FrameInfo_write_size_def)
  from FrameInfo_write_eq [OF this, of H] b(2) obtain rest where fw:
    "FrameInfo_write H info (replicate MAX_FRAME_INFO_SIZE 0) = Ok (length (header_bytes H info), header_bytes H info @ rest)"
    using length_header_bytes [of H info] by (auto simp: info_def)
  obtain w where w: "w_all W ?s1 (header_bytes H info) = Ok (?s1\<lparr>fe_w := w\<rparr>)"
    "written w = written (fe_w self) @ header_bytes H info"
    using w_all_ok [of ?s1 "header_bytes H info"] by auto
  define s2 where "s2 = ?s1\<lparr>fe_w := w\<rparr>"
  define self' where "self' = (if fe_content_len s2 \<noteq> 0 then
      s2\<lparr>fe_content_len := 0, fe_src_stream_offset := 0, fe_src := [], fe_src_start := 0, fe_src_end := 0,
        fe_ext_dict_len := 0, fe_hasher := with_seed H 0, fe_table := HashTableU32_clear (fe_table s2)\<rparr>
    else s2)\<lparr>fe_is_frame_open := True\<rparr>"
  have "begin_frame H W self n = Ok self'"
    using fw w(1) by (simp only: begin_frame_def b(1) lift_def Let_def info_def [symmetric] s2_def [symmetric]
        obind.simps map_err.simps prod.case) (simp add: self'_def)
  moreover have B: "between_blocks H [] (with_seed H 0) self'"
    using N b(2) entries_below_clear(1)
    by (auto simp: between_blocks_def no_frame_def self'_def s2_def info_def buffer_ok_def table_ok_def enc_ext_def
        window_of_def HashTableU32_clear_def entries_below_replicate)
  moreover have P: "pending self' = []"
    using N by (simp add: no_frame_def self'_def s2_def pending_def)
  moreover have "in_frame H (written (fe_w self)) [] self'"
    unfolding in_frame_def using B P w(2) one
    by (intro conjI exI [of _ "[]"] exI [of _ "with_seed H 0"]) (auto simp: self'_def s2_def info_def intro: no_blocks)
  moreover have "same_setup self self'" by (auto simp: same_setup_def self'_def s2_def info_def)
  moreover have "fe_data_to_frame_written self' = fe_data_to_frame_written self" by (simp add: self'_def s2_def)
  ultimately show thesis using that by blast
qed

lemma BlockInfo_write_end: "BlockInfo_write EndMark (replicate BLOCK_INFO_SIZE 0) = Ok (4, le_of_word 4 (0 :: 32 word))"
  using BlockInfo_write_ok [of EndMark] by simp

lemma end_frame_ok:
  assumes F: "in_frame H pre content self" "pending self = []" and m: "size_matches (fe_frame_info self) content"
  obtains self' wire where "end_frame H W self = Ok self'" "written (fe_w self') = pre @ wire"
    "frame H (fe_dict self) (fe_frame_info self) wire content" "no_frame H self'" "same_setup self self'"
proof -
  let ?info = "fe_frame_info self"
  obtain ws s where I: "written (fe_w self) = pre @ header_bytes H ?info @ ws"
    "frame_blocks H ?info (fe_dict self) [] (with_seed H 0) ws content s" "between_blocks H content s self"
    using F by (auto simp: in_frame_def)
  have b: "buffer_ok content self" "fe_content_len self = length content" "fe_hasher self = s" "block_size ?info \<noteq> Auto"
    using I(3) by (auto simp: between_blocks_def)
  let ?sum = "if content_checksum ?info then le_of_word 4 (ucast (hash_finish H s) :: 32 word) else []"
  obtain w1 where w1: "write_all W (fe_w self) (le_of_word 4 (0 :: 32 word)) = (None, w1)"
    "written w1 = written (fe_w self) @ le_of_word 4 (0 :: 32 word)" using write_all_ok by blast
  obtain w2 where w2: "content_checksum ?info \<Longrightarrow> write_all W w1 (le_of_word 4 (ucast (hash_finish H s) :: 32 word)) = (None, w2)"
    "\<not> content_checksum ?info \<Longrightarrow> w2 = w1" "written w2 = written w1 @ ?sum"
    using write_all_ok [of w1 "le_of_word 4 (ucast (hash_finish H s) :: 32 word)"] by (cases "content_checksum ?info") auto
  let ?self' = "self\<lparr>fe_w := w2, fe_is_frame_open := False\<rparr>"
  have sz: "(case content_size ?info of None \<Rightarrow> False | Some x \<Rightarrow> unat x \<noteq> fe_content_len self) = False"
    using m b(2) by (auto simp: size_matches_def split: option.splits)
  have "end_frame H W self = Ok ?self'"
    using F(1) w1(1) w2(1,2) b(3)
    by (auto simp: end_frame_def sz in_frame_def BlockInfo_write_end[simplified] w_all_def)
  moreover have "frame H (fe_dict self) ?info (header_bytes H ?info @ ws @ end_of_frame H ?info s) content"
    unfolding frame_def using I(2) b(4) m by blast
  moreover have "written (fe_w ?self') = pre @ header_bytes H ?info @ ws @ end_of_frame H ?info s"
    using I(1) w1(2) w2(3) by (simp add: end_of_frame_def)
  moreover have "no_frame H ?self'"
    using I(3) b F(2) buffer_ok_start [OF b(1)]
    by (auto simp: no_frame_def between_blocks_def table_ok_def buffer_ok_def pending_def)
  moreover have "same_setup self ?self'" by (rule same_setup_eq) simp_all
  ultimately show thesis using that by blast
qed

lemma end_frame_mismatch:
  assumes F: "in_frame H pre content self" "pending self = []" and m: "\<not> size_matches (fe_frame_info self) content"
  shows "\<exists>n. content_size (fe_frame_info self) = Some n \<and>
    end_frame H W self = Err (ContentLengthError n (word_of_nat (length content)), self)"
proof -
  have "fe_content_len self = length content" using F by (auto simp: in_frame_def between_blocks_def)
  with F(1) m show ?thesis by (auto simp: end_frame_def in_frame_def size_matches_def split: option.splits)
qed

section \<open>The calls\<close>

text \<open>The frames that are finished are \<open>out\<close>; \<open>content\<close> is what was written since.\<close>

definition encoder_ok :: "'h hasher \<Rightarrow> bytes \<Rightarrow> bytes \<Rightarrow> ('h, 'w) FrameEncoder \<Rightarrow> bool" where
  "encoder_ok H out content self \<longleftrightarrow> \<not> fe_failed self \<and>
     (block_checksums (fe_frame_info self) \<longrightarrow> oneshot_consistent H) \<and>
     (in_frame H out content self \<or> no_frame H self \<and> written (fe_w self) = out \<and> content = [])"

lemma write_ok:
  assumes E: "encoder_ok H out content self" and len: "length content + length buf < 2 ^ 64"
  obtains self' where "FrameEncoder_write H W self buf = Ok (length buf, self')" "encoder_ok H out (content @ buf) self'"
    "same_setup self self'" "fe_data_to_frame_written self' = fe_data_to_frame_written self"
proof (cases "no_frame H self \<and> buf = []")
  case True
  then have "FrameEncoder_write H W self buf = Ok (0, self\<lparr>fe_failed := False\<rparr>)" "self\<lparr>fe_failed := False\<rparr> = self"
    using E by (simp_all add: FrameEncoder_write_def encoder_ok_def)
  with that [of self] E True show thesis by simp
next
  case False
  let ?s0 = "self\<lparr>fe_failed := True\<rparr>"
  obtain self1 where s1: "(if \<not> fe_is_frame_open ?s0 \<and> buf \<noteq> [] then begin_frame H W ?s0 (length buf) else Ok ?s0) = Ok self1"
    "in_frame H out content self1" "same_setup self self1" "fe_data_to_frame_written self1 = fe_data_to_frame_written self"
  proof (cases "in_frame H out content self")
    case True
    moreover have "same_setup self ?s0" by (rule same_setup_eq) simp_all
    ultimately show thesis using that [of ?s0] by (simp add: in_frame_def)
  next
    case closed: False
    with E have N: "no_frame H ?s0" "written (fe_w ?s0) = out" "content = []"
      by (auto simp: encoder_ok_def no_frame_def)
    have one: "block_checksums (fe_frame_info ?s0) \<longrightarrow> oneshot_consistent H" using E by (simp add: encoder_ok_def)
    obtain self1 where "begin_frame H W ?s0 (length buf) = Ok self1" "in_frame H (written (fe_w ?s0)) [] self1" "same_setup ?s0 self1"
      "fe_data_to_frame_written self1 = fe_data_to_frame_written ?s0"
      by (rule begin_frame_ok [OF N(1) one])
    moreover have "buf \<noteq> []" using False closed E by (auto simp: encoder_ok_def)
    ultimately show thesis using that [of self1] N by (simp add: no_frame_def same_setup_def)
  qed
  have m: "2 * length buf + (if fe_src_end self1 - fe_src_start self1 = enc_block_size self1 then 1 else 0) < 2 * length buf + 2"
    by simp
  obtain self2 where s2: "write_loop (2 * length buf + 2) H W self1 buf = Ok self2" "in_frame H out (content @ buf) self2"
    "same_frame self1 self2"
    by (rule write_loop_ok [OF s1(2) len m])
  let ?s3 = "self2\<lparr>fe_failed := False\<rparr>"
  have "FrameEncoder_write H W self buf = Ok (length buf, ?s3)"
    using E s1(1) s2(1) by (simp add: FrameEncoder_write_def encoder_ok_def)
  moreover have "encoder_ok H out (content @ buf) ?s3" using s2(2) by (auto simp: encoder_ok_def in_frame_def)
  moreover have "same_setup self ?s3"
    using same_setup_trans [OF s1(3) same_frame_setup [OF s2(3)]] by (simp add: same_setup_def)
  moreover have "fe_data_to_frame_written ?s3 = fe_data_to_frame_written self"
    using s1(4) s2(3) by (simp add: same_frame_def)
  ultimately show thesis using that by blast
qed

lemma flush_calls_ok:
  assumes E: "encoder_ok H out content self"
  obtains self' where "FrameEncoder_flush H W self = Ok self'" "encoder_ok H out content self'" "same_setup self self'"
    "pending self' = []" "fe_is_frame_open self' = fe_is_frame_open self"
    "fe_data_to_frame_written self' = fe_data_to_frame_written self"
proof -
  let ?s0 = "self\<lparr>fe_failed := True\<rparr>"
  have nf: "\<not> fe_failed self" using E by (simp add: encoder_ok_def)
  obtain self1 where s1: "(if fe_src_start ?s0 \<noteq> fe_src_end ?s0 then write_block H W ?s0 else Ok ?s0) = Ok self1"
    "in_frame H out content self1 \<or> no_frame H self1 \<and> written (fe_w self1) = out \<and> content = []"
    "pending self1 = []" "same_frame ?s0 self1"
  proof (cases "fe_src_start self = fe_src_end self")
    case True
    then show thesis using that [of ?s0] E by (auto simp: encoder_ok_def pending_def no_frame_def)
  next
    case False
    with E have F: "in_frame H out content ?s0" by (auto simp: encoder_ok_def no_frame_def)
    then have p: "pending ?s0 \<noteq> []" using in_frame_buffer [OF F] False by auto
    obtain self1 where "write_block H W ?s0 = Ok self1" "in_frame H out content self1" "pending self1 = []" "same_frame ?s0 self1"
      by (rule in_frame_block [OF F p])
    with that [of self1] False show thesis by simp
  qed
  obtain w where w: "flush_w W (fe_w self1) = (None, w)" "written w = written (fe_w self1)" using flush_ok by blast
  let ?s2 = "self1\<lparr>fe_w := w, fe_failed := False\<rparr>"
  have "FrameEncoder_flush H W self = Ok ?s2"
    using nf s1(1) w(1) by (simp add: FrameEncoder_flush_def)
  moreover have "encoder_ok H out content ?s2"
    using s1(2,4) w(2) E in_frame_w [of H out content self1 w]
    by (auto simp: encoder_ok_def same_frame_def no_frame_def)
  moreover have "same_setup self ?s2" "fe_is_frame_open ?s2 = fe_is_frame_open self"
    "fe_data_to_frame_written ?s2 = fe_data_to_frame_written self"
    using s1(4) same_frame_setup [of ?s0 self1] by (simp_all add: same_frame_def same_setup_def)
  moreover have "pending ?s2 = []" using s1(3) by simp
  ultimately show thesis using that by blast
qed

lemma try_finish_ok:
  assumes E: "encoder_ok H out content self"
  obtains (nothing) self' where "try_finish H W self = Ok self'" "encoder_ok H out [] self'" "same_setup self self'"
      "content = []" "written (fe_w self') = out" "fe_data_to_frame_written self"
    | (finished) self' wire where "try_finish H W self = Ok self'" "encoder_ok H (out @ wire) [] self'" "same_setup self self'"
      "frame H (fe_dict self) (fe_frame_info self') wire content" "written (fe_w self') = out @ wire"
    | (mismatch) n self' where "content_size (fe_frame_info self) = Some n" "unat n \<noteq> length content"
      "try_finish H W self = Err (ContentLengthError n (word_of_nat (length content)), self')" "fe_failed self'"
proof -
  obtain self1 where s1: "FrameEncoder_flush H W self = Ok self1" "encoder_ok H out content self1" "same_setup self self1"
    "pending self1 = []" "fe_data_to_frame_written self1 = fe_data_to_frame_written self"
    by (rule flush_calls_ok [OF E])
  show thesis
  proof (cases "\<not> fe_is_frame_open self1 \<and> fe_data_to_frame_written self1")
    case True
    then have c: "content = []" "written (fe_w self1) = out" using s1(2) by (auto simp: encoder_ok_def in_frame_def)
    show thesis by (rule nothing [of self1]) (use True s1 c in \<open>simp_all add: try_finish_def\<close>)
  next
    case False
    let ?s2 = "self1\<lparr>fe_failed := True\<rparr>"
    obtain self3 where s3: "(if \<not> fe_is_frame_open ?s2 then map_err (\<lambda>(e, s). (Error_of_io e, s)) (begin_frame H W ?s2 0)
         else Ok ?s2) = Ok self3" "in_frame H out content self3" "pending self3 = []" "same_setup ?s2 self3"
    proof (cases "in_frame H out content self1")
      case True
      then show thesis using that [of ?s2] s1(4) by (auto simp: in_frame_def)
    next
      case closed: False
      with s1(2) have N: "no_frame H ?s2" "written (fe_w ?s2) = out" "content = []"
        by (auto simp: encoder_ok_def no_frame_def)
      have one: "block_checksums (fe_frame_info ?s2) \<longrightarrow> oneshot_consistent H" using s1(2) by (simp add: encoder_ok_def)
      obtain self3 where "begin_frame H W ?s2 0 = Ok self3" "in_frame H (written (fe_w ?s2)) [] self3" "same_setup ?s2 self3"
        "pending self3 = []"
        by (rule begin_frame_ok [OF N(1) one])
      then show thesis using that [of self3] N by (simp add: no_frame_def)
    qed
    have su: "same_setup self self3"
      using same_setup_trans [OF s1(3)] s3(4) by (simp add: same_setup_def)
    have eq: "try_finish H W self = obind (end_frame H W self3) (\<lambda>self. Ok (self\<lparr>fe_data_to_frame_written := True, fe_failed := False\<rparr>))"
      using s3(1) by (simp only: try_finish_def s1(1) map_err.simps obind.simps if_not_P [OF False] Let_def)
    show thesis
    proof (cases "size_matches (fe_frame_info self3) content")
      case True
      obtain self4 wire where e: "end_frame H W self3 = Ok self4" "written (fe_w self4) = out @ wire"
        "frame H (fe_dict self3) (fe_frame_info self3) wire content" "no_frame H self4" "same_setup self3 self4"
        by (rule end_frame_ok [OF s3(2,3) True])
      let ?s5 = "self4\<lparr>fe_data_to_frame_written := True, fe_failed := False\<rparr>"
      have "fe_frame_info self4 = fe_frame_info self3" using e(1) by (auto simp: end_frame_def w_all_def Let_def
        obind_Ok_iff map_err_Ok_iff split: if_splits option.splits prod.splits)
      then have "frame H (fe_dict self) (fe_frame_info ?s5) wire content" "same_setup self ?s5"
        using e(3,5) su by (simp_all add: same_setup_def)
      moreover have "encoder_ok H (out @ wire) [] ?s5"
        using e(2,4) s1(2) su e(5) s1(3) by (auto simp: encoder_ok_def no_frame_def same_setup_def)
      ultimately show thesis using finished [of ?s5 wire] eq e(1,2) by simp
    next
      case False
      from end_frame_mismatch [OF s3(2,3) False] obtain n where n: "content_size (fe_frame_info self3) = Some n"
        "end_frame H W self3 = Err (ContentLengthError n (word_of_nat (length content)), self3)" by auto
      have "fe_failed self3" using s3(1)
        by (auto simp: begin_frame_def w_all_def Let_def lift_def obind_Ok_iff map_err_Ok_iff split: if_splits prod.splits option.splits)
      with mismatch [of n self3] n False su eq show thesis by (auto simp: size_matches_def same_setup_def)
    qed
  qed
qed

end

section \<open>Sequences of calls\<close>

datatype enc_call = Write bytes | Flush | Finish_frame

fun run_call :: "'h hasher \<Rightarrow> 'w io_write \<Rightarrow> enc_call \<Rightarrow> ('h, 'w) FrameEncoder \<Rightarrow> (Error, ('h, 'w) FrameEncoder) outcome" where
  "run_call H W (Write buf) self =
     map_err (\<lambda>(e, _). Error_of_io e) (obind (FrameEncoder_write H W self buf) (\<lambda>(_, self). Ok self))"
| "run_call H W Flush self = map_err (\<lambda>(e, _). Error_of_io e) (FrameEncoder_flush H W self)"
| "run_call H W Finish_frame self = map_err fst (try_finish H W self)"

fun run_calls :: "'h hasher \<Rightarrow> 'w io_write \<Rightarrow> enc_call list \<Rightarrow> ('h, 'w) FrameEncoder \<Rightarrow> (Error, ('h, 'w) FrameEncoder) outcome" where
  "run_calls H W [] self = Ok self"
| "run_calls H W (c # cs) self = obind (run_call H W c self) (run_calls H W cs)"

fun bytes_of :: "enc_call \<Rightarrow> bytes" where
  "bytes_of (Write buf) = buf"
| "bytes_of _ = []"

text \<open>The contents of the frames that the calls finish, after some content of the first.\<close>

fun frame_contents :: "bytes \<Rightarrow> enc_call list \<Rightarrow> bytes list" where
  "frame_contents content [] = []"
| "frame_contents content (c # cs) =
     (if c = Finish_frame then content # frame_contents [] cs else frame_contents (content @ bytes_of c) cs)"

abbreviation bytes_of_calls :: "enc_call list \<Rightarrow> bytes" where
  "bytes_of_calls cs \<equiv> concat (map bytes_of cs)"

context writer
begin

lemma run_call_ok:
  assumes E: "encoder_ok H out content self" and len: "length content + length (bytes_of c) < 2 ^ 64"
    and c: "c \<noteq> Finish_frame"
  obtains self' where "run_call H W c self = Ok self'" "encoder_ok H out (content @ bytes_of c) self'" "same_setup self self'"
    "fe_data_to_frame_written self' = fe_data_to_frame_written self"
proof (cases c)
  case (Write buf)
  with len have l: "length content + length buf < 2 ^ 64" by simp
  obtain self' where "FrameEncoder_write H W self buf = Ok (length buf, self')" "encoder_ok H out (content @ buf) self'"
    "same_setup self self'" "fe_data_to_frame_written self' = fe_data_to_frame_written self" by (rule write_ok [OF E l])
  with Write that show thesis by simp
next
  case Flush
  obtain self' where "FrameEncoder_flush H W self = Ok self'" "encoder_ok H out content self'" "same_setup self self'"
    "fe_data_to_frame_written self' = fe_data_to_frame_written self"
    by (rule flush_calls_ok [OF E])
  with Flush that show thesis by simp
qed (use c in simp)

lemma run_calls_ok:
  assumes "encoder_ok H out content self" "length content + length (bytes_of_calls cs) < 2 ^ 64" "Finish_frame \<notin> set cs"
  obtains self' where "run_calls H W cs self = Ok self'" "encoder_ok H out (content @ bytes_of_calls cs) self'" "same_setup self self'"
    "fe_data_to_frame_written self' = fe_data_to_frame_written self"
  using assms
proof (induction cs arbitrary: content self thesis)
  case Nil
  then show ?case by simp
next
  case (Cons c cs)
  have c: "c \<noteq> Finish_frame" "length content + length (bytes_of c) < 2 ^ 64" using Cons.prems by auto
  obtain self1 where s1: "run_call H W c self = Ok self1" "encoder_ok H out (content @ bytes_of c) self1" "same_setup self self1"
    "fe_data_to_frame_written self1 = fe_data_to_frame_written self"
    by (rule run_call_ok [OF Cons.prems(2) c(2,1)])
  have l: "length (content @ bytes_of c) + length (bytes_of_calls cs) < 2 ^ 64" "Finish_frame \<notin> set cs" using Cons.prems by auto
  obtain self' where "run_calls H W cs self1 = Ok self'" "encoder_ok H out ((content @ bytes_of c) @ bytes_of_calls cs) self'"
    "same_setup self1 self'" "fe_data_to_frame_written self' = fe_data_to_frame_written self1" by (rule Cons.IH [OF _ s1(2) l])
  with Cons.prems(1) [of self'] s1 same_setup_trans [OF s1(3)] show ?case by simp
qed

lemma run_calls_stream:
  assumes "encoder_ok H out content self" "frame_stream H (fe_dict self) did out before" "dict_id (fe_frame_info self) = did"
    "\<forall>x \<in> set (frame_contents content cs). size_matches (fe_frame_info self) x" "length content + length (bytes_of_calls cs) < 2 ^ 64"
  obtains self' out' before' content' where "run_calls H W cs self = Ok self'" "encoder_ok H out' content' self'"
    "frame_stream H (fe_dict self) did out' before'" "same_setup self self'" "before' @ content' = before @ content @ bytes_of_calls cs"
    "length content' < 2 ^ 64" "frame_contents content (cs @ [Finish_frame]) = frame_contents content cs @ [content']"
  using assms
proof (induction cs arbitrary: out before content self thesis)
  case Nil
  show ?case by (rule Nil.prems(1) [of self out content before]) (use Nil.prems in auto)
next
  case (Cons c cs)
  show ?case
  proof (cases "c = Finish_frame")
    case False
    have lc: "length content + length (bytes_of c) < 2 ^ 64" using Cons.prems(6) by simp
    obtain self1 where s1: "run_call H W c self = Ok self1" "encoder_ok H out (content @ bytes_of c) self1" "same_setup self self1"
      by (rule run_call_ok [OF Cons.prems(2) lc False])
    have len: "length (content @ bytes_of c) + length (bytes_of_calls cs) < 2 ^ 64" using Cons.prems(6) by simp
    have su: "fe_dict self1 = fe_dict self" "dict_id (fe_frame_info self1) = did"
      "\<forall>x \<in> set (frame_contents (content @ bytes_of c) cs). size_matches (fe_frame_info self1) x"
      using s1(3) Cons.prems(4,5) False by (auto simp: same_setup_def size_matches_def)
    obtain self' out' before' content' where "run_calls H W cs self1 = Ok self'" "encoder_ok H out' content' self'"
      "frame_stream H (fe_dict self1) did out' before'" "same_setup self1 self'"
      "before' @ content' = before @ (content @ bytes_of c) @ bytes_of_calls cs" "length content' < 2 ^ 64"
      "frame_contents (content @ bytes_of c) (cs @ [Finish_frame]) = frame_contents (content @ bytes_of c) cs @ [content']"
      by (rule Cons.IH [OF _ s1(2) _ su(2,3) len, of before]) (use Cons.prems(3) su(1) in simp_all)
    then show ?thesis
      by (intro Cons.prems(1) [of self' out' content' before']) (use s1 su same_setup_trans [OF s1(3)] False in simp_all)
  next
    case True
    obtain self1 out1 before1 where s1: "try_finish H W self = Ok self1" "encoder_ok H out1 [] self1" "same_setup self self1"
      "frame_stream H (fe_dict self) did out1 before1" "before1 = before @ content"
    proof (rule try_finish_ok [OF Cons.prems(2)])
      fix self1 assume "try_finish H W self = Ok self1" "encoder_ok H out [] self1" "same_setup self self1" "content = []"
      then show thesis by (intro that [of self1 out before]) (use Cons.prems(3) in simp_all)
    next
      fix self1 wire assume f: "try_finish H W self = Ok self1" "encoder_ok H (out @ wire) [] self1" "same_setup self self1"
        "frame H (fe_dict self) (fe_frame_info self1) wire content"
      then have "dict_id (fe_frame_info self1) = did" using Cons.prems(4) by (auto simp: same_setup_def)
      from frame_stream_snoc [OF Cons.prems(3) f(4) this] show thesis by (rule that [OF f(1-3) _ refl])
    qed (use True Cons.prems(5) in \<open>simp add: size_matches_def\<close>)
    have len: "length ([] :: bytes) + length (bytes_of_calls cs) < 2 ^ 64" using Cons.prems(6) by simp
    have su: "fe_dict self1 = fe_dict self" "dict_id (fe_frame_info self1) = did"
      "\<forall>x \<in> set (frame_contents [] cs). size_matches (fe_frame_info self1) x"
      using s1(3) Cons.prems(4,5) True by (auto simp: same_setup_def size_matches_def)
    obtain self' out' before' content' where "run_calls H W cs self1 = Ok self'" "encoder_ok H out' content' self'"
      "frame_stream H (fe_dict self1) did out' before'" "same_setup self1 self'"
      "before' @ content' = before1 @ [] @ bytes_of_calls cs" "length content' < 2 ^ 64"
      "frame_contents [] (cs @ [Finish_frame]) = frame_contents [] cs @ [content']"
      by (rule Cons.IH [OF _ s1(2) _ su(2,3) len, of before1]) (use s1(4) su(1) in simp_all)
    then show ?thesis
      by (intro Cons.prems(1) [of self' out' content' before'])
        (use True s1 su same_setup_trans [OF s1(3)] in simp_all)
  qed
qed

end

end
