(* ===== verification/Frame_Decoder.thy ===== *)
theory Frame_Decoder
  imports Frame_Header Decoder
begin

text \<open>
  \<^verbatim>\<open>src/frame/decompress.rs\<close>: the streaming decoder of the frame format.

  The reader is the caller's: its type is a parameter, and what the decoder calls of
  \<^verbatim>\<open>io::Read\<close> is the record \<open>io_read\<close>.  The methods take the decoder and return it, also with an
  error.  A reader may be endless, so the loops over blocks take fuel.  Capacities of vectors
  are not modelled.
\<close>

section \<open>Readers\<close>

record 'r io_read =
  read_some :: "'r \<Rightarrow> nat \<Rightarrow> (io_error + bytes) \<times> 'r"
  read_exact :: "'r \<Rightarrow> nat \<Rightarrow> (io_error + bytes) \<times> 'r"

text \<open>\<^verbatim>\<open>&[u8]\<close> as a reader\<close>

definition slice_reader :: "bytes io_read" where
  "slice_reader = \<lparr>read_some = \<lambda>r n. (Inr (take n r), drop n r),
     read_exact = \<lambda>r n. if n \<le> length r then (Inr (take n r), drop n r)
       else (Inl (Plain UnexpectedEof ''failed to fill whole buffer''), [])\<rparr>"

section \<open>The decoder\<close>

definition MAX_CONTENT_SIZE_RESERVE :: nat where "MAX_CONTENT_SIZE_RESERVE = 128 * 1024 * 1024"

record FrameDecoderOptions =
  opt_dictionary :: "(bytes \<times> 32 word) option"
  opt_max_output :: "nat option"

record ('h, 'r) FrameDecoder =
  fd_r :: 'r
  fd_current_frame_info :: "FrameInfo option"
  fd_hasher :: 'h
  fd_content_len :: nat
  fd_src :: bytes
  fd_dst :: bytes
  fd_ext_dict_offset :: nat
  fd_ext_dict_len :: nat
  fd_dst_start :: nat
  fd_dst_end :: nat
  fd_dict :: bytes
  fd_expected_dict_id :: "32 word option"
  fd_max_output :: nat
  fd_bytes_output :: nat
  fd_content_reserve :: "nat option"

definition FrameDecoder_new :: "'h hasher \<Rightarrow> 'r \<Rightarrow> ('h, 'r) FrameDecoder" where
  "FrameDecoder_new H rdr = \<lparr>fd_r = rdr, fd_current_frame_info = None, fd_hasher = with_seed H 0, fd_content_len = 0,
     fd_src = [], fd_dst = [], fd_ext_dict_offset = 0, fd_ext_dict_len = 0, fd_dst_start = 0, fd_dst_end = 0,
     fd_dict = [], fd_expected_dict_id = None, fd_max_output = usize_max, fd_bytes_output = 0, fd_content_reserve = None\<rparr>"

definition FrameDecoder_with_options :: "'h hasher \<Rightarrow> 'r \<Rightarrow> FrameDecoderOptions \<Rightarrow> ('h, 'r) FrameDecoder" where
  "FrameDecoder_with_options H rdr options =
     (let dec = FrameDecoder_new H rdr;
          dec = (case opt_dictionary options of
            Some (dict, did) \<Rightarrow> dec\<lparr>fd_dict := dict, fd_expected_dict_id := Some did\<rparr> | None \<Rightarrow> dec) in
      case opt_max_output options of Some m \<Rightarrow> dec\<lparr>fd_max_output := m\<rparr> | None \<Rightarrow> dec)"

definition FrameDecoder_with_dictionary :: "'h hasher \<Rightarrow> 'r \<Rightarrow> bytes \<Rightarrow> 32 word \<Rightarrow> ('h, 'r) FrameDecoder" where
  "FrameDecoder_with_dictionary H rdr dict did =
     FrameDecoder_with_options H rdr \<lparr>opt_dictionary = Some (dict, did), opt_max_output = None\<rparr>"

definition declared_size :: "FrameInfo \<Rightarrow> nat" where
  "declared_size info = (case content_size info of Some n \<Rightarrow> unat n | None \<Rightarrow> usize_max)"

type_synonym ('h, 'r, 'a) io_result = "(io_error \<times> ('h, 'r) FrameDecoder, 'a \<times> ('h, 'r) FrameDecoder) outcome"

text \<open>\<^verbatim>\<open>self.r.read_exact(..)?\<close>, an \<^verbatim>\<open>Error\<close> returned as an \<^verbatim>\<open>io::Error\<close>, and \<^verbatim>\<open>?\<close> on a plain result\<close>

definition r_exact :: "'r io_read \<Rightarrow> ('h, 'r) FrameDecoder \<Rightarrow> nat \<Rightarrow> ('h, 'r, bytes) io_result" where
  "r_exact R self n =
     (case read_exact R (fd_r self) n of
        (Inr bs, r) \<Rightarrow> Ok (bs, self\<lparr>fd_r := r\<rparr>)
      | (Inl e, r) \<Rightarrow> Err (e, self\<lparr>fd_r := r\<rparr>))"

definition fail :: "('h, 'r) FrameDecoder \<Rightarrow> Error \<Rightarrow> (io_error \<times> ('h, 'r) FrameDecoder, 'a) outcome" where
  "fail self e = Err (io_of_Error e, self)"

definition try_error :: "('h, 'r) FrameDecoder \<Rightarrow> (Error, 'a) outcome \<Rightarrow> (io_error \<times> ('h, 'r) FrameDecoder, 'a) outcome" where
  "try_error self r = map_err (\<lambda>e. (io_of_Error e, self)) r"

subsection \<open>The header\<close>

text \<open>The two dictionaries of a frame and of the decoder.\<close>

definition check_dict_id :: "32 word option \<Rightarrow> 32 word option \<Rightarrow> (Error, unit) outcome" where
  "check_dict_id frame expected =
     (case (frame, expected) of
        (None, None) \<Rightarrow> Ok ()
      | (Some _, None) \<Rightarrow> Err DictionaryNotSupported
      | (None, Some _) \<Rightarrow> Err DictionaryRequired
      | (Some actual, Some expected) \<Rightarrow>
          if actual \<noteq> expected then Err (DictIdMismatch expected actual) else Ok ())"

definition start_frame :: "'h hasher \<Rightarrow> ('h, 'r) FrameDecoder \<Rightarrow> FrameInfo \<Rightarrow> ('h, 'r) FrameDecoder" where
  "start_frame H self info =
     self\<lparr>fd_content_reserve := map_option
         (\<lambda>_. min (min (declared_size info) (fd_max_output self - fd_bytes_output self)) MAX_CONTENT_SIZE_RESERVE)
         (content_size info),
       fd_current_frame_info := Some info, fd_hasher := with_seed H 0, fd_content_len := 0, fd_ext_dict_len := 0,
       fd_dst_start := 0, fd_dst_end := 0\<rparr>"

definition read_frame_info :: "'h hasher \<Rightarrow> 'r io_read \<Rightarrow> ('h, 'r) FrameDecoder \<Rightarrow> ('h, 'r, nat) io_result" where
  "read_frame_info H R self =
     (case read_some R (fd_r self) MAGIC_NUMBER_SIZE of
        (Inl e, r) \<Rightarrow> Err (e, self\<lparr>fd_r := r\<rparr>)
      | (Inr magic, r) \<Rightarrow>
          let self = self\<lparr>fd_r := r\<rparr> in
          if magic = [] then Ok (0, self)
          else
            obind (if length magic = MAGIC_NUMBER_SIZE then Ok (magic, self)
              else
                obind (usub MAGIC_NUMBER_SIZE (length magic)) (\<lambda>missing.
                obind (r_exact R self missing) (\<lambda>(more, self). Ok (magic @ more, self)))) (\<lambda>(buffer, self).
            obind (r_exact R self (MIN_FRAME_INFO_SIZE - MAGIC_NUMBER_SIZE)) (\<lambda>(bs, self).
            let buffer = buffer @ bs in
            obind (try_error self (FrameInfo_read_size buffer)) (\<lambda>required.
            obind (if required \<noteq> MIN_FRAME_INFO_SIZE then
                obind (usub required MIN_FRAME_INFO_SIZE) (\<lambda>missing.
                obind (r_exact R self missing) (\<lambda>(bs, self). Ok (buffer @ bs, self)))
              else Ok (buffer, self)) (\<lambda>(buffer, self).
            obind (try_error self (FrameInfo_read H buffer)) (\<lambda>info.
            obind (try_error self (check_dict_id (dict_id info) (fd_expected_dict_id self))) (\<lambda>_.
            obind (get_size (block_size info)) (\<lambda>_.
            Ok (required, start_frame H self info)))))))))"

subsection \<open>Blocks\<close>

definition check_output_len :: "('h, 'r) FrameDecoder \<Rightarrow> nat \<Rightarrow> (Error, nat) outcome" where
  "check_output_len self len =
     (case checked_add (fd_bytes_output self) len of
        None \<Rightarrow> Err (DecompressedSizeLimit (fd_max_output self) usize_max)
      | Some actual \<Rightarrow>
          if fd_max_output self < actual then Err (DecompressedSizeLimit (fd_max_output self) actual)
          else Ok actual)"

definition read_checksum :: "'r io_read \<Rightarrow> ('h, 'r) FrameDecoder \<Rightarrow> ('h, 'r, 32 word) io_result" where
  "read_checksum R self = obind (r_exact R self 4) (\<lambda>(bs, self). Ok (word_of_le bs, self))"

definition check_block_checksum :: "'h hasher \<Rightarrow> bytes \<Rightarrow> 32 word \<Rightarrow> (Error, unit) outcome" where
  "check_block_checksum H data expected_checksum =
     (if ucast (hash_finish H (hash_write H (with_seed H 0) data)) \<noteq> expected_checksum then Err BlockChecksumError
      else Ok ())"

text \<open>A window that grows and never shrinks, and the bytes written over its end.\<close>

definition grow :: "bytes \<Rightarrow> nat \<Rightarrow> bytes" where
  "grow v n = v @ replicate (n - length v) 0"

text \<open>
  The block in \<^verbatim>\<open>src\<close> is decoded into \<^verbatim>\<open>dst\<close>: with the end of the output as dictionary, with the
  external dictionary, or with none.  An error keeps what was written.
\<close>

definition decompress_block ::
  "('h, 'r) FrameDecoder \<Rightarrow> nat \<Rightarrow> nat \<Rightarrow>
   (DecompressError \<times> ('h, 'r) FrameDecoder, nat \<times> ('h, 'r) FrameDecoder) outcome" where
  "decompress_block self len limit =
     obind (sub_slice (fd_src self) 0 len) (\<lambda>input.
     let fin = fd_dst_start self + limit;
         linked = (case fd_current_frame_info self of None \<Rightarrow> False | Some info \<Rightarrow> block_mode info = Linked);
         run = (\<lambda>use_dict window rest dict.
           obind (SliceSink_new window (fd_dst_start self)) (\<lambda>s.
           case decompress_into_sink_with_dict use_dict input s dict of
             Ok (n, s) \<Rightarrow> Ok (n, self\<lparr>fd_dst := sink_output s @ rest\<rparr>)
           | Err (e, s) \<Rightarrow> Err (e, self\<lparr>fd_dst := sink_output s @ rest\<rparr>)
           | Panic \<Rightarrow> Panic
           | Diverge \<Rightarrow> Diverge)) in
     if linked \<and> fd_ext_dict_len self \<noteq> 0 then
       if \<not> fin \<le> fd_ext_dict_offset self then Panic
       else
         obind (sub_slice (fd_dst self) (fd_ext_dict_offset self) (fd_ext_dict_offset self + fd_ext_dict_len self)) (\<lambda>ext_dict.
         obind (sub_slice (fd_dst self) 0 fin) (\<lambda>window.
         run True window (drop fin (fd_dst self)) ext_dict))
     else
       let dst = grow (fd_dst self) fin in
       obind (sub_slice dst 0 fin) (\<lambda>window.
       if fd_dict self \<noteq> [] then run True window (drop fin dst) (fd_dict self)
       else run False window (drop fin dst) []))"

text \<open>Where the next block goes: a full window becomes the dictionary of what follows it.\<close>

definition prepare_window :: "nat \<Rightarrow> FrameInfo \<Rightarrow> ('h, 'r) FrameDecoder \<Rightarrow> ('e, ('h, 'r) FrameDecoder) outcome" where
  "prepare_window max_block_size info self =
     (if block_mode info = Linked then
        let dst_size = max_block_size * 2 + WINDOW_SIZE in
        if dst_size < fd_dst_start self + max_block_size then
          if \<not> max_block_size + WINDOW_SIZE \<le> fd_dst_start self then Panic
          else Ok (self\<lparr>fd_ext_dict_offset := fd_dst_start self - WINDOW_SIZE, fd_ext_dict_len := WINDOW_SIZE,
            fd_dst_start := 0, fd_dst_end := 0\<rparr>)
        else if WINDOW_SIZE < fd_dst_start self + fd_ext_dict_len self then
          let delta = min (fd_ext_dict_len self) (fd_dst_start self + fd_ext_dict_len self - WINDOW_SIZE);
              self = self\<lparr>fd_ext_dict_offset := fd_ext_dict_offset self + delta,
                fd_ext_dict_len := fd_ext_dict_len self - delta\<rparr> in
          if WINDOW_SIZE \<le> fd_dst_start self + fd_ext_dict_len self then Ok self else Panic
        else Ok self
      else if fd_ext_dict_len self \<noteq> 0 then Panic
      else Ok (self\<lparr>fd_dst_start := 0, fd_dst_end := 0\<rparr>))"

text \<open>The checksum after a block, of the data that is found in the decoder.\<close>

definition verify_block ::
  "'h hasher \<Rightarrow> 'r io_read \<Rightarrow> FrameInfo \<Rightarrow> (('h, 'r) FrameDecoder \<Rightarrow> (io_error \<times> ('h, 'r) FrameDecoder, bytes) outcome) \<Rightarrow>
   ('h, 'r) FrameDecoder \<Rightarrow> (io_error \<times> ('h, 'r) FrameDecoder, ('h, 'r) FrameDecoder) outcome" where
  "verify_block H R info data_of self =
     (if block_checksums info then
        obind (read_checksum R self) (\<lambda>(expected_checksum, self).
        obind (data_of self) (\<lambda>data.
        obind (try_error self (check_block_checksum H data expected_checksum)) (\<lambda>_. Ok self)))
      else Ok self)"

text \<open>A stored block; \<open>None\<close> is the end of the frame.\<close>

definition read_uncompressed ::
  "'h hasher \<Rightarrow> 'r io_read \<Rightarrow> nat \<Rightarrow> FrameInfo \<Rightarrow> ('h, 'r) FrameDecoder \<Rightarrow> nat \<Rightarrow>
   (io_error \<times> ('h, 'r) FrameDecoder, ('h, 'r) FrameDecoder) outcome" where
  "read_uncompressed H R max_block_size info self len =
     (if max_block_size < len then fail self BlockTooBig
      else
        obind (try_error self (check_output_len self len)) (\<lambda>bytes_output.
        let self = self\<lparr>fd_dst := grow (fd_dst self) (fd_dst_start self + len)\<rparr> in
        obind (r_exact R self len) (\<lambda>(bs, self).
        obind (copy_into (fd_dst self) (fd_dst_start self) (fd_dst_start self + len) bs) (\<lambda>dst.
        let self = self\<lparr>fd_dst := dst\<rparr> in
        obind (verify_block H R info (\<lambda>self. sub_slice (fd_dst self) (fd_dst_start self) (fd_dst_start self + len)) self) (\<lambda>self.
        if \<not> fd_content_len self + len < 2 ^ 64 then Panic
        else
          Ok (self\<lparr>fd_bytes_output := bytes_output, fd_dst_end := fd_dst_end self + len,
            fd_content_len := fd_content_len self + len\<rparr>))))))"

text \<open>A compressed block: decoded within the declared size, and again with the whole block size.\<close>

definition decode_within ::
  "('h, 'r) FrameDecoder \<Rightarrow> nat \<Rightarrow> nat \<Rightarrow> nat \<Rightarrow>
   (DecompressError \<times> ('h, 'r) FrameDecoder, nat \<times> ('h, 'r) FrameDecoder) outcome" where
  "decode_within self len limit max_block_size =
     (case decompress_block self len limit of
        Err (e, self) \<Rightarrow> if limit < max_block_size then decompress_block self len max_block_size else Err (e, self)
      | r \<Rightarrow> r)"

definition remaining_size :: "FrameInfo \<Rightarrow> nat \<Rightarrow> nat" where
  "remaining_size info content_len = (case content_size info of Some n \<Rightarrow> unat n - content_len | None \<Rightarrow> usize_max)"

definition read_compressed ::
  "'h hasher \<Rightarrow> 'r io_read \<Rightarrow> nat \<Rightarrow> FrameInfo \<Rightarrow> ('h, 'r) FrameDecoder \<Rightarrow> nat \<Rightarrow>
   (io_error \<times> ('h, 'r) FrameDecoder, ('h, 'r) FrameDecoder) outcome" where
  "read_compressed H R max_block_size info self len =
     (if max_block_size < len then fail self BlockTooBig
      else
        let self = self\<lparr>fd_src := grow (fd_src self) len\<rparr> in
        obind (r_exact R self len) (\<lambda>(bs, self).
        obind (copy_into (fd_src self) 0 len bs) (\<lambda>src.
        let self = self\<lparr>fd_src := src\<rparr> in
        obind (verify_block H R info (\<lambda>self. sub_slice (fd_src self) 0 len) self) (\<lambda>self.
        obind (map_err (\<lambda>(e, self). (io_of_Error (DecompressionError e), self))
            (decode_within self len (min max_block_size (remaining_size info (fd_content_len self))) max_block_size)) (\<lambda>(decomp_size, self).
        obind (try_error self (check_output_len self decomp_size)) (\<lambda>bytes_output.
        if \<not> fd_content_len self + decomp_size < 2 ^ 64 then Panic
        else
          Ok (self\<lparr>fd_bytes_output := bytes_output, fd_dst_end := fd_dst_end self + decomp_size,
            fd_content_len := fd_content_len self + decomp_size\<rparr>)))))))"

definition read_end_mark ::
  "'h hasher \<Rightarrow> 'r io_read \<Rightarrow> FrameInfo \<Rightarrow> ('h, 'r) FrameDecoder \<Rightarrow>
   (io_error \<times> ('h, 'r) FrameDecoder, ('h, 'r) FrameDecoder) outcome" where
  "read_end_mark H R info self =
     (let mismatch = (case content_size info of Some expected \<Rightarrow> fd_content_len self \<noteq> unat expected | None \<Rightarrow> False) in
      if mismatch then
        fail self (ContentLengthError (the (content_size info)) (word_of_nat (fd_content_len self)))
      else
        obind (if content_checksum info then
            obind (read_checksum R self) (\<lambda>(expected_checksum, self).
            if ucast (hash_finish H (fd_hasher self)) \<noteq> expected_checksum then fail self ContentChecksumError
            else Ok self)
          else Ok self) (\<lambda>self.
        Ok (self\<lparr>fd_current_frame_info := None\<rparr>)))"

definition read_block :: "'h hasher \<Rightarrow> 'r io_read \<Rightarrow> ('h, 'r) FrameDecoder \<Rightarrow> ('h, 'r, nat) io_result" where
  "read_block H R self =
     (if fd_dst_start self \<noteq> fd_dst_end self then Panic
      else
        case fd_current_frame_info self of
          None \<Rightarrow> Err (Plain Other ''no frame header has been read'', self)
        | Some info \<Rightarrow>
            obind (get_size (block_size info)) (\<lambda>max_block_size.
            obind (prepare_window max_block_size info self) (\<lambda>self.
            obind (r_exact R self 4) (\<lambda>(buffer, self).
            obind (try_error self (BlockInfo_read buffer)) (\<lambda>block_info.
            let finish_block = (\<lambda>self.
              obind (if content_checksum info then
                  obind (sub_slice (fd_dst self) (fd_dst_start self) (fd_dst_end self)) (\<lambda>data.
                  Ok (self\<lparr>fd_hasher := hash_write H (fd_hasher self) data\<rparr>))
                else Ok self) (\<lambda>self.
              obind (usub (fd_dst_end self) (fd_dst_start self)) (\<lambda>n. Ok (n, self)))) in
            case block_info of
              Uncompressed len \<Rightarrow> obind (read_uncompressed H R max_block_size info self (unat len)) finish_block
            | Compressed len \<Rightarrow> obind (read_compressed H R max_block_size info self (unat len)) finish_block
            | EndMark \<Rightarrow> obind (read_end_mark H R info self) (\<lambda>self. Ok (0, self)))))))"

section \<open>Reading\<close>

fun read_more :: "nat \<Rightarrow> 'h hasher \<Rightarrow> 'r io_read \<Rightarrow> ('h, 'r) FrameDecoder \<Rightarrow> ('h, 'r, nat) io_result" where
  "read_more 0 H R self = Diverge"
| "read_more (Suc fuel) H R self =
     obind (if fd_current_frame_info self = None then
         obind (read_frame_info H R self) (\<lambda>(n, self). Ok (n = 0, self))
       else Ok (False, self)) (\<lambda>(eof, self).
     if eof then Ok (0, self)
     else
       obind (map_err (\<lambda>(e, self). (e, self\<lparr>fd_current_frame_info := None\<rparr>)) (read_block H R self)) (\<lambda>(n, self).
       if n \<noteq> 0 then Ok (n, self) else read_more fuel H R self))"

text \<open>\<^verbatim>\<open>Read::read\<close> into a buffer of the given length: the bytes that are read.\<close>

fun FrameDecoder_read :: "nat \<Rightarrow> 'h hasher \<Rightarrow> 'r io_read \<Rightarrow> ('h, 'r) FrameDecoder \<Rightarrow> nat \<Rightarrow> ('h, 'r, bytes) io_result" where
  "FrameDecoder_read 0 H R self buf_len = Diverge"
| "FrameDecoder_read (Suc fuel) H R self buf_len =
     (if fd_dst_start self < fd_dst_end self then
        let read_len = min (fd_dst_end self - fd_dst_start self) buf_len;
            dst_read_end = fd_dst_start self + read_len in
        obind (sub_slice (fd_dst self) (fd_dst_start self) dst_read_end) (\<lambda>bs.
        Ok (bs, self\<lparr>fd_dst_start := dst_read_end\<rparr>))
      else
        obind (read_more (Suc fuel) H R self) (\<lambda>(n, self).
        if n = 0 then Ok ([], self) else FrameDecoder_read fuel H R self buf_len))"

definition fill_buf :: "nat \<Rightarrow> 'h hasher \<Rightarrow> 'r io_read \<Rightarrow> ('h, 'r) FrameDecoder \<Rightarrow> ('h, 'r, bytes) io_result" where
  "fill_buf fuel H R self =
     obind (if fd_dst_start self = fd_dst_end self then
         obind (read_more fuel H R self) (\<lambda>(_, self). Ok self)
       else Ok self) (\<lambda>self.
     obind (sub_slice (fd_dst self) (fd_dst_start self) (fd_dst_end self)) (\<lambda>bs. Ok (bs, self)))"

definition consume :: "('h, 'r) FrameDecoder \<Rightarrow> nat \<Rightarrow> ('e, ('h, 'r) FrameDecoder) outcome" where
  "consume self amt =
     obind (usub (fd_dst_end self) (fd_dst_start self)) (\<lambda>n.
     if amt \<le> n then Ok (self\<lparr>fd_dst_start := fd_dst_start self + amt\<rparr>) else Panic)"

text \<open>The caller's buffer is returned with the count, also with an error.\<close>

fun read_to_end_loop ::
  "nat \<Rightarrow> 'h hasher \<Rightarrow> 'r io_read \<Rightarrow> ('h, 'r) FrameDecoder \<Rightarrow> bytes \<Rightarrow> nat \<Rightarrow>
   (io_error \<times> ('h, 'r) FrameDecoder \<times> bytes, nat \<times> ('h, 'r) FrameDecoder \<times> bytes) outcome" where
  "read_to_end_loop 0 H R self buf written = Diverge"
| "read_to_end_loop (Suc fuel) H R self buf written =
     (case fill_buf (Suc fuel) H R self of
        Ok (bs, self) \<Rightarrow>
          if bs = [] then Ok (written, self, buf)
          else
            let self = self\<lparr>fd_content_reserve := None\<rparr> in
            obind (sub_slice (fd_dst self) (fd_dst_start self) (fd_dst_end self)) (\<lambda>block.
            obind (consume self (length block)) (\<lambda>self.
            read_to_end_loop fuel H R self (buf @ block) (written + length block)))
      | Err (e, self) \<Rightarrow>
          if kind_of e = Interrupted then read_to_end_loop fuel H R self buf written else Err (e, self, buf)
      | Panic \<Rightarrow> Panic
      | Diverge \<Rightarrow> Diverge)"

definition read_to_end ::
  "nat \<Rightarrow> 'h hasher \<Rightarrow> 'r io_read \<Rightarrow> ('h, 'r) FrameDecoder \<Rightarrow> bytes \<Rightarrow>
   (io_error \<times> ('h, 'r) FrameDecoder \<times> bytes, nat \<times> ('h, 'r) FrameDecoder \<times> bytes) outcome" where
  "read_to_end fuel H R self buf = read_to_end_loop fuel H R self buf 0"

end
