(* ===== verification/Frame_Decoder_Correct.thy ===== *)
theory Frame_Decoder_Correct
  imports Frame_Decoder Frame_Format
begin

text \<open>
  The frame decoder accepts exactly the streams of frames and gives back their content, on any
  input without a panic.  \<open>reader\<close> is the contract of a reader that delivers a sequence of bytes,
  in pieces of its choice; a slice is one.  \<open>window_ok\<close> relates the decoder's window to the content
  of the open frame.  Each step of the decoder is described completely: what it returns if the
  format has a block, the end of a frame or a header at the front of the input, and that it fails
  otherwise.
\<close>

locale reader =
  fixes R :: "'r io_read" and rest :: "'r \<Rightarrow> bytes"
  assumes read_exact_ok: "n \<le> length (rest r) \<Longrightarrow>
      \<exists>r'. read_exact R r n = (Inr (take n (rest r)), r') \<and> rest r' = drop n (rest r)"
    and read_exact_eof: "length (rest r) < n \<Longrightarrow>
      \<exists>e r'. read_exact R r n = (Inl e, r') \<and> kind_of e \<noteq> Interrupted"
    and read_some_ok: "0 < n \<Longrightarrow> \<exists>k r'. read_some R r n = (Inr (take k (rest r)), r') \<and> rest r' = drop k (rest r) \<and>
      k \<le> n \<and> k \<le> length (rest r) \<and> (rest r \<noteq> [] \<longrightarrow> 0 < k)"

interpretation slice: reader slice_reader "\<lambda>r. r"
proof unfold_locales
  show "\<exists>k r'. read_some slice_reader r n = (Inr (take k r), r') \<and> r' = drop k r \<and> k \<le> n \<and> k \<le> length r \<and> (r \<noteq> [] \<longrightarrow> 0 < k)"
    if "0 < n" for n r
    using that by (intro exI [of _ "min n (length r)"]) (auto simp: slice_reader_def min_def)
qed (simp_all add: slice_reader_def)

section \<open>The window\<close>

abbreviation dec_block_size :: "FrameInfo \<Rightarrow> nat" where
  "dec_block_size info \<equiv> max_block_size (block_size info)"

definition dec_ext :: "('h, 'r) FrameDecoder \<Rightarrow> bytes" where
  "dec_ext self = take (fd_ext_dict_len self) (drop (fd_ext_dict_offset self) (fd_dst self))"

definition dec_prefix :: "('h, 'r) FrameDecoder \<Rightarrow> bytes" where
  "dec_prefix self = take (fd_dst_start self) (fd_dst self)"

text \<open>
  All of the content \<open>h\<close> of a linked frame, or a whole window of it, is in the buffer: as a prefix,
  or as a prefix and an external dictionary behind the room of the next block.
\<close>

definition window_ok :: "FrameInfo \<Rightarrow> bytes \<Rightarrow> ('h, 'r) FrameDecoder \<Rightarrow> bool" where
  "window_ok info h self \<longleftrightarrow>
     fd_dst_start self = fd_dst_end self \<and> fd_dst_end self \<le> length (fd_dst self) \<and>
     fd_dst_start self \<le> 2 * dec_block_size info + WINDOW_SIZE \<and>
     (if block_mode info = Linked then
        (if fd_ext_dict_len self = 0 then
           h = dec_prefix self \<or> (\<exists>pre. h = pre @ dec_prefix self) \<and> WINDOW_SIZE \<le> fd_dst_start self
         else
           fd_ext_dict_offset self + fd_ext_dict_len self \<le> length (fd_dst self) \<and>
           dec_block_size info + WINDOW_SIZE \<le> fd_ext_dict_offset self + fd_ext_dict_len self \<and>
           fd_dst_start self \<le> fd_ext_dict_offset self \<and> fd_ext_dict_len self \<le> WINDOW_SIZE \<and>
           WINDOW_SIZE \<le> fd_dst_start self + fd_ext_dict_len self \<and> window_of h (dec_ext self) (dec_prefix self))
      else fd_ext_dict_len self = 0)"

text \<open>There is room for a block.\<close>

definition room_ok :: "FrameInfo \<Rightarrow> ('h, 'r) FrameDecoder \<Rightarrow> bool" where
  "room_ok info self \<longleftrightarrow>
     (if block_mode info = Linked then
        fd_dst_start self \<le> dec_block_size info + WINDOW_SIZE \<and>
        (fd_ext_dict_len self \<noteq> 0 \<longrightarrow> fd_dst_start self + dec_block_size info \<le> fd_ext_dict_offset self)
      else fd_dst_start self = 0)"

lemma window_of_drop: "window_of h d p \<Longrightarrow> window_of h (drop k d) p"
  unfolding window_of_def by (metis append.assoc append_take_drop_id)

lemma prepare_window_ok:
  assumes w: "window_ok info h self"
  obtains xo xl st where
    "prepare_window (dec_block_size info) info self = (Ok (self\<lparr>fd_ext_dict_offset := xo, fd_ext_dict_len := xl,
       fd_dst_start := st, fd_dst_end := st\<rparr>) :: ('e, ('h, 'r) FrameDecoder) outcome)"
    "window_ok info h (self\<lparr>fd_ext_dict_offset := xo, fd_ext_dict_len := xl, fd_dst_start := st, fd_dst_end := st\<rparr>)"
    "room_ok info (self\<lparr>fd_ext_dict_offset := xo, fd_ext_dict_len := xl, fd_dst_start := st, fd_dst_end := st\<rparr>)"
proof -
  let ?B = "dec_block_size info" and ?st = "fd_dst_start self"
  let ?xo = "fd_ext_dict_offset self" and ?xl = "fd_ext_dict_len self"
  have b: "?st = fd_dst_end self" "?st \<le> length (fd_dst self)" "?st \<le> 2 * ?B + WINDOW_SIZE"
    using w by (simp_all add: window_ok_def)
  show thesis
  proof (cases "block_mode info = Linked")
    case False
    with w show thesis
      by (intro that [of 0 ?xl ?xo]) (simp_all add: prepare_window_def window_ok_def room_ok_def)
  next
    case L: True
    consider (full) "?B * 2 + WINDOW_SIZE < ?st + ?B"
      | (shift) "?st + ?B \<le> ?B * 2 + WINDOW_SIZE" "WINDOW_SIZE < ?st + ?xl"
      | (keep) "?st + ?B \<le> ?B * 2 + WINDOW_SIZE" "?st + ?xl \<le> WINDOW_SIZE" by linarith
    then show thesis
    proof cases
      case full
      let ?s = "self\<lparr>fd_ext_dict_offset := ?st - WINDOW_SIZE, fd_ext_dict_len := WINDOW_SIZE,
        fd_dst_start := 0, fd_dst_end := 0\<rparr>"
      have "dec_prefix self = take (?st - WINDOW_SIZE) (fd_dst self) @ dec_ext ?s"
        using full b(2) by (simp add: dec_ext_def dec_prefix_def flip: take_add)
      moreover have "\<exists>pre. h = pre @ dec_prefix self"
        using w L by (cases "?xl = 0") (auto simp: window_ok_def window_of_def)
      ultimately have "window_of h (dec_ext ?s) (dec_prefix ?s)"
        unfolding window_of_def dec_prefix_def [of ?s] by auto
      with full b L show thesis
        by (intro that [of 0 WINDOW_SIZE "?st - WINDOW_SIZE"])
          (simp_all add: prepare_window_def window_ok_def room_ok_def)
    next
      case shift
      define d where "d = min ?xl (?st + ?xl - WINDOW_SIZE)"
      let ?s = "self\<lparr>fd_ext_dict_offset := ?xo + d, fd_ext_dict_len := ?xl - d, fd_dst_start := ?st, fd_dst_end := ?st\<rparr>"
      have d: "WINDOW_SIZE \<le> ?st + (?xl - d)" "?xl - d \<noteq> 0 \<Longrightarrow> ?st + (?xl - d) = WINDOW_SIZE" "d \<le> ?xl"
        using shift(2) by (auto simp: d_def)
      have p: "dec_prefix ?s = dec_prefix self" by (simp add: dec_prefix_def)
      have x: "dec_ext ?s = drop d (dec_ext self)" by (simp add: dec_ext_def drop_take add.commute)
      have s: "self\<lparr>fd_ext_dict_offset := ?xo + d, fd_ext_dict_len := ?xl - d\<rparr> = ?s" using b(1) by simp
      have c: "\<not> ?B * 2 + WINDOW_SIZE < ?st + ?B" using shift(1) by simp
      have "prepare_window ?B info self = (Ok (self\<lparr>fd_ext_dict_offset := ?xo + d, fd_ext_dict_len := ?xl - d\<rparr>) ::
          ('e, ('h, 'r) FrameDecoder) outcome)"
        unfolding prepare_window_def Let_def if_P [OF L] if_not_P [OF c] if_P [OF shift(2)] d_def [symmetric]
        using d(1) by simp
      then have "prepare_window ?B info self = (Ok ?s :: ('e, ('h, 'r) FrameDecoder) outcome)" by (rule trans) (rule arg_cong [OF s])
      moreover have "window_ok info h ?s"
      proof (cases "?xl - d = 0")
        case True
        have "\<exists>pre. h = pre @ dec_prefix self"
          using w L by (cases "?xl = 0") (auto simp: window_ok_def window_of_def)
        with True L b d(1) p show ?thesis by (simp add: window_ok_def)
      next
        case False
        then have "?xl \<noteq> 0" by simp
        with w L window_of_drop False have "window_of h (dec_ext ?s) (dec_prefix ?s)" unfolding x p by (simp add: window_ok_def)
        with False \<open>?xl \<noteq> 0\<close> w L d show ?thesis by (simp add: window_ok_def)
      qed
      moreover have "room_ok info ?s" using L w d shift(1) by (auto simp: room_ok_def window_ok_def split: if_splits)
      ultimately show thesis by (rule that)
    next
      case keep
      have "room_ok info self" using L w keep by (auto simp: room_ok_def window_ok_def split: if_splits)
      moreover have "self\<lparr>fd_ext_dict_offset := ?xo, fd_ext_dict_len := ?xl, fd_dst_start := ?st, fd_dst_end := ?st\<rparr> = self"
        using b(1) by simp
      ultimately show thesis
        using that [of ?st ?xl ?xo] w L keep by (simp add: prepare_window_def)
    qed
  qed
qed

text \<open>What the decoder sees of the history of the block.\<close>

definition dec_dict :: "FrameInfo \<Rightarrow> ('h, 'r) FrameDecoder \<Rightarrow> bytes" where
  "dec_dict info self = (if block_mode info = Linked \<and> fd_ext_dict_len self \<noteq> 0 then dec_ext self else fd_dict self)"

lemma window_sees:
  assumes w: "window_ok info h self" and r: "room_ok info self"
  shows "sees (block_history info (fd_dict self) h) (dec_dict info self) (dec_prefix self)"
proof (cases "block_mode info = Linked")
  case False
  with r show ?thesis by (simp add: room_ok_def dec_prefix_def dec_dict_def block_history_def sees_def)
next
  case L: True
  have p: "length (dec_prefix self) = fd_dst_start self" using w by (simp add: window_ok_def dec_prefix_def)
  show ?thesis
  proof (cases "fd_ext_dict_len self = 0")
    case True
    with w L consider "h = dec_prefix self" | pre where "h = pre @ dec_prefix self" "WINDOW_SIZE \<le> fd_dst_start self"
      by (auto simp: window_ok_def)
    then show ?thesis
    proof cases
      case 1
      with True L show ?thesis by (simp add: sees_def dec_dict_def block_history_def)
    next
      case 2
      with True L p show ?thesis
        unfolding sees_def dec_dict_def block_history_def
        by (intro disjI2 exI [of _ "fd_dict self @ pre"] exI [of _ "fd_dict self"] exI [of _ "dec_prefix self"]) simp
    qed
  next
    case False
    with w L obtain pre where "h = pre @ dec_ext self @ dec_prefix self" "WINDOW_SIZE \<le> fd_dst_start self + fd_ext_dict_len self"
      "length (dec_ext self) = fd_ext_dict_len self"
      by (auto simp: window_ok_def window_of_def dec_ext_def)
    with False L p show ?thesis
      unfolding sees_def dec_dict_def block_history_def
      by (intro disjI2 exI [of _ "fd_dict self @ pre"] exI [of _ "[]"] exI [of _ "dec_ext self @ dec_prefix self"]) simp
  qed
qed

section \<open>Decoding a block\<close>

lemma take_prefix_trans: "take (length b) c = b \<Longrightarrow> take (length a) b = a \<Longrightarrow> length a \<le> length b \<Longrightarrow> take (length a) c = a"
  by (metis min.absorb1 take_take)

lemma apply_match_prefix: "take (length h) (apply_match dict (h @ l) off n) = h"
  by (rule take_prefix_trans [OF apply_match_extends]) simp_all

lemma spec_sequence_More_prefix:
  "spec_sequence dict cap h inp = Ok (More h' inp') \<Longrightarrow> take (length h) h' = h \<and> length h \<le> length h'"
  by (auto simp: spec_sequence_More_iff apply_match_prefix)

lemma spec_sequence_Err_prefix: "spec_sequence dict cap h inp = Err (e, g) \<Longrightarrow> take (length h) g = h"
  by (auto simp: spec_sequence_def obind_Err_iff obind_Ok_iff map_err_Err_iff Let_def split: list.splits if_splits)

lemma decode_block_Err_prefix: "decode_block dict cap h inp = Err (e, g) \<Longrightarrow> take (length h) g = h"
proof (induction dict cap h inp rule: decode_block.induct)
  case (1 dict cap h inp)
  show ?case
  proof (cases "spec_sequence dict cap h inp")
    case (Ok r)
    with "1.prems" obtain h' inp' where r: "r = More h' inp'" "decode_block dict cap h' inp' = Err (e, g)"
      by (subst (asm) decode_block.simps) (auto split: spec_step.splits)
    from spec_sequence_More_prefix [of dict cap h inp h' inp'] Ok r(1) have "take (length h) h' = h" "length h \<le> length h'"
      by simp_all
    with take_prefix_trans "1.IH" [OF Ok r(1) r(2)] show ?thesis by blast
  qed (use "1.prems" spec_sequence_Err_prefix in \<open>subst (asm) decode_block.simps; force\<close>)+
qed

text \<open>A new buffer that keeps what the decoder sees.\<close>

definition dst_ok :: "('h, 'r) FrameDecoder \<Rightarrow> bytes \<Rightarrow> bool" where
  "dst_ok self dst' \<longleftrightarrow> length (fd_dst self) \<le> length dst' \<and> take (fd_dst_start self) dst' = dec_prefix self \<and>
     (fd_ext_dict_len self \<noteq> 0 \<longrightarrow> drop (fd_ext_dict_offset self) dst' = drop (fd_ext_dict_offset self) (fd_dst self))"

lemma dst_ok_sees:
  assumes "dst_ok self dst'"
  shows "dec_ext (self\<lparr>fd_dst := dst'\<rparr>) = dec_ext self" "dec_prefix (self\<lparr>fd_dst := dst'\<rparr>) = dec_prefix self"
    "dec_dict info (self\<lparr>fd_dst := dst'\<rparr>) = dec_dict info self"
  using assms by (auto simp: dst_ok_def dec_ext_def dec_prefix_def dec_dict_def)

lemma dst_ok_window:
  assumes "dst_ok self dst'" "window_ok info h self"
  shows "window_ok info h (self\<lparr>fd_dst := dst'\<rparr>)"
  using assms dst_ok_sees [OF assms(1)]
  by (cases "block_mode info = Linked"; cases "fd_ext_dict_len self = 0") (auto simp: window_ok_def dst_ok_def)

lemma dst_ok_trans: "dst_ok self dst' \<Longrightarrow> dst_ok (self\<lparr>fd_dst := dst'\<rparr>) dst'' \<Longrightarrow> dst_ok self dst''"
  by (auto simp: dst_ok_def dec_prefix_def)

lemma grow_ok: "n \<le> length (grow v n)" "length v \<le> length (grow v n)" "m \<le> length v \<Longrightarrow> take m (grow v n) = take m v"
  by (simp_all add: grow_def)

lemma take_length_take: "take (length (take n xs)) xs = take n xs"
  by (simp add: min_def)

text \<open>The decoder's own sink over the part of the buffer up to \<open>fin\<close>.\<close>

lemma decode_in_window:
  assumes st: "st \<le> fin" "fin \<le> length dst" and d: "use_dict \<or> ext_dict = []"
  shows "case decode_block ext_dict fin (take st dst) input of
      Ok g \<Rightarrow> \<exists>s'. decompress_into_sink_with_dict use_dict input \<lparr>sink_output = take fin dst, sink_pos = st\<rparr> ext_dict =
          Ok (length g - st, s') \<and> take (length g) (sink_output s') = g \<and> length (sink_output s') = fin
    | Err (e, g) \<Rightarrow> \<exists>s'. decompress_into_sink_with_dict use_dict input \<lparr>sink_output = take fin dst, sink_pos = st\<rparr> ext_dict =
          Err (e, s') \<and> take (length g) (sink_output s') = g \<and> length (sink_output s') = fin
    | _ \<Rightarrow> False"
proof -
  let ?s = "\<lparr>sink_output = take fin dst, sink_pos = st\<rparr>"
  have s: "sink_ok ?s" "sink_content ?s = take st dst" "SliceSink_capacity ?s = fin"
    using st by (simp_all add: sink_ok_def sink_content_def SliceSink_capacity_def min_absorb1)
  have out: "take (length (sink_content s')) (sink_output s') = sink_content s'" for s'
    by (simp only: sink_content_def take_length_take)
  have "ext_dict = (if use_dict then ext_dict else [])" using d by auto
  from decompress_into_sink_refines [OF s(1) this, of input] show ?thesis
    by (simp only: s) (auto simp: SliceSink_capacity_def split: outcome.splits dest: sym [of _ "sink_content _"] simp: out)
qed

lemma decompress_block_eq:
  fixes self :: "('h, 'r) FrameDecoder"
  assumes w: "window_ok info h self" and r: "room_ok info self" and cur: "fd_current_frame_info self = Some info"
    and len: "len \<le> length (fd_src self)" and lim: "limit \<le> dec_block_size info"
  obtains dst use_dict where "fd_dst_start self + limit \<le> length dst" "use_dict \<or> dec_dict info self = []"
    "length (fd_dst self) \<le> length dst" "take (fd_dst_start self) dst = dec_prefix self"
    "fd_ext_dict_len self \<noteq> 0 \<longrightarrow> dst = fd_dst self \<and> fd_dst_start self + limit \<le> fd_ext_dict_offset self"
    "decompress_block self len limit =
      (case decompress_into_sink_with_dict use_dict (take len (fd_src self))
          \<lparr>sink_output = take (fd_dst_start self + limit) dst, sink_pos = fd_dst_start self\<rparr> (dec_dict info self) of
        Ok (n, s) \<Rightarrow> Ok (n, self\<lparr>fd_dst := sink_output s @ drop (fd_dst_start self + limit) dst\<rparr>)
      | Err (e, s) \<Rightarrow> Err (e, self\<lparr>fd_dst := sink_output s @ drop (fd_dst_start self + limit) dst\<rparr>)
      | Panic \<Rightarrow> Panic
      | Diverge \<Rightarrow> Diverge)"
proof -
  let ?st = "fd_dst_start self" and ?fin = "fd_dst_start self + limit"
  have st: "?st \<le> length (fd_dst self)" using w by (simp add: window_ok_def)
  have input: "sub_slice (fd_src self) 0 len = (Ok (take len (fd_src self)) :: (DecompressError \<times> ('h, 'r) FrameDecoder, _) outcome)" using len by (simp add: sub_slice_def)
  have sink: "SliceSink_new (take ?fin dst) ?st = (Ok \<lparr>sink_output = take ?fin dst, sink_pos = ?st\<rparr> :: (DecompressError \<times> ('h, 'r) FrameDecoder, _) outcome)"
    "sub_slice dst 0 ?fin = (Ok (take ?fin dst) :: (DecompressError \<times> ('h, 'r) FrameDecoder, _) outcome)" if "?fin \<le> length dst" for dst
    using that by (simp_all add: SliceSink_new_def sub_slice_def)
  show thesis
  proof (cases "block_mode info = Linked \<and> fd_ext_dict_len self \<noteq> 0")
    case True
    with w r lim have x: "?fin \<le> fd_ext_dict_offset self" "fd_ext_dict_offset self + fd_ext_dict_len self \<le> length (fd_dst self)"
      by (auto simp: window_ok_def room_ok_def)
    then have fin: "?fin \<le> length (fd_dst self)" by simp
    have "sub_slice (fd_dst self) (fd_ext_dict_offset self) (fd_ext_dict_offset self + fd_ext_dict_len self) =
        (Ok (dec_ext self) :: (DecompressError \<times> ('h, 'r) FrameDecoder, _) outcome)"
      using x(2) by (simp add: sub_slice_def dec_ext_def)
    with True x fin sink [OF fin] input cur show thesis
      by (intro that [of "fd_dst self" True]) (simp_all add: dec_prefix_def decompress_block_def Let_def dec_dict_def)
  next
    case False
    then have x: "fd_ext_dict_len self = 0" using w by (auto simp: window_ok_def split: if_splits)
    have dict: "dec_dict info self = fd_dict self" using False by (auto simp: dec_dict_def)
    have g: "?fin \<le> length (grow (fd_dst self) ?fin)" by (rule grow_ok)
    show thesis
      by (rule that [of "grow (fd_dst self) ?fin" "fd_dict self \<noteq> []"])
        (use x dict g sink [OF g] input grow_ok(2) grow_ok(3) [OF st] in
          \<open>simp_all add: dec_prefix_def decompress_block_def Let_def split del: if_split\<close>, simp)
  qed
qed

lemma decompress_block_ok:
  assumes w: "window_ok info h self" and r: "room_ok info self" and cur: "fd_current_frame_info self = Some info"
    and len: "len \<le> length (fd_src self)" and lim: "limit \<le> dec_block_size info"
  shows "case decode_block (dec_dict info self) (fd_dst_start self + limit) (dec_prefix self) (take len (fd_src self)) of
      Ok g \<Rightarrow> \<exists>dst'. decompress_block self len limit = Ok (length g - fd_dst_start self, self\<lparr>fd_dst := dst'\<rparr>) \<and>
        dst_ok self dst' \<and> take (length g) dst' = g
    | Err (e, g) \<Rightarrow> \<exists>dst'. decompress_block self len limit = Err (e, self\<lparr>fd_dst := dst'\<rparr>) \<and> dst_ok self dst'
    | _ \<Rightarrow> False"
proof -
  let ?st = "fd_dst_start self" and ?fin = "fd_dst_start self + limit"
  have st: "?st \<le> length (fd_dst self)" and p: "length (dec_prefix self) = ?st"
    using w by (simp_all add: window_ok_def dec_prefix_def)
  obtain dst u where D: "?fin \<le> length dst" "u \<or> dec_dict info self = []" "length (fd_dst self) \<le> length dst"
    "take ?st dst = dec_prefix self"
    "fd_ext_dict_len self \<noteq> 0 \<longrightarrow> dst = fd_dst self \<and> ?fin \<le> fd_ext_dict_offset self"
    and eq: "decompress_block self len limit =
      (case decompress_into_sink_with_dict u (take len (fd_src self)) \<lparr>sink_output = take ?fin dst, sink_pos = ?st\<rparr> (dec_dict info self) of
        Ok (n, s) \<Rightarrow> Ok (n, self\<lparr>fd_dst := sink_output s @ drop ?fin dst\<rparr>)
      | Err (e, s) \<Rightarrow> Err (e, self\<lparr>fd_dst := sink_output s @ drop ?fin dst\<rparr>)
      | Panic \<Rightarrow> Panic
      | Diverge \<Rightarrow> Diverge)"
    by (rule decompress_block_eq [OF w r cur len lim])
  have keeps: "dst_ok self (out @ drop ?fin dst)" "take (length g) (out @ drop ?fin dst) = g"
    if "take (length g) out = g" "length out = ?fin" "take (length (dec_prefix self)) g = dec_prefix self" for out g
  proof -
    have "length g \<le> length out" by (metis that(1) length_take min.cobounded1)
    then show "take (length g) (out @ drop ?fin dst) = g" using that(1) by simp
    have "length (dec_prefix self) \<le> length g" by (metis that(3) length_take min.cobounded1)
    from take_prefix_trans [OF that(1,3) this] have "take ?st out = dec_prefix self" by (simp add: p)
    then show "dst_ok self (out @ drop ?fin dst)" using D that(2) by (auto simp: dst_ok_def)
  qed
  note W = decode_in_window [of ?st ?fin dst u "dec_dict info self" "take len (fd_src self)", unfolded D(4)]
  show ?thesis
  proof (cases rule: decode_block_cases [of "dec_dict info self" ?fin "dec_prefix self" "take len (fd_src self)"])
    case (Ok g)
    from decode_block_sound [OF Ok] p have "take (length (dec_prefix self)) g = dec_prefix self"
      by (auto dest: lz4_block_prefix)
    with Ok W D(1,2) eq keeps show ?thesis by fastforce
  next
    case (Err e g)
    from decode_block_Err_prefix [OF Err] Err W D(1,2) eq keeps show ?thesis by fastforce
  qed
qed

text \<open>Within a limit, a block is decoded if its content fits.\<close>

lemma block_within_limit:
  assumes w: "window_ok info h self" and r: "room_ok info self" and cur: "fd_current_frame_info self = Some info"
    and len: "len \<le> length (fd_src self)" and lim: "limit \<le> dec_block_size info"
  obtains (ok) c dst' where "lz4_block (block_history info (fd_dict self) h) [] (take len (fd_src self)) c" "length c \<le> limit"
      "decompress_block self len limit = Ok (length c, self\<lparr>fd_dst := dst'\<rparr>)" "dst_ok self dst'"
      "take (fd_dst_start self + length c) dst' = dec_prefix self @ c"
    | (bad) e dst' where "decompress_block self len limit = Err (e, self\<lparr>fd_dst := dst'\<rparr>)" "dst_ok self dst'"
      "\<And>c. lz4_block (block_history info (fd_dict self) h) [] (take len (fd_src self)) c \<Longrightarrow> limit < length c"
proof -
  let ?hist = "block_history info (fd_dict self) h" and ?input = "take len (fd_src self)"
  let ?d = "dec_dict info self" and ?p = "dec_prefix self" and ?fin = "fd_dst_start self + limit"
  have p: "length ?p = fd_dst_start self" "fd_dst_start self \<le> 2 * dec_block_size info + WINDOW_SIZE"
    using w by (simp_all add: window_ok_def dec_prefix_def)
  have S: "lz4_block ?d ?p ?input g \<longleftrightarrow> (\<exists>c. g = ?p @ c \<and> lz4_block ?hist [] ?input c)" for g
    by (rule sees_block [OF window_sees [OF w r]])
  have big: "?fin + 4 \<le> usize_max" using p(2) lim max_block_size_bounds(1) [of "block_size info"] by (simp add: usize_max_def)
  note D = decompress_block_ok [OF w r cur len lim]
  show thesis
  proof (cases rule: decode_block_cases [of ?d ?fin ?p ?input])
    case (Ok g)
    with decode_block_sound [OF Ok] p S obtain c where c: "g = ?p @ c" "lz4_block ?hist [] ?input c" "length g \<le> ?fin" by auto
    from D Ok obtain dst' where "decompress_block self len limit = Ok (length g - fd_dst_start self, self\<lparr>fd_dst := dst'\<rparr>)"
      "dst_ok self dst'" "take (length g) dst' = g" by auto
    with c p show thesis by (intro ok [of c dst']) simp_all
  next
    case (Err e g)
    from D Err obtain dst' where d: "decompress_block self len limit = Err (e, self\<lparr>fd_dst := dst'\<rparr>)" "dst_ok self dst'" by auto
    have "limit < length c" if "lz4_block ?hist [] ?input c" for c
    proof (rule ccontr)
      assume "\<not> limit < length c"
      then have "length (?p @ c) \<le> ?fin" using p by simp
      moreover have "lz4_block ?d ?p ?input (?p @ c)" using S that by blast
      ultimately have "decode_block ?d ?fin ?p ?input = Ok (?p @ c)" using big by (intro decode_block_complete)
      with Err show False by simp
    qed
    with d show thesis by (rule bad)
  qed
qed

lemma decode_within_ok:
  assumes w: "window_ok info h self" and r: "room_ok info self" and cur: "fd_current_frame_info self = Some info"
    and len: "len \<le> length (fd_src self)" and lim: "limit \<le> dec_block_size info"
  obtains (ok) c dst' where "lz4_block (block_history info (fd_dict self) h) [] (take len (fd_src self)) c"
      "length c \<le> dec_block_size info" "decode_within self len limit (dec_block_size info) = Ok (length c, self\<lparr>fd_dst := dst'\<rparr>)"
      "dst_ok self dst'" "take (fd_dst_start self + length c) dst' = dec_prefix self @ c"
    | (bad) e dst' where "decode_within self len limit (dec_block_size info) = Err (e, self\<lparr>fd_dst := dst'\<rparr>)" "dst_ok self dst'"
      "\<And>c. lz4_block (block_history info (fd_dict self) h) [] (take len (fd_src self)) c \<Longrightarrow> dec_block_size info < length c"
proof (cases rule: block_within_limit [OF w r cur len lim])
  case (1 c dst')
  with lim show thesis by (intro ok [of c dst']) (simp_all add: decode_within_def)
next
  case (2 e dst1)
  show thesis
  proof (cases "limit < dec_block_size info")
    case False
    with lim have "limit = dec_block_size info" by simp
    with 2 show thesis by (intro bad [of e dst1]) (simp_all add: decode_within_def)
  next
    case True
    let ?s = "self\<lparr>fd_dst := dst1\<rparr>"
    have eq: "decode_within self len limit (dec_block_size info) = decompress_block ?s len (dec_block_size info)"
      using 2(1) True by (simp add: decode_within_def)
    have w1: "window_ok info h ?s" by (rule dst_ok_window [OF 2(2) w])
    have r1: "room_ok info ?s" using r by (auto simp: room_ok_def split: if_splits)
    show thesis
    proof (rule block_within_limit [OF w1 r1, of len "dec_block_size info"])
      fix c dst' assume "lz4_block (block_history info (fd_dict ?s) h) [] (take len (fd_src ?s)) c" "length c \<le> dec_block_size info"
        "decompress_block ?s len (dec_block_size info) = Ok (length c, ?s\<lparr>fd_dst := dst'\<rparr>)" "dst_ok ?s dst'"
        "take (fd_dst_start ?s + length c) dst' = dec_prefix ?s @ c"
      with eq dst_ok_trans [OF 2(2)] dst_ok_sees(2) [OF 2(2)] show thesis by (intro ok [of c dst']) simp_all
    next
      fix e dst' assume "decompress_block ?s len (dec_block_size info) = Err (e, ?s\<lparr>fd_dst := dst'\<rparr>)" "dst_ok ?s dst'"
        "\<And>c. lz4_block (block_history info (fd_dict ?s) h) [] (take len (fd_src ?s)) c \<Longrightarrow> dec_block_size info < length c"
      with eq dst_ok_trans [OF 2(2)] show thesis by (intro bad [of e dst']) simp_all
    qed (use cur len in simp_all)
  qed
qed

section \<open>Reading\<close>

text \<open>The total output may reach the limit of the caller, and no more than a \<^verbatim>\<open>usize\<close>.\<close>

definition out_limit :: "('h, 'r) FrameDecoder \<Rightarrow> nat" where
  "out_limit self = min (fd_max_output self) usize_max"

lemma check_output_len_cases:
  "check_output_len self n = (if fd_bytes_output self + n \<le> out_limit self then Ok (fd_bytes_output self + n)
     else Err (DecompressedSizeLimit (fd_max_output self)
       (if fd_bytes_output self + n \<le> usize_max then fd_bytes_output self + n else usize_max)))"
  by (auto simp: check_output_len_def checked_add_def out_limit_def)

text \<open>What an error leaves: nothing to read, and the settings.\<close>

definition same_settings :: "('h, 'r) FrameDecoder \<Rightarrow> ('h, 'r) FrameDecoder \<Rightarrow> bool" where
  "same_settings self self' \<longleftrightarrow> fd_dict self' = fd_dict self \<and> fd_expected_dict_id self' = fd_expected_dict_id self \<and>
     fd_max_output self' = fd_max_output self"

definition failed_ok :: "('h, 'r) FrameDecoder \<Rightarrow> io_error \<Rightarrow> ('h, 'r) FrameDecoder \<Rightarrow> bool" where
  "failed_ok self e self' \<longleftrightarrow> kind_of e \<noteq> Interrupted \<and> fd_dst_start self' = fd_dst_end self' \<and>
     fd_dst_end self' \<le> length (fd_dst self') \<and> same_settings self self' \<and> fd_bytes_output self' = fd_bytes_output self"

text \<open>A block with content \<open>c\<close> has arrived in the buffer.\<close>

definition took_block :: "('h, 'r) FrameDecoder \<Rightarrow> bytes \<Rightarrow> ('h, 'r) FrameDecoder \<Rightarrow> bool" where
  "took_block self c self' \<longleftrightarrow>
     fd_current_frame_info self' = fd_current_frame_info self \<and> fd_hasher self' = fd_hasher self \<and>
     fd_content_len self' = fd_content_len self + length c \<and> fd_bytes_output self' = fd_bytes_output self + length c \<and>
     fd_dst_start self' = fd_dst_start self \<and> fd_dst_end self' = fd_dst_end self + length c \<and>
     fd_ext_dict_offset self' = fd_ext_dict_offset self \<and> fd_ext_dict_len self' = fd_ext_dict_len self \<and>
     same_settings self self' \<and> dst_ok self (fd_dst self') \<and>
     take (fd_dst_start self + length c) (fd_dst self') = dec_prefix self @ c"

definition dec_state :: "FrameInfo \<Rightarrow> bytes \<Rightarrow> 'h \<Rightarrow> ('h, 'r) FrameDecoder \<Rightarrow> bool" where
  "dec_state info h s self \<longleftrightarrow> fd_current_frame_info self = Some info \<and> block_size info \<noteq> Auto \<and> window_ok info h self \<and>
     fd_content_len self = length h \<and> fd_hasher self = s \<and> length h \<le> fd_bytes_output self \<and>
     fd_bytes_output self \<le> usize_max"

lemma took_block_state:
  assumes d: "dec_state info h s self" and r: "room_ok info self" and t: "took_block self c self'"
    and len: "length c \<le> dec_block_size info" "fd_bytes_output self + length c \<le> out_limit self"
  shows "dec_state info (h @ c) s (self'\<lparr>fd_dst_start := fd_dst_end self'\<rparr>)"
    "fd_dst_end self' \<le> length (fd_dst self')" "fd_dst_start self' + length c = fd_dst_end self'"
    "take (length c) (drop (fd_dst_start self') (fd_dst self')) = c"
proof -
  let ?s = "self'\<lparr>fd_dst_start := fd_dst_end self'\<rparr>"
  have w: "window_ok info h self" using d by (simp add: dec_state_def)
  then have st: "fd_dst_start self = fd_dst_end self" "length (dec_prefix self) = fd_dst_start self"
    by (simp_all add: window_ok_def dec_prefix_def)
  have pre: "take (fd_dst_start self + length c) (fd_dst self') = dec_prefix self @ c" "dst_ok self (fd_dst self')"
    "fd_dst_end self' = fd_dst_start self + length c" "fd_ext_dict_len self' = fd_ext_dict_len self"
    "fd_ext_dict_offset self' = fd_ext_dict_offset self" "fd_dst_start self' = fd_dst_start self"
    using t st by (simp_all add: took_block_def)
  have le: "fd_dst_start self + length c \<le> length (fd_dst self')"
    using arg_cong [OF pre(1), of length] st(2) by simp
  with pre st show "fd_dst_end self' \<le> length (fd_dst self')" "fd_dst_start self' + length c = fd_dst_end self'"
    by simp_all
  have "drop (fd_dst_start self) (take (fd_dst_start self + length c) (fd_dst self')) = c" unfolding pre(1) using st(2) by simp
  then show "take (length c) (drop (fd_dst_start self') (fd_dst self')) = c" by (simp add: pre(6) drop_take)
  have p: "dec_prefix ?s = dec_prefix self @ c" unfolding dec_prefix_def [of ?s] using pre(1,3) by simp
  have x: "dec_ext ?s = dec_ext self" using pre(2,4,5) by (auto simp: dec_ext_def dst_ok_def)
  have "window_ok info (h @ c) ?s"
  proof (cases "block_mode info = Linked")
    case False
    with w r le pre len(1) show ?thesis by (simp add: window_ok_def room_ok_def)
  next
    case L: True
    show ?thesis
    proof (cases "fd_ext_dict_len self = 0")
      case True
      with w r le pre len(1) p L show ?thesis by (auto simp: window_ok_def room_ok_def)
    next
      case False
      then have "window_of (h @ c) (dec_ext ?s) (dec_prefix ?s)"
        using w L unfolding x p by (auto simp: window_ok_def window_of_def)
      moreover have "length (fd_dst self) \<le> length (fd_dst self')" using pre(2) by (simp add: dst_ok_def)
      ultimately show ?thesis using w r le pre len(1) L False by (auto simp: window_ok_def room_ok_def)
    qed
  qed
  then show "dec_state info (h @ c) s ?s"
    using d t len(2) by (simp add: dec_state_def took_block_def out_limit_def)
qed

context reader
begin

lemma r_exact_cases:
  obtains (ok) r' where "n \<le> length (rest (fd_r self))" "r_exact R self n = Ok (take n (rest (fd_r self)), self\<lparr>fd_r := r'\<rparr>)"
      "rest r' = drop n (rest (fd_r self))"
    | (eof) e r' where "length (rest (fd_r self)) < n" "r_exact R self n = Err (e, self\<lparr>fd_r := r'\<rparr>)" "kind_of e \<noteq> Interrupted"
proof (cases "n \<le> length (rest (fd_r self))")
  case True
  with read_exact_ok [OF this] ok show thesis by (auto simp: r_exact_def)
next
  case False
  then have "length (rest (fd_r self)) < n" by simp
  with read_exact_eof [OF this] eof show thesis by (auto simp: r_exact_def)
qed

text \<open>The checksum after the data of a block, if the frame has one.\<close>

definition checksum_matches :: "'h hasher \<Rightarrow> FrameInfo \<Rightarrow> bytes \<Rightarrow> bytes \<Rightarrow> bool" where
  "checksum_matches H info data inp \<longleftrightarrow>
     (block_checksums info \<longrightarrow> 4 \<le> length inp \<and> word_of_le (take 4 inp) = block_checksum H data)"

lemma verify_block_cases:
  assumes f: "\<And>r'. f (self\<lparr>fd_r := r'\<rparr>) = Ok data"
  obtains (ok) r' where "checksum_matches H info data (rest (fd_r self))"
      "verify_block H R info f self = Ok (self\<lparr>fd_r := r'\<rparr>)"
      "rest r' = (if block_checksums info then drop 4 (rest (fd_r self)) else rest (fd_r self))"
    | (bad) e r' where "\<not> checksum_matches H info data (rest (fd_r self))"
      "verify_block H R info f self = Err (e, self\<lparr>fd_r := r'\<rparr>)" "kind_of e \<noteq> Interrupted"
proof (cases "block_checksums info")
  case False
  with ok [of "fd_r self"] show thesis by (simp add: checksum_matches_def verify_block_def)
next
  case True
  show thesis
  proof (cases rule: r_exact_cases [of 4 self])
    case (ok r')
    show thesis
    proof (cases "word_of_le (take 4 (rest (fd_r self))) = block_checksum H data")
      case True
      with \<open>block_checksums info\<close> ok f show thesis
        by (intro that(1) [of r']) (simp_all add: checksum_matches_def read_checksum_def check_block_checksum_def
            block_checksum_def try_error_def verify_block_def)
    next
      case False
      with \<open>block_checksums info\<close> ok f show thesis
        by (intro that(2) [where r' = r']) (auto simp: checksum_matches_def read_checksum_def check_block_checksum_def
            block_checksum_def try_error_def verify_block_def)
    qed
  next
    case (eof e r')
    with \<open>block_checksums info\<close> show thesis
      by (intro that(2) [of e r']) (simp_all add: checksum_matches_def read_checksum_def verify_block_def)
  qed
qed

lemma payload_checksum:
  "payload H info n inp = (if n \<le> length inp \<and> checksum_matches H info (take n inp) (drop n inp)
     then Some (take n inp, if block_checksums info then drop 4 (drop n inp) else drop n inp) else None)"
  by (auto simp: payload_def checksum_matches_def Let_def)

end

text \<open>Bytes that are stored in the window.\<close>

lemma store_in_window:
  assumes w: "window_ok info h self" and r: "room_ok info self" and n: "length data \<le> dec_block_size info"
    and dst: "dst = blit (grow (fd_dst self) (fd_dst_start self + length data)) (fd_dst_start self) data"
  shows "dst_ok self dst" "take (fd_dst_start self + length data) dst = dec_prefix self @ data"
    "fd_dst_start self + length data \<le> length dst" "take (length data) (drop (fd_dst_start self) dst) = data"
proof -
  let ?st = "fd_dst_start self" and ?v = "grow (fd_dst self) (fd_dst_start self + length data)"
  have st: "?st \<le> length (fd_dst self)" "length (dec_prefix self) = ?st"
    using w by (simp_all add: window_ok_def dec_prefix_def)
  have g: "?st + length data \<le> length ?v" "length (fd_dst self) \<le> length ?v" "take ?st ?v = dec_prefix self"
    using grow_ok st by (simp_all add: dec_prefix_def)
  then have len: "length dst = length ?v" by (simp add: dst)
  with g(1) show "?st + length data \<le> length dst" by simp
  show t: "take (?st + length data) dst = dec_prefix self @ data" using g by (simp add: dst take_blit)
  have "take ?st (take (?st + length data) dst) = dec_prefix self" unfolding t using st(2) by simp
  then have "take ?st dst = dec_prefix self" by simp
  moreover have "drop (fd_ext_dict_offset self) dst = drop (fd_ext_dict_offset self) (fd_dst self)" if "fd_ext_dict_len self \<noteq> 0"
  proof -
    from w r n that have "?st + length data \<le> fd_ext_dict_offset self" "fd_ext_dict_offset self \<le> length (fd_dst self)"
      by (auto simp: window_ok_def room_ok_def split: if_splits)
    moreover from this have "?v = fd_dst self" by (simp add: grow_def)
    ultimately show ?thesis by (simp add: dst blit_def)
  qed
  ultimately show "dst_ok self dst" using g(2) len by (simp add: dst_ok_def)
  have "drop ?st (take (?st + length data) dst) = data" unfolding t using st(2) by simp
  then show "take (length data) (drop ?st dst) = data" by (simp add: drop_take)
qed

context reader
begin

lemma read_uncompressed_ok:
  fixes self :: "('h, 'r) FrameDecoder"
  assumes d: "dec_state info h s self" and r: "room_ok info self"
  obtains (ok) data r' self' where "payload H info n (rest (fd_r self)) = Some (data, r')" "n \<le> dec_block_size info"
      "fd_bytes_output self + n \<le> out_limit self"
      "read_uncompressed H R (dec_block_size info) info self n = Ok self'" "rest (fd_r self') = r'" "took_block self data self'"
    | (bad) e self' where "payload H info n (rest (fd_r self)) = None \<or> dec_block_size info < n \<or> out_limit self < fd_bytes_output self + n"
      "read_uncompressed H R (dec_block_size info) info self n = Err (e, self')" "failed_ok self e self'"
proof -
  let ?B = "dec_block_size info" and ?st = "fd_dst_start self"
  have w: "window_ok info h self" using d by (simp add: dec_state_def)
  have st: "?st = fd_dst_end self" "fd_dst_end self \<le> length (fd_dst self)" using w by (simp_all add: window_ok_def)
  show thesis
  proof (cases "?B < n \<or> out_limit self < fd_bytes_output self + n")
    case True
    have F: "failed_ok self e self" if "kind_of e \<noteq> Interrupted" for e
      using that st by (simp add: failed_ok_def same_settings_def)
    from True bad show thesis
      by (cases "?B < n") (auto simp: read_uncompressed_def fail_def check_output_len_cases try_error_def F)
  next
    case False
    then have n: "n \<le> ?B" "fd_bytes_output self + n \<le> out_limit self" by auto
    define s1 where "s1 = self\<lparr>fd_dst := grow (fd_dst self) (?st + n)\<rparr>"
    let ?f = "\<lambda>self. sub_slice (fd_dst self) (fd_dst_start self) (fd_dst_start self + n) :: (io_error \<times> ('h, 'r) FrameDecoder, bytes) outcome"
    have eq: "read_uncompressed H R ?B info self n =
        obind (r_exact R s1 n) (\<lambda>(bs, self').
        obind (copy_into (fd_dst self') (fd_dst_start self') (fd_dst_start self' + n) bs) (\<lambda>dst.
        obind (verify_block H R info ?f (self'\<lparr>fd_dst := dst\<rparr>)) (\<lambda>self'.
        if \<not> fd_content_len self' + n < 2 ^ 64 then Panic
        else
          Ok (self'\<lparr>fd_bytes_output := fd_bytes_output self + n, fd_dst_end := fd_dst_end self' + n,
            fd_content_len := fd_content_len self' + n\<rparr>))))"
      using n by (simp add: read_uncompressed_def check_output_len_cases try_error_def s1_def Let_def not_less)
    show thesis
    proof (cases rule: r_exact_cases [of n s1])
      case (eof e r')
      then have "payload H info n (rest (fd_r self)) = None" by (simp add: payload_checksum s1_def)
      moreover have "failed_ok self e (s1\<lparr>fd_r := r'\<rparr>)"
        using eof(3) st(1) le_trans [OF st(2) grow_ok(2)] by (simp add: failed_ok_def same_settings_def s1_def)
      ultimately show thesis using bad [of e "s1\<lparr>fd_r := r'\<rparr>"] eof(2) eq by simp
    next
      case (ok r')
      define data where "data = take n (rest (fd_r self))"
      define dst where "dst = blit (grow (fd_dst self) (?st + n)) ?st data"
      have ld: "length data = n" "n \<le> length (rest (fd_r self))" using ok(1) by (simp_all add: data_def s1_def)
      note store = store_in_window [OF w r n(1) [folded ld(1)], of dst, unfolded ld(1), OF dst_def]
      define s2 where "s2 = self\<lparr>fd_r := r', fd_dst := dst\<rparr>"
      have len: "length (fd_dst self) \<le> length dst" using store(1) by (simp add: dst_ok_def)
      have "copy_into (fd_dst s1) ?st (?st + n) data = (Ok dst :: (io_error \<times> ('h, 'r) FrameDecoder, bytes) outcome)"
        using ld(1) grow_ok(1) by (simp add: copy_into_def s1_def dst_def)
      then have eq2: "read_uncompressed H R ?B info self n =
        obind (verify_block H R info ?f s2) (\<lambda>self'.
        if \<not> fd_content_len self' + n < 2 ^ 64 then Panic
        else
          Ok (self'\<lparr>fd_bytes_output := fd_bytes_output self + n, fd_dst_end := fd_dst_end self' + n,
            fd_content_len := fd_content_len self' + n\<rparr>))"
        using ok(2) by (simp add: eq s2_def data_def s1_def)
      have "?f (s2\<lparr>fd_r := y\<rparr>) = Ok data" for y using store(3,4) by (simp add: sub_slice_def s2_def)
      then show thesis
      proof (cases rule: verify_block_cases [of ?f s2 data H info])
        case v: (ok r2)
        let ?s3 = "s2\<lparr>fd_r := r2, fd_bytes_output := fd_bytes_output self + n, fd_dst_end := fd_dst_end self + n,
            fd_content_len := fd_content_len self + n\<rparr>"
        have "fd_content_len self + n < 2 ^ 64"
          using d n(2) by (simp add: dec_state_def out_limit_def usize_max_def)
        then have "read_uncompressed H R ?B info self n = Ok ?s3" unfolding eq2 v(2) by (simp add: s2_def)
        moreover have "payload H info n (rest (fd_r self)) = Some (data, rest r2)"
          using v(1,3) ok(3) ld(2) by (simp add: payload_checksum data_def s2_def s1_def)
        moreover have "took_block self data ?s3"
          using store(1,2) ld(1) by (simp add: took_block_def same_settings_def s2_def)
        ultimately show thesis using n by (intro that(1) [of data "rest r2" ?s3]) simp_all
      next
        case v: (bad e r2)
        have "payload H info n (rest (fd_r self)) = None"
          using v(1) ok(3) by (simp add: payload_checksum data_def s2_def s1_def)
        moreover have "failed_ok self e (s2\<lparr>fd_r := r2\<rparr>)"
          using v(3) st len by (simp add: failed_ok_def same_settings_def s2_def)
        ultimately show thesis by (intro that(2) [of e "s2\<lparr>fd_r := r2\<rparr>"]) (simp_all add: eq2 v(2))
      qed
    qed
  qed
qed

lemma took_block_failed:
  assumes "window_ok info h self" "dst_ok self dst" "kind_of e \<noteq> Interrupted"
  shows "failed_ok self e (self\<lparr>fd_src := v, fd_r := r, fd_dst := dst\<rparr>)"
  using assms by (auto simp: failed_ok_def same_settings_def window_ok_def dst_ok_def)

lemma read_compressed_ok:
  fixes self :: "('h, 'r) FrameDecoder"
  assumes d: "dec_state info h s self" and r: "room_ok info self"
  obtains (ok) data r' c self' where "payload H info n (rest (fd_r self)) = Some (data, r')" "n \<le> dec_block_size info"
      "lz4_block (block_history info (fd_dict self) h) [] data c" "length c \<le> dec_block_size info"
      "fd_bytes_output self + length c \<le> out_limit self"
      "read_compressed H R (dec_block_size info) info self n = Ok self'" "rest (fd_r self') = r'" "took_block self c self'"
    | (bad) e self' where "read_compressed H R (dec_block_size info) info self n = Err (e, self')" "failed_ok self e self'"
      "\<And>data r' c. payload H info n (rest (fd_r self)) = Some (data, r') \<Longrightarrow> n \<le> dec_block_size info \<Longrightarrow>
        lz4_block (block_history info (fd_dict self) h) [] data c \<Longrightarrow> length c \<le> dec_block_size info \<Longrightarrow>
        out_limit self < fd_bytes_output self + length c"
proof -
  let ?B = "dec_block_size info" and ?hist = "block_history info (fd_dict self) h"
  have w: "window_ok info h self" using d by (simp add: dec_state_def)
  have st: "fd_dst_start self = fd_dst_end self" "fd_dst_end self \<le> length (fd_dst self)" using w by (simp_all add: window_ok_def)
  have dst0: "dst_ok self (fd_dst self)" by (simp add: dst_ok_def dec_prefix_def)
  show thesis
  proof (cases "?B < n")
    case True
    have "failed_ok self (io_of_Error BlockTooBig) self" using st by (simp add: failed_ok_def same_settings_def)
    with True show thesis by (intro bad [of "io_of_Error BlockTooBig" self]) (simp_all add: read_compressed_def fail_def)
  next
    case False
    define s1 where "s1 = self\<lparr>fd_src := grow (fd_src self) n\<rparr>"
    let ?f = "\<lambda>self. sub_slice (fd_src self) 0 n :: (io_error \<times> ('h, 'r) FrameDecoder, bytes) outcome"
    let ?lim = "min ?B (remaining_size info (fd_content_len self))"
    have eq: "read_compressed H R ?B info self n =
        obind (r_exact R s1 n) (\<lambda>(bs, self).
        obind (copy_into (fd_src self) 0 n bs) (\<lambda>src.
        let self = self\<lparr>fd_src := src\<rparr> in
        obind (verify_block H R info ?f self) (\<lambda>self.
        obind (map_err (\<lambda>(e, self). (io_of_Error (DecompressionError e), self))
            (decode_within self n (min ?B (remaining_size info (fd_content_len self))) ?B)) (\<lambda>(decomp_size, self).
        obind (try_error self (check_output_len self decomp_size)) (\<lambda>bytes_output.
        if \<not> fd_content_len self + decomp_size < 2 ^ 64 then Panic
        else
          Ok (self\<lparr>fd_bytes_output := bytes_output, fd_dst_end := fd_dst_end self + decomp_size,
            fd_content_len := fd_content_len self + decomp_size\<rparr>))))))"
      using False by (simp add: read_compressed_def s1_def Let_def)
    show thesis
    proof (cases rule: r_exact_cases [of n s1])
      case (eof e r')
      have "payload H info n (rest (fd_r self)) = None" using eof(1) by (simp add: payload_checksum s1_def)
      moreover have "failed_ok self e (s1\<lparr>fd_r := r'\<rparr>)" using eof(3) st by (simp add: failed_ok_def same_settings_def s1_def)
      ultimately show thesis using eof(2) by (intro bad [of e "s1\<lparr>fd_r := r'\<rparr>"]) (simp_all add: eq)
    next
      case (ok r')
      define data where "data = take n (rest (fd_r self))"
      define src where "src = blit (grow (fd_src self) n) 0 data"
      have ld: "length data = n" "n \<le> length (rest (fd_r self))" using ok(1) by (simp_all add: data_def s1_def)
      have src: "take n src = data" "n \<le> length src" "copy_into (fd_src s1) 0 n data = (Ok src :: (io_error \<times> ('h, 'r) FrameDecoder, bytes) outcome)"
        using ld(1) grow_ok(1) [of n "fd_src self"] by (simp_all add: src_def blit_def copy_into_def s1_def)
      define s2 where "s2 = self\<lparr>fd_r := r', fd_src := src\<rparr>"
      have "?f (s2\<lparr>fd_r := y\<rparr>) = Ok data" for y using src by (simp add: sub_slice_def s2_def)
      then show thesis
      proof (cases rule: verify_block_cases [of ?f s2 data H info])
        case v: (bad e r2)
        have "payload H info n (rest (fd_r self)) = None"
          using v(1) ok(3) by (simp add: payload_checksum data_def s2_def s1_def)
        moreover have "failed_ok self e (s2\<lparr>fd_r := r2\<rparr>)" using v(3) st by (simp add: failed_ok_def same_settings_def s2_def)
        moreover have "read_compressed H R ?B info self n = Err (e, s2\<lparr>fd_r := r2\<rparr>)"
          using ok(2) src(3) v(2) by (simp add: eq s1_def s2_def data_def Let_def)
        ultimately show thesis by (intro bad [of e "s2\<lparr>fd_r := r2\<rparr>"]) simp_all
      next
        case v: (ok r2)
        have P: "payload H info n (rest (fd_r self)) = Some (data, rest r2)"
          using v(1,3) ok(3) ld(2) by (simp add: payload_checksum data_def s2_def s1_def)
        define s3 where "s3 = self\<lparr>fd_src := src, fd_r := r2\<rparr>"
        have s3: "window_ok info h s3" "room_ok info s3" "fd_current_frame_info s3 = Some info" "n \<le> length (fd_src s3)"
          using w r d src(2)
          by (auto simp: window_ok_def room_ok_def dec_ext_def dec_prefix_def s3_def dec_state_def split: if_splits)
        have eq3: "read_compressed H R ?B info self n =
          obind (map_err (\<lambda>(e, self). (io_of_Error (DecompressionError e), self)) (decode_within s3 n ?lim ?B)) (\<lambda>(decomp_size, self).
          obind (try_error self (check_output_len self decomp_size)) (\<lambda>bytes_output.
          if \<not> fd_content_len self + decomp_size < 2 ^ 64 then Panic
          else
            Ok (self\<lparr>fd_bytes_output := bytes_output, fd_dst_end := fd_dst_end self + decomp_size,
              fd_content_len := fd_content_len self + decomp_size\<rparr>)))"
          using ok(2) src(3) v(2) by (simp add: eq s1_def s2_def s3_def data_def Let_def)
        have lim: "?lim \<le> ?B" by simp
        show thesis
        proof (cases rule: decode_within_ok [OF s3 lim])
          case (1 c dst')
          have c: "lz4_block ?hist [] data c" using 1(1) src(1) by (simp add: s3_def)
          let ?s4 = "s3\<lparr>fd_dst := dst'\<rparr>"
          have dst': "dst_ok self dst'" "take (fd_dst_start self + length c) dst' = dec_prefix self @ c"
            using 1(4,5) by (simp_all add: s3_def dst_ok_def dec_prefix_def)
          have chk: "check_output_len ?s4 (length c) = (if fd_bytes_output self + length c \<le> out_limit self
              then Ok (fd_bytes_output self + length c) else check_output_len ?s4 (length c))"
            by (simp add: check_output_len_cases s3_def out_limit_def)
          show thesis
          proof (cases "fd_bytes_output self + length c \<le> out_limit self")
            case True
            let ?s5 = "?s4\<lparr>fd_bytes_output := fd_bytes_output self + length c, fd_dst_end := fd_dst_end self + length c,
              fd_content_len := fd_content_len self + length c\<rparr>"
            have "fd_content_len self + length c < 2 ^ 64" using d True by (simp add: dec_state_def out_limit_def usize_max_def)
            then have "read_compressed H R ?B info self n = Ok ?s5"
              using 1(3) chk True by (simp add: eq3 try_error_def) (simp add: s3_def)
            moreover have "took_block self c ?s5" using dst' by (simp add: took_block_def same_settings_def s3_def)
            ultimately show thesis using P False c 1(2) True by (intro that(1) [of data "rest r2" c ?s5]) (simp_all add: s3_def)
          next
            case over: False
            obtain x where x: "check_output_len ?s4 (length c) = Err x" "kind_of (io_of_Error x) \<noteq> Interrupted"
              using over by (auto simp: check_output_len_cases s3_def out_limit_def)
            have "read_compressed H R ?B info self n = Err (io_of_Error x, ?s4)"
              using 1(3) x(1) by (simp add: eq3 try_error_def)
            moreover have "failed_ok self (io_of_Error x) ?s4"
              using took_block_failed [OF w dst'(1) x(2), of r2 src] by (simp add: s3_def)
            moreover have "c' = c" if "lz4_block ?hist [] data c'" "length c' \<le> ?B" for c'
              using block_content_unique [of info "fd_dict self" h "Compressed (word_of_nat n)" data c' c] that c 1(2) ld(1) False
                max_block_size_bounds(1) [of "block_size info"] by (simp add: unat_of_nat)
            ultimately show thesis using P over by (intro that(2) [of "io_of_Error x" ?s4]) auto
          qed
        next
          case (2 e dst')
          have dst': "dst_ok self dst'" using 2(2) by (simp add: s3_def dst_ok_def dec_prefix_def)
          have "read_compressed H R ?B info self n = Err (io_of_Error (DecompressionError e), s3\<lparr>fd_dst := dst'\<rparr>)"
            by (simp add: eq3 2(1))
          moreover have "failed_ok self (io_of_Error (DecompressionError e)) (s3\<lparr>fd_dst := dst'\<rparr>)"
            using took_block_failed [OF w dst', of "io_of_Error (DecompressionError e)" r2 src] by (simp add: s3_def)
          moreover have "?B < length c" if "lz4_block ?hist [] data c" for c using 2(3) [of c] that src(1) by (simp add: s3_def)
          ultimately show thesis using P by (intro that(2) [of "io_of_Error (DecompressionError e)" "s3\<lparr>fd_dst := dst'\<rparr>"]) fastforce+
        qed
      qed
    qed
  qed
qed

end

end
