(* ===== verification/Frame_Reading.thy ===== *)
theory Frame_Reading
  imports Frame_Decoder_Correct
begin

text \<open>
  The frame decoder from blocks to whole streams: the end of a frame, one call of \<^verbatim>\<open>read_block\<close>,
  the header, the loop over blocks and frames, and \<^verbatim>\<open>read_to_end\<close>.
\<close>

context reader
begin

lemma read_end_mark_ok:
  fixes self :: "('h, 'r) FrameDecoder" and H :: "'h hasher"
  assumes d: "dec_state info h s self"
  defines "tail \<equiv> if content_checksum info then le_of_word 4 (ucast (hash_finish H s) :: 32 word) else []"
  obtains (ok) r' where "size_matches info h" "rest (fd_r self) = tail @ rest r'"
      "read_end_mark H R info self = Ok (self\<lparr>fd_r := r', fd_current_frame_info := None\<rparr>)"
    | (bad) e self' where "read_end_mark H R info self = Err (e, self')" "failed_ok self e self'"
      "\<And>r'. rest (fd_r self) = tail @ r' \<Longrightarrow> \<not> size_matches info h"
proof -
  have st: "fd_dst_start self = fd_dst_end self" "fd_dst_end self \<le> length (fd_dst self)" "fd_content_len self = length h"
    "fd_hasher self = s" using d by (simp_all add: dec_state_def window_ok_def)
  have F: "failed_ok self e (self\<lparr>fd_r := r\<rparr>)" if "kind_of e \<noteq> Interrupted" for e r
    using that st by (simp add: failed_ok_def same_settings_def)
  have m: "(case content_size info of Some expected \<Rightarrow> fd_content_len self \<noteq> unat expected | None \<Rightarrow> False) \<longleftrightarrow> \<not> size_matches info h"
    by (auto simp: size_matches_def st(3) split: option.splits)
  show thesis
  proof (cases "size_matches info h")
    case False
    then show thesis
      using F [of "io_of_Error (ContentLengthError (the (content_size info)) (word_of_nat (length h)))" "fd_r self"]
      by (intro bad [of "io_of_Error (ContentLengthError (the (content_size info)) (word_of_nat (length h)))" self])
        (simp_all add: read_end_mark_def m fail_def st(3))
  next
    case sz: True
    show thesis
    proof (cases "content_checksum info")
      case False
      with sz show thesis
        by (intro ok [of "fd_r self"]) (simp_all add: read_end_mark_def m tail_def)
    next
      case sum: True
      show thesis
      proof (cases rule: r_exact_cases [of 4 self])
        case (eof e r')
        then show thesis using sum sz F [of e r']
          by (intro bad [of e "self\<lparr>fd_r := r'\<rparr>"]) (auto simp: read_end_mark_def m read_checksum_def tail_def)
      next
        case (ok r')
        let ?w = "ucast (hash_finish H s) :: 32 word"
        show thesis
        proof (cases "word_of_le (take 4 (rest (fd_r self))) = ?w")
          case True
          then have "take 4 (rest (fd_r self)) = le_of_word 4 ?w"
            using le_of_word_word_of_le [of "take 4 (rest (fd_r self))", where 'a = 32] ok(1) by simp
          then have "rest (fd_r self) = le_of_word 4 ?w @ rest r'"
            using ok(3) append_take_drop_id [of 4 "rest (fd_r self)"] by simp
          then have "rest (fd_r self) = tail @ rest r'" using sum by (simp add: tail_def)
          moreover have "read_end_mark H R info self = Ok (self\<lparr>fd_r := r', fd_current_frame_info := None\<rparr>)"
            using sum sz by (simp add: read_end_mark_def m read_checksum_def ok(2) st(4) True)
          ultimately show thesis using sz by (intro that(1) [of r'])
        next
          case False
          have "word_of_le (take 4 (rest (fd_r self))) = ?w" if "rest (fd_r self) = le_of_word 4 ?w @ r" for r
            by (simp add: that word_of_le_le_of_word)
          with False sum sz ok st(4) F [of "io_of_Error ContentChecksumError" r'] show thesis
            by (intro that(2) [of "io_of_Error ContentChecksumError" "self\<lparr>fd_r := r'\<rparr>"])
              (auto simp: read_end_mark_def m read_checksum_def tail_def fail_def)
        qed
      qed
    qed
  qed
qed

end

text \<open>The result of a block that has arrived, in the state of its caller.\<close>

definition delivers :: "'h hasher \<Rightarrow> FrameInfo \<Rightarrow> bytes \<Rightarrow> 'h \<Rightarrow> ('h, 'r) FrameDecoder \<Rightarrow> bytes \<Rightarrow> ('h, 'r) FrameDecoder \<Rightarrow> bool" where
  "delivers H info h s self c self' \<longleftrightarrow>
     dec_state info (h @ c) (hash_content H info s c) (self'\<lparr>fd_dst_start := fd_dst_end self'\<rparr>) \<and>
     fd_dst_start self' + length c = fd_dst_end self' \<and> fd_dst_end self' \<le> length (fd_dst self') \<and>
     take (length c) (drop (fd_dst_start self') (fd_dst self')) = c \<and>
     fd_bytes_output self' = fd_bytes_output self + length c \<and> fd_bytes_output self' \<le> out_limit self \<and>
     same_settings self self'"

lemma delivers_block:
  assumes d: "dec_state info h s self" and r: "room_ok info self" and t: "took_block self c self'"
    and len: "length c \<le> dec_block_size info" "fd_bytes_output self + length c \<le> out_limit self"
  shows "obind (if content_checksum info then
        obind (sub_slice (fd_dst self') (fd_dst_start self') (fd_dst_end self')) (\<lambda>data.
        Ok (self'\<lparr>fd_hasher := hash_write H (fd_hasher self') data\<rparr>))
      else Ok self') (\<lambda>self.
    obind (usub (fd_dst_end self) (fd_dst_start self)) (\<lambda>n. Ok (n, self))) =
    (Ok (length c, self'\<lparr>fd_hasher := hash_content H info s c\<rparr>) :: ('e, nat \<times> ('h, 'r) FrameDecoder) outcome)"
    "delivers H info h s self c (self'\<lparr>fd_hasher := hash_content H info s c\<rparr>)"
proof -
  note T = took_block_state [OF d r t len]
  have hs: "fd_hasher self' = s" using t d by (simp add: took_block_def dec_state_def)
  have n: "fd_dst_end self' - fd_dst_start self' = length c" using T(3) by simp
  have "sub_slice (fd_dst self') (fd_dst_start self') (fd_dst_end self') = (Ok c :: ('e, bytes) outcome)"
    using T(2,3,4) n by (simp add: sub_slice_def)
  moreover have "usub (fd_dst_end self') (fd_dst_start self') = (Ok (length c) :: ('e, nat) outcome)"
    using T(3) n by (simp add: usub_def)
  moreover have "self' = self'\<lparr>fd_hasher := s\<rparr>" using hs by simp
  ultimately show "obind (if content_checksum info then
        obind (sub_slice (fd_dst self') (fd_dst_start self') (fd_dst_end self')) (\<lambda>data.
        Ok (self'\<lparr>fd_hasher := hash_write H (fd_hasher self') data\<rparr>))
      else Ok self') (\<lambda>self.
    obind (usub (fd_dst_end self) (fd_dst_start self)) (\<lambda>n. Ok (n, self))) =
    (Ok (length c, self'\<lparr>fd_hasher := hash_content H info s c\<rparr>) :: ('e, nat \<times> ('h, 'r) FrameDecoder) outcome)"
    by (simp add: hash_content_def hs)
  have w: "window_ok i g (self\<lparr>fd_hasher := x\<rparr>) = window_ok i g self" for i g x and self :: "('h, 'r) FrameDecoder"
    by (cases "block_mode i = Linked"; simp add: window_ok_def dec_ext_def dec_prefix_def)
  have B: "(self'\<lparr>fd_hasher := x\<rparr>)\<lparr>fd_dst_start := y\<rparr> = (self'\<lparr>fd_dst_start := y\<rparr>)\<lparr>fd_hasher := x\<rparr>" for x y
    by (cases self') simp
  have "dec_state info (h @ c) (hash_content H info s c) ((self'\<lparr>fd_dst_start := fd_dst_end self'\<rparr>)\<lparr>fd_hasher := hash_content H info s c\<rparr>)"
    using T(1) by (simp add: dec_state_def w)
  then show "delivers H info h s self c (self'\<lparr>fd_hasher := hash_content H info s c\<rparr>)"
    using T(2-4) t len(2) by (simp add: delivers_def took_block_def same_settings_def B)
qed

text \<open>A decoder with nothing to read that has the settings and the output count of an earlier one.\<close>

definition settled :: "('h, 'r) FrameDecoder \<Rightarrow> ('h, 'r) FrameDecoder \<Rightarrow> bool" where
  "settled self self' \<longleftrightarrow> fd_dst_start self' = fd_dst_end self' \<and> fd_dst_end self' \<le> length (fd_dst self') \<and>
     same_settings self self' \<and> fd_bytes_output self' = fd_bytes_output self"

lemma failed_ok_settled: "failed_ok self e self' \<longleftrightarrow> kind_of e \<noteq> Interrupted \<and> settled self self'"
  by (auto simp: failed_ok_def settled_def)

lemma dec_state_reader: "dec_state info h s (self\<lparr>fd_r := r\<rparr>) = dec_state info h s self"
  "room_ok info (self\<lparr>fd_r := r\<rparr>) = room_ok info self"
  by (cases "block_mode info = Linked"; cases "fd_ext_dict_len self = 0";
      simp add: dec_state_def window_ok_def room_ok_def dec_ext_def dec_prefix_def)+

context reader
begin

lemma read_block_ok:
  fixes self :: "('h, 'r) FrameDecoder" and H :: "'h hasher"
  assumes d: "dec_state info h s self"
  obtains (blk) c self' where "block_at H info (fd_dict self) h (rest (fd_r self)) c (rest (fd_r self'))"
      "read_block H R self = Ok (length c, self')" "delivers H info h s self c self'"
    | (fin) self' where "size_matches info h" "rest (fd_r self) = end_of_frame H info s @ rest (fd_r self')"
      "read_block H R self = Ok (0, self')" "fd_current_frame_info self' = None" "settled self self'"
    | (bad) e self' where "read_block H R self = Err (e, self')" "failed_ok self e self'"
      "\<And>c r'. block_at H info (fd_dict self) h (rest (fd_r self)) c r' \<Longrightarrow> out_limit self < fd_bytes_output self + length c"
      "\<And>r'. rest (fd_r self) = end_of_frame H info s @ r' \<Longrightarrow> \<not> size_matches info h"
proof -
  let ?B = "dec_block_size info" and ?inp = "rest (fd_r self)"
  have w: "window_ok info h self" and cur: "fd_current_frame_info self = Some info" "block_size info \<noteq> Auto"
    using d by (simp_all add: dec_state_def)
  have st: "fd_dst_start self = fd_dst_end self" using w by (simp add: window_ok_def)
  obtain xo xl b where P: "prepare_window ?B info self = (Ok (self\<lparr>fd_ext_dict_offset := xo, fd_ext_dict_len := xl,
       fd_dst_start := b, fd_dst_end := b\<rparr>) :: (io_error \<times> ('h, 'r) FrameDecoder, ('h, 'r) FrameDecoder) outcome)"
    "window_ok info h (self\<lparr>fd_ext_dict_offset := xo, fd_ext_dict_len := xl, fd_dst_start := b, fd_dst_end := b\<rparr>)"
    "room_ok info (self\<lparr>fd_ext_dict_offset := xo, fd_ext_dict_len := xl, fd_dst_start := b, fd_dst_end := b\<rparr>)"
    by (rule prepare_window_ok [OF w])
  define s1 where "s1 = self\<lparr>fd_ext_dict_offset := xo, fd_ext_dict_len := xl, fd_dst_start := b, fd_dst_end := b\<rparr>"
  have s1: "fd_r s1 = fd_r self" "fd_dict s1 = fd_dict self" "fd_bytes_output s1 = fd_bytes_output self"
    "fd_expected_dict_id s1 = fd_expected_dict_id self" "fd_max_output s1 = fd_max_output self"
    by (simp_all add: s1_def)
  have d1: "dec_state info h s s1" "room_ok info s1" using d P(2,3) by (simp_all add: dec_state_def s1_def)
  let ?finish = "\<lambda>self. obind (if content_checksum info then
        obind (sub_slice (fd_dst self) (fd_dst_start self) (fd_dst_end self)) (\<lambda>data.
        Ok (self\<lparr>fd_hasher := hash_write H (fd_hasher self) data\<rparr>))
      else Ok self) (\<lambda>self.
    obind (usub (fd_dst_end self) (fd_dst_start self)) (\<lambda>n. Ok (n, self)))"
  have eq: "read_block H R self =
      obind (r_exact R s1 4) (\<lambda>(buffer, self).
      obind (try_error self (BlockInfo_read buffer)) (\<lambda>block_info.
      case block_info of
        Uncompressed len \<Rightarrow> obind (read_uncompressed H R ?B info self (unat len)) ?finish
      | Compressed len \<Rightarrow> obind (read_compressed H R ?B info self (unat len)) ?finish
      | EndMark \<Rightarrow> obind (read_end_mark H R info self) (\<lambda>self. Ok (0, self))))"
    using st cur P(1) by (simp add: read_block_def get_size_eq s1_def [symmetric] Let_def)
  have dict: "block_at H info (fd_dict s1) h inp c r' = block_at H info (fd_dict self) h inp c r'" for inp c r' by (simp add: s1)
  show thesis
  proof (cases rule: r_exact_cases [of 4 s1])
    case (eof e r')
    have "failed_ok self e (s1\<lparr>fd_r := r'\<rparr>)"
      using eof(3) P(2) s1 by (simp add: failed_ok_def same_settings_def) (simp add: s1_def window_ok_def)
    with eof s1 show thesis
      by (intro bad [of e "s1\<lparr>fd_r := r'\<rparr>"]) (auto simp: eq end_of_frame_def dest: block_at_short)
  next
    case (ok r1)
    define s2 where "s2 = s1\<lparr>fd_r := r1\<rparr>"
    have s2: "fd_r s2 = r1" "fd_dict s2 = fd_dict self" "fd_bytes_output s2 = fd_bytes_output self"
      "fd_expected_dict_id s2 = fd_expected_dict_id self" "fd_max_output s2 = fd_max_output self"
      by (simp_all add: s2_def s1)
    have d2: "dec_state info h s s2" "room_ok info s2"
      using d1 by (simp_all add: s2_def dec_state_reader)
    have lim: "out_limit s2 = out_limit self" by (simp add: out_limit_def s2)
    have fails: "failed_ok self e s'" if "failed_ok s2 e s'" for e s'
      using that by (simp add: failed_ok_def same_settings_def s2)
    have inp: "4 \<le> length ?inp" "rest r1 = drop 4 ?inp" using ok(1,3) s1 by simp_all
    obtain bi where bi: "BlockInfo_read (take 4 ?inp) = Ok bi" "block_info_ok bi" "take 4 ?inp = le_of_word 4 (block_info_word bi)"
      using BlockInfo_read_Ok [of "take 4 ?inp"] inp(1) by auto
    note at = block_at_iff [OF inp(1) bi(1), of H info "fd_dict self" h]
    have eq2: "read_block H R self =
      (case bi of
        Uncompressed len \<Rightarrow> obind (read_uncompressed H R ?B info s2 (unat len)) ?finish
      | Compressed len \<Rightarrow> obind (read_compressed H R ?B info s2 (unat len)) ?finish
      | EndMark \<Rightarrow> obind (read_end_mark H R info s2) (\<lambda>self. Ok (0, self)))"
      unfolding eq ok(2) s2_def [symmetric] s1(1) by (simp add: bi(1) try_error_def)
    have no_end: "\<not> (?inp = end_of_frame H info s @ r')" if "bi \<noteq> EndMark" for r'
    proof
      assume i: "?inp = end_of_frame H info s @ r'"
      have "BlockInfo_read (take 4 ?inp) = Ok EndMark" using BlockInfo_read_eq [of EndMark "[]"] by (simp add: i end_of_frame_def)
      with bi(1) that show False by simp
    qed
    have delivered: thesis
      if "block_at H info (fd_dict self) h ?inp c (rest (fd_r self'))" "read_block H R self = ?finish self'" "took_block s2 c self'"
        "length c \<le> ?B" "fd_bytes_output self + length c \<le> out_limit self" for c self'
    proof -
      note D = delivers_block [OF d2 that(3), unfolded lim s2, OF that(4,5), of H]
      have "read_block H R self = Ok (length c, self'\<lparr>fd_hasher := hash_content H info s c\<rparr>)" using D(1) that(2) by simp
      moreover have "delivers H info h s self c (self'\<lparr>fd_hasher := hash_content H info s c\<rparr>)"
        using D(2) by (simp add: delivers_def same_settings_def s2 lim)
      ultimately show thesis using that(1) by (intro blk [of c "self'\<lparr>fd_hasher := hash_content H info s c\<rparr>"]) simp_all
    qed
    show thesis
    proof (cases bi)
      case (Uncompressed n)
      show thesis
      proof (cases rule: read_uncompressed_ok [OF d2, of H "unat n"])
        case (1 data r' self')
        then have "length data = unat n" by (simp add: payload_Some)
        with 1 Uncompressed inp(2) show thesis
          by (intro delivered [of data self']) (auto simp: at eq2 s2 lim)
      next
        case (2 e self')
        have "out_limit self < fd_bytes_output self + length c" if b: "block_at H info (fd_dict self) h ?inp c r'" for c r'
        proof -
          from b Uncompressed obtain data where "payload H info (unat n) (drop 4 ?inp) = Some (data, r')" "c = data" "length data = unat n"
            "unat n \<le> ?B" by (auto simp: at)
          with 2(1) inp(2) show ?thesis by (simp add: s2 lim)
        qed
        note over = this
        have rb: "read_block H R self = Err (e, self')" by (simp add: eq2 2(2) Uncompressed)
        have ne: "\<not> size_matches info h" if "?inp = end_of_frame H info s @ r'" for r'
          using no_end [of r'] that by (simp add: Uncompressed)
        show thesis by (rule bad [OF rb fails [OF 2(3)]]) (erule over | erule ne)+
      qed
    next
      case (Compressed n)
      show thesis
      proof (cases rule: read_compressed_ok [OF d2, of H "unat n"])
        case (1 data r' c self')
        with Compressed inp(2) show thesis
          by (intro delivered [of c self']) (auto simp: at eq2 s2 lim payload_Some)
      next
        case (2 e self')
        have "out_limit self < fd_bytes_output self + length c" if b: "block_at H info (fd_dict self) h ?inp c r'" for c r'
        proof -
          from b Compressed obtain data where "payload H info (unat n) (drop 4 ?inp) = Some (data, r')" "unat n \<le> ?B"
            "lz4_block (block_history info (fd_dict self) h) [] data c" "length c \<le> ?B" by (auto simp: at)
          with 2(3) [of data r' c] inp(2) show ?thesis by (simp add: s2 lim)
        qed
        note over = this
        have rb: "read_block H R self = Err (e, self')" by (simp add: eq2 2(1) Compressed)
        have ne: "\<not> size_matches info h" if "?inp = end_of_frame H info s @ r'" for r'
          using no_end [of r'] that by (simp add: Compressed)
        show thesis by (rule bad [OF rb fails [OF 2(2)]]) (erule over | erule ne)+
      qed
    next
      case EndMark
      have no_block: "\<not> block_at H info (fd_dict self) h ?inp c r'" for c r' by (simp add: at EndMark)
      have front: "?inp = le_of_word 4 (0 :: 32 word) @ rest (fd_r s2)"
        using append_take_drop_id [of 4 ?inp] bi(3) inp(2) EndMark by (simp add: s2)
      show thesis
      proof (cases rule: read_end_mark_ok [OF d2(1), of H])
        case (1 r')
        have "settled self (s2\<lparr>fd_r := r', fd_current_frame_info := None\<rparr>)"
          using d2(1) by (simp add: settled_def same_settings_def s2 dec_state_def window_ok_def)
        with 1 EndMark front show thesis
          by (intro fin [of "s2\<lparr>fd_r := r', fd_current_frame_info := None\<rparr>"]) (simp_all add: eq2 end_of_frame_def)
      next
        case (2 e self')
        have rb: "read_block H R self = Err (e, self')" by (simp add: eq2 2(1) EndMark)
        have ne: "\<not> size_matches info h" if "?inp = end_of_frame H info s @ r'" for r'
          using that front by (intro 2(3) [of r']) (simp add: end_of_frame_def)
        from no_block show thesis by (intro bad [OF rb fails [OF 2(2)]] ne) simp
      qed
    qed
  qed
qed

end

section \<open>The header of a frame\<close>

text \<open>No error of the header is one that the loops of a caller try again.\<close>

definition permanent :: "(Error, 'a) outcome \<Rightarrow> bool" where
  "permanent r \<longleftrightarrow> (\<forall>e. r = Err e \<longrightarrow> kind_of (io_of_Error e) \<noteq> Interrupted)"

lemma permanent_obind: "permanent m \<Longrightarrow> (\<And>x. permanent (f x)) \<Longrightarrow> permanent (obind m f)"
  by (auto simp: permanent_def obind_Err_iff)

lemma permanent_pair: "(\<And>x y. permanent (f x y)) \<Longrightarrow> permanent (case p of (x, y) \<Rightarrow> f x y)"
  by (cases p) simp

lemma permanent_if: "permanent a \<Longrightarrow> permanent b \<Longrightarrow> permanent (if c then a else b)"
  by simp

lemma permanent_basic: "permanent (Ok x)" "permanent (take_exact n xs)" "permanent (sub_slice ys i j)"
  "permanent (block_size_of b)" "permanent (Err WrongMagicNumber)" "permanent (Err (SkippableFrame w))"
  "permanent (Err (UnsupportedVersion v))" "permanent (Err ReservedBitsSet)" "permanent (Err HeaderChecksumError)"
  by (auto simp: permanent_def take_exact_def sub_slice_def split: if_splits)

lemma FrameInfo_read_permanent: "permanent (FrameInfo_read H input)"
  unfolding FrameInfo_read_def Let_def by (intro permanent_obind permanent_pair permanent_if permanent_basic)

lemma FrameInfo_read_size_cases:
  assumes "4 \<le> length input"
  obtains (ok) n where "FrameInfo_read_size input = Ok n" "MIN_FRAME_INFO_SIZE \<le> n"
    | (bad) "FrameInfo_read_size input = Err WrongMagicNumber"
  using assms by (cases "FrameInfo_read_size input") (auto simp: FrameInfo_read_size_def Let_def sub_slice_def split: if_splits)

lemma permanent_check_dict: "permanent (check_dict_id a b)"
  by (auto simp: permanent_def check_dict_id_def split: option.splits if_splits)

lemma check_dict_id_Ok: "check_dict_id a b = Ok u \<longleftrightarrow> a = b"
  by (auto simp: check_dict_id_def split: option.splits)

lemma check_dict_id_same: "check_dict_id a a = Ok ()"
  by (simp add: check_dict_id_Ok)

lemma check_dict_id_cases: "check_dict_id a b = Ok () \<or> (\<exists>e. check_dict_id a b = Err e)"
  by (auto simp: check_dict_id_def split: option.splits)

text \<open>A header at the front of the input that this decoder takes.\<close>

definition header_at :: "'h hasher \<Rightarrow> 32 word option \<Rightarrow> bytes \<Rightarrow> FrameInfo \<Rightarrow> bytes \<Rightarrow> bool" where
  "header_at H did inp info r \<longleftrightarrow> block_size info \<noteq> Auto \<and> dict_id info = did \<and> inp = header_bytes H info @ r"

lemma header_at_front:
  assumes "header_at H did inp info r"
  shows "7 \<le> length inp" "FrameInfo_read_size (take 7 inp) = Ok (length (header_bytes H info))"
    "FrameInfo_read H (take (length (header_bytes H info)) inp) = Ok info"
    "length (header_bytes H info) \<le> length inp"
  using assms FrameInfo_read_size_eq [of info H r] FrameInfo_read_header_bytes [of info H "[]"]
  by (simp_all add: header_at_def length_header_bytes FrameInfo_write_size_def)

context reader
begin

text \<open>The bytes that follow those in the buffer.\<close>

lemma r_exact_next:
  assumes "rest r = drop n inp" "n \<le> length inp"
  obtains (ok) bs r' where "r_exact R (self\<lparr>fd_r := r\<rparr>) m = Ok (bs, self\<lparr>fd_r := r'\<rparr>)" "take n inp @ bs = take (n + m) inp"
      "rest r' = drop (n + m) inp" "n + m \<le> length inp"
    | (eof) e r' where "r_exact R (self\<lparr>fd_r := r\<rparr>) m = Err (e, self\<lparr>fd_r := r'\<rparr>)" "length inp < n + m" "kind_of e \<noteq> Interrupted"
proof (cases rule: r_exact_cases [of m "self\<lparr>fd_r := r\<rparr>"])
  case (ok r')
  have "rest r' = drop (n + m) inp" using ok(3) assms(1) by (simp add: add.commute)
  with ok(1,2) assms show thesis by (intro that(1) [of "take m (drop n inp)" r']) (simp_all add: take_add)
next
  case (eof e r')
  with assms show thesis by (intro that(2) [of e r']) simp_all
qed

lemma read_magic:
  obtains (empty) r' where "rest (fd_r self) = []" "read_some R (fd_r self) 4 = (Inr [], r')" "rest r' = []"
    | (ok) magic r0 r' where "read_some R (fd_r self) 4 = (Inr magic, r0)" "magic \<noteq> []"
      "(if length magic = 4 then Ok (magic, self\<lparr>fd_r := r0\<rparr>)
        else obind (usub 4 (length magic)) (\<lambda>missing.
          obind (r_exact R (self\<lparr>fd_r := r0\<rparr>) missing) (\<lambda>(more, self). Ok (magic @ more, self)))) =
        Ok (take 4 (rest (fd_r self)), self\<lparr>fd_r := r'\<rparr>)"
      "rest r' = drop 4 (rest (fd_r self))" "4 \<le> length (rest (fd_r self))"
    | (bad) magic r0 e r' where "read_some R (fd_r self) 4 = (Inr magic, r0)" "magic \<noteq> []"
      "(if length magic = 4 then Ok (magic, self\<lparr>fd_r := r0\<rparr>)
        else obind (usub 4 (length magic)) (\<lambda>missing.
          obind (r_exact R (self\<lparr>fd_r := r0\<rparr>) missing) (\<lambda>(more, self). Ok (magic @ more, self)))) = Err (e, self\<lparr>fd_r := r'\<rparr>)"
      "kind_of e \<noteq> Interrupted" "rest (fd_r self) \<noteq> []" "length (rest (fd_r self)) < 4"
proof -
  let ?inp = "rest (fd_r self)"
  obtain k r0 where k: "read_some R (fd_r self) 4 = (Inr (take k ?inp), r0)" "rest r0 = drop k ?inp" "k \<le> 4" "k \<le> length ?inp"
    "?inp \<noteq> [] \<longrightarrow> 0 < k" using read_some_ok [of 4 "fd_r self"] by auto
  show thesis
  proof (cases "?inp = []")
    case True
    with k show thesis by (intro empty [of r0]) simp_all
  next
    case ne: False
    with k have m: "take k ?inp \<noteq> []" "length (take k ?inp) = k" by auto
    show thesis
    proof (cases "k = 4")
      case True
      with k m show thesis by (intro ok [OF k(1) m(1), of r0]) simp_all
    next
      case False
      from k(3) have us: "k \<le> 4" "k + (4 - k) = 4" by simp_all
      show thesis
      proof (cases rule: r_exact_next [OF k(2,4), of self "4 - k"])
        case (1 bs r')
        with False m(2) us show thesis by (intro ok [OF k(1) m(1), of r']) (simp_all add: usub_def)
      next
        case (2 e r')
        with False m(2) us ne show thesis by (intro bad [OF k(1) m(1), of e r']) (simp_all add: usub_def)
      qed
    qed
  qed
qed

lemma read_frame_info_ok:
  fixes self :: "('h, 'r) FrameDecoder" and H :: "'h hasher"
  obtains (empty) r' where "rest (fd_r self) = []" "rest r' = []" "read_frame_info H R self = Ok (0, self\<lparr>fd_r := r'\<rparr>)"
    | (ok) info r' n where "header_at H (fd_expected_dict_id self) (rest (fd_r self)) info (rest r')" "0 < n"
      "read_frame_info H R self = Ok (n, start_frame H (self\<lparr>fd_r := r'\<rparr>) info)"
    | (bad) e r' where "read_frame_info H R self = Err (e, self\<lparr>fd_r := r'\<rparr>)" "kind_of e \<noteq> Interrupted" "rest (fd_r self) \<noteq> []"
      "\<And>info r. \<not> header_at H (fd_expected_dict_id self) (rest (fd_r self)) info r"
proof -
  let ?inp = "rest (fd_r self)" and ?did = "fd_expected_dict_id self"
  show thesis
  proof (cases rule: read_magic [of self])
    case A: (empty r')
    then show thesis by (intro empty [of r']) (simp_all add: read_frame_info_def)
  next
    case A: (bad magic r0 e r')
    then show thesis
      by (intro bad [of e r']) (auto simp: read_frame_info_def Let_def dest: header_at_front(1))
  next
    case M: (ok magic r0 r4)
    have ne: "?inp \<noteq> []" using M(5) by auto
    let ?tail = "\<lambda>required (buffer, self).
        obind (try_error self (FrameInfo_read H buffer)) (\<lambda>info.
        obind (try_error self (check_dict_id (dict_id info) (fd_expected_dict_id self))) (\<lambda>_.
        obind (get_size (block_size info)) (\<lambda>_.
        Ok (required, start_frame H self info))))"
    have eq: "read_frame_info H R self =
        obind (r_exact R (self\<lparr>fd_r := r4\<rparr>) 3) (\<lambda>(bs, self).
        obind (try_error self (FrameInfo_read_size (take 4 ?inp @ bs))) (\<lambda>required.
        obind (if required \<noteq> 7 then
            obind (usub required 7) (\<lambda>missing.
            obind (r_exact R self missing) (\<lambda>(bs', self). Ok ((take 4 ?inp @ bs) @ bs', self)))
          else Ok (take 4 ?inp @ bs, self)) (?tail required)))"
      using M(1,2,3) by (simp add: read_frame_info_def Let_def cong: if_cong)
    show thesis
    proof (cases rule: r_exact_next [OF M(4,5), of self 3])
      case (2 e r')
      then show thesis using ne by (intro bad [of e r']) (auto simp: eq dest: header_at_front(1))
    next
      case (1 bs r7)
      note B = 1
      from B(2) have B7: "take 4 ?inp @ bs = take 7 ?inp" by simp
      have eq7: "read_frame_info H R self =
        obind (try_error (self\<lparr>fd_r := r7\<rparr>) (FrameInfo_read_size (take 7 ?inp))) (\<lambda>required.
        obind (if required \<noteq> 7 then
            obind (usub required 7) (\<lambda>missing.
            obind (r_exact R (self\<lparr>fd_r := r7\<rparr>) missing) (\<lambda>(bs', self). Ok (take 7 ?inp @ bs', self)))
          else Ok (take 7 ?inp, self\<lparr>fd_r := r7\<rparr>)) (?tail required))"
        unfolding eq B(1) obind.simps prod.case B7 ..
      have len4: "4 \<le> length (take 7 ?inp)" using B by simp
      show thesis
      proof (cases rule: FrameInfo_read_size_cases [OF len4])
        case 2
        then show thesis using ne
          by (intro bad [of "Carries InvalidData WrongMagicNumber" r7])
            (auto simp: eq7 try_error_def dest: header_at_front(2))
      next
        case (1 n)
        have no_header: "\<not> header_at H ?did ?inp info r" if "length ?inp < n" for info r
          using that header_at_front(2,4) [of H ?did ?inp info r] 1(1) by auto
        have rest7: "rest r7 = drop 7 ?inp" "7 \<le> length ?inp" using B by simp_all
        have n: "7 \<le> n" "7 + (n - 7) = n" using 1(2) by simp_all
        have more: thesis if "(if n \<noteq> 7 then
            obind (usub n 7) (\<lambda>missing.
            obind (r_exact R (self\<lparr>fd_r := r7\<rparr>) missing) (\<lambda>(bs', self). Ok (take 7 ?inp @ bs', self)))
          else Ok (take 7 ?inp, self\<lparr>fd_r := r7\<rparr>)) = Ok (take n ?inp, self\<lparr>fd_r := r\<rparr>)" "n \<le> length ?inp" "rest r = drop n ?inp" for r
        proof -
          let ?s = "self\<lparr>fd_r := r\<rparr>"
          have tail: "read_frame_info H R self = ?tail n (take n ?inp, ?s)"
            unfolding eq7 1(1) try_error_def map_err.simps obind.simps that(1) ..
          have len: "length (header_bytes H info) = n" if "header_at H d ?inp info x" for info x d
            using header_at_front(2) [OF that] 1(1) by simp
          show thesis
          proof (cases "FrameInfo_read H (take n ?inp)")
            case (Err e)
            have "\<not> header_at H ?did ?inp info x" for info x
              using header_at_front(3) [of H ?did ?inp info x] len [of ?did info x] Err by auto
            with Err ne FrameInfo_read_permanent [of H "take n ?inp"] show thesis
              by (intro bad [of "io_of_Error e" r]) (simp_all add: tail try_error_def permanent_def)
          next
            case (Ok info)
            obtain x where x: "block_size info \<noteq> Auto" "take n ?inp = header_bytes H info @ x"
              using FrameInfo_read_Ok [OF Ok] by blast
            then have at: "header_at H (dict_id info) ?inp info (x @ drop n ?inp)"
              unfolding header_at_def using append_take_drop_id [of n ?inp] by simp
            have "x = []" using arg_cong [OF x(2), of length] len [OF at] that(2) by simp
            with at that(3) have at: "header_at H (dict_id info) ?inp info (rest r)" by simp
            show thesis
            proof (cases "dict_id info = ?did")
              case True
              with at n Ok x(1) show thesis
                by (intro ok [of info r n]) (simp_all add: tail try_error_def check_dict_id_same get_size_eq)
            next
              case False
              then obtain e where e: "check_dict_id (dict_id info) ?did = Err e" "kind_of (io_of_Error e) \<noteq> Interrupted"
                using check_dict_id_cases [of "dict_id info" ?did] permanent_check_dict [of "dict_id info" ?did]
                by (auto simp: check_dict_id_Ok permanent_def)
              have "\<not> header_at H ?did ?inp info' y" for info' y
              proof
                assume h: "header_at H ?did ?inp info' y"
                then have "info' = info" using header_at_front(3) [OF h] len [OF h] Ok by simp
                with h False show False by (simp add: header_at_def)
              qed
              with e Ok ne show thesis by (intro bad [of "io_of_Error e" r]) (simp_all add: tail try_error_def)
            qed
          qed (use FrameInfo_read_returns [of H "take n ?inp"] in simp_all)
        qed
        show thesis
        proof (cases "n = 7")
          case True
          with rest7 show thesis by (intro more [of r7]) simp_all
        next
          case False
          show thesis
          proof (cases rule: r_exact_next [OF rest7, of self "n - 7"])
            case (1 bs r)
            with n False show thesis by (intro more [of r]) (simp_all add: usub_def)
          next
            case (2 e r)
            with n False no_header ne \<open>FrameInfo_read_size (take 7 ?inp) = Ok n\<close> show thesis
              by (intro bad [of e r]) (simp_all add: eq7 usub_def try_error_def)
          qed
        qed
      qed
    qed
  qed
qed

end

section \<open>Stages\<close>

text \<open>What is at the front of the input decides how the rest of it decodes.\<close>

lemma block_at_unique:
  assumes "block_at H info dict h inp c r" "block_at H info dict h inp c' r'"
  shows "c' = c \<and> r' = r"
proof -
  have len: "4 \<le> length inp" using block_at_short [OF assms(1)] by simp
  obtain bi where bi: "BlockInfo_read (take 4 inp) = Ok bi" using BlockInfo_read_Ok [of "take 4 inp"] len by auto
  from assms block_content_unique show ?thesis unfolding block_at_iff [OF len bi] by fastforce
qed

lemma header_at_unique:
  assumes "header_at H did inp info r" "header_at H did inp info' r'"
  shows "info' = info \<and> r' = r"
proof -
  have "info' = info" using header_at_front(2,3) [OF assms(1)] header_at_front(2,3) [OF assms(2)] by simp
  with assms show ?thesis by (simp add: header_at_def)
qed

lemma header_bytes_not_empty: "header_bytes H info \<noteq> []"
  by (simp add: header_bytes_def)

lemma decodes_after_block:
  assumes "block_at H info dict h inp c r"
  shows "decodes H dict did (In info h s) inp c0 \<longleftrightarrow>
    (\<exists>c'. c0 = c @ c' \<and> decodes H dict did (In info (h @ c) (hash_content H info s c)) r c')"
proof
  assume "decodes H dict did (In info h s) inp c0"
  then show "\<exists>c'. c0 = c @ c' \<and> decodes H dict did (In info (h @ c) (hash_content H info s c)) r c'"
  proof (cases rule: decodes_InE [consumes 1])
    case (1 w c1 inp' c')
    then have "block_at H info dict h inp c1 inp'" by (auto simp: block_at_def)
    from block_at_unique [OF assms this] have "c1 = c" "inp' = r" by simp_all
    with 1 show ?thesis by (intro exI [of _ c']) simp
  next
    case (2 inp')
    with assms show ?thesis using end_not_block [OF 2(1), of dict h c r] by simp
  qed
next
  assume "\<exists>c'. c0 = c @ c' \<and> decodes H dict did (In info (h @ c) (hash_content H info s c)) r c'"
  then obtain c' where c': "c0 = c @ c'" "decodes H dict did (In info (h @ c) (hash_content H info s c)) r c'" by blast
  obtain w where w: "inp = w @ r" "frame_block H info dict h w c" using assms by (auto simp: block_at_def)
  show "decodes H dict did (In info h s) inp c0" unfolding c'(1) w(1) by (rule decodes.block [OF w(2) c'(2)])
qed

lemma decodes_after_end:
  assumes "inp = end_of_frame H info s @ r" "size_matches info h"
  shows "decodes H dict did (In info h s) inp c0 \<longleftrightarrow> decodes H dict did Idle r c0"
proof
  assume "decodes H dict did (In info h s) inp c0"
  then show "decodes H dict did Idle r c0"
  proof (cases rule: decodes_InE [consumes 1])
    case (1 w c1 inp' c')
    then have "block_at H info dict h inp c1 inp'" by (auto simp: block_at_def)
    with end_not_block [OF assms(1)] show ?thesis by blast
  next
    case (2 inp')
    with assms(1) show ?thesis by simp
  qed
qed (simp add: assms frame_end)

lemma decodes_after_header:
  assumes "header_at H did inp info r"
  shows "decodes H dict did Idle inp c0 \<longleftrightarrow> decodes H dict did (In info [] (with_seed H 0)) r c0"
proof
  assume "decodes H dict did Idle inp c0"
  then show "decodes H dict did (In info [] (with_seed H 0)) r c0"
  proof (cases rule: decodes_IdleE [consumes 1])
    case 1
    with assms header_bytes_not_empty show ?thesis by (auto simp: header_at_def)
  next
    case (2 info' inp')
    then have "header_at H did inp info' inp'" by (simp add: header_at_def)
    with header_at_unique [OF assms] 2 show ?thesis by blast
  qed
next
  assume "decodes H dict did (In info [] (with_seed H 0)) r c0"
  from header [OF _ _ this] assms show "decodes H dict did Idle inp c0" by (simp add: header_at_def)
qed

lemma decodes_nothing: "decodes H dict did Idle [] c0 \<longleftrightarrow> c0 = []"
  using all_read header_bytes_not_empty by (fastforce elim: decodes_IdleE)

text \<open>A decoder without anything to read, and one that holds decoded bytes.\<close>

fun at_stage :: "('h, 'r) FrameDecoder \<Rightarrow> 'h stage \<Rightarrow> bool" where
  "at_stage self Idle \<longleftrightarrow> fd_current_frame_info self = None \<and> fd_dst_start self = fd_dst_end self \<and>
     fd_dst_end self \<le> length (fd_dst self) \<and> fd_bytes_output self \<le> usize_max"
| "at_stage self (In info h s) \<longleftrightarrow> dec_state info h s self"

definition holds :: "('h, 'r) FrameDecoder \<Rightarrow> bytes \<Rightarrow> 'h stage \<Rightarrow> bool" where
  "holds self c st \<longleftrightarrow> fd_dst_start self + length c = fd_dst_end self \<and> fd_dst_end self \<le> length (fd_dst self) \<and>
     take (length c) (drop (fd_dst_start self) (fd_dst self)) = c \<and> at_stage (self\<lparr>fd_dst_start := fd_dst_end self\<rparr>) st"

text \<open>The result of a call that reads: more content, its end, or an error.\<close>

definition more_ok :: "('r \<Rightarrow> bytes) \<Rightarrow> 'h hasher \<Rightarrow> ('h, 'r) FrameDecoder \<Rightarrow> 'h stage \<Rightarrow> ('h, 'r, nat) io_result \<Rightarrow> bool" where
  "more_ok rest H self st r \<longleftrightarrow>
     (case r of
        Ok (n, self') \<Rightarrow> \<exists>c st'. n = length c \<and> holds self' c st' \<and> same_settings self self' \<and>
          fd_bytes_output self' = fd_bytes_output self + length c \<and> (c \<noteq> [] \<longrightarrow> fd_bytes_output self' \<le> out_limit self) \<and>
          (c \<noteq> [] \<longrightarrow> length (rest (fd_r self')) < length (rest (fd_r self))) \<and>
          (c = [] \<longrightarrow> st' = Idle \<and> rest (fd_r self') = []) \<and>
          (\<forall>c0. decodes H (fd_dict self) (fd_expected_dict_id self) st (rest (fd_r self)) c0 \<longleftrightarrow>
             (\<exists>c'. c0 = c @ c' \<and> decodes H (fd_dict self) (fd_expected_dict_id self) st' (rest (fd_r self')) c'))
      | Err (e, self') \<Rightarrow> failed_ok self e self' \<and> fd_current_frame_info self' = None \<and>
          (\<forall>c0. decodes H (fd_dict self) (fd_expected_dict_id self) st (rest (fd_r self)) c0 \<longrightarrow>
             out_limit self < fd_bytes_output self + length c0)
      | _ \<Rightarrow> False)"

lemma same_settings_trans: "same_settings self self1 \<Longrightarrow> same_settings self1 self2 \<Longrightarrow> same_settings self self2"
  by (simp add: same_settings_def)

lemma more_ok_from:
  assumes m: "more_ok rest H self1 st1 r"
    and s: "same_settings self self1" "fd_bytes_output self1 = fd_bytes_output self"
    and len: "length (rest (fd_r self1)) \<le> length (rest (fd_r self))"
    and d: "\<And>c0. decodes H (fd_dict self) (fd_expected_dict_id self) st (rest (fd_r self)) c0 \<longleftrightarrow>
      decodes H (fd_dict self) (fd_expected_dict_id self) st1 (rest (fd_r self1)) c0"
  shows "more_ok rest H self st r"
proof -
  have e: "fd_dict self1 = fd_dict self" "fd_expected_dict_id self1 = fd_expected_dict_id self" "out_limit self1 = out_limit self"
    using s(1) by (simp_all add: same_settings_def out_limit_def)
  show ?thesis
  proof (cases r)
    case (Ok p)
    obtain n self' where p: "p = (n, self')" by fastforce
    from m obtain c st' where c: "n = length c" "holds self' c st'" "same_settings self1 self'"
      "fd_bytes_output self' = fd_bytes_output self + length c" "c \<noteq> [] \<longrightarrow> fd_bytes_output self' \<le> out_limit self"
      "c \<noteq> [] \<longrightarrow> length (rest (fd_r self')) < length (rest (fd_r self1))"
      "c = [] \<longrightarrow> st' = Idle \<and> rest (fd_r self') = []"
      "\<forall>c0. decodes H (fd_dict self) (fd_expected_dict_id self) st (rest (fd_r self)) c0 \<longleftrightarrow>
         (\<exists>c'. c0 = c @ c' \<and> decodes H (fd_dict self) (fd_expected_dict_id self) st' (rest (fd_r self')) c')"
      unfolding d by (auto simp: more_ok_def Ok p e s(2))
    from c(6) len have "c \<noteq> [] \<longrightarrow> length (rest (fd_r self')) < length (rest (fd_r self))" by linarith
    with c same_settings_trans [OF s(1) c(3)] show ?thesis
      unfolding more_ok_def Ok p outcome.case prod.case by (intro exI [of _ c] exI [of _ st'] conjI)
  next
    case (Err p)
    with m show ?thesis
      unfolding more_ok_def d by (auto simp: e s(2) failed_ok_def intro: same_settings_trans [OF s(1)])
  qed (use m in \<open>simp_all add: more_ok_def\<close>)
qed

lemma delivers_holds:
  assumes "delivers H info h s self c self'"
  shows "holds self' c (In info (h @ c) (hash_content H info s c))"
  using assms by (simp add: delivers_def holds_def)

lemma holds_nothing: "holds self [] st \<Longrightarrow> at_stage self st"
proof -
  assume h: "holds self [] st"
  then have "self\<lparr>fd_dst_start := fd_dst_end self\<rparr> = self" by (cases self) (simp add: holds_def)
  with h show "at_stage self st" by (simp add: holds_def del: at_stage.simps)
qed

lemma start_frame_stage:
  assumes "at_stage self Idle" "block_size info \<noteq> Auto"
  shows "dec_state info [] (with_seed H 0) (start_frame H (self\<lparr>fd_r := r\<rparr>) info)"
  using assms by (simp add: dec_state_def start_frame_def window_ok_def dec_prefix_def)

section \<open>Reading\<close>

context reader
begin

text \<open>One round of the loop in an open frame.\<close>

lemma read_more_in_frame:
  fixes self :: "('h, 'r) FrameDecoder" and H :: "'h hasher"
  assumes d: "dec_state info h s self"
    and IH: "\<And>(self' :: ('h, 'r) FrameDecoder) st. at_stage self' st \<Longrightarrow> length (rest (fd_r self')) < length (rest (fd_r self)) \<Longrightarrow>
      more_ok rest H self' st (read_more fuel H R self')"
  shows "more_ok rest H self (In info h s)
    (obind (map_err (\<lambda>(e, self). (e, self\<lparr>fd_current_frame_info := None\<rparr>)) (read_block H R self)) (\<lambda>(n, self).
       if n \<noteq> 0 then Ok (n, self) else read_more fuel H R self))"
proof (cases rule: read_block_ok [OF d, of H])
  case (1 c self')
  note at = 1(1) and D = 1(3)
  let ?st = "In info (h @ c) (hash_content H info s c)"
  have less: "length (rest (fd_r self')) < length (rest (fd_r self))" using block_at_short [OF at] by simp
  have S: "same_settings self self'" "fd_bytes_output self' = fd_bytes_output self + length c" "fd_bytes_output self' \<le> out_limit self"
    using D by (simp_all add: delivers_def)
  show ?thesis
  proof (cases "c = []")
    case True
    with delivers_holds [OF D] have "at_stage self' ?st" by (simp add: holds_nothing del: at_stage.simps)
    from IH [OF this less] have "more_ok rest H self (In info h s) (read_more fuel H R self')"
      by (rule more_ok_from) (use S less True decodes_after_block [OF at] in simp_all)
    with 1(2) True show ?thesis by simp
  next
    case False
    then have "more_ok rest H self (In info h s) (Ok (length c, self'))"
      unfolding more_ok_def outcome.case prod.case
      using S less delivers_holds [OF D] decodes_after_block [OF at]
      by (intro exI [of _ c] exI [of _ ?st]) simp
    with 1(2) False show ?thesis by simp
  qed
next
  case (2 self')
  have less: "length (rest (fd_r self')) < length (rest (fd_r self))" using 2(2) by (simp add: end_of_frame_def)
  have S: "same_settings self self'" "fd_bytes_output self' = fd_bytes_output self" using 2(5) by (simp_all add: settled_def)
  have "at_stage self' Idle" using 2(4,5) d by (simp add: settled_def dec_state_def)
  from IH [OF this less] have "more_ok rest H self (In info h s) (read_more fuel H R self')"
    by (rule more_ok_from) (use S less decodes_after_end [OF 2(2,1)] in simp_all)
  with 2(3) show ?thesis by simp
next
  case (3 e self')
  have "out_limit self < fd_bytes_output self + length c0"
    if "decodes H (fd_dict self) (fd_expected_dict_id self) (In info h s) (rest (fd_r self)) c0" for c0
    using that
  proof (cases rule: decodes_InE [consumes 1])
    case (1 w c1 inp' c')
    then have "block_at H info (fd_dict self) h (rest (fd_r self)) c1 inp'" by (auto simp: block_at_def)
    from 3(3) [OF this] 1(2) show ?thesis by simp
  next
    case (2 inp')
    with 3(4) show ?thesis by blast
  qed
  with 3(1,2) show ?thesis by (simp add: more_ok_def failed_ok_def same_settings_def)
qed

lemma read_more_ok:
  fixes self :: "('h, 'r) FrameDecoder" and H :: "'h hasher"
  assumes "at_stage self st" "length (rest (fd_r self)) < fuel"
  shows "more_ok rest H self st (read_more fuel H R self)"
  using assms
proof (induction fuel arbitrary: self st)
  case 0
  then show ?case by simp
next
  case (Suc fuel)
  have IH: "more_ok rest H self' st' (read_more fuel H R self')"
    if "at_stage self' st'" "length (rest (fd_r self')) < length (rest (fd_r self))" for self' :: "('h, 'r) FrameDecoder" and st'
    using Suc.IH [OF that(1)] that(2) Suc.prems(2) by simp
  show ?case
  proof (cases st)
    case (In info h s)
    with Suc.prems(1) have d: "dec_state info h s self" by simp
    then have "fd_current_frame_info self = Some info" by (simp add: dec_state_def)
    with read_more_in_frame [OF d IH] In show ?thesis by simp
  next
    case Idle
    with Suc.prems(1) have idle: "at_stage self Idle" "fd_current_frame_info self = None" by simp_all
    show ?thesis
    proof (cases rule: read_frame_info_ok [of self H])
      case (empty r')
      with idle have "holds (self\<lparr>fd_r := r'\<rparr>) [] Idle" by (simp add: holds_def)
      with empty idle show ?thesis
        by (simp add: Idle more_ok_def decodes_nothing same_settings_def)
    next
      case (ok info r' n)
      let ?s1 = "start_frame H (self\<lparr>fd_r := r'\<rparr>) info"
      have info: "block_size info \<noteq> Auto" "rest (fd_r self) = header_bytes H info @ rest r'"
        using ok(1) by (simp_all add: header_at_def)
      have s1: "fd_r ?s1 = r'" "same_settings self ?s1" "fd_bytes_output ?s1 = fd_bytes_output self"
        by (simp_all add: start_frame_def same_settings_def)
      have less: "length (rest (fd_r ?s1)) \<le> length (rest (fd_r self))" by (simp add: info(2) s1(1))
      have "more_ok rest H ?s1 (In info [] (with_seed H 0))
        (obind (map_err (\<lambda>(e, self). (e, self\<lparr>fd_current_frame_info := None\<rparr>)) (read_block H R ?s1)) (\<lambda>(n, self).
          if n \<noteq> 0 then Ok (n, self) else read_more fuel H R self))"
        using less by (intro read_more_in_frame [OF start_frame_stage [OF idle(1) info(1)]] IH) simp_all
      then have "more_ok rest H self Idle
        (obind (map_err (\<lambda>(e, self). (e, self\<lparr>fd_current_frame_info := None\<rparr>)) (read_block H R ?s1)) (\<lambda>(n, self).
          if n \<noteq> 0 then Ok (n, self) else read_more fuel H R self))"
        by (rule more_ok_from) (use s1 less decodes_after_header [OF ok(1)] in simp_all)
      with ok(2,3) idle(2) Idle show ?thesis by simp
    next
      case (bad e r')
      have "\<not> decodes H (fd_dict self) (fd_expected_dict_id self) Idle (rest (fd_r self)) c0" for c0
        using bad(3,4) by (fastforce simp: header_at_def elim: decodes_IdleE)
      with bad idle show ?thesis by (simp add: Idle more_ok_def failed_ok_def same_settings_def)
    qed
  qed
qed

end

text \<open>What a decoder with \<open>c\<close> still to read stands for.\<close>

definition stands_for :: "('r \<Rightarrow> bytes) \<Rightarrow> 'h hasher \<Rightarrow> ('h, 'r) FrameDecoder \<Rightarrow> bytes \<Rightarrow> 'h stage \<Rightarrow> bytes \<Rightarrow> bool" where
  "stands_for rest H self c st x \<longleftrightarrow>
     (\<exists>c'. x = c @ c' \<and> decodes H (fd_dict self) (fd_expected_dict_id self) st (rest (fd_r self)) c')"

lemma stands_for_nothing:
  "stands_for rest H self [] st x \<longleftrightarrow> decodes H (fd_dict self) (fd_expected_dict_id self) st (rest (fd_r self)) x"
  by (simp add: stands_for_def)

lemma stands_for_take: "stands_for rest H (self\<lparr>fd_dst_start := b\<rparr>) (drop n c) st x \<longleftrightarrow> stands_for rest H self c st (take n c @ x)"
proof -
  have "take n c @ x = c @ c' \<longleftrightarrow> x = drop n c @ c'" for c'
    using append_take_drop_id [of n c] by (metis append.assoc same_append_eq)
  then show ?thesis by (simp add: stands_for_def)
qed

lemma holds_take:
  assumes "holds self c st" "n \<le> length c"
  shows "holds (self\<lparr>fd_dst_start := fd_dst_start self + n\<rparr>) (drop n c) st"
proof -
  let ?v = "drop (fd_dst_start self) (fd_dst self)"
  have "drop n (take (length c) ?v) = drop n c" using assms(1) by (simp add: holds_def)
  then have "take (length c - n) (drop (fd_dst_start self + n) (fd_dst self)) = drop n c"
    by (simp add: drop_take add.commute)
  with assms show ?thesis by (simp add: holds_def)
qed

lemma holds_reserve:
  fixes self :: "('h, 'r) FrameDecoder"
  shows "holds (self\<lparr>fd_content_reserve := v\<rparr>) c st = holds self c st"
proof -
  have "dec_state info h s (self\<lparr>fd_content_reserve := v\<rparr>) = dec_state info h s self" for info h s and self :: "('h, 'r) FrameDecoder"
    by (cases "block_mode info = Linked"; cases "fd_ext_dict_len self = 0";
        simp add: dec_state_def window_ok_def dec_ext_def dec_prefix_def)
  then have a: "at_stage (self\<lparr>fd_content_reserve := v\<rparr>) st = at_stage self st" for self :: "('h, 'r) FrameDecoder"
    by (cases st) simp_all
  have b: "(self\<lparr>fd_content_reserve := v\<rparr>)\<lparr>fd_dst_start := b\<rparr> = (self\<lparr>fd_dst_start := b\<rparr>)\<lparr>fd_content_reserve := v\<rparr>" for b
    by (cases self) simp
  show ?thesis by (simp add: holds_def a b del: at_stage.simps)
qed

lemma holds_slice:
  assumes "holds self c st" "n \<le> length c"
  shows "sub_slice (fd_dst self) (fd_dst_start self) (fd_dst_start self + n) = Ok (take n c)"
proof -
  let ?v = "drop (fd_dst_start self) (fd_dst self)"
  have "take n ?v = take n (take (length c) ?v)" using assms(2) by (simp add: min_absorb1)
  also have "take (length c) ?v = c" using assms(1) by (simp add: holds_def)
  finally have "take n ?v = take n c" .
  with assms show ?thesis by (simp add: sub_slice_def holds_def min_absorb1)
qed

context reader
begin

lemma fill_buf_ok:
  fixes self :: "('h, 'r) FrameDecoder" and H :: "'h hasher"
  assumes h: "holds self c st" and f: "length (rest (fd_r self)) < fuel"
  obtains (ok) d st' self' where "fill_buf fuel H R self = Ok (d, self')" "holds self' d st'" "same_settings self self'"
      "fd_bytes_output self' + length c = fd_bytes_output self + length d"
      "fd_bytes_output self \<le> out_limit self \<longrightarrow> fd_bytes_output self' \<le> out_limit self"
      "\<And>x. stands_for rest H self c st x \<longleftrightarrow> stands_for rest H self' d st' x"
      "c \<noteq> [] \<longrightarrow> d = c \<and> self' = self" "d = [] \<longrightarrow> st' = Idle \<and> rest (fd_r self') = []"
      "c = [] \<and> d \<noteq> [] \<longrightarrow> length (rest (fd_r self')) < length (rest (fd_r self))"
    | (bad) e self' where "fill_buf fuel H R self = Err (e, self')" "c = []" "failed_ok self e self'" "fd_current_frame_info self' = None"
      "\<And>x. stands_for rest H self c st x \<Longrightarrow> out_limit self < fd_bytes_output self + length x"
proof (cases "c = []")
  case False
  with h have "fd_dst_start self \<noteq> fd_dst_end self" "fd_dst_end self = fd_dst_start self + length c"
    by (auto simp: holds_def)
  then have "fill_buf fuel H R self = Ok (c, self)" by (simp add: fill_buf_def holds_slice [OF h])
  then show thesis using h False by (intro ok [of c self st]) (simp_all add: same_settings_def)
next
  case True
  with h have st: "at_stage self st" "fd_dst_start self = fd_dst_end self"
    by (simp_all add: holds_nothing holds_def del: at_stage.simps)
  have eq: "fill_buf fuel H R self = obind (read_more fuel H R self) (\<lambda>(_, self).
      obind (sub_slice (fd_dst self) (fd_dst_start self) (fd_dst_end self)) (\<lambda>bs. Ok (bs, self)))"
    using st(2) by (simp add: fill_buf_def obind_assoc case_prod_unfold)
  note m = read_more_ok [OF st(1) f, of H]
  show thesis
  proof (cases "read_more fuel H R self")
    case (Ok p)
    obtain n self' where p: "p = (n, self')" by fastforce
    from m obtain d st' where d: "holds self' d st'" "same_settings self self'"
      "fd_bytes_output self' = fd_bytes_output self + length d" "d \<noteq> [] \<longrightarrow> fd_bytes_output self' \<le> out_limit self"
      "d \<noteq> [] \<longrightarrow> length (rest (fd_r self')) < length (rest (fd_r self))" "d = [] \<longrightarrow> st' = Idle \<and> rest (fd_r self') = []"
      "\<And>x. decodes H (fd_dict self) (fd_expected_dict_id self) st (rest (fd_r self)) x \<longleftrightarrow>
         (\<exists>c'. x = d @ c' \<and> decodes H (fd_dict self) (fd_expected_dict_id self) st' (rest (fd_r self')) c')"
      by (auto simp: more_ok_def Ok p)
    have "fd_dst_end self' = fd_dst_start self' + length d" using d(1) by (simp add: holds_def)
    then have "fill_buf fuel H R self = Ok (d, self')" by (simp add: eq Ok p holds_slice [OF d(1)])
    moreover have "stands_for rest H self c st x \<longleftrightarrow> stands_for rest H self' d st' x" for x
      using d(2) by (simp add: True stands_for_nothing d(7)) (simp add: stands_for_def same_settings_def)
    moreover have "fd_bytes_output self \<le> out_limit self \<longrightarrow> fd_bytes_output self' \<le> out_limit self"
      using d(3,4) by (cases "d = []") simp_all
    ultimately show thesis using d(1-3,5,6) True by (intro ok [of d self' st']) simp_all
  next
    case (Err p)
    obtain e self' where p: "p = (e, self')" by fastforce
    show thesis using m by (intro bad [of e self']) (simp_all add: eq Err p True more_ok_def stands_for_nothing)
  qed (use m in \<open>simp_all add: more_ok_def\<close>)
qed

text \<open>The result of \<^verbatim>\<open>read_to_end\<close>: all of the content, or what came before an error.\<close>

definition to_end_ok :: "'h hasher \<Rightarrow> ('h, 'r) FrameDecoder \<Rightarrow> bytes \<Rightarrow> 'h stage \<Rightarrow> bytes \<Rightarrow> nat \<Rightarrow>
   (io_error \<times> ('h, 'r) FrameDecoder \<times> bytes, nat \<times> ('h, 'r) FrameDecoder \<times> bytes) outcome \<Rightarrow> bool" where
  "to_end_ok H self c st buf written r \<longleftrightarrow>
     (case r of
        Ok (n, self', buf') \<Rightarrow> \<exists>x. buf' = buf @ x \<and> n = written + length x \<and> (\<forall>y. stands_for rest H self c st y \<longleftrightarrow> y = x) \<and>
          at_stage self' Idle \<and> same_settings self self' \<and> fd_bytes_output self' + length c = fd_bytes_output self + length x \<and>
          (fd_bytes_output self \<le> out_limit self \<longrightarrow> fd_bytes_output self' \<le> out_limit self)
      | Err (e, self', buf') \<Rightarrow> \<exists>x. buf' = buf @ x \<and> at_stage self' Idle \<and> same_settings self self' \<and>
          fd_bytes_output self' + length c = fd_bytes_output self + length x \<and>
          (fd_bytes_output self \<le> out_limit self \<longrightarrow> fd_bytes_output self' \<le> out_limit self) \<and>
          (\<forall>y. stands_for rest H self c st y \<longrightarrow> out_limit self + length c < fd_bytes_output self + length y)
      | _ \<Rightarrow> False)"

lemma to_end_ok_from:
  assumes m: "to_end_ok H self1 [] st1 (buf @ d) (written + length d) r"
    and s: "same_settings self self1" "fd_bytes_output self1 + length c = fd_bytes_output self + length d"
      "fd_bytes_output self \<le> out_limit self \<longrightarrow> fd_bytes_output self1 \<le> out_limit self"
    and d: "\<And>y. stands_for rest H self c st y \<longleftrightarrow> (\<exists>c'. y = d @ c' \<and> stands_for rest H self1 [] st1 c')"
  shows "to_end_ok H self c st buf written r"
proof -
  have e: "out_limit self1 = out_limit self" using s(1) by (simp add: same_settings_def out_limit_def)
  show ?thesis
  proof (cases r)
    case (Ok p)
    obtain n self' buf' where p: "p = (n, self', buf')" using prod_cases3 by blast
    from m obtain x where x: "buf' = buf @ d @ x" "n = written + length d + length x"
      "\<And>y. stands_for rest H self1 [] st1 y \<longleftrightarrow> y = x" "at_stage self' Idle" "same_settings self1 self'"
      "fd_bytes_output self' = fd_bytes_output self1 + length x"
      "fd_bytes_output self1 \<le> out_limit self \<longrightarrow> fd_bytes_output self' \<le> out_limit self"
      by (auto simp: to_end_ok_def Ok p e)
    have "stands_for rest H self c st y \<longleftrightarrow> y = d @ x" for y by (simp add: d x(3))
    with x s show ?thesis
      by (simp add: to_end_ok_def Ok p same_settings_trans [OF s(1) x(5)] del: at_stage.simps)
  next
    case (Err p)
    obtain k self' buf' where p: "p = (k, self', buf')" using prod_cases3 by blast
    from m obtain x where x: "buf' = buf @ d @ x" "at_stage self' Idle" "same_settings self1 self'"
      "fd_bytes_output self' = fd_bytes_output self1 + length x"
      "fd_bytes_output self1 \<le> out_limit self \<longrightarrow> fd_bytes_output self' \<le> out_limit self"
      "\<And>y. stands_for rest H self1 [] st1 y \<Longrightarrow> out_limit self < fd_bytes_output self1 + length y"
      by (auto simp: to_end_ok_def Err p e)
    have "out_limit self + length c < fd_bytes_output self + length y" if "stands_for rest H self c st y" for y
    proof -
      from that d obtain c' where c': "y = d @ c'" "stands_for rest H self1 [] st1 c'" by auto
      from x(6) [OF c'(2)] s(2) show ?thesis by (simp add: c'(1))
    qed
    with x s show ?thesis
      by (simp add: to_end_ok_def Err p same_settings_trans [OF s(1) x(3)] del: at_stage.simps)
  qed (use m in \<open>simp_all add: to_end_ok_def\<close>)
qed

lemma read_to_end_loop_ok:
  fixes self :: "('h, 'r) FrameDecoder" and H :: "'h hasher"
  assumes "holds self c st" "length (rest (fd_r self)) + (if c = [] then 0 else 1) < fuel"
  shows "to_end_ok H self c st buf written (read_to_end_loop fuel H R self buf written)"
  using assms
proof (induction fuel arbitrary: self c st buf written)
  case 0
  then show ?case by simp
next
  case (Suc fuel)
  have f: "length (rest (fd_r self)) < Suc fuel" using Suc.prems(2) by simp
  show ?case
  proof (cases rule: fill_buf_ok [OF Suc.prems(1) f, of H])
    case (1 d st' self')
    note F = 1
    show ?thesis
    proof (cases "d = []")
      case True
      with F(7) have c: "c = []" by auto
      have st': "st' = Idle" "rest (fd_r self') = []" using F(8) True by simp_all
      have "stands_for rest H self c st y \<longleftrightarrow> y = []" for y
        unfolding F(6) using st' True by (simp add: stands_for_nothing decodes_nothing)
      with F(1-5) True c st' holds_nothing [of self' Idle] show ?thesis
        by (simp add: to_end_ok_def del: at_stage.simps)
    next
      case False
      define s1 where "s1 = self'\<lparr>fd_content_reserve := None\<rparr>"
      define s2 where "s2 = s1\<lparr>fd_dst_start := fd_dst_start s1 + length d\<rparr>"
      have h1: "holds s1 d st'" using F(2) by (simp add: s1_def holds_reserve)
      then have h2: "holds s2 [] st'" unfolding s2_def using holds_take [of s1 d st' "length d"] by simp
      have ends: "fd_dst_end self' = fd_dst_start self' + length d" using F(2) by (simp add: holds_def)
      have same: "fd_r s2 = fd_r self'" "fd_dict s2 = fd_dict self'" "fd_expected_dict_id s2 = fd_expected_dict_id self'"
        "fd_bytes_output s2 = fd_bytes_output self'" "fd_max_output s2 = fd_max_output self'"
        by (simp_all add: s1_def s2_def)
      have "read_to_end_loop (Suc fuel) H R self buf written = read_to_end_loop fuel H R s2 (buf @ d) (written + length d)"
        using F(1) False by (simp add: Let_def ends holds_slice [OF F(2)] consume_def usub_def s1_def s2_def)
      moreover have "length (rest (fd_r s2)) < fuel"
        using F(7,9) False Suc.prems(2) by (cases "c = []") (simp_all add: same)
      with Suc.IH [OF h2] have "to_end_ok H s2 [] st' (buf @ d) (written + length d) (read_to_end_loop fuel H R s2 (buf @ d) (written + length d))"
        by simp
      then have "to_end_ok H self c st buf written (read_to_end_loop fuel H R s2 (buf @ d) (written + length d))"
        by (rule to_end_ok_from) (use F(3-6) in \<open>simp_all add: same_settings_def same stands_for_def\<close>)
      ultimately show ?thesis by simp
    qed
  next
    case (2 e self')
    have "at_stage self' Idle" using 2(3,4) Suc.prems(1) by (simp add: failed_ok_def) (cases st; simp add: holds_def dec_state_def)
    with 2 show ?thesis by (simp add: to_end_ok_def failed_ok_def)
  qed
qed

text \<open>\<^verbatim>\<open>Read::read\<close> into a buffer of any length.\<close>

lemma read_held:
  fixes self :: "('h, 'r) FrameDecoder" and H :: "'h hasher"
  assumes h: "holds self c st" and c: "c \<noteq> []"
  shows "FrameDecoder_read (Suc fuel) H R self n = Ok (take n c, self\<lparr>fd_dst_start := fd_dst_start self + min (length c) n\<rparr>)"
    "holds (self\<lparr>fd_dst_start := fd_dst_start self + min (length c) n\<rparr>) (drop n c) st"
    "stands_for rest H self c st x \<longleftrightarrow>
      (\<exists>y. x = take n c @ y \<and> stands_for rest H (self\<lparr>fd_dst_start := fd_dst_start self + min (length c) n\<rparr>) (drop n c) st y)"
proof -
  have m: "min (length c) n \<le> length c" "take (min (length c) n) c = take n c" "drop (min (length c) n) c = drop n c"
    by (simp_all add: min_def)
  have "fd_dst_end self = fd_dst_start self + length c" using h by (simp add: holds_def)
  with c holds_slice [OF h m(1)] show "FrameDecoder_read (Suc fuel) H R self n =
      Ok (take n c, self\<lparr>fd_dst_start := fd_dst_start self + min (length c) n\<rparr>)"
    by (simp add: Let_def m(2) holds_slice [OF h m(1)])
  show "holds (self\<lparr>fd_dst_start := fd_dst_start self + min (length c) n\<rparr>) (drop n c) st"
    using holds_take [OF h m(1)] by (simp only: m(3))
  have "x = take n c @ drop n c @ c' \<longleftrightarrow> x = c @ c'" for c' using append_take_drop_id [of n c] by (metis append.assoc)
  then show "stands_for rest H self c st x \<longleftrightarrow>
      (\<exists>y. x = take n c @ y \<and> stands_for rest H (self\<lparr>fd_dst_start := fd_dst_start self + min (length c) n\<rparr>) (drop n c) st y)"
    by (auto simp: stands_for_def)
qed

lemma FrameDecoder_read_ok:
  fixes self :: "('h, 'r) FrameDecoder" and H :: "'h hasher"
  assumes h: "holds self c st" and f: "length (rest (fd_r self)) + 1 < fuel"
  obtains (ok) bs d st' self' where "FrameDecoder_read fuel H R self n = Ok (bs, self')" "length bs \<le> n" "holds self' d st'"
      "same_settings self self'" "length (rest (fd_r self')) \<le> length (rest (fd_r self))"
      "fd_bytes_output self' + length c = fd_bytes_output self + length d + length bs"
      "\<And>x. stands_for rest H self c st x \<longleftrightarrow> (\<exists>y. x = bs @ y \<and> stands_for rest H self' d st' y)"
      "bs = [] \<longrightarrow> n = 0 \<or> d = [] \<and> st' = Idle \<and> rest (fd_r self') = []"
    | (bad) e self' where "FrameDecoder_read fuel H R self n = Err (e, self')" "c = []"
      "\<And>x. stands_for rest H self c st x \<Longrightarrow> out_limit self < fd_bytes_output self + length x" "failed_ok self e self'"
proof -
  obtain g where g: "fuel = Suc (Suc g)" using f by (cases fuel; cases "fuel - 1") auto
  have held: thesis if "holds self1 d st1" "d \<noteq> []" "FrameDecoder_read fuel H R self n = FrameDecoder_read (Suc k) H R self1 n"
    "same_settings self self1" "length (rest (fd_r self1)) \<le> length (rest (fd_r self))"
    "fd_bytes_output self1 + length c = fd_bytes_output self + length d"
    "\<And>x. stands_for rest H self c st x \<longleftrightarrow> stands_for rest H self1 d st1 x" for self1 d st1 k
  proof -
    let ?s2 = "self1\<lparr>fd_dst_start := fd_dst_start self1 + min (length d) n\<rparr>"
    show thesis
    proof (rule ok)
      show "FrameDecoder_read fuel H R self n = Ok (take n d, ?s2)"
        unfolding that(3) by (rule read_held(1) [OF that(1,2)])
      show "holds ?s2 (drop n d) st1" by (rule read_held(2) [OF that(1,2)])
      show "stands_for rest H self c st x \<longleftrightarrow> (\<exists>y. x = take n d @ y \<and> stands_for rest H ?s2 (drop n d) st1 y)" for x
        by (rule trans [OF that(7) read_held(3) [OF that(1,2)]])
    qed (use that(2,4-6) in \<open>auto simp: same_settings_def\<close>)
  qed
  show thesis
  proof (cases "c = []")
    case False
    from held [OF h False, of "Suc g"] show thesis by (simp add: g same_settings_def)
  next
    case True
    with h have st: "at_stage self st" "\<not> fd_dst_start self < fd_dst_end self"
      by (simp_all add: holds_nothing holds_def del: at_stage.simps)
    have f': "length (rest (fd_r self)) < fuel" using f by simp
    have eq: "FrameDecoder_read fuel H R self n =
        obind (read_more fuel H R self) (\<lambda>(m, self). if m = 0 then Ok ([], self) else FrameDecoder_read (Suc g) H R self n)"
      unfolding g FrameDecoder_read.simps(2) [of "Suc g"] if_not_P [OF st(2)] ..
    note m = read_more_ok [OF st(1) f', of H]
    show thesis
    proof (cases "read_more fuel H R self")
      case (Ok p)
      obtain k self' where p: "p = (k, self')" by fastforce
      from m obtain d st' where d: "k = length d" "holds self' d st'" "same_settings self self'"
        "fd_bytes_output self' = fd_bytes_output self + length d"
        "d \<noteq> [] \<longrightarrow> length (rest (fd_r self')) < length (rest (fd_r self))" "d = [] \<longrightarrow> st' = Idle \<and> rest (fd_r self') = []"
        "\<And>x. decodes H (fd_dict self) (fd_expected_dict_id self) st (rest (fd_r self)) x \<longleftrightarrow>
           (\<exists>c'. x = d @ c' \<and> decodes H (fd_dict self) (fd_expected_dict_id self) st' (rest (fd_r self')) c')"
        by (auto simp: more_ok_def Ok p)
      have sf: "stands_for rest H self c st x \<longleftrightarrow> stands_for rest H self' d st' x" for x
        using d(3) by (simp add: True stands_for_nothing d(7)) (simp add: stands_for_def same_settings_def)
      show thesis
      proof (cases "d = []")
        case False
        with d have less: "length (rest (fd_r self')) \<le> length (rest (fd_r self))" by simp
        have "FrameDecoder_read fuel H R self n = FrameDecoder_read (Suc g) H R self' n" using False by (simp add: eq Ok p d(1) del: FrameDecoder_read.simps)
        from held [OF d(2) False this d(3) less _ sf] d(4) True show thesis by simp
      next
        case e: True
        have "FrameDecoder_read fuel H R self n = Ok ([], self')" by (simp add: eq Ok p d(1) e)
        then show thesis by (rule ok [of "[]" self' d st']) (use d e True sf in simp_all)
      qed
    next
      case (Err p)
      obtain e self' where p: "p = (e, self')" by fastforce
      show thesis using m by (intro bad [of e self']) (simp_all add: eq Err p True more_ok_def stands_for_nothing)
    qed (use m in \<open>simp_all add: more_ok_def\<close>)
  qed
qed

end

end
