(* ===== verification/Frame_Stream.thy ===== *)
theory Frame_Stream
  imports Frame_Encoder_Correct Frame_Reading
begin

text \<open>
  Whole streams: the frame encoder and the frame decoder from their constructors on, for any
  writer and any reader that keep their contracts, and their composition.
\<close>

section \<open>The decoder\<close>

definition options_dict :: "FrameDecoderOptions \<Rightarrow> bytes" where
  "options_dict options = (case opt_dictionary options of Some (dict, _) \<Rightarrow> dict | None \<Rightarrow> [])"

definition options_dict_id :: "FrameDecoderOptions \<Rightarrow> 32 word option" where
  "options_dict_id options = map_option snd (opt_dictionary options)"

definition options_limit :: "FrameDecoderOptions \<Rightarrow> nat" where
  "options_limit options = (case opt_max_output options of Some m \<Rightarrow> min m usize_max | None \<Rightarrow> usize_max)"

lemma new_decoder:
  "holds (FrameDecoder_with_options H r options) [] Idle" "fd_r (FrameDecoder_with_options H r options) = r"
  "fd_dict (FrameDecoder_with_options H r options) = options_dict options"
  "fd_expected_dict_id (FrameDecoder_with_options H r options) = options_dict_id options"
  "out_limit (FrameDecoder_with_options H r options) = options_limit options"
  "fd_bytes_output (FrameDecoder_with_options H r options) = 0"
  by (simp_all add: FrameDecoder_with_options_def FrameDecoder_new_def holds_def options_dict_def options_dict_id_def
      options_limit_def out_limit_def Let_def split: option.splits)

text \<open>Reads with buffers of the given lengths, one after the other.\<close>

fun reads :: "nat \<Rightarrow> 'h hasher \<Rightarrow> 'r io_read \<Rightarrow> ('h, 'r) FrameDecoder \<Rightarrow> nat list \<Rightarrow> ('h, 'r, bytes list) io_result" where
  "reads fuel H R self [] = Ok ([], self)"
| "reads fuel H R self (n # ns) =
     obind (FrameDecoder_read fuel H R self n) (\<lambda>(bs, self).
     obind (reads fuel H R self ns) (\<lambda>(bss, self). Ok (bs # bss, self)))"

context reader
begin

lemma read_to_end_idle:
  fixes self :: "('h, 'r) FrameDecoder" and H :: "'h hasher"
  assumes h: "holds self [] Idle" and f: "length (rest (fd_r self)) < fuel" and lim: "fd_bytes_output self \<le> out_limit self"
  shows "(\<exists>self'. read_to_end fuel H R self buf = Ok (length c, self', buf @ c)) \<longleftrightarrow>
    frame_stream H (fd_dict self) (fd_expected_dict_id self) (rest (fd_r self)) c \<and>
    fd_bytes_output self + length c \<le> out_limit self"
    "case read_to_end fuel H R self buf of
      Ok (n, self', buf') \<Rightarrow> \<exists>x. buf' = buf @ x \<and> n = length x \<and> fd_bytes_output self + n \<le> out_limit self
    | Err (e, self', buf') \<Rightarrow> \<exists>x. buf' = buf @ x \<and> at_stage self' Idle \<and> same_settings self self' \<and>
        fd_bytes_output self' = fd_bytes_output self + length x \<and> fd_bytes_output self' \<le> out_limit self
    | _ \<Rightarrow> False"
proof -
  have m: "to_end_ok H self [] Idle buf 0 (read_to_end fuel H R self buf)"
    unfolding read_to_end_def using f by (intro read_to_end_loop_ok [OF h]) simp
  have st: "stands_for rest H self [] Idle y \<longleftrightarrow> frame_stream H (fd_dict self) (fd_expected_dict_id self) (rest (fd_r self)) y" for y
    by (simp add: stands_for_nothing decodes_Idle)
  show "(\<exists>self'. read_to_end fuel H R self buf = Ok (length c, self', buf @ c)) \<longleftrightarrow>
    frame_stream H (fd_dict self) (fd_expected_dict_id self) (rest (fd_r self)) c \<and>
    fd_bytes_output self + length c \<le> out_limit self"
    using m lim by (cases "read_to_end fuel H R self buf") (fastforce simp: to_end_ok_def st)+
  show "case read_to_end fuel H R self buf of
      Ok (n, self', buf') \<Rightarrow> \<exists>x. buf' = buf @ x \<and> n = length x \<and> fd_bytes_output self + n \<le> out_limit self
    | Err (e, self', buf') \<Rightarrow> \<exists>x. buf' = buf @ x \<and> at_stage self' Idle \<and> same_settings self self' \<and>
        fd_bytes_output self' = fd_bytes_output self + length x \<and> fd_bytes_output self' \<le> out_limit self
    | _ \<Rightarrow> False"
    using m lim by (cases "read_to_end fuel H R self buf") (auto simp: to_end_ok_def)
qed

lemma reads_ok:
  fixes self :: "('h, 'r) FrameDecoder" and H :: "'h hasher"
  assumes "holds self c st" "length (rest (fd_r self)) + 1 < fuel" "stands_for rest H self c st x"
    "fd_bytes_output self + length x \<le> out_limit self + length c"
  shows "\<exists>bss self' y. reads fuel H R self ns = Ok (bss, self') \<and> x = concat bss @ y \<and>
    list_all2 (\<lambda>bs n. length bs \<le> n \<and> (bs = [] \<longrightarrow> n = 0 \<or> concat bss = x)) bss ns"
  using assms
proof (induction ns arbitrary: self c st x)
  case Nil
  then show ?case by simp
next
  case (Cons n ns)
  show ?case
  proof (cases rule: FrameDecoder_read_ok [OF Cons.prems(1,2), of H n])
    case (1 bs d st' self')
    from 1(7) Cons.prems(3) obtain y where y: "x = bs @ y" "stands_for rest H self' d st' y" by auto
    have f: "length (rest (fd_r self')) + 1 < fuel" using 1(5) Cons.prems(2) by simp
    have lim: "fd_bytes_output self' + length y \<le> out_limit self' + length d"
      using 1(4,6) Cons.prems(4) y(1) by (simp add: same_settings_def out_limit_def)
    from Cons.IH [OF 1(3) f y(2) lim] obtain bss self'' z where IH: "reads fuel H R self' ns = Ok (bss, self'')"
      "y = concat bss @ z" "list_all2 (\<lambda>bs n. length bs \<le> n \<and> (bs = [] \<longrightarrow> n = 0 \<or> concat bss = y)) bss ns" by auto
    have "reads fuel H R self (n # ns) = Ok (bs # bss, self'')" using 1(1) IH(1) by simp
    moreover have "x = concat (bs # bss) @ z" by (simp add: y(1) IH(2))
    moreover have "bs = [] \<longrightarrow> n = 0 \<or> concat (bs # bss) = x"
    proof (intro impI)
      assume e: "bs = []"
      show "n = 0 \<or> concat (bs # bss) = x"
      proof (cases "n = 0")
        case False
        with 1(8) e y(2) have "y = []" by (simp add: stands_for_nothing decodes_nothing)
        with e y(1) IH(2) show ?thesis by simp
      qed simp
    qed
    moreover have "list_all2 (\<lambda>bs' n. length bs' \<le> n \<and> (bs' = [] \<longrightarrow> n = 0 \<or> concat (bs # bss) = x)) bss ns"
      using IH(3) by (rule list_all2_mono) (auto simp: y(1))
    ultimately show ?thesis using 1(2) by (intro exI [of _ "bs # bss"] exI [of _ self''] exI [of _ z]) simp
  next
    case (2 e self')
    from 2(3) [OF Cons.prems(3)] 2(2) Cons.prems(4) show ?thesis by simp
  qed
qed

end

section \<open>The encoder\<close>

lemma run_calls_append: "run_calls H W (xs @ ys) self = obind (run_calls H W xs self) (run_calls H W ys)"
proof (induction xs arbitrary: self)
  case (Cons c xs)
  then show ?case by (cases "run_call H W c self") simp_all
qed simp

text \<open>An encoder without or with a dictionary and its Dict_ID.\<close>

definition new_encoder ::
  "'h hasher \<Rightarrow> 'w \<Rightarrow> FrameInfo \<Rightarrow> (bytes \<times> 32 word) option \<Rightarrow> (Error, ('h, 'w) FrameEncoder) outcome" where
  "new_encoder H w info dictionary =
     (case dictionary of
        None \<Rightarrow> FrameEncoder_with_frame_info H info w
      | Some (dict, did) \<Rightarrow> FrameEncoder_with_dictionary H w dict did (Some info))"

definition encoder_options :: "(bytes \<times> 32 word) option \<Rightarrow> FrameDecoderOptions" where
  "encoder_options dictionary = \<lparr>opt_dictionary = dictionary, opt_max_output = None\<rparr>"

context writer
begin

lemma new_encoder_ok:
  assumes w: "written w = []" and one: "block_checksums info \<longrightarrow> oneshot_consistent H"
    and did: "dictionary = None \<longrightarrow> dict_id info = None"
  obtains enc where "new_encoder H w info dictionary = Ok enc" "encoder_ok H [] [] enc"
    "fe_dict enc = options_dict (encoder_options dictionary)"
    "fe_frame_info enc = info\<lparr>dict_id := options_dict_id (encoder_options dictionary)\<rparr>" "\<not> fe_data_to_frame_written enc"
proof -
  have v: "valid_entries DEFAULT_NODICT_ENTRIES" by (simp add: valid_entries_def DEFAULT_NODICT_ENTRIES_def MIN_ENTRIES_def
        ilog2.simps [of "numeral _"] ilog2.simps [of "Suc 0"])
  define info' where "info' = info\<lparr>dict_id := options_dict_id (encoder_options dictionary)\<rparr>"
  define enc where "enc = \<lparr>fe_src = [], fe_src_start = 0, fe_src_end = 0, fe_ext_dict_offset = 0, fe_ext_dict_len = 0,
       fe_src_stream_offset = 0, fe_table = replicate DEFAULT_NODICT_ENTRIES 0, fe_w = w, fe_hasher = with_seed H 0,
       fe_content_len = 0, fe_dst = [], fe_is_frame_open = False, fe_failed = False, fe_data_to_frame_written = False,
       fe_frame_info = info', fe_dict = options_dict (encoder_options dictionary)\<rparr>"
  have "info\<lparr>dict_id := None\<rparr> = info" if "dict_id info = None" using that by (cases info) simp
  with v did have "new_encoder H w info dictionary = Ok enc"
    by (auto simp: new_encoder_def FrameEncoder_with_dictionary_def FrameEncoder_with_frame_info_def HashTableU32_new_def
        enc_def info'_def options_dict_def options_dict_id_def encoder_options_def split: option.splits)
  moreover have "encoder_ok H [] [] enc"
    using w one by (simp add: encoder_ok_def no_frame_def enc_def info'_def entries_below_replicate)
  ultimately show thesis using that [of enc] by (simp add: enc_def info'_def)
qed

text \<open>Any calls, and the end of the frame.\<close>

lemma run_to_end:
  assumes w: "written w = []" and one: "block_checksums info \<longrightarrow> oneshot_consistent H"
    and did: "dictionary = None \<longrightarrow> dict_id info = None"
    and size: "\<forall>x \<in> set (frame_contents [] (cs @ [Finish_frame])). size_matches info x"
    and len: "length (bytes_of_calls cs) < 2 ^ 64"
  obtains self' where "obind (new_encoder H w info dictionary) (run_calls H W (cs @ [Finish_frame])) = Ok self'"
    "frame_stream H (options_dict (encoder_options dictionary)) (options_dict_id (encoder_options dictionary))
       (written (fe_w self')) (bytes_of_calls cs)"
proof -
  let ?dict = "options_dict (encoder_options dictionary)" and ?did = "options_dict_id (encoder_options dictionary)"
  obtain enc where enc: "new_encoder H w info dictionary = Ok enc" "encoder_ok H [] [] enc" "fe_dict enc = ?dict"
    "fe_frame_info enc = info\<lparr>dict_id := ?did\<rparr>"
    by (rule new_encoder_ok [OF w one did])
  have sm: "size_matches (fe_frame_info enc) x = size_matches info x" for x by (simp add: enc(4) size_matches_def)
  have "x \<in> set (frame_contents y (cs @ [Finish_frame]))" if "x \<in> set (frame_contents y cs)" for x y
    using that by (induction cs arbitrary: y) (auto split: if_splits)
  then have e: "frame_stream H (fe_dict enc) ?did [] []" "dict_id (fe_frame_info enc) = ?did"
    "\<forall>x \<in> set (frame_contents [] cs). size_matches (fe_frame_info enc) x"
    using size by (auto simp: no_frames enc(4) sm [simplified enc(4)])
  have l0: "length ([] :: bytes) + length (bytes_of_calls cs) < 2 ^ 64" using len by simp
  obtain self1 out before content where s1: "run_calls H W cs enc = Ok self1" "encoder_ok H out content self1"
    "frame_stream H (fe_dict enc) ?did out before" "same_setup enc self1" "before @ content = [] @ [] @ bytes_of_calls cs"
    "length content < 2 ^ 64" "frame_contents [] (cs @ [Finish_frame]) = frame_contents [] cs @ [content]"
    by (rule run_calls_stream [OF enc(2) e l0])
  have "size_matches info content" using size s1(7) by simp
  then have did1: "fe_dict enc = fe_dict self1" "size_matches (fe_frame_info self1) content"
    using s1(4) by (auto simp: same_setup_def enc(4) size_matches_def)
  note result = that
  have finished: thesis if "try_finish H W self1 = Ok self2"
    "frame_stream H (fe_dict enc) ?did (written (fe_w self2)) (before @ content)" for self2
    using that s1(1,5) enc(1,3) by (intro result [of self2]) (simp_all add: run_calls_append)
  show thesis
  proof (rule try_finish_ok [OF s1(2)])
    fix self2 assume "try_finish H W self1 = Ok self2" "content = []" "written (fe_w self2) = out"
    then show thesis using s1(3) by (intro finished [of self2]) simp_all
  next
    fix self2 wire assume f: "try_finish H W self1 = Ok self2" "frame H (fe_dict self1) (fe_frame_info self2) wire content"
      "written (fe_w self2) = out @ wire" "same_setup self1 self2"
    then have "dict_id (fe_frame_info self2) = ?did" using s1(4) e(2) by (auto simp: same_setup_def)
    from frame_stream_snoc [OF s1(3) f(2) [folded did1(1)] this] f(1,3) show thesis by (intro finished [of self2]) simp_all
  qed (use did1(2) in \<open>simp add: size_matches_def\<close>)
qed

lemma run_one_frame:
  assumes w: "written w = []" and one: "block_checksums info \<longrightarrow> oneshot_consistent H"
    and did: "dictionary = None \<longrightarrow> dict_id info = None"
    and len: "length (bytes_of_calls cs) < 2 ^ 64" and cs: "Finish_frame \<notin> set cs"
  shows "case obind (new_encoder H w info dictionary) (run_calls H W (cs @ [Finish_frame])) of
      Ok self' \<Rightarrow> size_matches info (bytes_of_calls cs) \<and>
        (\<exists>b. frame H (options_dict (encoder_options dictionary))
          (info\<lparr>dict_id := options_dict_id (encoder_options dictionary), block_size := b\<rparr>) (written (fe_w self')) (bytes_of_calls cs))
    | Err e \<Rightarrow> \<exists>n. content_size info = Some n \<and> unat n \<noteq> length (bytes_of_calls cs) \<and>
        e = ContentLengthError n (word_of_nat (length (bytes_of_calls cs)))
    | _ \<Rightarrow> False"
proof -
  let ?dict = "options_dict (encoder_options dictionary)" and ?did = "options_dict_id (encoder_options dictionary)"
    and ?c = "bytes_of_calls cs"
  obtain enc where enc: "new_encoder H w info dictionary = Ok enc" "encoder_ok H [] [] enc" "fe_dict enc = ?dict"
    "fe_frame_info enc = info\<lparr>dict_id := ?did\<rparr>" "\<not> fe_data_to_frame_written enc"
    by (rule new_encoder_ok [OF w one did])
  have l0: "length ([] :: bytes) + length ?c < 2 ^ 64" using len by simp
  obtain self1 where s1: "run_calls H W cs enc = Ok self1" "encoder_ok H [] ([] @ ?c) self1" "same_setup enc self1"
    "fe_data_to_frame_written self1 = fe_data_to_frame_written enc"
    by (rule run_calls_ok [OF enc(2) l0 cs])
  have c: "encoder_ok H [] ?c self1" "content_size (fe_frame_info self1) = content_size info" "fe_dict self1 = ?dict"
    using s1(2,3) enc(3,4) by (auto simp: same_setup_def)
  have eq: "obind (new_encoder H w info dictionary) (run_calls H W (cs @ [Finish_frame])) = map_err fst (try_finish H W self1)"
    using s1(1) enc(1) by (cases "try_finish H W self1") (simp_all add: run_calls_append)
  show ?thesis
  proof (rule try_finish_ok [OF c(1)])
    fix self2 assume "try_finish H W self1 = Ok self2" "fe_data_to_frame_written self1"
    with s1(4) enc(5) show ?thesis by simp
  next
    fix self2 wire assume f: "try_finish H W self1 = Ok self2" "frame H (fe_dict self1) (fe_frame_info self2) wire ?c"
      "written (fe_w self2) = [] @ wire" "same_setup self1 self2"
    from same_setup_trans [OF s1(3) f(4)] obtain b where b: "fe_frame_info self2 = info\<lparr>dict_id := ?did, block_size := b\<rparr>"
      unfolding same_setup_def enc(4) by auto
    have "size_matches (fe_frame_info self2) ?c" using f(2) by (auto simp: frame_def)
    then have "size_matches info ?c" by (simp add: b size_matches_def)
    with f(1-3) b c(3) show ?thesis by (auto simp: eq)
  next
    fix n self2 assume "content_size (fe_frame_info self1) = Some n" "unat n \<noteq> length ?c"
      "try_finish H W self1 = Err (ContentLengthError n (word_of_nat (length ?c)), self2)"
    with c(2) show ?thesis by (simp add: eq)
  qed
qed

end

end
