(* ===== verification/Frame_Encoder_Failure.thy ===== *)
theory Frame_Encoder_Failure
  imports Frame_Encoder
begin

text \<open>
  After an error the encoder is not used again: with any writer, a call that fails leaves the flag
  \<^verbatim>\<open>failed\<close> set, and with the flag set every later call fails and leaves the encoder and its
  writer as they are.
\<close>

text \<open>A step that leaves the flag alone, whether it succeeds or not.\<close>

definition fails_keeping :: "bool \<Rightarrow> ('x \<times> ('h, 'w) FrameEncoder, 'a) outcome \<Rightarrow> bool" where
  "fails_keeping b r \<longleftrightarrow> (\<forall>e s. r = Err (e, s) \<longrightarrow> fe_failed s = b)"

definition keeps_failed :: "bool \<Rightarrow> ('x \<times> ('h, 'w) FrameEncoder, ('h, 'w) FrameEncoder) outcome \<Rightarrow> bool" where
  "keeps_failed b r \<longleftrightarrow> fails_keeping b r \<and> (\<forall>s. r = Ok s \<longrightarrow> fe_failed s = b)"

lemma fails_keeping_bind:
  "fails_keeping b m \<Longrightarrow> (\<And>x. m = Ok x \<Longrightarrow> fails_keeping b (f x)) \<Longrightarrow> fails_keeping b (obind m f)"
  by (auto simp: fails_keeping_def obind_Err_iff)

lemma keeps_bind_value:
  "fails_keeping b m \<Longrightarrow> (\<And>x. m = Ok x \<Longrightarrow> keeps_failed b (f x)) \<Longrightarrow> keeps_failed b (obind m f)"
  by (auto simp: keeps_failed_def fails_keeping_def obind_Err_iff obind_Ok_iff)

lemma keeps_bind:
  assumes "keeps_failed b m" "\<And>s. fe_failed s = b \<Longrightarrow> keeps_failed b (f s)"
  shows "keeps_failed b (obind m f)"
proof (cases m)
  case (Ok s)
  with assms(1) have "fe_failed s = b" by (simp add: keeps_failed_def)
  from assms(2) [OF this] Ok show ?thesis by simp
qed (use assms(1) in \<open>simp_all add: keeps_failed_def fails_keeping_def\<close>)

lemma keeps_if: "(c \<Longrightarrow> keeps_failed b m) \<Longrightarrow> (\<not> c \<Longrightarrow> keeps_failed b m') \<Longrightarrow> keeps_failed b (if c then m else m')"
  by simp

lemma keeps_basic:
  "keeps_failed b (Ok s) \<longleftrightarrow> fe_failed s = b" "keeps_failed b Panic" "keeps_failed b Diverge"
  "keeps_failed b (Err (e, s)) \<longleftrightarrow> fe_failed s = b"
  by (simp_all add: keeps_failed_def fails_keeping_def)

lemma fails_plain: "fails_keeping b (Ok x)" "fails_keeping b (usub m n)" "fails_keeping b (sub_slice xs m n)"
  by (simp_all add: fails_keeping_def usub_def sub_slice_def)

lemma fails_get_size: "fails_keeping b (get_size z)" "fails_keeping b (from_buf_length n)"
  by (cases z; simp add: fails_keeping_def from_buf_length_def)+

lemma fails_copy: "fails_keeping b (vec_copy_overwriting v n xs)" "fails_keeping b (choose_block n v xs)"
  by (auto simp: vec_copy_overwriting_def copy_into_def choose_block_def fails_keeping_def usub_def sub_slice_def Let_def
      split: if_splits)

lemma fails_lift: "fe_failed s = b \<Longrightarrow> fails_keeping b (lift s r)"
  by (auto simp: fails_keeping_def lift_def map_err_Err_iff)

lemma keeps_w_all: "fe_failed s = b \<Longrightarrow> keeps_failed b (w_all W s bs)"
  by (auto simp: w_all_def keeps_failed_def fails_keeping_def split: prod.splits option.splits)

lemmas keeps_rules = keeps_bind_value [OF fails_lift] keeps_bind_value [OF fails_plain(2)]
  keeps_bind_value [OF fails_plain(3)] keeps_bind_value [OF fails_get_size(1)] keeps_bind_value [OF fails_get_size(2)]
  keeps_bind_value [OF fails_copy(1)] keeps_bind_value [OF fails_copy(2)] keeps_bind [OF keeps_w_all] keeps_w_all keeps_if

lemma keeps_reposition: "fe_failed s = b \<Longrightarrow> keeps_failed b (reposition n s)"
  by (auto simp: reposition_def keeps_basic intro!: keeps_rules)

lemma keeps_seed_first_block: "fe_failed s = b \<Longrightarrow> keeps_failed b (seed_first_block s src)"
  by (auto simp: seed_first_block_def keeps_basic intro!: keeps_rules)

lemma keeps_put_block: "fe_failed s = b \<Longrightarrow> keeps_failed b (put_block H W s bi data)"
  by (auto simp: put_block_def keeps_basic intro!: keeps_rules)

lemma keeps_count_block: "fe_failed s = b \<Longrightarrow> keeps_failed b (count_block H s src)"
  by (auto simp: count_block_def keeps_basic Let_def)

lemma keeps_advance:
  "fe_failed s = b \<Longrightarrow> keeps_failed b (advance_linked n s)" "fe_failed s = b \<Longrightarrow> keeps_failed b (advance_independent n s)"
  by (auto simp: advance_linked_def advance_independent_def keeps_basic Let_def intro!: keeps_rules keeps_bind)

lemma keeps_write_block: "fe_failed s = b \<Longrightarrow> keeps_failed b (write_block H W s)"
  unfolding write_block_def
  by (auto simp: keeps_basic intro!: keeps_rules keeps_bind [OF keeps_reposition] keeps_bind [OF keeps_seed_first_block]
      keeps_bind [OF keeps_put_block] keeps_bind [OF keeps_count_block] keeps_bind [OF keeps_advance(1)]
      keeps_bind [OF keeps_advance(2)]
      keeps_bind [of b "if _ then _ else _"])

lemma keeps_begin_frame: "fe_failed s = b \<Longrightarrow> keeps_failed b (begin_frame H W s n)"
  unfolding begin_frame_def
  by (rule keeps_bind) (auto simp: keeps_basic Let_def intro!: keeps_rules)

lemma keeps_write_loop: "fe_failed s = b \<Longrightarrow> keeps_failed b (write_loop fuel H W s buf)"
proof (induction fuel arbitrary: s buf b)
  case 0
  then show ?case by (simp add: keeps_basic)
next
  case (Suc fuel)
  show ?case
    unfolding write_loop.simps Let_def
    using Suc.prems by (auto simp: keeps_basic intro!: keeps_rules keeps_bind [OF keeps_write_block] Suc.IH)
qed

lemma fails_bind:
  assumes "keeps_failed b m" "\<And>s. fe_failed s = b \<Longrightarrow> fails_keeping b (f s)"
  shows "fails_keeping b (obind m f)"
proof (cases m)
  case (Ok s)
  with assms(1) have "fe_failed s = b" by (simp add: keeps_failed_def)
  from assms(2) [OF this] Ok show ?thesis by simp
qed (use assms(1) in \<open>simp_all add: keeps_failed_def fails_keeping_def\<close>)

lemma keeps_map_err: "keeps_failed b m \<Longrightarrow> keeps_failed b (map_err (\<lambda>(e, s). (g e, s)) m)"
  by (cases m) (auto simp: keeps_failed_def fails_keeping_def)

lemma fails_map_err: "fe_failed s = b \<Longrightarrow> fails_keeping b (map_err (\<lambda>e. (e, s)) r)"
  by (auto simp: fails_keeping_def map_err_Err_iff)

lemma keeps_end_frame: "fe_failed s = b \<Longrightarrow> keeps_failed b (end_frame H W s)"
  unfolding end_frame_def Let_def
  by (auto simp: keeps_basic intro!: keeps_bind_value [OF fails_map_err] keeps_bind [OF keeps_map_err [OF keeps_w_all]]
      keeps_if keeps_map_err keeps_w_all simp del: not_True_eq_False)

lemma write_fails: "fails_keeping True (FrameEncoder_write H W self buf)"
proof (cases "fe_failed self")
  case True
  then show ?thesis by (simp add: FrameEncoder_write_def fails_keeping_def)
next
  case False
  show ?thesis
    unfolding FrameEncoder_write_def Let_def if_not_P [OF False]
  proof (rule fails_bind)
    show "keeps_failed True (if \<not> fe_is_frame_open (self\<lparr>fe_failed := True\<rparr>) \<and> buf \<noteq> []
        then begin_frame H W (self\<lparr>fe_failed := True\<rparr>) (length buf) else Ok (self\<lparr>fe_failed := True\<rparr>))"
      by (intro keeps_if keeps_begin_frame) (simp_all add: keeps_basic)
    show "fails_keeping True (obind (write_loop (2 * length buf + 2) H W s buf) (\<lambda>self. Ok (length buf, self\<lparr>fe_failed := False\<rparr>)))"
      if "fe_failed s = True" for s
      by (rule fails_bind [OF keeps_write_loop [OF that]]) (rule fails_plain)
  qed
qed

lemma flush_fails: "fails_keeping True (FrameEncoder_flush H W self)"
proof (cases "fe_failed self")
  case True
  then show ?thesis by (simp add: FrameEncoder_flush_def fails_keeping_def)
next
  case False
  show ?thesis
    unfolding FrameEncoder_flush_def Let_def if_not_P [OF False]
    by (rule fails_bind) (auto simp: fails_keeping_def keeps_basic intro!: keeps_if keeps_write_block split: prod.splits option.splits)
qed

lemma try_finish_fails: "fails_keeping True (try_finish H W self)"
proof (cases "FrameEncoder_flush H W self")
  case (Ok self1)
  let ?s = "self1\<lparr>fe_failed := True\<rparr>"
  have "fails_keeping True (obind (if \<not> fe_is_frame_open ?s then map_err (\<lambda>(e, s). (Error_of_io e, s)) (begin_frame H W ?s 0)
         else Ok ?s) (\<lambda>self. obind (end_frame H W self) (\<lambda>self. Ok (self\<lparr>fe_data_to_frame_written := True, fe_failed := False\<rparr>))))"
  proof (rule fails_bind)
    show "keeps_failed True (if \<not> fe_is_frame_open ?s then map_err (\<lambda>(e, s). (Error_of_io e, s)) (begin_frame H W ?s 0) else Ok ?s)"
      by (intro keeps_if keeps_map_err keeps_begin_frame) (simp_all add: keeps_basic)
    show "fails_keeping True (obind (end_frame H W s) (\<lambda>self. Ok (self\<lparr>fe_data_to_frame_written := True, fe_failed := False\<rparr>)))"
      if "fe_failed s = True" for s
      by (rule fails_bind [OF keeps_end_frame [OF that]]) (rule fails_plain)
  qed
  then show ?thesis
    unfolding try_finish_def Ok map_err.simps obind.simps Let_def by (simp only: fails_plain(1) split: if_split) simp
next
  case (Err e)
  with flush_fails [of H W self] show ?thesis by (cases e) (simp add: try_finish_def fails_keeping_def)
qed (simp_all add: try_finish_def fails_keeping_def)

section \<open>Properties\<close>

text \<open>
  C15: a call that fails, with whatever writer, disables the encoder for good: every later write,
  flush or attempt to finish the frame fails as well, and nothing more reaches the writer.
\<close>

theorem frame_encoder_failure_sticks:
  assumes "FrameEncoder_write H W self buf = Err (e, self') \<or> FrameEncoder_flush H W self = Err (e, self') \<or>
    try_finish H W self = Err (e', self')"
  shows "FrameEncoder_write H W self' buf' = Err (Plain Other ''encoder cannot be reused after an error'', self') \<and>
    FrameEncoder_flush H W self' = Err (Plain Other ''encoder cannot be reused after an error'', self') \<and>
    try_finish H W self' = Err (IoError (Plain Other ''encoder cannot be reused after an error''), self')"
proof -
  have "fe_failed self'"
    using assms write_fails [of H W self buf] flush_fails [of H W self] try_finish_fails [of H W self]
    by (auto simp: fails_keeping_def)
  then show ?thesis by (simp add: FrameEncoder_write_def FrameEncoder_flush_def try_finish_def)
qed

theorem frame_encoder_failure_sticks_witness:
  "\<exists>self' :: (unit, unit) FrameEncoder.
     FrameEncoder_flush \<lparr>with_seed = \<lambda>_. (), hash_write = \<lambda>_ _. (), hash_finish = \<lambda>_. 0, oneshot = \<lambda>_ _. 0\<rparr>
       \<lparr>write_all = \<lambda>w _. (None, w), flush_w = \<lambda>w. (Some (Plain WriteZero []), w)\<rparr>
       \<lparr>fe_src = [], fe_src_start = 0, fe_src_end = 0, fe_ext_dict_offset = 0, fe_ext_dict_len = 0,
         fe_src_stream_offset = 0, fe_table = [], fe_w = (), fe_hasher = (), fe_content_len = 0, fe_dst = [],
         fe_is_frame_open = False, fe_failed = False, fe_data_to_frame_written = False,
         fe_frame_info = FrameInfo_new, fe_dict = []\<rparr> = Err (Plain WriteZero [], self') \<and>
     FrameEncoder_write \<lparr>with_seed = \<lambda>_. (), hash_write = \<lambda>_ _. (), hash_finish = \<lambda>_. 0, oneshot = \<lambda>_ _. 0\<rparr>
       \<lparr>write_all = \<lambda>w _. (None, w), flush_w = \<lambda>w. (Some (Plain WriteZero []), w)\<rparr> self' [1] =
       Err (Plain Other ''encoder cannot be reused after an error'', self')"
proof -
  let ?H = "\<lparr>with_seed = \<lambda>_. (), hash_write = \<lambda>_ _. (), hash_finish = \<lambda>_. 0, oneshot = \<lambda>_ _. 0\<rparr> :: unit hasher"
  let ?W = "\<lparr>write_all = \<lambda>w _. (None, w), flush_w = \<lambda>w. (Some (Plain WriteZero []), w)\<rparr> :: unit io_write"
  let ?s = "\<lparr>fe_src = [], fe_src_start = 0, fe_src_end = 0, fe_ext_dict_offset = 0, fe_ext_dict_len = 0,
         fe_src_stream_offset = 0, fe_table = [], fe_w = (), fe_hasher = (), fe_content_len = 0, fe_dst = [],
         fe_is_frame_open = False, fe_failed = False, fe_data_to_frame_written = False,
         fe_frame_info = FrameInfo_new, fe_dict = []\<rparr> :: (unit, unit) FrameEncoder"
  have f: "FrameEncoder_flush ?H ?W ?s = Err (Plain WriteZero [], ?s\<lparr>fe_failed := True\<rparr>)"
    by (simp add: FrameEncoder_flush_def)
  from frame_encoder_failure_sticks [OF disjI2 [OF disjI1 [OF f]], of "[1]"] f show ?thesis by blast
qed

end
