(* ===== verification/Frame_Properties.thy ===== *)
theory Frame_Properties
  imports Frame_Stream Frame_Encoder_Failure
begin

text \<open>
  The properties of the frame encoder and decoder, for any hash, any reader and any writer that
  keep the contracts \<open>reader\<close> and \<open>writer\<close>.  The witnesses use a slice, a vector and a constant hash,
  and the frame \<open>example_frame\<close>, which holds three bytes in a stored block.
\<close>

definition zero_hash :: "unit hasher" where
  "zero_hash = \<lparr>with_seed = \<lambda>_. (), hash_write = \<lambda>_ _. (), hash_finish = \<lambda>_. 0, oneshot = \<lambda>_ _. 0\<rparr>"

definition example_frame :: bytes where
  "example_frame = [4, 34, 77, 24, 96, 64, 0, 3, 0, 0, 128, 1, 2, 3, 0, 0, 0, 0]"

definition default_options :: FrameDecoderOptions where
  "default_options = \<lparr>opt_dictionary = None, opt_max_output = None\<rparr>"

lemma default_options [simp]:
  "options_dict default_options = []" "options_dict_id default_options = None" "options_limit default_options = usize_max"
  by (simp_all add: default_options_def options_dict_def options_dict_id_def options_limit_def)

lemma zero_hash_consistent: "oneshot_consistent zero_hash"
  by (simp add: zero_hash_def oneshot_consistent_def block_checksum_def)

lemma le_bytes_4: "le_bytes 4 v = [word_of_nat (v mod 256), word_of_nat (v div 256 mod 256),
    word_of_nat (v div 256 div 256 mod 256), word_of_nat (v div 256 div 256 div 256 mod 256)]"
proof -
  have "4 = Suc (Suc (Suc (Suc 0)))" by simp
  then show ?thesis by (simp only: le_bytes.simps)
qed

lemma example_frame_stream: "frame_stream zero_hash [] None example_frame [1, 2, 3]"
proof -
  let ?i = "FrameInfo_new\<lparr>block_size := Max64KB\<rparr>"
  have "frame_block zero_hash ?i [] [] [3, 0, 0, 128, 1, 2, 3] [1, 2, 3]"
    unfolding frame_block_def
    by (intro exI [of _ "Uncompressed 3"] exI [of _ "[1, 2, 3]"])
      (simp add: FrameInfo_new_def block_trailer_def le_of_word_def le_bytes_4 BLOCK_UNCOMPRESSED_SIZE_BIT_def)
  from more_blocks [OF this no_blocks] have b: "frame_blocks zero_hash ?i [] [] (with_seed zero_hash 0) [3, 0, 0, 128, 1, 2, 3] [1, 2, 3] ()"
    by simp
  have w: "example_frame = header_bytes zero_hash ?i @ [3, 0, 0, 128, 1, 2, 3] @ end_of_frame zero_hash ?i ()"
    by (simp add: example_frame_def header_bytes_def header_descriptor_def header_flags_def opt_bytes_def header_checksum_def
        FrameInfo_new_def zero_hash_def end_of_frame_def le_of_word_def le_bytes_4 LZ4F_MAGIC_NUMBER_def)
  have "frame zero_hash [] ?i example_frame [1, 2, 3]"
    unfolding frame_def using b w
    by (intro exI [of _ "[3, 0, 0, 128, 1, 2, 3]"] exI [of _ "()"]) (simp add: FrameInfo_new_def size_matches_def)
  from frame_stream_one [OF this] show ?thesis by (simp add: FrameInfo_new_def)
qed

section \<open>The decoder\<close>

text \<open>
  C9: the decoder accepts exactly the streams of frames whose blocks, checksums, sizes and Dict_ID
  are right and whose content keeps the limit, and \<^verbatim>\<open>read_to_end\<close> then appends that content.
\<close>

theorem frame_decoder_accepts:
  assumes "reader R rest" "length (rest r) < fuel"
  shows "(\<exists>self'. read_to_end fuel H R (FrameDecoder_with_options H r options) buf = Ok (length c, self', buf @ c)) \<longleftrightarrow>
    frame_stream H (options_dict options) (options_dict_id options) (rest r) c \<and> length c \<le> options_limit options"
  using reader.read_to_end_idle(1) [OF assms(1) new_decoder(1) [of H r options], where H = H and fuel = fuel and buf = buf and c = c] assms(2)
  by (simp add: new_decoder(2-6))

theorem frame_decoder_accepts_witness:
  "\<exists>self'. read_to_end 19 zero_hash slice_reader (FrameDecoder_with_options zero_hash example_frame default_options) [9] =
     Ok (3, self', [9, 1, 2, 3])"
  using frame_decoder_accepts [OF slice.reader_axioms, where r = example_frame and fuel = 19 and H = zero_hash and
      options = default_options and buf = "[9]" and c = "[1, 2, 3]"] example_frame_stream
  by (simp add: example_frame_def usize_max_def numeral_3_eq_3)

text \<open>
  C11: on no input, whatever the reader delivers, does the decoder panic or read forever, and it
  never gives out more than \<^verbatim>\<open>max_output\<close> bytes, also when it ends with an error.
\<close>

theorem frame_decoder_safe:
  assumes "reader R rest" "length (rest r) < fuel"
  shows "case read_to_end fuel H R (FrameDecoder_with_options H r options) buf of
      Ok (n, self', buf') \<Rightarrow> \<exists>x. buf' = buf @ x \<and> n = length x \<and> n \<le> options_limit options
    | Err (e, self', buf') \<Rightarrow> \<exists>x. buf' = buf @ x \<and> length x \<le> options_limit options
    | _ \<Rightarrow> False"
  using reader.read_to_end_idle(2) [OF assms(1) new_decoder(1) [of H r options], where H = H and fuel = fuel and buf = buf] assms(2)
  by (cases "read_to_end fuel H R (FrameDecoder_with_options H r options) buf") (auto simp: new_decoder(2-6))

theorem frame_decoder_safe_witness:
  "returns (read_to_end 4 zero_hash slice_reader (FrameDecoder_with_options zero_hash [1, 2, 3] default_options) [])"
  using frame_decoder_safe [OF slice.reader_axioms, where r = "[1, 2, 3]" and fuel = 4 and H = zero_hash and
      options = default_options and buf = "[]"]
  by (cases "read_to_end 4 zero_hash slice_reader (FrameDecoder_with_options zero_hash [1, 2, 3] default_options) []") simp_all

text \<open>
  C36: an error abandons the frame and nothing else: the decoder then takes a new reader, decodes
  exactly the streams a new decoder accepts, and still counts the output before the error.
\<close>

theorem frame_decoder_recovers:
  assumes "reader R rest" "length (rest r) < fuel"
    and "read_to_end fuel H R (FrameDecoder_with_options H r options) buf = Err (e, self', buf')" "length (rest r') < fuel'"
  shows "(\<exists>self''. read_to_end fuel' H R (self'\<lparr>fd_r := r'\<rparr>) acc = Ok (length c, self'', acc @ c)) \<longleftrightarrow>
    frame_stream H (options_dict options) (options_dict_id options) (rest r') c \<and>
    length buf' - length buf + length c \<le> options_limit options"
proof -
  have "\<exists>x. buf' = buf @ x \<and> at_stage self' Idle \<and> same_settings (FrameDecoder_with_options H r options) self' \<and>
      fd_bytes_output self' = length x \<and> fd_bytes_output self' \<le> options_limit options"
    using reader.read_to_end_idle(2) [OF assms(1) new_decoder(1) [of H r options], where H = H and fuel = fuel and buf = buf] assms(2)
    by (simp add: new_decoder(2-6) assms(3))
  then obtain x where x: "buf' = buf @ x" "at_stage self' Idle" "fd_bytes_output self' = length x"
    "fd_bytes_output self' \<le> options_limit options" "fd_dict self' = options_dict options"
    "fd_expected_dict_id self' = options_dict_id options" "out_limit self' = options_limit options"
    using new_decoder(3-5) [of H r options] by (auto simp: same_settings_def out_limit_def)
  then have "holds (self'\<lparr>fd_r := r'\<rparr>) [] Idle" by (simp add: holds_def)
  moreover have lim: "out_limit (self'\<lparr>fd_r := r'\<rparr>) = options_limit options" using x(7) by (simp add: out_limit_def)
  ultimately show ?thesis
    using reader.read_to_end_idle(1) [OF assms(1), of "self'\<lparr>fd_r := r'\<rparr>" fuel' H acc c] x(1-6) assms(4) by simp
qed

theorem frame_decoder_recovers_witness:
  "\<exists>e self' self''. read_to_end 3 zero_hash slice_reader (FrameDecoder_with_options zero_hash [4, 34] default_options) [] = Err (e, self', []) \<and>
     read_to_end 19 zero_hash slice_reader (self'\<lparr>fd_r := example_frame\<rparr>) [9] = Ok (3, self'', [9, 1, 2, 3])"
proof -
  have "\<exists>e self'. read_to_end 3 zero_hash slice_reader (FrameDecoder_with_options zero_hash [4, 34] default_options) [] = Err (e, self', [])"
    by (simp add: numeral_3_eq_3 read_to_end_def fill_buf_def read_frame_info_def r_exact_def usub_def slice_reader_def const_defs
        MAGIC_NUMBER_SIZE_def FrameDecoder_with_options_def FrameDecoder_new_def default_options_def)
  then obtain e self' where
    e: "read_to_end 3 zero_hash slice_reader (FrameDecoder_with_options zero_hash [4, 34] default_options) [] = Err (e, self', [])"
    by blast
  from frame_decoder_recovers [OF slice.reader_axioms _ e, where r' = example_frame and fuel' = 19 and acc = "[9]" and c = "[1, 2, 3]"]
  show ?thesis using e example_frame_stream by (auto simp: example_frame_def usize_max_def numeral_3_eq_3)
qed

text \<open>
  C12: reads with buffers of any lengths deliver the content in order and never fail, and a buffer
  with room is left empty only when all of the content has been delivered.
\<close>

theorem frame_decoder_reads:
  assumes "reader R rest" "length (rest r) + 1 < fuel"
    and "frame_stream H (options_dict options) (options_dict_id options) (rest r) c" "length c \<le> options_limit options"
  shows "\<exists>bss self' y. reads fuel H R (FrameDecoder_with_options H r options) ns = Ok (bss, self') \<and> c = concat bss @ y \<and>
    list_all2 (\<lambda>bs n. length bs \<le> n \<and> (bs = [] \<longrightarrow> n = 0 \<or> concat bss = c)) bss ns"
  using assms(2-4) by (intro reader.reads_ok [OF assms(1) new_decoder(1)])
    (simp_all add: new_decoder(2-6) stands_for_nothing decodes_Idle)

theorem frame_decoder_reads_witness:
  "\<exists>bss self'. reads 20 zero_hash slice_reader (FrameDecoder_with_options zero_hash example_frame default_options) [2, 0, 2, 2] = Ok (bss, self')"
  using frame_decoder_reads [OF slice.reader_axioms _ , where r = example_frame and fuel = 20 and H = zero_hash and
      options = default_options and c = "[1, 2, 3]" and ns = "[2, 0, 2, 2]"] example_frame_stream
  by (auto simp: example_frame_def usize_max_def)

section \<open>The encoder\<close>

text \<open>
  C10: without a declared content size no call of the encoder fails, and what it writes is a
  stream of frames of exactly the bytes that were written, in whatever pieces, with whatever
  flushes and with as many frames as the caller finishes.
\<close>

theorem frame_encoder_stream:
  assumes "writer W written" "written w = []" "block_checksums info \<Longrightarrow> oneshot_consistent H"
    and "dictionary = None \<Longrightarrow> dict_id info = None" "content_size info = None" "length (bytes_of_calls cs) < 2 ^ 64"
  shows "\<exists>self'. obind (new_encoder H w info dictionary) (run_calls H W (cs @ [Finish_frame])) = Ok self' \<and>
    frame_stream H (options_dict (encoder_options dictionary)) (options_dict_id (encoder_options dictionary))
      (written (fe_w self')) (bytes_of_calls cs)"
  by (rule writer.run_to_end [OF assms(1,2) impI [OF assms(3)] impI [OF assms(4)] _ assms(6)])
    (use assms(5) in \<open>auto simp: size_matches_def\<close>)

theorem frame_encoder_stream_witness:
  "\<exists>self'. obind (new_encoder zero_hash [] (FrameInfo_new\<lparr>block_checksums := True, block_mode := Linked\<rparr>) (Some ([7, 8], 5)))
      (run_calls zero_hash vec_writer [Write [1, 2, 3], Flush, Write [4], Finish_frame]) = Ok self' \<and>
    frame_stream zero_hash [7, 8] (Some 5) (fe_w self') [1, 2, 3, 4]"
  using frame_encoder_stream [OF vec.writer_axioms, where w = "[]" and info = "FrameInfo_new\<lparr>block_checksums := True, block_mode := Linked\<rparr>"
      and H = zero_hash and dictionary = "Some ([7, 8], 5)" and cs = "[Write [1, 2, 3], Flush, Write [4]]"] zero_hash_consistent
  by (simp add: FrameInfo_new_def encoder_options_def options_dict_def options_dict_id_def)

text \<open>
  C14: a frame that is finished holds what was written since it began; if the caller declared
  another content size, finishing fails with the declared and the real size.
\<close>

theorem frame_encoder_content_size:
  assumes "writer W written" "written w = []" "block_checksums info \<Longrightarrow> oneshot_consistent H"
    and "dictionary = None \<Longrightarrow> dict_id info = None" "length (bytes_of_calls cs) < 2 ^ 64" "Finish_frame \<notin> set cs"
  shows "case obind (new_encoder H w info dictionary) (run_calls H W (cs @ [Finish_frame])) of
      Ok self' \<Rightarrow> size_matches info (bytes_of_calls cs) \<and>
        (\<exists>b. frame H (options_dict (encoder_options dictionary))
          (info\<lparr>dict_id := options_dict_id (encoder_options dictionary), block_size := b\<rparr>) (written (fe_w self')) (bytes_of_calls cs))
    | Err e \<Rightarrow> \<exists>n. content_size info = Some n \<and> unat n \<noteq> length (bytes_of_calls cs) \<and>
        e = ContentLengthError n (word_of_nat (length (bytes_of_calls cs)))
    | _ \<Rightarrow> False"
  by (rule writer.run_one_frame [OF assms(1,2) impI [OF assms(3)] impI [OF assms(4)] assms(5,6)])

theorem frame_encoder_content_size_witness:
  "obind (new_encoder zero_hash [] (FrameInfo_new\<lparr>content_size := Some 5\<rparr>) None)
      (run_calls zero_hash vec_writer [Write [1, 2, 3], Finish_frame]) = Err (ContentLengthError 5 3)"
  using frame_encoder_content_size [OF vec.writer_axioms, where w = "[]" and info = "FrameInfo_new\<lparr>content_size := Some 5\<rparr>"
      and H = zero_hash and dictionary = None and cs = "[Write [1, 2, 3]]"]
  by (simp add: FrameInfo_new_def size_matches_def split: outcome.splits)

text \<open>
  C8: what the encoder writes, with any settings and any calls, the decoder with the same
  dictionary reads back: \<^verbatim>\<open>read_to_end\<close> gives the bytes that were written, in one piece.  A
  content size, if the settings declare one, has to be that of every frame that is finished.
\<close>

theorem frame_round_trip:
  assumes "writer W written" "written w = []" "block_checksums info \<Longrightarrow> oneshot_consistent H"
    and "dictionary = None \<Longrightarrow> dict_id info = None"
    and "\<forall>x \<in> set (frame_contents [] (cs @ [Finish_frame])). size_matches info x" "length (bytes_of_calls cs) < 2 ^ 64"
    and "reader R rest"
  shows "\<exists>self'. obind (new_encoder H w info dictionary) (run_calls H W (cs @ [Finish_frame])) = Ok self' \<and>
    (\<forall>r fuel buf. rest r = written (fe_w self') \<and> length (rest r) < fuel \<longrightarrow>
      (\<exists>dec. read_to_end fuel H R (FrameDecoder_with_options H r (encoder_options dictionary)) buf =
        Ok (length (bytes_of_calls cs), dec, buf @ bytes_of_calls cs)))"
proof (rule writer.run_to_end [OF assms(1,2) impI [OF assms(3)] impI [OF assms(4)] assms(5,6)])
  fix self' assume s: "obind (new_encoder H w info dictionary) (run_calls H W (cs @ [Finish_frame])) = Ok self'"
    "frame_stream H (options_dict (encoder_options dictionary)) (options_dict_id (encoder_options dictionary))
       (written (fe_w self')) (bytes_of_calls cs)"
  have lim: "length (bytes_of_calls cs) \<le> options_limit (encoder_options dictionary)"
    using assms(6) by (simp add: options_limit_def encoder_options_def usize_max_def)
  have "\<exists>dec. read_to_end fuel H R (FrameDecoder_with_options H r (encoder_options dictionary)) buf =
        Ok (length (bytes_of_calls cs), dec, buf @ bytes_of_calls cs)"
    if "rest r = written (fe_w self')" "length (rest r) < fuel" for r fuel buf
    using reader.read_to_end_idle(1) [OF assms(7) new_decoder(1) [of H r "encoder_options dictionary"],
        where H = H and fuel = fuel and buf = buf and c = "bytes_of_calls cs"] that s(2) lim
    by (simp add: new_decoder(2-6))
  with s(1) show ?thesis by blast
qed

theorem frame_round_trip_witness:
  "\<exists>wire dec. obind (new_encoder zero_hash [] (FrameInfo_new\<lparr>content_size := Some 2\<rparr>) None) (run_calls zero_hash vec_writer [Write [1, 2], Finish_frame, Write [3, 4], Finish_frame])
      = Ok wire \<and> read_to_end (Suc (length (fe_w wire))) zero_hash slice_reader
        (FrameDecoder_with_options zero_hash (fe_w wire) default_options) [] = Ok (4, dec, [1, 2, 3, 4])"
proof -
  have d: "encoder_options None = default_options" by (simp add: encoder_options_def default_options_def)
  let ?info = "FrameInfo_new\<lparr>content_size := Some 2\<rparr>"
  obtain self' where s: "obind (new_encoder zero_hash [] ?info None)
      (run_calls zero_hash vec_writer ([Write [1, 2], Finish_frame, Write [3, 4]] @ [Finish_frame])) = Ok self'"
    "\<forall>r fuel buf. r = fe_w self' \<and> length r < fuel \<longrightarrow>
      (\<exists>dec. read_to_end fuel zero_hash slice_reader (FrameDecoder_with_options zero_hash r default_options) buf =
        Ok (length [1, 2, 3, 4 :: byte], dec, buf @ [1, 2, 3, 4]))"
    using frame_round_trip [OF vec.writer_axioms _ _ _ _ _ slice.reader_axioms, where w = "[]" and info = ?info
        and H = zero_hash and dictionary = None and cs = "[Write [1, 2], Finish_frame, Write [3, 4]]"]
    by (auto simp: FrameInfo_new_def d size_matches_def)
  from s(2) [rule_format, of "fe_w self'" "Suc (length (fe_w self'))" "[]"]
  obtain dec where "read_to_end (Suc (length (fe_w self'))) zero_hash slice_reader
      (FrameDecoder_with_options zero_hash (fe_w self') default_options) [] = Ok (4, dec, [1, 2, 3, 4])" by auto
  with s(1) show ?thesis by auto
qed

end
