(* ===== verification/Frame_Reuse.thy ===== *)
theory Frame_Reuse
  imports Frame_Properties
begin

text \<open>
  A frame decoder that is used again after a stream, with another reader, decodes exactly as a new
  one: the same bytes, the same errors.  Two decoders run side by side and \<open>agree\<close> on what is
  live; the rest of their buffers, left from other streams, is never looked at.  The total
  output of a used decoder is larger, so the limit of a \<^verbatim>\<open>usize\<close> must be out of reach: \<open>budget\<close>
  counts a block of the largest size for each byte that is still to be read.
\<close>

section \<open>Decoders that agree\<close>

definition same_source :: "('h, 'r) FrameDecoder \<Rightarrow> ('h, 'r) FrameDecoder \<Rightarrow> bool" where
  "same_source s t \<longleftrightarrow> fd_r s = fd_r t \<and> fd_dict s = fd_dict t \<and> fd_expected_dict_id s = fd_expected_dict_id t"

definition agree :: "('h, 'r) FrameDecoder \<Rightarrow> ('h, 'r) FrameDecoder \<Rightarrow> bool" where
  "agree s t \<longleftrightarrow> same_source s t \<and> fd_current_frame_info s = fd_current_frame_info t \<and> fd_hasher s = fd_hasher t \<and>
     fd_content_len s = fd_content_len t \<and> fd_ext_dict_len s = fd_ext_dict_len t \<and>
     (fd_ext_dict_len s \<noteq> 0 \<longrightarrow> fd_ext_dict_offset s = fd_ext_dict_offset t) \<and> dec_ext s = dec_ext t \<and>
     fd_dst_start s = fd_dst_start t \<and> fd_dst_end s = fd_dst_end t \<and>
     take (fd_dst_end s) (fd_dst s) = take (fd_dst_end t) (fd_dst t)"

definition budget :: "('r \<Rightarrow> bytes) \<Rightarrow> nat \<Rightarrow> ('h, 'r) FrameDecoder \<Rightarrow> bool" where
  "budget rest N s \<longleftrightarrow> fd_bytes_output s + 4194304 * length (rest (fd_r s)) \<le> N \<and> N \<le> usize_max \<and> fd_max_output s = usize_max"

lemma agree_sees:
  assumes "agree s t" "fd_dst_start s = fd_dst_end s"
  shows "dec_prefix s = dec_prefix t" "dec_dict info s = dec_dict info t"
  using assms by (auto simp: agree_def same_source_def dec_prefix_def dec_dict_def)

lemma agree_take: "agree s t \<Longrightarrow> take (fd_dst_end t) (fd_dst s) = take (fd_dst_end t) (fd_dst t)"
  unfolding agree_def by (elim conjE) simp

text \<open>Blocks arrive in both buffers.\<close>

lemma agree_dst:
  assumes a: "agree s t" and d: "dst_ok s d" "dst_ok t d'" and e: "take n d = take n d'"
  shows "agree (s\<lparr>fd_src := x, fd_r := r, fd_dst := d, fd_bytes_output := b, fd_dst_end := n, fd_content_len := m\<rparr>)
    (t\<lparr>fd_src := x', fd_r := r, fd_dst := d', fd_bytes_output := b', fd_dst_end := n, fd_content_len := m\<rparr>)"
proof -
  have "dec_ext (s\<lparr>fd_src := x, fd_r := r, fd_dst := d, fd_bytes_output := b, fd_dst_end := n, fd_content_len := m\<rparr>) = dec_ext s"
    "dec_ext (t\<lparr>fd_src := x', fd_r := r, fd_dst := d', fd_bytes_output := b', fd_dst_end := n, fd_content_len := m\<rparr>) = dec_ext t"
    using d by (auto simp: dec_ext_def dst_ok_def)
  with a e show ?thesis by (simp add: agree_def same_source_def)
qed

section \<open>Blocks\<close>

lemma decompress_block_agree:
  assumes "window_ok info h s" "room_ok info s" "fd_current_frame_info s = Some info" "len \<le> length (fd_src s)"
    and "window_ok info h' t" "room_ok info t" "fd_current_frame_info t = Some info" "len \<le> length (fd_src t)"
    and "limit \<le> dec_block_size info" "take len (fd_src s) = take len (fd_src t)"
    and "dec_prefix s = dec_prefix t" "dec_dict info s = dec_dict info t" "fd_dst_start s = fd_dst_start t"
  obtains (ok) n d d' where "decompress_block s len limit = Ok (n, s\<lparr>fd_dst := d\<rparr>)"
      "decompress_block t len limit = Ok (n, t\<lparr>fd_dst := d'\<rparr>)" "dst_ok s d" "dst_ok t d'"
      "take (fd_dst_start s + n) d = take (fd_dst_start s + n) d'"
    | (bad) e d d' where "decompress_block s len limit = Err (e, s\<lparr>fd_dst := d\<rparr>)"
      "decompress_block t len limit = Err (e, t\<lparr>fd_dst := d'\<rparr>)" "dst_ok s d" "dst_ok t d'"
proof -
  let ?r = "decode_block (dec_dict info s) (fd_dst_start s + limit) (dec_prefix s) (take len (fd_src s))"
  note S = decompress_block_ok [OF assms(1-4,9)]
  note T = decompress_block_ok [OF assms(5-9), folded assms(10-13)]
  have p: "length (dec_prefix s) = fd_dst_start s" using assms(1) by (simp add: window_ok_def dec_prefix_def)
  show thesis
  proof (cases rule: decode_block_cases [of "dec_dict info s" "fd_dst_start s + limit" "dec_prefix s" "take len (fd_src s)"])
    case (Ok g)
    from decode_block_sound [OF Ok] have "fd_dst_start s \<le> length g" by (auto dest: lz4_block_longer simp: p)
    then have g: "fd_dst_start s + (length g - fd_dst_start s) = length g" by simp
    from S T Ok show thesis using g by (auto intro!: ok)
  next
    case (Err e g)
    with S T show thesis by (auto intro!: bad)
  qed
qed

lemma decode_within_agree:
  assumes s: "window_ok info h s" "room_ok info s" "fd_current_frame_info s = Some info" "len \<le> length (fd_src s)"
    and t: "window_ok info h' t" "room_ok info t" "fd_current_frame_info t = Some info" "len \<le> length (fd_src t)"
    and l: "limit \<le> dec_block_size info" "take len (fd_src s) = take len (fd_src t)"
    and e: "dec_prefix s = dec_prefix t" "dec_dict info s = dec_dict info t" "fd_dst_start s = fd_dst_start t"
  obtains (ok) n d d' where "decode_within s len limit (dec_block_size info) = Ok (n, s\<lparr>fd_dst := d\<rparr>)"
      "decode_within t len limit (dec_block_size info) = Ok (n, t\<lparr>fd_dst := d'\<rparr>)" "dst_ok s d" "dst_ok t d'"
      "take (fd_dst_start s + n) d = take (fd_dst_start s + n) d'"
    | (bad) e d d' where "decode_within s len limit (dec_block_size info) = Err (e, s\<lparr>fd_dst := d\<rparr>)"
      "decode_within t len limit (dec_block_size info) = Err (e, t\<lparr>fd_dst := d'\<rparr>)" "dst_ok s d" "dst_ok t d'"
proof (cases rule: decompress_block_agree [OF s t l e])
  case (1 n d d')
  then show thesis by (intro ok [of n d d']) (simp_all add: decode_within_def)
next
  case (2 e d1 d1')
  show thesis
  proof (cases "limit < dec_block_size info")
    case False
    with 2 show thesis by (intro bad [of e d1 d1']) (simp_all add: decode_within_def)
  next
    case True
    let ?s = "s\<lparr>fd_dst := d1\<rparr>" and ?t = "t\<lparr>fd_dst := d1'\<rparr>"
    have w: "window_ok info h ?s" "window_ok info h' ?t" by (rule dst_ok_window [OF 2(3) s(1)] dst_ok_window [OF 2(4) t(1)])+
    have r: "room_ok info ?s" "room_ok info ?t" using s(2) t(2) by (auto simp: room_ok_def split: if_splits)
    have eq: "decode_within s len limit (dec_block_size info) = decompress_block ?s len (dec_block_size info)"
      "decode_within t len limit (dec_block_size info) = decompress_block ?t len (dec_block_size info)"
      using 2(1,2) True by (simp_all add: decode_within_def)
    note sees = dst_ok_sees [OF 2(3)] dst_ok_sees [OF 2(4)]
    show thesis
    proof (rule decompress_block_agree [OF w(1) r(1) _ _ w(2) r(2), of len "dec_block_size info"])
      fix n d d' assume "decompress_block ?s len (dec_block_size info) = Ok (n, ?s\<lparr>fd_dst := d\<rparr>)"
        "decompress_block ?t len (dec_block_size info) = Ok (n, ?t\<lparr>fd_dst := d'\<rparr>)" "dst_ok ?s d" "dst_ok ?t d'"
        "take (fd_dst_start ?s + n) d = take (fd_dst_start ?s + n) d'"
      with eq dst_ok_trans [OF 2(3)] dst_ok_trans [OF 2(4)] show thesis by (intro ok [of n d d']) simp_all
    next
      fix e d d' assume "decompress_block ?s len (dec_block_size info) = Err (e, ?s\<lparr>fd_dst := d\<rparr>)"
        "decompress_block ?t len (dec_block_size info) = Err (e, ?t\<lparr>fd_dst := d'\<rparr>)" "dst_ok ?s d" "dst_ok ?t d'"
      with eq dst_ok_trans [OF 2(3)] dst_ok_trans [OF 2(4)] show thesis by (intro bad [of e d d']) simp_all
    qed (use s t l e sees in simp_all)
  qed
qed

section \<open>Reading a block\<close>

text \<open>A reader does not see which decoder it serves.\<close>

context reader
begin

lemma r_exact_uniform:
  obtains (ok) bs r' where "length bs = n" "rest r' = drop n (rest r)" "n \<le> length (rest r)"
      "\<And>self :: ('h, 'r) FrameDecoder. fd_r self = r \<Longrightarrow> r_exact R self n = Ok (bs, self\<lparr>fd_r := r'\<rparr>)"
    | (eof) e r' where "\<And>self :: ('h, 'r) FrameDecoder. fd_r self = r \<Longrightarrow> r_exact R self n = Err (e, self\<lparr>fd_r := r'\<rparr>)"
proof (cases "n \<le> length (rest r)")
  case True
  with read_exact_ok [OF this] ok [of "take n (rest r)"] show thesis by (auto simp: r_exact_def)
next
  case False
  then have "length (rest r) < n" by simp
  with read_exact_eof [OF this] eof show thesis by (auto simp: r_exact_def)
qed

lemma verify_block_uniform:
  obtains (ok) r' where "length (rest r') \<le> length (rest r)"
      "\<And>(self :: ('h, 'r) FrameDecoder) f. fd_r self = r \<Longrightarrow> (\<And>r'. f (self\<lparr>fd_r := r'\<rparr>) = Ok data) \<Longrightarrow>
         verify_block H R info f self = Ok (self\<lparr>fd_r := r'\<rparr>)"
    | (bad) e r' where "\<And>(self :: ('h, 'r) FrameDecoder) f. fd_r self = r \<Longrightarrow> (\<And>r'. f (self\<lparr>fd_r := r'\<rparr>) = Ok data) \<Longrightarrow>
         verify_block H R info f self = Err (e, self\<lparr>fd_r := r'\<rparr>)"
proof (cases "block_checksums info")
  case False
  then show thesis by (intro that(1) [of r]) (auto simp: verify_block_def)
next
  case True
  show thesis
  proof (cases rule: r_exact_uniform [where n = 4 and r = r and ?'h = 'h])
    case x: (ok bs r')
    show thesis
    proof (cases "check_block_checksum H data (word_of_le bs)")
      case (Ok u)
      with True x show thesis by (intro that(1) [of r']) (simp_all add: verify_block_def read_checksum_def try_error_def)
    next
      case (Err e)
      with True x show thesis
        by (intro that(2) [of "io_of_Error e" r']) (simp add: verify_block_def read_checksum_def try_error_def)
    qed (simp_all add: check_block_checksum_def split: if_splits)
  next
    case x: (eof e r')
    with True show thesis by (intro that(2) [of e r']) (simp add: verify_block_def read_checksum_def)
  qed
qed

lemma read_uncompressed_agree:
  fixes s t :: "('h, 'r) FrameDecoder"
  assumes a: "agree s t" and s: "dec_state info h hs s" "room_ok info s" and t: "dec_state info h' hs' t" "room_ok info t"
    and lim: "\<forall>m\<le>dec_block_size info. fd_bytes_output s + m \<le> out_limit s \<and> fd_bytes_output t + m \<le> out_limit t"
  obtains (ok) s' t' where "read_uncompressed H R (dec_block_size info) info s n = Ok s'"
      "read_uncompressed H R (dec_block_size info) info t n = Ok t'" "agree s' t'"
    | (bad) e s' t' where "read_uncompressed H R (dec_block_size info) info s n = Err (e, s')"
      "read_uncompressed H R (dec_block_size info) info t n = Err (e, t')" "same_source s' t'"
proof -
  let ?B = "dec_block_size info"
  have src: "same_source s t" and eqs: "fd_r s = fd_r t" "fd_dst_start s = fd_dst_start t" "fd_dst_end s = fd_dst_end t"
    "fd_content_len s = fd_content_len t" using a by (simp_all add: agree_def same_source_def)
  have st: "fd_dst_start s = fd_dst_end s" using s(1) by (simp add: dec_state_def window_ok_def)
  show thesis
  proof (cases "?B < n")
    case True
    then show thesis by (intro bad [OF _ _ src, of "io_of_Error BlockTooBig"]) (simp_all add: read_uncompressed_def fail_def)
  next
    case False
    then have n: "n \<le> ?B" by simp
    let ?f = "\<lambda>self. sub_slice (fd_dst self) (fd_dst_start self) (fd_dst_start self + n) :: (io_error \<times> ('h, 'r) FrameDecoder, bytes) outcome"
    have eq: "read_uncompressed H R ?B info self n =
        obind (r_exact R (self\<lparr>fd_dst := grow (fd_dst self) (fd_dst_start self + n)\<rparr>) n) (\<lambda>(bs, self').
        obind (copy_into (fd_dst self') (fd_dst_start self') (fd_dst_start self' + n) bs) (\<lambda>dst.
        obind (verify_block H R info ?f (self'\<lparr>fd_dst := dst\<rparr>)) (\<lambda>self'.
        if \<not> fd_content_len self' + n < 2 ^ 64 then Panic
        else
          Ok (self'\<lparr>fd_bytes_output := fd_bytes_output self + n, fd_dst_end := fd_dst_end self' + n,
            fd_content_len := fd_content_len self' + n\<rparr>))))"
      if "fd_bytes_output self + n \<le> out_limit self" for self :: "('h, 'r) FrameDecoder"
      using n that by (simp add: read_uncompressed_def check_output_len_cases try_error_def Let_def not_less)
    show thesis
    proof (cases rule: r_exact_uniform [where n = n and r = "fd_r s" and ?'h = 'h])
      case x: (eof e r')
      show thesis
        by (rule that(2) [of e "s\<lparr>fd_dst := grow (fd_dst s) (fd_dst_start s + n), fd_r := r'\<rparr>"
              "t\<lparr>fd_dst := grow (fd_dst t) (fd_dst_start t + n), fd_r := r'\<rparr>"])
          (use lim [rule_format, OF n] src eqs(1) in \<open>simp_all add: eq x same_source_def\<close>)
    next
      case x: (ok bs r1)
      define dst where "dst self = blit (grow (fd_dst self) (fd_dst_start self + n)) (fd_dst_start self) bs" for self :: "('h, 'r) FrameDecoder"
      have eq2: "read_uncompressed H R ?B info self n =
        obind (verify_block H R info ?f (self\<lparr>fd_r := r1, fd_dst := dst self\<rparr>)) (\<lambda>self'.
        if \<not> fd_content_len self' + n < 2 ^ 64 then Panic
        else
          Ok (self'\<lparr>fd_bytes_output := fd_bytes_output self + n, fd_dst_end := fd_dst_end self' + n,
            fd_content_len := fd_content_len self' + n\<rparr>))"
        "\<And>y. ?f (self\<lparr>fd_r := y, fd_dst := dst self\<rparr>) = Ok bs" "dst_ok self (dst self)" "fd_content_len self + n < 2 ^ 64"
        "take (fd_dst_start self + n) (dst self) = dec_prefix self @ bs"
        if "dec_state info g gs self" "room_ok info self" "fd_r self = fd_r s" "fd_bytes_output self + n \<le> out_limit self"
        for self :: "('h, 'r) FrameDecoder" and g gs
      proof -
        have w: "window_ok info g self" using that(1) by (simp add: dec_state_def)
        note store = store_in_window [OF w that(2) n [folded x(1)] refl, unfolded x(1), folded dst_def]
        show "dst_ok self (dst self)" "take (fd_dst_start self + n) (dst self) = dec_prefix self @ bs" by (rule store(1,2))+
        show "?f (self\<lparr>fd_r := y, fd_dst := dst self\<rparr>) = Ok bs" for y using store(3,4) by (simp add: sub_slice_def)
        show "fd_content_len self + n < 2 ^ 64" using that(1,4) by (simp add: dec_state_def out_limit_def usize_max_def)
        have "copy_into (grow (fd_dst self) (fd_dst_start self + n)) (fd_dst_start self) (fd_dst_start self + n) bs =
            (Ok (dst self) :: (io_error \<times> ('h, 'r) FrameDecoder, bytes) outcome)"
          using x(1) grow_ok(1) by (simp add: copy_into_def dst_def)
        then show "read_uncompressed H R ?B info self n =
          obind (verify_block H R info ?f (self\<lparr>fd_r := r1, fd_dst := dst self\<rparr>)) (\<lambda>self'.
          if \<not> fd_content_len self' + n < 2 ^ 64 then Panic
          else
            Ok (self'\<lparr>fd_bytes_output := fd_bytes_output self + n, fd_dst_end := fd_dst_end self' + n,
              fd_content_len := fd_content_len self' + n\<rparr>))"
          using x(4) that(3) by (simp add: eq [OF that(4)])
      qed
      note S = eq2 [OF s refl conjunct1 [OF lim [rule_format, OF n]]] and T = eq2 [OF t eqs(1) [symmetric] conjunct2 [OF lim [rule_format, OF n]]]
      show thesis
      proof (cases rule: verify_block_uniform [where r = r1 and data = bs and H = H and info = info and ?'h = 'h])
        case v: (bad e r2)
        have "verify_block H R info ?f (s\<lparr>fd_r := r1, fd_dst := dst s\<rparr>) = Err (e, s\<lparr>fd_r := r2, fd_dst := dst s\<rparr>)"
          "verify_block H R info ?f (t\<lparr>fd_r := r1, fd_dst := dst t\<rparr>) = Err (e, t\<lparr>fd_r := r2, fd_dst := dst t\<rparr>)"
          using S(2) T(2) by (simp_all add: v)
        then show thesis
          by (intro that(2) [of e "s\<lparr>fd_r := r2, fd_dst := dst s\<rparr>" "t\<lparr>fd_r := r2, fd_dst := dst t\<rparr>"])
            (use src in \<open>simp_all add: S(1) T(1) same_source_def\<close>)
      next
        case v: (ok r2)
        have "verify_block H R info ?f (s\<lparr>fd_r := r1, fd_dst := dst s\<rparr>) = Ok (s\<lparr>fd_r := r2, fd_dst := dst s\<rparr>)"
          "verify_block H R info ?f (t\<lparr>fd_r := r1, fd_dst := dst t\<rparr>) = Ok (t\<lparr>fd_r := r2, fd_dst := dst t\<rparr>)"
          using S(2) T(2) by (simp_all add: v)
        then have "read_uncompressed H R ?B info s n = Ok (s\<lparr>fd_src := fd_src s, fd_r := r2, fd_dst := dst s,
            fd_bytes_output := fd_bytes_output s + n, fd_dst_end := fd_dst_end s + n, fd_content_len := fd_content_len s + n\<rparr>)"
          "read_uncompressed H R ?B info t n = Ok (t\<lparr>fd_src := fd_src t, fd_r := r2, fd_dst := dst t,
            fd_bytes_output := fd_bytes_output t + n, fd_dst_end := fd_dst_end s + n, fd_content_len := fd_content_len s + n\<rparr>)"
          using S(4) T(4) eqs by (simp_all add: S(1) T(1))
        moreover have "take (fd_dst_end s + n) (dst s) = take (fd_dst_end s + n) (dst t)"
          using S(5) T(5) agree_sees(1) [OF a st] eqs(2) st by simp
        note agree_dst [OF a S(3) T(3) this]
        ultimately show thesis by (rule that(1))
      qed
    qed
  qed
qed

lemma read_compressed_agree:
  fixes s t :: "('h, 'r) FrameDecoder"
  assumes a: "agree s t" and s: "dec_state info h hs s" "room_ok info s" and t: "dec_state info h' hs' t" "room_ok info t"
    and lim: "\<forall>m\<le>dec_block_size info. fd_bytes_output s + m \<le> out_limit s \<and> fd_bytes_output t + m \<le> out_limit t"
  obtains (ok) s' t' where "read_compressed H R (dec_block_size info) info s n = Ok s'"
      "read_compressed H R (dec_block_size info) info t n = Ok t'" "agree s' t'"
    | (bad) e s' t' where "read_compressed H R (dec_block_size info) info s n = Err (e, s')"
      "read_compressed H R (dec_block_size info) info t n = Err (e, t')" "same_source s' t'"
proof -
  let ?B = "dec_block_size info"
  have src: "same_source s t" and eqs: "fd_r s = fd_r t" "fd_dst_start s = fd_dst_start t" "fd_dst_end s = fd_dst_end t"
    "fd_content_len s = fd_content_len t" using a by (simp_all add: agree_def same_source_def)
  have st: "fd_dst_start s = fd_dst_end s" using s(1) by (simp add: dec_state_def window_ok_def)
  show thesis
  proof (cases "?B < n")
    case True
    then show thesis by (intro bad [OF _ _ src, of "io_of_Error BlockTooBig"]) (simp_all add: read_compressed_def fail_def)
  next
    case False
    let ?f = "\<lambda>self. sub_slice (fd_src self) 0 n :: (io_error \<times> ('h, 'r) FrameDecoder, bytes) outcome"
    let ?rest = "\<lambda>self. obind (map_err (\<lambda>(e, self). (io_of_Error (DecompressionError e), self))
            (decode_within self n (min ?B (remaining_size info (fd_content_len self))) ?B)) (\<lambda>(decomp_size, self).
        obind (try_error self (check_output_len self decomp_size)) (\<lambda>bytes_output.
        if \<not> fd_content_len self + decomp_size < 2 ^ 64 then Panic
        else
          Ok (self\<lparr>fd_bytes_output := bytes_output, fd_dst_end := fd_dst_end self + decomp_size,
            fd_content_len := fd_content_len self + decomp_size\<rparr>)))"
    have eq: "read_compressed H R ?B info self n =
        obind (r_exact R (self\<lparr>fd_src := grow (fd_src self) n\<rparr>) n) (\<lambda>(bs, self).
        obind (copy_into (fd_src self) 0 n bs) (\<lambda>src.
        obind (verify_block H R info ?f (self\<lparr>fd_src := src\<rparr>)) ?rest))" for self :: "('h, 'r) FrameDecoder"
      using False by (simp add: read_compressed_def Let_def)
    show thesis
    proof (cases rule: r_exact_uniform [where n = n and r = "fd_r s" and ?'h = 'h])
      case x: (eof e r')
      show thesis
        by (rule that(2) [of e "s\<lparr>fd_src := grow (fd_src s) n, fd_r := r'\<rparr>" "t\<lparr>fd_src := grow (fd_src t) n, fd_r := r'\<rparr>"])
          (use src eqs(1) in \<open>simp_all add: eq x same_source_def\<close>)
    next
      case x: (ok bs r1)
      define src' where "src' self = blit (grow (fd_src self) n) 0 bs" for self :: "('h, 'r) FrameDecoder"
      have copied: "take n (src' self) = bs" "n \<le> length (src' self)"
        "copy_into (grow (fd_src self) n) 0 n bs = (Ok (src' self) :: (io_error \<times> ('h, 'r) FrameDecoder, bytes) outcome)" for self
        using x(1) grow_ok(1) [of n "fd_src self"] by (simp_all add: src'_def blit_def copy_into_def)
      have eq2: "read_compressed H R ?B info self n = obind (verify_block H R info ?f (self\<lparr>fd_r := r1, fd_src := src' self\<rparr>)) ?rest"
        if "fd_r self = fd_r s" for self :: "('h, 'r) FrameDecoder"
        using copied(3) [of self] by (simp add: eq x(4) that)
      have data: "?f (self\<lparr>fd_r := y, fd_src := src' self\<rparr>) = Ok bs" for y and self :: "('h, 'r) FrameDecoder"
        using copied(1,2) [of self] by (simp add: sub_slice_def)
      show thesis
      proof (cases rule: verify_block_uniform [where r = r1 and data = bs and H = H and info = info and ?'h = 'h])
        case v: (bad e r2)
        have "verify_block H R info ?f (self\<lparr>fd_r := r1, fd_src := src' self\<rparr>) = Err (e, self\<lparr>fd_r := r2, fd_src := src' self\<rparr>)"
          for self :: "('h, 'r) FrameDecoder" using data [of self] by (simp add: v)
        then show thesis
          by (intro that(2) [of e "s\<lparr>fd_r := r2, fd_src := src' s\<rparr>" "t\<lparr>fd_r := r2, fd_src := src' t\<rparr>"])
            (use src eqs(1) in \<open>simp_all add: eq2 same_source_def\<close>)
      next
        case v: (ok r2)
        let ?s = "s\<lparr>fd_r := r2, fd_src := src' s\<rparr>" and ?t = "t\<lparr>fd_r := r2, fd_src := src' t\<rparr>"
        have "verify_block H R info ?f (self\<lparr>fd_r := r1, fd_src := src' self\<rparr>) = Ok (self\<lparr>fd_r := r2, fd_src := src' self\<rparr>)"
          for self :: "('h, 'r) FrameDecoder" using data [of self] by (simp add: v)
        then have eq3: "read_compressed H R ?B info s n = ?rest ?s" "read_compressed H R ?B info t n = ?rest ?t"
          using eqs(1) by (simp_all add: eq2)
        let ?lim = "min ?B (remaining_size info (fd_content_len s))"
        have w: "window_ok info h s" "window_ok info h' t" "fd_current_frame_info s = Some info" "fd_current_frame_info t = Some info"
          using s(1) t(1) by (simp_all add: dec_state_def)
        have ws: "window_ok info h ?s" "room_ok info ?s" "fd_current_frame_info ?s = Some info" "n \<le> length (fd_src ?s)"
          using w s(2) copied(2) by (auto simp: window_ok_def room_ok_def dec_ext_def dec_prefix_def split: if_splits)
        have wt: "window_ok info h' ?t" "room_ok info ?t" "fd_current_frame_info ?t = Some info" "n \<le> length (fd_src ?t)"
          using w t(2) copied(2) by (auto simp: window_ok_def room_ok_def dec_ext_def dec_prefix_def split: if_splits)
        have view: "dec_prefix (self\<lparr>fd_r := x, fd_src := y\<rparr>) = dec_prefix self"
          "dec_dict info (self\<lparr>fd_r := x, fd_src := y\<rparr>) = dec_dict info self" for x y and self :: "('h, 'r) FrameDecoder"
          by (simp_all add: dec_prefix_def dec_dict_def dec_ext_def)
        have sees: "dec_prefix ?s = dec_prefix ?t" "dec_dict info ?s = dec_dict info ?t" "fd_dst_start ?s = fd_dst_start ?t"
          using agree_sees [OF a st] eqs(2) by (simp_all add: view)
        have l: "?lim \<le> ?B" "take n (fd_src ?s) = take n (fd_src ?t)" using copied(1) by simp_all
        have dst: "dst_ok ?s d = dst_ok s d" "dst_ok ?t d = dst_ok t d" for d by (simp_all add: dst_ok_def dec_prefix_def)
        show thesis
        proof (cases rule: decode_within_agree [OF ws wt l sees])
          case D: (2 e d d')
          then show thesis
            by (intro that(2) [of "io_of_Error (DecompressionError e)" "?s\<lparr>fd_dst := d\<rparr>" "?t\<lparr>fd_dst := d'\<rparr>"])
              (use src eqs in \<open>simp_all add: eq3 same_source_def\<close>)
        next
          case D: (1 m d d')
          have "m \<le> ?B"
            by (cases rule: decode_within_ok [OF ws l(1)]) (use D(1) in auto)
          note m = lim [rule_format, OF this]
          then have "fd_content_len s + m < 2 ^ 64" using s(1) by (simp add: dec_state_def out_limit_def usize_max_def)
          then have "read_compressed H R ?B info s n = Ok (s\<lparr>fd_src := src' s, fd_r := r2, fd_dst := d,
              fd_bytes_output := fd_bytes_output s + m, fd_dst_end := fd_dst_end s + m, fd_content_len := fd_content_len s + m\<rparr>)"
            "read_compressed H R ?B info t n = Ok (t\<lparr>fd_src := src' t, fd_r := r2, fd_dst := d',
              fd_bytes_output := fd_bytes_output t + m, fd_dst_end := fd_dst_end s + m, fd_content_len := fd_content_len s + m\<rparr>)"
            using D(1,2) m eqs by (simp_all add: eq3 check_output_len_cases out_limit_def try_error_def)
          moreover have "take (fd_dst_end s + m) d = take (fd_dst_end s + m) d'" using D(5) st by simp
          note agree_dst [OF a D(3) [unfolded dst] D(4) [unfolded dst] this]
          ultimately show thesis by (rule that(1))
        qed
      qed
    qed
  qed
qed

lemma read_end_mark_agree:
  fixes s t :: "('h, 'r) FrameDecoder"
  assumes a: "agree s t"
  obtains (ok) s' t' where "read_end_mark H R info s = Ok s'" "read_end_mark H R info t = Ok t'" "same_source s' t'"
      "fd_current_frame_info s' = None" "fd_current_frame_info t' = None"
    | (bad) e s' t' where "read_end_mark H R info s = Err (e, s')" "read_end_mark H R info t = Err (e, t')" "same_source s' t'"
proof -
  have src: "same_source s t" and eqs: "fd_r s = fd_r t" "fd_content_len s = fd_content_len t" "fd_hasher s = fd_hasher t"
    using a by (simp_all add: agree_def same_source_def)
  let ?m = "\<lambda>self :: ('h, 'r) FrameDecoder. case content_size info of Some expected \<Rightarrow> fd_content_len self \<noteq> unat expected | None \<Rightarrow> False"
  have ms: "?m s = ?m t" by (simp add: eqs split: option.split)
  show thesis
  proof (cases "?m t")
    case True
    with ms show thesis by (intro bad [OF _ _ src]) (simp_all add: read_end_mark_def fail_def eqs(2))
  next
    case mt: False
    with ms have m: "\<not> ?m s" "\<not> ?m t" by simp_all
    show thesis
    proof (cases "content_checksum info")
      case False
      with m show thesis using src
        by (intro ok [of "s\<lparr>fd_current_frame_info := None\<rparr>" "t\<lparr>fd_current_frame_info := None\<rparr>"])
          (simp_all add: read_end_mark_def same_source_def)
    next
      case True
      show thesis
      proof (cases rule: r_exact_uniform [where n = 4 and r = "fd_r s" and ?'h = 'h])
        case x: (eof e r')
        with m True show thesis using src eqs
          by (intro that(2) [of e "s\<lparr>fd_r := r'\<rparr>" "t\<lparr>fd_r := r'\<rparr>"])
            (simp_all add: read_end_mark_def read_checksum_def same_source_def)
      next
        case x: (ok bs r')
        show thesis
        proof (cases "ucast (hash_finish H (fd_hasher t)) = (word_of_le bs :: 32 word)")
          case c: True
          with x m True show thesis using src eqs
            by (intro that(1) [of "s\<lparr>fd_r := r', fd_current_frame_info := None\<rparr>" "t\<lparr>fd_r := r', fd_current_frame_info := None\<rparr>"])
              (simp_all add: read_end_mark_def read_checksum_def same_source_def)
        next
          case c: False
          with x m True show thesis using src eqs
            by (intro that(2) [of "io_of_Error ContentChecksumError" "s\<lparr>fd_r := r'\<rparr>" "t\<lparr>fd_r := r'\<rparr>"])
              (simp_all add: read_end_mark_def read_checksum_def same_source_def fail_def)
        qed
      qed
    qed
  qed
qed

end

lemma prepare_window_agree:
  assumes a: "agree s t" and w: "window_ok info h s" "window_ok info h' t"
    and p: "prepare_window B info s = Ok s'" "prepare_window B info t = Ok t'"
  shows "agree s' t'"
proof -
  have e: "fd_dst_start s = fd_dst_start t" "fd_dst_end s = fd_dst_end t" "fd_ext_dict_len s = fd_ext_dict_len t"
    "dec_ext s = dec_ext t" "fd_ext_dict_len t \<noteq> 0 \<Longrightarrow> fd_ext_dict_offset s = fd_ext_dict_offset t"
    using a by (simp_all add: agree_def)
  note same = agree_take [OF a]
  have st: "fd_dst_start t = fd_dst_end t" using w(2) by (simp add: window_ok_def)
  show ?thesis
  proof (cases "block_mode info = Linked")
    case False
    with a p show ?thesis by (auto simp: prepare_window_def agree_def same_source_def dec_ext_def split: if_splits)
  next
    case L: True
    consider (full) "B * 2 + WINDOW_SIZE < fd_dst_start t + B"
      | (shift) "\<not> B * 2 + WINDOW_SIZE < fd_dst_start t + B" "WINDOW_SIZE < fd_dst_start t + fd_ext_dict_len t"
      | (keep) "\<not> B * 2 + WINDOW_SIZE < fd_dst_start t + B" "\<not> WINDOW_SIZE < fd_dst_start t + fd_ext_dict_len t" by blast
    then show ?thesis
    proof cases
      case full
      have "take WINDOW_SIZE (drop (fd_dst_start t - WINDOW_SIZE) xs) = drop (fd_dst_start t - WINDOW_SIZE) (take (fd_dst_end t) xs)" for xs :: bytes
        using full st by (simp add: drop_take)
      then have "take WINDOW_SIZE (drop (fd_dst_start t - WINDOW_SIZE) (fd_dst s)) = take WINDOW_SIZE (drop (fd_dst_start t - WINDOW_SIZE) (fd_dst t))"
        using same by simp
      moreover have "s' = s\<lparr>fd_ext_dict_offset := fd_dst_start t - WINDOW_SIZE, fd_ext_dict_len := WINDOW_SIZE, fd_dst_start := 0, fd_dst_end := 0\<rparr>"
        "t' = t\<lparr>fd_ext_dict_offset := fd_dst_start t - WINDOW_SIZE, fd_ext_dict_len := WINDOW_SIZE, fd_dst_start := 0, fd_dst_end := 0\<rparr>"
        using p full L e(1) by (simp_all add: prepare_window_def)
      ultimately show ?thesis using a by (simp add: agree_def same_source_def dec_ext_def)
    next
      case shift
      define d where "d = min (fd_ext_dict_len t) (fd_dst_start t + fd_ext_dict_len t - WINDOW_SIZE)"
      let ?f = "\<lambda>self. self\<lparr>fd_ext_dict_offset := fd_ext_dict_offset self + d, fd_ext_dict_len := fd_ext_dict_len self - d\<rparr>"
      have x: "dec_ext (?f self) = drop d (dec_ext self)" for self :: "('a, 'b) FrameDecoder"
        by (simp add: dec_ext_def drop_take add.commute)
      have "s' = ?f s" "t' = ?f t"
        using p shift L e(1,3) by (auto simp: prepare_window_def Let_def d_def split: if_splits)
      moreover have "agree (?f s) (?f t)"
        using a e(4) unfolding agree_def x by (elim conjE) (simp add: same_source_def)
      ultimately show ?thesis by simp
    next
      case keep
      with p L e(1,3) a show ?thesis by (auto simp: prepare_window_def)
    qed
  qed
qed

lemma agree_slice:
  assumes "agree s t"
  shows "sub_slice (fd_dst s) (fd_dst_start s) (fd_dst_end s) = sub_slice (fd_dst t) (fd_dst_start t) (fd_dst_end t)"
proof -
  have e: "fd_dst_start s = fd_dst_start t" "fd_dst_end s = fd_dst_end t" using assms by (simp_all add: agree_def)
  note same = agree_take [OF assms]
  have "fd_dst_end t \<le> length (fd_dst s) \<longleftrightarrow> fd_dst_end t \<le> length (fd_dst t)"
    using arg_cong [OF same, of length] by (auto simp: min_def split: if_splits)
  moreover have "take (fd_dst_end t - fd_dst_start t) (drop (fd_dst_start t) (fd_dst s)) =
      take (fd_dst_end t - fd_dst_start t) (drop (fd_dst_start t) (fd_dst t))"
    using arg_cong [OF same, of "drop (fd_dst_start t)"] by (simp add: drop_take)
  ultimately show ?thesis by (simp add: sub_slice_def e)
qed

text \<open>What follows a block that has arrived.\<close>

lemma finish_block_agree:
  fixes s t :: "('h, 'r) FrameDecoder" and H :: "'h hasher" and info :: FrameInfo
  assumes a: "agree s t"
  defines "fin \<equiv> \<lambda>self :: ('h, 'r) FrameDecoder. obind (if content_checksum info then
        obind (sub_slice (fd_dst self) (fd_dst_start self) (fd_dst_end self)) (\<lambda>data.
        Ok (self\<lparr>fd_hasher := hash_write H (fd_hasher self) data\<rparr>))
      else Ok self) (\<lambda>self.
    obind (usub (fd_dst_end self) (fd_dst_start self)) (\<lambda>n. Ok (n, self))) :: ('h, 'r, nat) io_result"
  assumes s: "fin s = Ok (n, s')"
  obtains t' where "fin t = Ok (n, t')" "agree s' t'"
proof -
  have e: "fd_dst_start t = fd_dst_start s" "fd_dst_end t = fd_dst_end s" "fd_hasher t = fd_hasher s" using a by (simp_all add: agree_def)
  have ext: "dec_ext (self\<lparr>fd_hasher := x\<rparr>) = dec_ext self" for x and self :: "('h, 'r) FrameDecoder" by (simp add: dec_ext_def)
  have u: "agree (s\<lparr>fd_hasher := x\<rparr>) (t\<lparr>fd_hasher := x\<rparr>)" for x
    using a unfolding agree_def ext by (elim conjE) (simp add: same_source_def)
  show thesis
  proof (cases "content_checksum info")
    case False
    with s a e that [of t] show thesis by (auto simp: fin_def obind_Ok_iff)
  next
    case True
    let ?sub = "sub_slice (fd_dst s) (fd_dst_start s) (fd_dst_end s) :: (io_error \<times> ('h, 'r) FrameDecoder, bytes) outcome"
    from True s obtain data where d: "?sub = Ok data"
      by (cases ?sub) (auto simp: fin_def)
    with True s have d: "?sub = Ok data" "s' = s\<lparr>fd_hasher := hash_write H (fd_hasher s) data\<rparr>"
      "usub (fd_dst_end s) (fd_dst_start s) = (Ok n :: (io_error \<times> ('h, 'r) FrameDecoder, nat) outcome)"
      by (simp_all add: fin_def obind_Ok_iff)
    then have "sub_slice (fd_dst t) (fd_dst_start t) (fd_dst_end t) = (Ok data :: (io_error \<times> ('h, 'r) FrameDecoder, bytes) outcome)"
      by (simp only: agree_slice [OF a])
    with True d(3) e have "fin t = Ok (n, t\<lparr>fd_hasher := hash_write H (fd_hasher s) data\<rparr>)" by (simp add: fin_def)
    with u d(2) show thesis by (intro that) simp_all
  qed
qed

context reader
begin

lemma read_block_agree:
  fixes s t :: "('h, 'r) FrameDecoder"
  assumes a: "agree s t" and s: "dec_state info h hs s" and t: "dec_state info h' hs' t"
    and b: "budget rest N s" "budget rest M t"
  obtains (ok) n s' t' where "read_block H R s = Ok (n, s')" "read_block H R t = Ok (n, t')" "agree s' t'"
    | (fin) s' t' where "read_block H R s = Ok (0, s')" "read_block H R t = Ok (0, t')" "same_source s' t'"
      "fd_current_frame_info s' = None" "fd_current_frame_info t' = None"
    | (bad) e s' t' where "read_block H R s = Err (e, s')" "read_block H R t = Err (e, t')" "same_source s' t'"
proof -
  let ?B = "dec_block_size info"
  let ?finish = "\<lambda>self. obind (if content_checksum info then
        obind (sub_slice (fd_dst self) (fd_dst_start self) (fd_dst_end self)) (\<lambda>data.
        Ok (self\<lparr>fd_hasher := hash_write H (fd_hasher self) data\<rparr>))
      else Ok self) (\<lambda>self.
    obind (usub (fd_dst_end self) (fd_dst_start self)) (\<lambda>n. Ok (n, self))) :: ('h, 'r, nat) io_result"
  let ?blk = "\<lambda>self bi. case bi of
        Uncompressed len \<Rightarrow> obind (read_uncompressed H R ?B info self (unat len)) ?finish
      | Compressed len \<Rightarrow> obind (read_compressed H R ?B info self (unat len)) ?finish
      | EndMark \<Rightarrow> obind (read_end_mark H R info self) (\<lambda>self. Ok (0, self))"
  have prep: "\<exists>s1. (prepare_window ?B info self :: (io_error \<times> ('h, 'r) FrameDecoder, _) outcome) = Ok s1 \<and>
      dec_state info g gs s1 \<and> room_ok info s1 \<and> fd_r s1 = fd_r self \<and> fd_bytes_output s1 = fd_bytes_output self \<and>
      out_limit s1 = out_limit self \<and> read_block H R self =
      obind (r_exact R s1 4) (\<lambda>(buffer, self). obind (try_error self (BlockInfo_read buffer)) (?blk self))"
    if d: "dec_state info g gs self" for self :: "('h, 'r) FrameDecoder" and g gs
  proof -
    have w: "window_ok info g self" "fd_current_frame_info self = Some info" "block_size info \<noteq> Auto"
      using d by (simp_all add: dec_state_def)
    from w(1) have st: "fd_dst_start self = fd_dst_end self" by (simp add: window_ok_def)
    obtain xo xl st where P: "prepare_window ?B info self = (Ok (self\<lparr>fd_ext_dict_offset := xo, fd_ext_dict_len := xl,
         fd_dst_start := st, fd_dst_end := st\<rparr>) :: (io_error \<times> ('h, 'r) FrameDecoder, ('h, 'r) FrameDecoder) outcome)"
      "window_ok info g (self\<lparr>fd_ext_dict_offset := xo, fd_ext_dict_len := xl, fd_dst_start := st, fd_dst_end := st\<rparr>)"
      "room_ok info (self\<lparr>fd_ext_dict_offset := xo, fd_ext_dict_len := xl, fd_dst_start := st, fd_dst_end := st\<rparr>)"
      by (rule prepare_window_ok [OF w(1)])
    define s1 where "s1 = self\<lparr>fd_ext_dict_offset := xo, fd_ext_dict_len := xl, fd_dst_start := st, fd_dst_end := st\<rparr>"
    have "read_block H R self = obind (r_exact R s1 4) (\<lambda>(buffer, self). obind (try_error self (BlockInfo_read buffer)) (?blk self))"
      using w(2,3) st P(1) by (simp add: read_block_def get_size_eq s1_def [symmetric] Let_def)
    moreover have "dec_state info g gs s1" using d P(2) by (simp add: dec_state_def s1_def)
    ultimately show ?thesis using P(1,3) by (simp add: s1_def out_limit_def)
  qed
  from prep [OF s] obtain s1 where s1: "prepare_window ?B info s = (Ok s1 :: (io_error \<times> ('h, 'r) FrameDecoder, _) outcome)"
    "dec_state info h hs s1" "room_ok info s1" "fd_r s1 = fd_r s" "fd_bytes_output s1 = fd_bytes_output s" "out_limit s1 = out_limit s"
    "read_block H R s = obind (r_exact R s1 4) (\<lambda>(buffer, self). obind (try_error self (BlockInfo_read buffer)) (?blk self))" by blast
  from prep [OF t] obtain t1 where t1: "prepare_window ?B info t = (Ok t1 :: (io_error \<times> ('h, 'r) FrameDecoder, _) outcome)"
    "dec_state info h' hs' t1" "room_ok info t1" "fd_r t1 = fd_r t" "fd_bytes_output t1 = fd_bytes_output t" "out_limit t1 = out_limit t"
    "read_block H R t = obind (r_exact R t1 4) (\<lambda>(buffer, self). obind (try_error self (BlockInfo_read buffer)) (?blk self))" by blast
  have w: "window_ok info h s" "window_ok info h' t" using s t by (simp_all add: dec_state_def)
  have a1: "agree s1 t1" by (rule prepare_window_agree [OF a w s1(1) t1(1)])
  then have r: "fd_r t1 = fd_r s1" "same_source s1 t1" by (simp_all add: agree_def same_source_def)
  show thesis
  proof (cases rule: r_exact_uniform [where n = 4 and r = "fd_r s1" and ?'h = 'h])
    case x: (eof e r')
    with r show thesis
      by (intro bad [of e "s1\<lparr>fd_r := r'\<rparr>" "t1\<lparr>fd_r := r'\<rparr>"]) (simp_all add: s1(7) t1(7) same_source_def)
  next
    case x: (ok bs r')
    let ?s = "s1\<lparr>fd_r := r'\<rparr>" and ?t = "t1\<lparr>fd_r := r'\<rparr>"
    have xt: "r_exact R s1 4 = Ok (bs, ?s)" "r_exact R t1 4 = Ok (bs, ?t)" using r(1) by (simp_all add: x(4))
    have src: "same_source ?s ?t" using r(2) by (simp add: same_source_def)
    have ext: "dec_ext (self\<lparr>fd_r := y\<rparr>) = dec_ext self" for y and self :: "('h, 'r) FrameDecoder" by (simp add: dec_ext_def)
    have a2: "agree ?s ?t" using a1 src unfolding agree_def ext by (elim conjE) simp
    have s2: "dec_state info h hs ?s" "room_ok info ?s" using s1(2,3) by (simp_all add: dec_state_reader)
    have t2: "dec_state info h' hs' ?t" "room_ok info ?t" using t1(2,3) by (simp_all add: dec_state_reader)
    have "0 < length (rest (fd_r s))" "fd_r t = fd_r s" using x(3) s1(4) t1(4) r(1) by auto
    then have "fd_bytes_output s + 4194304 \<le> usize_max" "fd_bytes_output t + 4194304 \<le> usize_max"
      "out_limit s = usize_max" "out_limit t = usize_max"
      using b by (cases "length (rest (fd_r s))"; simp add: budget_def out_limit_def)+
    with s1(5,6) t1(5,6) have lim: "\<forall>m\<le>?B. fd_bytes_output ?s + m \<le> out_limit ?s \<and> fd_bytes_output ?t + m \<le> out_limit ?t"
      using max_block_size_bounds(1) [of "block_size info"] by (simp add: out_limit_def)
    obtain bi where "BlockInfo_read bs = Ok bi" using BlockInfo_read_Ok [of bs] x(1) by auto
    then have eq: "read_block H R s = ?blk ?s bi" "read_block H R t = ?blk ?t bi"
      using xt by (simp_all add: s1(7) t1(7) try_error_def)
    have blk_ok: thesis if f: "read_block H R s = ?finish s'" "read_block H R t = ?finish t'" "agree s' t'" for s' t'
    proof -
      have "\<exists>n s''. read_block H R s = Ok (n, s'')"
      proof (cases rule: read_block_ok [OF s, of H])
        case (3 e s'')
        then show ?thesis using f(1) by (auto simp: obind_Err_iff sub_slice_def usub_def split: if_splits)
      qed auto
      then obtain n s'' where n: "read_block H R s = Ok (n, s'')" by blast
      obtain t'' where "?finish t' = Ok (n, t'')" "agree s'' t''"
        by (rule finish_block_agree [OF f(3) n [unfolded f(1)]])
      with n f(2) show thesis by (intro ok) simp_all
    qed
    show thesis
    proof (cases bi)
      case (Uncompressed len)
      show thesis
      proof (cases rule: read_uncompressed_agree [OF a2 s2 t2 lim, of H "unat len"])
        case (1 s' t')
        with Uncompressed show thesis by (intro blk_ok [of s' t']) (simp_all add: eq)
      next
        case (2 e s' t')
        with Uncompressed show thesis by (intro bad [of e s' t']) (simp_all add: eq)
      qed
    next
      case (Compressed len)
      show thesis
      proof (cases rule: read_compressed_agree [OF a2 s2 t2 lim, of H "unat len"])
        case (1 s' t')
        with Compressed show thesis by (intro blk_ok [of s' t']) (simp_all add: eq)
      next
        case (2 e s' t')
        with Compressed show thesis by (intro bad [of e s' t']) (simp_all add: eq)
      qed
    next
      case EndMark
      show thesis
      proof (cases rule: read_end_mark_agree [OF a2, of H info])
        case (1 s' t')
        with EndMark show thesis by (intro fin [of s' t']) (simp_all add: eq)
      next
        case (2 e s' t')
        with EndMark show thesis by (intro bad [of e s' t']) (simp_all add: eq)
      qed
    qed
  qed
qed

end

section \<open>The header\<close>

text \<open>Two runs whose results are related step by step.\<close>

lemma rel_obind:
  "rel_outcome E A m m' \<Longrightarrow> (\<And>x y. A x y \<Longrightarrow> rel_outcome E B (f x) (g y)) \<Longrightarrow> rel_outcome E B (obind m f) (obind m' g)"
  by (cases m; cases m') auto

lemma rel_obind_Ok:
  "rel_outcome E A m m' \<Longrightarrow> (\<And>x y. m = Ok x \<Longrightarrow> A x y \<Longrightarrow> rel_outcome E B (f x) (g y)) \<Longrightarrow>
    rel_outcome E B (obind m f) (obind m' g)"
  by (cases m; cases m') auto

lemma rel_pair: "rel_prod (=) P p q \<Longrightarrow> (\<And>x s t. P s t \<Longrightarrow> rel_outcome E B (f x s) (g x t)) \<Longrightarrow>
    rel_outcome E B (case p of (x, s) \<Rightarrow> f x s) (case q of (x, t) \<Rightarrow> g x t)"
  by (cases p; cases q) auto

definition with_reader :: "('h, 'r) FrameDecoder \<Rightarrow> ('h, 'r) FrameDecoder \<Rightarrow> ('h, 'r) FrameDecoder \<Rightarrow> ('h, 'r) FrameDecoder \<Rightarrow> bool" where
  "with_reader s0 t0 s t \<longleftrightarrow> (\<exists>r. s = s0\<lparr>fd_r := r\<rparr> \<and> t = t0\<lparr>fd_r := r\<rparr>)"

lemma r_exact_rel:
  "with_reader s0 t0 s t \<Longrightarrow> rel_outcome (rel_prod (=) (with_reader s0 t0)) (rel_prod (=) (with_reader s0 t0)) (r_exact R s n) (r_exact R t n)"
  by (auto simp: with_reader_def r_exact_def split: prod.splits sum.splits)

lemma try_error_rel:
  "with_reader s0 t0 s t \<Longrightarrow> rel_outcome (rel_prod (=) (with_reader s0 t0)) (=) (try_error s m) (try_error t m)"
  by (cases m) (auto simp: try_error_def)

lemma read_frame_info_rel:
  fixes s t :: "('h, 'r) FrameDecoder"
  assumes src: "same_source s t"
  shows "rel_outcome (rel_prod (=) (with_reader s t))
    (\<lambda>(n, s') (m, t'). n = m \<and> (with_reader s t s' t' \<or> (\<exists>r info. s' = start_frame H (s\<lparr>fd_r := r\<rparr>) info \<and> t' = start_frame H (t\<lparr>fd_r := r\<rparr>) info)))
    (read_frame_info H R s) (read_frame_info H R t)"
proof -
  have e: "fd_r s = fd_r t" "fd_expected_dict_id s = fd_expected_dict_id t" using src by (simp_all add: same_source_def)
  let ?E = "rel_prod (=) (with_reader s t)"
  have W: "with_reader s t (s\<lparr>fd_r := r\<rparr>) (t\<lparr>fd_r := r\<rparr>)" for r by (auto simp: with_reader_def)
  have ids: "fd_expected_dict_id s' = fd_expected_dict_id t'" if "with_reader s t s' t'" for s' t'
    using that e(2) by (auto simp: with_reader_def)
  show ?thesis
  proof (cases "read_some R (fd_r t) MAGIC_NUMBER_SIZE")
    case (Pair x r)
    show ?thesis
    proof (cases x)
      case (Inl k)
      with Pair W e(1) show ?thesis by (simp add: read_frame_info_def)
    next
      case (Inr magic)
      show ?thesis
      proof (cases "magic = []")
        case True
        with Inr Pair W e(1) show ?thesis by (simp add: read_frame_info_def)
      next
        case ne: False
        have magic: "rel_outcome ?E ?E
            (if length magic = MAGIC_NUMBER_SIZE then Ok (magic, s\<lparr>fd_r := r\<rparr>)
              else obind (usub MAGIC_NUMBER_SIZE (length magic)) (\<lambda>missing.
                obind (r_exact R (s\<lparr>fd_r := r\<rparr>) missing) (\<lambda>(more, self). Ok (magic @ more, self))))
            (if length magic = MAGIC_NUMBER_SIZE then Ok (magic, t\<lparr>fd_r := r\<rparr>)
              else obind (usub MAGIC_NUMBER_SIZE (length magic)) (\<lambda>missing.
                obind (r_exact R (t\<lparr>fd_r := r\<rparr>) missing) (\<lambda>(more, self). Ok (magic @ more, self))))"
          using W [of r]
          by (auto simp: usub_def intro!: rel_obind [OF r_exact_rel [OF W]] rel_pair)
        have more: "rel_outcome ?E ?E
            (if n \<noteq> MIN_FRAME_INFO_SIZE then obind (usub n MIN_FRAME_INFO_SIZE) (\<lambda>missing.
                obind (r_exact R s' missing) (\<lambda>(bs, self). Ok (buffer @ bs, self))) else Ok (buffer, s'))
            (if n \<noteq> MIN_FRAME_INFO_SIZE then obind (usub n MIN_FRAME_INFO_SIZE) (\<lambda>missing.
                obind (r_exact R t' missing) (\<lambda>(bs, self). Ok (buffer @ bs, self))) else Ok (buffer, t'))"
          if "with_reader s t s' t'" for n buffer s' t'
          using that by (auto simp: usub_def intro!: rel_obind [OF r_exact_rel [OF that]] rel_pair)
        show ?thesis
          unfolding read_frame_info_def e(1) Pair Inr prod.case sum.case Let_def if_not_P [OF ne]
        proof (rule rel_obind [OF magic], rule rel_pair, assumption, rule rel_obind [OF r_exact_rel], assumption, rule rel_pair, assumption,
            rule rel_obind [OF try_error_rel], assumption)
          fix buffer bs and n n' :: nat and s1 t1 assume w: "with_reader s t s1 t1" and n: "n = n'"
          let ?A = "\<lambda>(n, s') (m, t'). n = m \<and> (with_reader s t s' t' \<or>
            (\<exists>r info. s' = start_frame H (s\<lparr>fd_r := r\<rparr>) info \<and> t' = start_frame H (t\<lparr>fd_r := r\<rparr>) info))"
          show "rel_outcome ?E ?A
            (obind (if n \<noteq> MIN_FRAME_INFO_SIZE then obind (usub n MIN_FRAME_INFO_SIZE) (\<lambda>missing.
                obind (r_exact R s1 missing) (\<lambda>(bs', self). Ok ((buffer @ bs) @ bs', self))) else Ok (buffer @ bs, s1)) (\<lambda>(buffer, self).
              obind (try_error self (FrameInfo_read H buffer)) (\<lambda>info.
              obind (try_error self (check_dict_id (dict_id info) (fd_expected_dict_id self))) (\<lambda>_.
              obind (get_size (block_size info)) (\<lambda>_. Ok (n, start_frame H self info))))))
            (obind (if n' \<noteq> MIN_FRAME_INFO_SIZE then obind (usub n' MIN_FRAME_INFO_SIZE) (\<lambda>missing.
                obind (r_exact R t1 missing) (\<lambda>(bs', self). Ok ((buffer @ bs) @ bs', self))) else Ok (buffer @ bs, t1)) (\<lambda>(buffer, self).
              obind (try_error self (FrameInfo_read H buffer)) (\<lambda>info.
              obind (try_error self (check_dict_id (dict_id info) (fd_expected_dict_id self))) (\<lambda>_.
              obind (get_size (block_size info)) (\<lambda>_. Ok (n', start_frame H self info))))))"
            unfolding n
          proof (rule rel_obind [OF more [OF w]], rule rel_pair, assumption)
            fix buffer s2 t2 assume w2: "with_reader s t s2 t2"
            show "rel_outcome ?E ?A
              (obind (try_error s2 (FrameInfo_read H buffer)) (\<lambda>info.
              obind (try_error s2 (check_dict_id (dict_id info) (fd_expected_dict_id s2))) (\<lambda>_.
              obind (get_size (block_size info)) (\<lambda>_. Ok (n', start_frame H s2 info)))))
              (obind (try_error t2 (FrameInfo_read H buffer)) (\<lambda>info.
              obind (try_error t2 (check_dict_id (dict_id info) (fd_expected_dict_id t2))) (\<lambda>_.
              obind (get_size (block_size info)) (\<lambda>_. Ok (n', start_frame H t2 info)))))"
              unfolding ids [OF w2]
            proof (rule rel_obind [OF try_error_rel [OF w2]], erule ssubst, rule rel_obind [OF try_error_rel [OF w2]])
              fix info info' :: FrameInfo and u u' :: unit assume "u = u'"
              with w2 show "rel_outcome ?E ?A (obind (get_size (block_size info')) (\<lambda>_. Ok (n', start_frame H s2 info')))
                (obind (get_size (block_size info')) (\<lambda>_. Ok (n', start_frame H t2 info')))"
                by (cases "block_size info'") (auto simp: with_reader_def)
            qed
          qed
        qed
      qed
    qed
  qed
qed

section \<open>Reading\<close>

text \<open>Decoders between two reads, with the same bytes to give out, and decoders after an error.\<close>

definition matched :: "('h, 'r) FrameDecoder \<Rightarrow> ('h, 'r) FrameDecoder \<Rightarrow> bool" where
  "matched s t \<longleftrightarrow> same_source s t \<and> at_stage s Idle \<and> at_stage t Idle \<or>
     (\<exists>c d info h h' hs hs'. holds s c (In info h hs) \<and> holds t d (In info h' hs') \<and> agree s t)"

definition spent :: "nat \<Rightarrow> ('h, 'r) FrameDecoder \<Rightarrow> bool" where
  "spent N s \<longleftrightarrow> fd_bytes_output s \<le> N \<and> N \<le> usize_max \<and> fd_max_output s = usize_max"

definition abandoned :: "nat \<Rightarrow> nat \<Rightarrow> ('h, 'r) FrameDecoder \<Rightarrow> ('h, 'r) FrameDecoder \<Rightarrow> bool" where
  "abandoned N M s t \<longleftrightarrow> same_source s t \<and> at_stage s Idle \<and> at_stage t Idle \<and> spent N s \<and> spent M t"

definition both :: "('r \<Rightarrow> bytes) \<Rightarrow> nat \<Rightarrow> nat \<Rightarrow> ('h, 'r) FrameDecoder \<Rightarrow> ('h, 'r) FrameDecoder \<Rightarrow> bool" where
  "both rest N M s t \<longleftrightarrow> matched s t \<and> budget rest N s \<and> budget rest M t"

lemma budget_spent: "budget rest N s \<Longrightarrow> spent N s"
  by (simp add: budget_def spent_def)

lemma budget_start: "budget rest N s \<Longrightarrow> length (rest r) \<le> length (rest (fd_r s)) \<Longrightarrow> budget rest N (start_frame H (s\<lparr>fd_r := r\<rparr>) info)"
  by (auto simp: budget_def start_frame_def)

lemma budget_reader: "budget rest N s \<Longrightarrow> length (rest r) \<le> length (rest (fd_r s)) \<Longrightarrow> budget rest N (s\<lparr>fd_r := r\<rparr>)"
  by (auto simp: budget_def)

lemma header_states:
  "with_reader s t (s\<lparr>fd_r := r\<rparr>) t' \<Longrightarrow> t' = t\<lparr>fd_r := r\<rparr>"
  "s\<lparr>fd_r := r\<rparr> = start_frame H (s\<lparr>fd_r := r'\<rparr>) info \<Longrightarrow> fd_current_frame_info s \<noteq> None"
  "with_reader s t (start_frame H (s\<lparr>fd_r := r\<rparr>) info) t' \<Longrightarrow> fd_current_frame_info s \<noteq> None"
  "start_frame H (s\<lparr>fd_r := r\<rparr>) info = start_frame H (s\<lparr>fd_r := r'\<rparr>) info' \<Longrightarrow> r' = r \<and> info' = info"
proof -
  assume "with_reader s t (s\<lparr>fd_r := r\<rparr>) t'"
  then obtain r' where r': "s\<lparr>fd_r := r\<rparr> = s\<lparr>fd_r := r'\<rparr>" "t' = t\<lparr>fd_r := r'\<rparr>" by (auto simp: with_reader_def)
  have "r' = r" using arg_cong [OF r'(1), of fd_r] by simp
  with r'(2) show "t' = t\<lparr>fd_r := r\<rparr>" by simp
next
  assume e: "s\<lparr>fd_r := r\<rparr> = start_frame H (s\<lparr>fd_r := r'\<rparr>) info"
  have "fd_current_frame_info s = Some info" using arg_cong [OF e, of fd_current_frame_info] by (simp add: start_frame_def)
  then show "fd_current_frame_info s \<noteq> None" by simp
next
  assume "with_reader s t (start_frame H (s\<lparr>fd_r := r\<rparr>) info) t'"
  then obtain r' where e: "start_frame H (s\<lparr>fd_r := r\<rparr>) info = s\<lparr>fd_r := r'\<rparr>" by (auto simp: with_reader_def)
  have "Some info = fd_current_frame_info s" using arg_cong [OF e, of fd_current_frame_info] by (simp add: start_frame_def)
  then show "fd_current_frame_info s \<noteq> None" by (metis option.distinct(1))
next
  assume e: "start_frame H (s\<lparr>fd_r := r\<rparr>) info = start_frame H (s\<lparr>fd_r := r'\<rparr>) info'"
  from arg_cong [OF e, of fd_current_frame_info] arg_cong [OF e, of fd_r] show "r' = r \<and> info' = info"
    by (simp add: start_frame_def)
qed

lemma start_frame_agree: "same_source s t \<Longrightarrow> agree (start_frame H (s\<lparr>fd_r := r\<rparr>) info) (start_frame H (t\<lparr>fd_r := r\<rparr>) info)"
  by (simp add: agree_def same_source_def start_frame_def dec_ext_def)

context reader
begin

text \<open>One run: what a block leaves of the budget.\<close>

lemma read_block_budget:
  fixes s :: "('h, 'r) FrameDecoder"
  assumes d: "dec_state info h hs s" and b: "budget rest N s"
  shows "case read_block H R s of
      Ok (n, s') \<Rightarrow> budget rest N s' \<and> length (rest (fd_r s')) < length (rest (fd_r s)) \<and>
        (fd_current_frame_info s' = None \<longrightarrow> at_stage s' Idle) \<and>
        (fd_current_frame_info s' \<noteq> None \<longrightarrow> (\<exists>c h hs. n = length c \<and> holds s' c (In info h hs)))
    | Err (e, s') \<Rightarrow> at_stage (s'\<lparr>fd_current_frame_info := None\<rparr>) Idle \<and> spent N s'
    | _ \<Rightarrow> False"
proof (cases rule: read_block_ok [OF d, of H])
  case (1 c s')
  have c: "length c \<le> 4194304"
    using 1(1) max_block_size_bounds(1) [of "block_size info"] by (auto simp: block_at_def frame_block_def)
  have r: "length (rest (fd_r s')) < length (rest (fd_r s))" using block_at_short [OF 1(1)] by simp
  then obtain k where "length (rest (fd_r s)) = length (rest (fd_r s')) + Suc k" using less_imp_Suc_add by fastforce
  then have "budget rest N s'" using 1(3) b c by (simp add: delivers_def budget_def same_settings_def)
  moreover have "fd_current_frame_info s' = Some info" using 1(3) by (simp add: delivers_def dec_state_def)
  ultimately show ?thesis using 1(2) r delivers_holds [OF 1(3)] by auto
next
  case (2 s')
  have r: "length (rest (fd_r s')) < length (rest (fd_r s))" using 2(2) by (simp add: end_of_frame_def)
  with 2 b d show ?thesis by (simp add: settled_def same_settings_def budget_def dec_state_def)
next
  case (3 e s')
  with b d show ?thesis by (simp add: failed_ok_def same_settings_def spent_def budget_def dec_state_def)
qed

lemma read_more_agree:
  fixes s t :: "('h, 'r) FrameDecoder"
  assumes "same_source s t \<and> at_stage s Idle \<and> at_stage t Idle \<or>
      (\<exists>info h h' hs hs'. agree s t \<and> dec_state info h hs s \<and> dec_state info h' hs' t)"
    and "budget rest N s" "budget rest M t" "length (rest (fd_r s)) < fuel"
  shows "rel_outcome (rel_prod (=) (abandoned N M)) (rel_prod (=) (both rest N M)) (read_more fuel H R s) (read_more fuel H R t)"
  using assms
proof (induction fuel arbitrary: s t)
  case 0
  then show ?case by simp
next
  case (Suc fuel)
  let ?E = "rel_prod (=) (abandoned N M)" and ?A = "rel_prod (=) (both rest N M)"
  let ?step = "\<lambda>s :: ('h, 'r) FrameDecoder. obind (map_err (\<lambda>(e, self). (e, self\<lparr>fd_current_frame_info := None\<rparr>)) (read_block H R s)) (\<lambda>(n, self).
       if n \<noteq> 0 then Ok (n, self) else read_more fuel H R self)"
  have step: "rel_outcome ?E ?A (?step s') (?step t')"
    if a: "agree s' t'" and d: "dec_state info h hs s'" "dec_state info h' hs' t'"
      and b: "budget rest N s'" "budget rest M t'" and f: "length (rest (fd_r s')) \<le> fuel"
    for s' t' :: "('h, 'r) FrameDecoder" and info h hs h' hs'
  proof -
    note S = read_block_budget [OF d(1) b(1), of H] and T = read_block_budget [OF d(2) b(2), of H]
    show ?thesis
    proof (cases rule: read_block_agree [OF a d b, of H])
      case (1 n s1 t1)
      have cur: "fd_current_frame_info s1 = fd_current_frame_info t1" "same_source s1 t1" using 1(3) by (simp_all add: agree_def)
      have st: "budget rest N s1" "budget rest M t1" "length (rest (fd_r s1)) < length (rest (fd_r s'))"
        using S T 1(1,2) by simp_all
      show ?thesis
      proof (cases "fd_current_frame_info t1 = None")
        case True
        then have i: "same_source s1 t1 \<and> at_stage s1 Idle \<and> at_stage t1 Idle" using S T 1(1,2) cur by simp
        have "length (rest (fd_r s1)) < fuel" using st(3) f by simp
        note IH = Suc.IH [OF disjI1 [OF i] st(1,2) this]
        show ?thesis
        proof (cases "n = 0")
          case True
          with IH 1(1,2) show ?thesis by simp
        next
          case False
          with i 1(1,2) st show ?thesis by (simp add: both_def matched_def)
        qed
      next
        case False
        then have "\<exists>c k kh. n = length c \<and> holds s1 c (In info k kh)" "\<exists>d m mh. n = length d \<and> holds t1 d (In info m mh)"
          using S T 1(1,2) cur by (simp_all del: at_stage.simps)
        then obtain c k kh d m mh where h: "n = length c" "holds s1 c (In info k kh)" "n = length d" "holds t1 d (In info m mh)"
          by blast
        show ?thesis
        proof (cases "n = 0")
          case True
          with h have "dec_state info k kh s1" "dec_state info m mh t1"
            using holds_nothing [of s1 "In info k kh"] holds_nothing [of t1 "In info m mh"] by simp_all
          with 1(3) have d: "\<exists>info h h' hs hs'. agree s1 t1 \<and> dec_state info h hs s1 \<and> dec_state info h' hs' t1" by blast
          have "length (rest (fd_r s1)) < fuel" using st(3) f by simp
          from Suc.IH [OF disjI2 [OF d] st(1,2) this] 1(1,2) True show ?thesis by simp
        next
          case False
          have "matched s1 t1" using h(2,4) 1(3) unfolding matched_def by blast
          with False st(1,2) 1(1,2) show ?thesis by (simp add: both_def)
        qed
      qed
    next
      case (2 s1 t1)
      then have "same_source s1 t1 \<and> at_stage s1 Idle \<and> at_stage t1 Idle" "budget rest N s1" "budget rest M t1"
        "length (rest (fd_r s1)) < length (rest (fd_r s'))"
        using S T by simp_all
      with Suc.IH [of s1 t1] f 2(1,2) show ?thesis by simp
    next
      case (3 e s1 t1)
      with S T show ?thesis by (simp add: abandoned_def same_source_def spent_def)
    qed
  qed
  from Suc.prems(1) show ?case
  proof
    assume "\<exists>info h h' hs hs'. agree s t \<and> dec_state info h hs s \<and> dec_state info h' hs' t"
    then obtain info h h' hs hs' where a: "agree s t" "dec_state info h hs s" "dec_state info h' hs' t" by blast
    then have "fd_current_frame_info s = Some info" "fd_current_frame_info t = Some info" by (simp_all add: dec_state_def)
    with step [OF a Suc.prems(2,3)] Suc.prems(4) show ?thesis by simp
  next
    assume i: "same_source s t \<and> at_stage s Idle \<and> at_stage t Idle"
    then have idle: "fd_current_frame_info s = None" "fd_current_frame_info t = None" and src: "same_source s t" by simp_all
    have rs: "fd_r t = fd_r s" using src by (simp add: same_source_def)
    note F = read_frame_info_rel [OF src, where H = H and R = R]
    show ?thesis
    proof (cases rule: read_frame_info_ok [of s H])
      case (empty r')
      with F obtain t' where t': "read_frame_info H R t = Ok (0, t')" "with_reader s t (s\<lparr>fd_r := r'\<rparr>) t' \<or>
          (\<exists>r info. s\<lparr>fd_r := r'\<rparr> = start_frame H (s\<lparr>fd_r := r\<rparr>) info \<and> t' = start_frame H (t\<lparr>fd_r := r\<rparr>) info)"
        by (cases "read_frame_info H R t") auto
      then have "t' = t\<lparr>fd_r := r'\<rparr>" using idle(1) by (auto dest: header_states)
      moreover have "both rest N M (s\<lparr>fd_r := r'\<rparr>) (t\<lparr>fd_r := r'\<rparr>)"
        using i empty(1,2) rs Suc.prems(2,3) by (auto simp: both_def matched_def same_source_def intro: budget_reader)
      ultimately show ?thesis using empty(3) t'(1) idle by simp
    next
      case (ok info r' n)
      with F obtain t' where t': "read_frame_info H R t = Ok (n, t')" "with_reader s t (start_frame H (s\<lparr>fd_r := r'\<rparr>) info) t' \<or>
          (\<exists>r i. start_frame H (s\<lparr>fd_r := r'\<rparr>) info = start_frame H (s\<lparr>fd_r := r\<rparr>) i \<and> t' = start_frame H (t\<lparr>fd_r := r\<rparr>) i)"
        by (cases "read_frame_info H R t") auto
      let ?s = "start_frame H (s\<lparr>fd_r := r'\<rparr>) info" and ?t = "start_frame H (t\<lparr>fd_r := r'\<rparr>) info"
      have t: "t' = ?t" using t'(2) idle(1) by (auto dest: header_states)
      have h: "block_size info \<noteq> Auto" "length (rest r') \<le> length (rest (fd_r s))" using ok(1) by (auto simp: header_at_def)
      have d: "dec_state info [] (with_seed H 0) ?s" "dec_state info [] (with_seed H 0) ?t"
        by (rule start_frame_stage [OF conjunct1 [OF conjunct2 [OF i]] h(1)] start_frame_stage [OF conjunct2 [OF conjunct2 [OF i]] h(1)])+
      have b: "budget rest N ?s" "budget rest M ?t" using h(2) rs Suc.prems(2,3) by (auto intro: budget_start)
      have "length (rest (fd_r ?s)) \<le> fuel" using h(2) Suc.prems(4) by (simp add: start_frame_def)
      from step [OF start_frame_agree [OF src] d b this] ok(2,3) t'(1) t idle show ?thesis by simp
    next
      case (bad e r')
      with F obtain t' where t': "read_frame_info H R t = Err (e, t')" "with_reader s t (s\<lparr>fd_r := r'\<rparr>) t'"
        by (cases "read_frame_info H R t") auto
      then have "t' = t\<lparr>fd_r := r'\<rparr>" by (rule_tac header_states(1))
      moreover have "abandoned N M (s\<lparr>fd_r := r'\<rparr>) (t\<lparr>fd_r := r'\<rparr>)"
        using i Suc.prems(2,3) by (simp add: abandoned_def same_source_def spent_def budget_def)
      ultimately show ?thesis using bad(1) t'(1) idle by simp
    qed
  qed
qed

text \<open>A decoder that holds bytes gives them out.\<close>

lemma agree_advance: "agree s t \<Longrightarrow> agree (s\<lparr>fd_dst_start := x\<rparr>) (t\<lparr>fd_dst_start := x\<rparr>)"
  unfolding agree_def same_source_def dec_ext_def by (elim conjE) simp

lemma agree_held: "holds s c st \<Longrightarrow> holds t d st' \<Longrightarrow> agree s t \<Longrightarrow> d = c"
proof -
  assume h: "holds s c st" "holds t d st'" and a: "agree s t"
  have "sub_slice (fd_dst s) (fd_dst_start s) (fd_dst_end s) = (Ok c :: (unit, bytes) outcome)"
    "sub_slice (fd_dst t) (fd_dst_start t) (fd_dst_end t) = (Ok d :: (unit, bytes) outcome)"
    using holds_slice [OF h(1) order_refl] holds_slice [OF h(2) order_refl] h by (simp_all add: holds_def)
  then show "d = c" by (simp add: agree_slice [OF a])
qed

lemma holds_unique: "holds s c st \<Longrightarrow> holds s d st' \<Longrightarrow> c = d"
  unfolding holds_def by (metis add_left_cancel)

text \<open>Of two matched decoders either both hold the same bytes, or both have to read more.\<close>

lemma both_cases:
  assumes "both rest N M s t"
  obtains (held) c info h h' hs hs' where "c \<noteq> []" "holds s c (In info h hs)" "holds t c (In info h' hs')" "agree s t"
    | (empty) "same_source s t \<and> at_stage s Idle \<and> at_stage t Idle \<or>
      (\<exists>info h h' hs hs'. agree s t \<and> dec_state info h hs s \<and> dec_state info h' hs' t)"
      "fd_dst_start s = fd_dst_end s" "fd_dst_start t = fd_dst_end t"
proof (cases "same_source s t \<and> at_stage s Idle \<and> at_stage t Idle")
  case True
  then have "fd_dst_start s = fd_dst_end s" "fd_dst_start t = fd_dst_end t" by simp_all
  from empty [OF disjI1 [OF True] this] show thesis .
next
  case False
  with assms obtain c d info h h' hs hs' where x: "holds s c (In info h hs)" "holds t d (In info h' hs')" "agree s t"
    unfolding both_def matched_def by blast
  have d: "d = c" by (rule agree_held [OF x])
  show thesis
  proof (cases "c = []")
    case False
    with x d show thesis by (intro held) simp_all
  next
    case True
    then have "dec_state info h hs s" "dec_state info h' hs' t"
      using x(1,2) d holds_nothing [of s "In info h hs"] holds_nothing [of t "In info h' hs'"] by simp_all
    with x(3) have e: "\<exists>info h h' hs hs'. agree s t \<and> dec_state info h hs s \<and> dec_state info h' hs' t" by blast
    have "fd_dst_start s = fd_dst_end s" "fd_dst_start t = fd_dst_end t" using x(1,2) d True by (simp_all add: holds_def)
    from empty [OF disjI2 [OF e] this] show thesis .
  qed
qed

lemma both_advance:
  assumes b: "both rest N M s t" and h: "holds s c (In info h hs)" "holds t c (In info h' hs')" "agree s t" and k: "k \<le> length c"
  shows "both rest N M (s\<lparr>fd_dst_start := fd_dst_start s + k\<rparr>) (t\<lparr>fd_dst_start := fd_dst_start t + k\<rparr>)"
proof -
  have "fd_dst_start t = fd_dst_start s" using h(3) by (simp add: agree_def)
  then have "matched (s\<lparr>fd_dst_start := fd_dst_start s + k\<rparr>) (t\<lparr>fd_dst_start := fd_dst_start t + k\<rparr>)"
    using holds_take [OF h(1) k] holds_take [OF h(2) k] agree_advance [OF h(3), of "fd_dst_start s + k"]
    unfolding matched_def by metis
  with b show ?thesis by (simp add: both_def budget_def)
qed

lemma FrameDecoder_read_agree:
  fixes s t :: "('h, 'r) FrameDecoder"
  assumes b: "both rest N M s t" and f: "length (rest (fd_r s)) + 1 < fuel"
  shows "rel_outcome (rel_prod (=) (abandoned N M)) (rel_prod (=) (both rest N M)) (FrameDecoder_read fuel H R s n) (FrameDecoder_read fuel H R t n)"
proof -
  obtain g where g: "fuel = Suc (Suc g)" using f by (cases fuel; cases "fuel - 1") auto
  let ?E = "rel_prod (=) (abandoned N M)"
  have held: "rel_outcome ?E (rel_prod (=) (both rest N M)) (FrameDecoder_read (Suc k) H R s1 n) (FrameDecoder_read (Suc k) H R t1 n)"
    if "both rest N M s1 t1" "c \<noteq> []" "holds s1 c (In info h hs)" "holds t1 c (In info h' hs')" "agree s1 t1"
    for k s1 t1 c info h hs h' hs'
    using both_advance [OF that(1,3-5), of "min (length c) n"] read_held(1) [OF that(3,2), of k H n] read_held(1) [OF that(4,2), of k H n]
    by simp
  show ?thesis
  proof (cases rule: both_cases [OF b])
    case (1 c info h h' hs hs')
    from held [OF b this, of "Suc g"] show ?thesis by (simp only: g)
  next
    case 2
    have bud: "budget rest N s" "budget rest M t" using b by (simp_all add: both_def)
    have eq: "FrameDecoder_read fuel H R self n =
        obind (read_more fuel H R self) (\<lambda>(m, self). if m = 0 then Ok ([], self) else FrameDecoder_read (Suc g) H R self n)"
      if "fd_dst_start self = fd_dst_end self" for self :: "('h, 'r) FrameDecoder"
      using that unfolding g FrameDecoder_read.simps(2) [of "Suc g"] by simp
    show ?thesis
      unfolding eq [OF 2(2)] eq [OF 2(3)]
    proof (rule rel_obind_Ok [OF read_more_agree [OF 2(1) bud]])
      show "length (rest (fd_r s)) < fuel" using f by simp
      fix x y :: "nat \<times> ('h, 'r) FrameDecoder"
      obtain m s1 where x: "x = (m, s1)" by fastforce
      obtain m' t1 where y: "y = (m', t1)" by fastforce
      assume m: "read_more fuel H R s = Ok x" and "rel_prod (=) (both rest N M) x y"
      then have b1: "m' = m" "both rest N M s1 t1" by (simp_all add: x y)
      obtain st where "at_stage s st" using 2(1) by (metis at_stage.simps(2))
      from read_more_ok [OF this, of fuel H] f m obtain c st' where c: "m = length c" "holds s1 c st'" by (auto simp: more_ok_def x)
      have "rel_outcome ?E (rel_prod (=) (both rest N M)) (FrameDecoder_read (Suc g) H R s1 n) (FrameDecoder_read (Suc g) H R t1 n)"
        if "m \<noteq> 0"
      proof (cases rule: both_cases [OF b1(2)])
        case (1 d info h h' hs hs')
        then show ?thesis by (rule held [OF b1(2)])
      next
        case 2
        with c that show ?thesis by (simp add: holds_def)
      qed
      with b1 show "rel_outcome ?E (rel_prod (=) (both rest N M))
          (case x of (m, self) \<Rightarrow> if m = 0 then Ok ([], self) else FrameDecoder_read (Suc g) H R self n)
          (case y of (m, self) \<Rightarrow> if m = 0 then Ok ([], self) else FrameDecoder_read (Suc g) H R self n)"
        by (simp add: x y)
    qed
  qed
qed

lemma fill_buf_agree:
  fixes s t :: "('h, 'r) FrameDecoder"
  assumes b: "both rest N M s t" and f: "length (rest (fd_r s)) < fuel"
  shows "rel_outcome (rel_prod (=) (abandoned N M)) (rel_prod (=) (both rest N M)) (fill_buf fuel H R s) (fill_buf fuel H R t)"
proof -
  have slice: "rel_outcome (rel_prod (=) (abandoned N M)) (rel_prod (=) (both rest N M))
      (obind (sub_slice (fd_dst s1) (fd_dst_start s1) (fd_dst_end s1)) (\<lambda>bs. Ok (bs, s1)))
      (obind (sub_slice (fd_dst t1) (fd_dst_start t1) (fd_dst_end t1)) (\<lambda>bs. Ok (bs, t1)) :: ('h, 'r, bytes) io_result)"
    if b1: "both rest N M s1 t1" for s1 t1 :: "('h, 'r) FrameDecoder"
  proof (cases rule: both_cases [OF b1])
    case (1 c info h h' hs hs')
    have "sub_slice (fd_dst s1) (fd_dst_start s1) (fd_dst_end s1) = (Ok c :: (io_error \<times> ('h, 'r) FrameDecoder, bytes) outcome)"
      using holds_slice [OF 1(2) order_refl] 1(2) by (simp add: holds_def)
    moreover from this have "sub_slice (fd_dst t1) (fd_dst_start t1) (fd_dst_end t1) = (Ok c :: (io_error \<times> ('h, 'r) FrameDecoder, bytes) outcome)"
      by (simp only: agree_slice [OF 1(4)])
    ultimately show ?thesis using b1 by simp
  next
    case 2
    with b1 have "fd_dst_end s1 \<le> length (fd_dst s1)" "fd_dst_end t1 \<le> length (fd_dst t1)"
      by (auto simp: dec_state_def window_ok_def)
    with 2(2,3) b1 show ?thesis by (simp add: sub_slice_def)
  qed
  show ?thesis
  proof (cases rule: both_cases [OF b])
    case (1 c info h h' hs hs')
    then have "fd_dst_start s \<noteq> fd_dst_end s" "fd_dst_start t \<noteq> fd_dst_end t" by (auto simp: holds_def)
    with slice [OF b] show ?thesis by (simp add: fill_buf_def)
  next
    case 2
    have bud: "budget rest N s" "budget rest M t" using b by (simp_all add: both_def)
    have eq: "fill_buf fuel H R self = obind (read_more fuel H R self) (\<lambda>(_, self).
        obind (sub_slice (fd_dst self) (fd_dst_start self) (fd_dst_end self)) (\<lambda>bs. Ok (bs, self)))"
      if "fd_dst_start self = fd_dst_end self" for self :: "('h, 'r) FrameDecoder"
      using that by (simp add: fill_buf_def obind_assoc case_prod_unfold)
    show ?thesis
      unfolding eq [OF 2(2)] eq [OF 2(3)]
      by (rule rel_obind [OF read_more_agree [OF 2(1) bud f]]) (use slice in auto)
  qed
qed

lemma agree_reserve: "agree (s\<lparr>fd_content_reserve := x\<rparr>) (t\<lparr>fd_content_reserve := y\<rparr>) = agree s t"
  by (simp add: agree_def same_source_def dec_ext_def)

lemma both_reserve: "both rest N M s t \<Longrightarrow> both rest N M (s\<lparr>fd_content_reserve := x\<rparr>) (t\<lparr>fd_content_reserve := y\<rparr>)"
proof -
  have "matched s t \<Longrightarrow> matched (s\<lparr>fd_content_reserve := x\<rparr>) (t\<lparr>fd_content_reserve := y\<rparr>)"
    unfolding matched_def holds_reserve agree_reserve by (simp add: same_source_def)
  then show "both rest N M s t \<Longrightarrow> both rest N M (s\<lparr>fd_content_reserve := x\<rparr>) (t\<lparr>fd_content_reserve := y\<rparr>)"
    by (simp add: both_def budget_def)
qed

lemma read_to_end_agree:
  fixes s t :: "('h, 'r) FrameDecoder"
  assumes "both rest N M s t" "holds s c st" "length (rest (fd_r s)) + (if c = [] then 0 else 1) < fuel"
  shows "rel_outcome (\<lambda>(e, s', b) (e', t', b'). e' = e \<and> b' = b \<and> abandoned N M s' t')
    (\<lambda>(n, s', b) (n', t', b'). n' = n \<and> b' = b \<and> both rest N M s' t')
    (read_to_end_loop fuel H R s buf written) (read_to_end_loop fuel H R t buf written)"
  using assms
proof (induction fuel arbitrary: s t c st buf written)
  case 0
  then show ?case by simp
next
  case (Suc fuel)
  have f: "length (rest (fd_r s)) < Suc fuel" using Suc.prems(3) by simp
  note F = fill_buf_agree [OF Suc.prems(1) f, of H]
  show ?case
  proof (cases rule: fill_buf_ok [OF Suc.prems(2) f, of H])
    case (1 d st' s')
    note S = 1
    from F 1(1) obtain t' where t': "fill_buf (Suc fuel) H R t = Ok (d, t')" "both rest N M s' t'"
      by (cases "fill_buf (Suc fuel) H R t") auto
    show ?thesis
    proof (cases "d = []")
      case True
      with 1(1) t' show ?thesis by simp
    next
      case False
      define s2 where "s2 self = (self\<lparr>fd_content_reserve := None\<rparr>)\<lparr>fd_dst_start := fd_dst_start self + length d\<rparr>"
        for self :: "('h, 'r) FrameDecoder"
      have loop: "read_to_end_loop (Suc fuel) H R self buf written = read_to_end_loop fuel H R (s2 self') (buf @ d) (written + length d)"
        if "fill_buf (Suc fuel) H R self = Ok (d, self')" "holds self' d k" for self self' :: "('h, 'r) FrameDecoder" and k
      proof -
        have "fd_dst_end self' = fd_dst_start self' + length d" using that(2) by (simp add: holds_def)
        then show ?thesis using that(1) False by (simp add: Let_def holds_slice [OF that(2)] consume_def usub_def s2_def)
      qed
      show ?thesis
      proof (cases rule: both_cases [OF t'(2)])
        case 2
        with 1(2) False show ?thesis by (simp add: holds_def)
      next
        case h: (1 x info h h' hs hs')
        have x: "x = d" by (rule holds_unique [OF h(2) 1(2)])
        have r: "both rest N M (s'\<lparr>fd_content_reserve := None\<rparr>) (t'\<lparr>fd_content_reserve := None\<rparr>)" by (rule both_reserve [OF t'(2)])
        have h1: "holds (s'\<lparr>fd_content_reserve := None\<rparr>) d (In info h hs)" "holds (t'\<lparr>fd_content_reserve := None\<rparr>) d (In info h' hs')"
          "agree (s'\<lparr>fd_content_reserve := None\<rparr>) (t'\<lparr>fd_content_reserve := None\<rparr>)"
          using h(2-4) x by (simp_all add: holds_reserve agree_reserve)
        have b2: "both rest N M (s2 s') (s2 t')" using both_advance [OF r h1 order_refl] by (simp add: s2_def)
        have "holds (s2 s') [] (In info h hs)" using holds_take [OF h1(1) order_refl] by (simp add: s2_def)
        moreover have "length (rest (fd_r (s2 s'))) + (if [] = ([] :: bytes) then 0 else 1) < fuel"
          using S(7,9) False Suc.prems(3) by (cases "c = []") (auto simp: s2_def)
        ultimately show ?thesis
          unfolding loop [OF 1(1,2)] loop [OF t'(1) h(3) [unfolded x]] by (rule Suc.IH [OF b2])
      qed
    qed
  next
    case (2 e s')
    from F 2(1) obtain t' where "fill_buf (Suc fuel) H R t = Err (e, t')" "abandoned N M s' t'"
      by (cases "fill_buf (Suc fuel) H R t") auto
    with 2(1,3) show ?thesis by (simp add: failed_ok_def)
  qed
qed

end

section \<open>Decoders that are used again\<close>

text \<open>What a caller of \<^verbatim>\<open>read_to_end\<close> sees.\<close>

fun answer :: "(io_error \<times> ('h, 'r) FrameDecoder \<times> bytes, nat \<times> ('h, 'r) FrameDecoder \<times> bytes) outcome \<Rightarrow>
    (io_error \<times> bytes, nat \<times> bytes) outcome" where
  "answer (Ok (n, _, buf)) = Ok (n, buf)"
| "answer (Err (e, _, buf)) = Err (e, buf)"
| "answer Panic = Panic"
| "answer Diverge = Diverge"

text \<open>One decoder reads several streams, its reader replaced through \<^verbatim>\<open>get_mut\<close>, whatever the streams before gave.\<close>

fun read_in_turn :: "nat \<Rightarrow> 'h hasher \<Rightarrow> 'r io_read \<Rightarrow> ('h, 'r) FrameDecoder \<Rightarrow> 'r list \<Rightarrow> (io_error \<times> bytes, nat \<times> bytes) outcome list" where
  "read_in_turn fuel H R self [] = []"
| "read_in_turn fuel H R self (r # rs) =
     (let x = read_to_end fuel H R (self\<lparr>fd_r := r\<rparr>) [] in
      answer x # (case x of
        Ok (_, self, _) \<Rightarrow> read_in_turn fuel H R self rs
      | Err (_, self, _) \<Rightarrow> read_in_turn fuel H R self rs
      | _ \<Rightarrow> []))"

text \<open>A decoder with these options, between two streams.\<close>

definition reusable :: "FrameDecoderOptions \<Rightarrow> nat \<Rightarrow> ('h, 'r) FrameDecoder \<Rightarrow> bool" where
  "reusable options N self \<longleftrightarrow> at_stage self Idle \<and> spent N self \<and>
     fd_dict self = options_dict options \<and> fd_expected_dict_id self = options_dict_id options"

lemma reusable_new:
  assumes "opt_max_output options = None"
  shows "reusable options 0 (FrameDecoder_with_options H r options)"
proof -
  have "fd_max_output (FrameDecoder_with_options H r options) = usize_max"
    using assms by (simp add: FrameDecoder_with_options_def FrameDecoder_new_def Let_def split: option.splits)
  with new_decoder [of H r options] holds_nothing [OF new_decoder(1) [of H r options]] show ?thesis
    by (simp add: reusable_def spent_def del: at_stage.simps)
qed

lemma reusable_both:
  assumes "reusable options N s" "reusable options M t" "N + 4194304 * length (rest r) \<le> usize_max" "M + 4194304 * length (rest r) \<le> usize_max"
  shows "both rest (N + 4194304 * length (rest r)) (M + 4194304 * length (rest r)) (s\<lparr>fd_r := r\<rparr>) (t\<lparr>fd_r := r\<rparr>)"
  using assms by (simp add: reusable_def both_def matched_def budget_def spent_def same_source_def)

context reader
begin

lemma read_reusable:
  fixes s t :: "('h, 'r) FrameDecoder"
  assumes s: "reusable options N s" and t: "reusable options M t" and f: "length (rest r) < fuel"
    and b: "N + 4194304 * length (rest r) \<le> usize_max" "M + 4194304 * length (rest r) \<le> usize_max"
  obtains (ok) n s' t' buf' where "read_to_end fuel H R (s\<lparr>fd_r := r\<rparr>) buf = Ok (n, s', buf')"
      "read_to_end fuel H R (t\<lparr>fd_r := r\<rparr>) buf = Ok (n, t', buf')" "reusable options (N + 4194304 * length (rest r)) s'"
    | (bad) e s' t' buf' where "read_to_end fuel H R (s\<lparr>fd_r := r\<rparr>) buf = Err (e, s', buf')"
      "read_to_end fuel H R (t\<lparr>fd_r := r\<rparr>) buf = Err (e, t', buf')" "reusable options (N + 4194304 * length (rest r)) s'"
proof -
  let ?N = "N + 4194304 * length (rest r)" and ?M = "M + 4194304 * length (rest r)"
  have idle: "holds (s\<lparr>fd_r := r\<rparr>) [] Idle" using s by (simp add: reusable_def holds_def)
  have same: "fd_dict (s\<lparr>fd_r := r\<rparr>) = options_dict options" "fd_expected_dict_id (s\<lparr>fd_r := r\<rparr>) = options_dict_id options"
    using s by (simp_all add: reusable_def)
  have f': "length (rest (fd_r (s\<lparr>fd_r := r\<rparr>))) + (if ([] :: bytes) = [] then 0 else 1) < fuel" using f by simp
  note A = read_to_end_agree [OF reusable_both [where rest = rest, OF s t b] idle f', of H buf 0, folded read_to_end_def]
  have O: "to_end_ok H (s\<lparr>fd_r := r\<rparr>) [] Idle buf 0 (read_to_end fuel H R (s\<lparr>fd_r := r\<rparr>) buf)"
    unfolding read_to_end_def using f by (intro read_to_end_loop_ok [OF idle]) simp
  show thesis
  proof (cases "read_to_end fuel H R (s\<lparr>fd_r := r\<rparr>) buf")
    case (Ok p)
    obtain n s' buf' where p: "p = (n, s', buf')" using prod_cases3 by blast
    from A obtain t' where t': "read_to_end fuel H R (t\<lparr>fd_r := r\<rparr>) buf = Ok (n, t', buf')" "both rest ?N ?M s' t'"
      by (cases "read_to_end fuel H R (t\<lparr>fd_r := r\<rparr>) buf") (auto simp: Ok p)
    have "at_stage s' Idle" "same_settings (s\<lparr>fd_r := r\<rparr>) s'" using O by (auto simp: to_end_ok_def Ok p)
    with t'(2) same have "reusable options ?N s'"
      by (auto simp: reusable_def both_def same_settings_def simp del: at_stage.simps intro: budget_spent)
    with Ok p t'(1) show thesis by (intro ok) simp_all
  next
    case (Err p)
    obtain e s' buf' where p: "p = (e, s', buf')" using prod_cases3 by blast
    from A obtain t' where t': "read_to_end fuel H R (t\<lparr>fd_r := r\<rparr>) buf = Err (e, t', buf')" "abandoned ?N ?M s' t'"
      by (cases "read_to_end fuel H R (t\<lparr>fd_r := r\<rparr>) buf") (auto simp: Err p)
    have "same_settings (s\<lparr>fd_r := r\<rparr>) s'" using O by (auto simp: to_end_ok_def Err p)
    with t'(2) same have "reusable options ?N s'" by (simp add: reusable_def abandoned_def same_settings_def del: at_stage.simps)
    with Err p t'(1) show thesis by (intro bad) simp_all
  qed (use O in \<open>simp_all add: to_end_ok_def\<close>)
qed

lemma read_in_turn_fresh:
  fixes self :: "('h, 'r) FrameDecoder"
  assumes "reusable options N self" "opt_max_output options = None" "\<forall>r\<in>set rs. length (rest r) < fuel"
    "N + 4194304 * (\<Sum>r\<leftarrow>rs. length (rest r)) \<le> usize_max"
  shows "read_in_turn fuel H R self rs = map (\<lambda>r. answer (read_to_end fuel H R (FrameDecoder_with_options H r options) [])) rs"
  using assms(1,3,4)
proof (induction rs arbitrary: self N)
  case Nil
  then show ?case by simp
next
  case (Cons r rs)
  let ?new = "FrameDecoder_with_options H r options" and ?N = "N + 4194304 * length (rest r)"
  have new: "?new\<lparr>fd_r := r\<rparr> = ?new" using new_decoder(2) [of H r options] by (metis FrameDecoder.surjective FrameDecoder.update_convs(1) FrameDecoder.select_convs(1))
  have b: "?N \<le> usize_max" "0 + 4194304 * length (rest r) \<le> usize_max" "length (rest r) < fuel" using Cons.prems by simp_all
  have IH: "read_in_turn fuel H R s' rs = map (\<lambda>r. answer (read_to_end fuel H R (FrameDecoder_with_options H r options) [])) rs"
    if "reusable options ?N s'" for s' :: "('h, 'r) FrameDecoder"
    using Cons.IH [OF that] Cons.prems by simp
  show ?case
  proof (cases rule: read_reusable [OF Cons.prems(1) reusable_new [OF assms(2), of H r] b(3,1,2), where H = H and buf = "[]"])
    case (1 n s' t' buf')
    with IH [OF 1(3)] new show ?thesis by (simp add: Let_def)
  next
    case (2 e s' t' buf')
    with IH [OF 2(3)] new show ?thesis by (simp add: Let_def)
  qed
qed

end

section \<open>Properties\<close>

text \<open>
  C13: a decoder that has read other streams, whole, damaged or of another dictionary, decodes the
  next one, after its reader is replaced, exactly as a new decoder: the same content, and the
  same error after the same bytes.
\<close>

theorem frame_decoder_reuse:
  assumes "reader R rest" "opt_max_output options = None" "\<forall>r\<in>set rs. length (rest r) < fuel"
    "4194304 * (\<Sum>r\<leftarrow>rs. length (rest r)) \<le> usize_max"
  shows "read_in_turn fuel H R (FrameDecoder_with_options H r0 options) rs =
    map (\<lambda>r. answer (read_to_end fuel H R (FrameDecoder_with_options H r options) [])) rs"
  by (rule reader.read_in_turn_fresh [OF assms(1) reusable_new [OF assms(2)] assms(2,3)]) (use assms(4) in simp)

theorem frame_decoder_reuse_witness:
  "read_in_turn 19 zero_hash slice_reader (FrameDecoder_with_options zero_hash [] default_options) [example_frame, [4, 34], example_frame] =
    map (\<lambda>r. answer (read_to_end 19 zero_hash slice_reader (FrameDecoder_with_options zero_hash r default_options) []))
      [example_frame, [4, 34], example_frame]"
  using frame_decoder_reuse [OF slice.reader_axioms, where options = default_options and rs = "[example_frame, [4, 34], example_frame]"
      and fuel = 19 and H = zero_hash and ?r0.0 = "[]"]
  by (simp add: example_frame_def default_options_def usize_max_def)

end
