(* ===== verification/Compressors.thy ===== *)
theory Compressors
  imports Encoder_Reuse
begin

text \<open>
  \<^verbatim>\<open>crates/encode/src/compressor.rs\<close>: the compressors that own their buffers, and what any
  sequence of calls on a compressor, borrowing or owning, gives: every call that has room
  writes a block that decodes to its own input, whatever the calls before it were.
\<close>

section \<open>Owning compressors\<close>

record CompressorN =
  inner :: CompressorRefN

definition CompressorN_new :: "nat \<Rightarrow> ('e, CompressorN) outcome" where
  "CompressorN_new N = obind (CompressorRefN_new N) (\<lambda>c. Ok \<lparr>inner = c\<rparr>)"

definition CompressorN_compress_into ::
  "CompressorN \<Rightarrow> bytes \<Rightarrow> bytes \<Rightarrow> (CompressError \<times> CompressorN, nat \<times> CompressorN \<times> bytes) outcome" where
  "CompressorN_compress_into self input out =
     obind (map_err (\<lambda>(e, c). (e, self\<lparr>inner := c\<rparr>)) (CompressorRefN_compress_into (inner self) input out))
       (\<lambda>(n, c, out). Ok (n, self\<lparr>inner := c\<rparr>, out))"

definition CompressorN_compress :: "CompressorN \<Rightarrow> bytes \<Rightarrow> ('e, bytes \<times> CompressorN) outcome" where
  "CompressorN_compress self input =
     obind (CompressorRefN_compress (inner self) input) (\<lambda>(out, c). Ok (out, self\<lparr>inner := c\<rparr>))"

record DictCompressorN =
  dcn_dict :: bytes
  dcn_table :: HashTableU32U16
  dcn_pristine :: HashTableU32U16
  dcn_main_base :: nat

definition DictCompressorN_new :: "nat \<Rightarrow> bytes \<Rightarrow> (CompressError, DictCompressorN) outcome" where
  "DictCompressorN_new N dict =
     (let trimmed = (if length dict < MINMATCH then []
        else if WINDOW_SIZE < length dict then drop (length dict - WINDOW_SIZE) dict
        else dict) in
      obind (HashTableU32U16_new N) (\<lambda>pristine.
      obind (init_dict (u16_table N) pristine trimmed) (\<lambda>(pristine, _).
      obind (HashTableU32U16_new N) (\<lambda>table.
      Ok \<lparr>dcn_dict = trimmed, dcn_table = table, dcn_pristine = pristine, dcn_main_base = 1\<rparr>))))"

definition DictCompressorN_compress_into ::
  "DictCompressorN \<Rightarrow> bytes \<Rightarrow> bytes \<Rightarrow>
   (CompressError \<times> DictCompressorN, nat \<times> DictCompressorN \<times> bytes) outcome" where
  "DictCompressorN_compress_into self input out =
     (let upd = (\<lambda>t p b. self\<lparr>dcn_table := t, dcn_pristine := p, dcn_main_base := b\<rparr>) in
      obind (map_err (\<lambda>(e, t, p, b). (e, upd t p b))
        (compress_dict_tables (dcn_table self) (dcn_pristine self) (dcn_main_base self) (dcn_dict self) input out))
        (\<lambda>(n, t, p, b, out). Ok (n, upd t p b, out)))"

definition DictCompressorN_compress :: "DictCompressorN \<Rightarrow> bytes \<Rightarrow> ('e, bytes \<times> DictCompressorN) outcome" where
  "DictCompressorN_compress self input =
     obind (get_maximum_output_size (length input)) (\<lambda>max.
     obind (unwrap (DictCompressorN_compress_into self input (replicate max 0))) (\<lambda>(n, self, out).
     Ok (take n out, self)))"

section \<open>Reachable states\<close>

definition trimmed_dict :: "bytes \<Rightarrow> bytes" where
  "trimmed_dict dict = (if length dict < MINMATCH then []
     else if WINDOW_SIZE < length dict then drop (length dict - WINDOW_SIZE) dict else dict)"

lemma trimmed_dict_eq: "trimmed_dict dict = effective_dict True dict"
  by (simp add: trimmed_dict_def effective_dict_def)

lemma DictCompressorRefN_new_eq:
  "DictCompressorRefN_new N dict =
     (if valid_entries N then
        obind (init_dict (u16_table N) (replicate N 0) (trimmed_dict dict)) (\<lambda>(p, _).
        Ok \<lparr>dc_table = replicate N 0, dc_pristine = p, dc_main_base = 1, dc_dict = trimmed_dict dict\<rparr>)
      else Panic)"
  by (simp only: DictCompressorRefN_new_def HashTableU32U16_new_def trimmed_dict_def [symmetric] Let_def)
    (simp split: if_splits)

lemma DictCompressorN_new_eq:
  "DictCompressorN_new N dict =
     (if valid_entries N then
        obind (init_dict (u16_table N) (replicate N 0) (trimmed_dict dict)) (\<lambda>(p, _).
        Ok \<lparr>dcn_dict = trimmed_dict dict, dcn_table = replicate N 0, dcn_pristine = p, dcn_main_base = 1\<rparr>)
      else Panic)"
  by (simp only: DictCompressorN_new_def HashTableU32U16_new_def trimmed_dict_def [symmetric] Let_def)
    (simp split: if_splits)

lemma valid_entries_256: "valid_entries 256"
  by (simp add: valid_entries_def MIN_ENTRIES_def ilog2.simps [of "numeral _"] ilog2.simps [of "Suc 0"])

lemma CompressorRefN_reachable_256: "CompressorRefN_reachable 256 \<lparr>cr_table = replicate 256 0, cr_stream_offset = 0\<rparr>"
  using valid_entries_256 by (intro CompressorRefN_reachable.created) (simp add: CompressorRefN_new_ok)

text \<open>The tables after \<^verbatim>\<open>new\<close>: an empty one, and one filled from the dictionary.\<close>

lemma new_tables:
  assumes "valid_entries N"
  obtains p where "init_dict (u16_table N) (replicate N 0) (trimmed_dict dict) = Ok (p, trimmed_dict dict)"
    "dict_ok N (replicate N 0) p 1 (trimmed_dict dict)"
proof -
  have "length (replicate N 0 :: HashTableU32U16) = N \<and> 0 < N" using valid_entries_pos [OF assms] by simp
  moreover have "length (trimmed_dict dict) \<le> WINDOW_SIZE"
    unfolding trimmed_dict_eq by (rule effective_dict_window)
  ultimately show thesis
    using u16.init_dict_ok [where N = N and t = "replicate N 0" and dict = "trimmed_dict dict"] that assms
    by (auto simp: entries_below_zeros dict_ok_def u16_max_def entries_below_replicate)
qed

inductive DictCompressorRefN_reachable :: "nat \<Rightarrow> bytes \<Rightarrow> DictCompressorRefN \<Rightarrow> bool" for N dict where
  created: "DictCompressorRefN_new N dict = Ok self \<Longrightarrow> DictCompressorRefN_reachable N dict self"
| compressed: "DictCompressorRefN_reachable N dict self \<Longrightarrow> length input * 110 < 2 ^ 64 \<Longrightarrow>
    DictCompressorRefN_compress_into self input out = Ok (n, self', out') \<Longrightarrow> DictCompressorRefN_reachable N dict self'"
| refused: "DictCompressorRefN_reachable N dict self \<Longrightarrow> length input * 110 < 2 ^ 64 \<Longrightarrow>
    DictCompressorRefN_compress_into self input out = Err (e, self') \<Longrightarrow> DictCompressorRefN_reachable N dict self'"

abbreviation DictCompressorRefN_ok :: "nat \<Rightarrow> bytes \<Rightarrow> DictCompressorRefN \<Rightarrow> bool" where
  "DictCompressorRefN_ok N dict self \<equiv>
     dc_dict self = trimmed_dict dict \<and>
     dict_ok N (dc_table self) (dc_pristine self) (dc_main_base self) (dc_dict self)"

lemma DictCompressorRefN_new_ok:
  assumes "DictCompressorRefN_new N dict = Ok self"
  shows "DictCompressorRefN_ok N dict self"
proof -
  have v: "valid_entries N"
    using assms by (simp add: DictCompressorRefN_new_eq split: if_splits)
  obtain p where "init_dict (u16_table N) (replicate N 0) (trimmed_dict dict) = Ok (p, trimmed_dict dict)"
    "dict_ok N (replicate N 0) p 1 (trimmed_dict dict)" by (rule new_tables [OF v])
  with assms v show ?thesis by (auto simp: DictCompressorRefN_new_eq)
qed

lemma DictCompressorRefN_call:
  assumes "DictCompressorRefN_ok N dict self" "length input * 110 < 2 ^ 64"
  obtains (fits) blk tail self' where "20 + length input * 110 div 100 \<le> length out"
      "DictCompressorRefN_compress_into self input out = Ok (length blk, self', blk @ tail)"
      "length (blk @ tail) = length out" "encodes (trimmed_dict dict) input blk" "DictCompressorRefN_ok N dict self'"
    | (small) self' where "length out < 20 + length input * 110 div 100"
      "DictCompressorRefN_compress_into self input out = Err (CompressOutputTooSmall, self')"
      "DictCompressorRefN_ok N dict self'"
proof -
  let ?r = "compress_dict_tables (dc_table self) (dc_pristine self) (dc_main_base self) (dc_dict self) input out"
  let ?upd = "\<lambda>t p b. self\<lparr>dc_table := t, dc_pristine := p, dc_main_base := b\<rparr>"
  have r: "dict_call_ok N (dc_dict self) input out ?r" using assms by (intro compress_dict_tables_ok) auto
  show thesis
  proof (cases "20 + length input * 110 div 100 \<le> length out")
    case True
    with r obtain blk tail t p b where "?r = Ok (length blk, t, p, b, blk @ tail)" "length (blk @ tail) = length out"
      "encodes (dc_dict self) input blk" "dict_ok N t p b (dc_dict self)" by (auto simp: dict_call_ok_def)
    with True assms(1) fits [of blk "?upd t p b" tail] show thesis
      by (simp add: DictCompressorRefN_compress_into_def)
  next
    case False
    with r obtain t p b where "?r = Err (CompressOutputTooSmall, t, p, b)" "dict_ok N t p b (dc_dict self)"
      by (auto simp: dict_call_ok_def)
    with False assms(1) small [of "?upd t p b"] show thesis
      by (simp add: DictCompressorRefN_compress_into_def)
  qed
qed

lemma DictCompressorRefN_reachable_ok: "DictCompressorRefN_reachable N dict self \<Longrightarrow> DictCompressorRefN_ok N dict self"
proof (induction rule: DictCompressorRefN_reachable.induct)
  case (created self)
  then show ?case by (rule DictCompressorRefN_new_ok)
next
  case (compressed self input out n self' out')
  show ?case
    by (rule DictCompressorRefN_call [OF compressed.IH compressed.hyps(2), of out]) (use compressed.hyps(3) in auto)
next
  case (refused self input out e self')
  show ?case
    by (rule DictCompressorRefN_call [OF refused.IH refused.hyps(2), of out]) (use refused.hyps(3) in auto)
qed

text \<open>The owning compressors are the borrowing ones with other field names.\<close>

definition as_ref :: "DictCompressorN \<Rightarrow> DictCompressorRefN" where
  "as_ref c = \<lparr>dc_table = dcn_table c, dc_pristine = dcn_pristine c, dc_main_base = dcn_main_base c, dc_dict = dcn_dict c\<rparr>"

fun out_map :: "('a \<Rightarrow> 'b) \<Rightarrow> ('e \<times> 'a, nat \<times> 'a \<times> bytes) outcome \<Rightarrow> ('e \<times> 'b, nat \<times> 'b \<times> bytes) outcome" where
  "out_map f (Ok (n, c, out)) = Ok (n, f c, out)"
| "out_map f (Err (e, c)) = Err (e, f c)"
| "out_map f Panic = Panic"
| "out_map f Diverge = Diverge"

lemma unwrap_out_map:
  "obind (unwrap (out_map f r)) (\<lambda>(n, self, out). Ok (take n out, self)) =
   obind (obind (unwrap r) (\<lambda>(n, self, out). Ok (take n out, self))) (\<lambda>(out, c). Ok (out, f c))"
  by (cases r) auto

lemma DictCompressorN_compress_into_eq:
  "DictCompressorRefN_compress_into (as_ref c) input out = out_map as_ref (DictCompressorN_compress_into c input out)"
  by (cases "compress_dict_tables (dcn_table c) (dcn_pristine c) (dcn_main_base c) (dcn_dict c) input out")
    (auto simp: DictCompressorRefN_compress_into_def DictCompressorN_compress_into_def as_ref_def)

text \<open>Every call of a compressor with room for the block gives a block of the input.\<close>

lemma CompressorRefN_into_ok:
  assumes "CompressorRefN_ok N self" "length input * 110 < 2 ^ 64" "20 + length input * 110 div 100 \<le> length out"
  shows "\<exists>blk tail self'. CompressorRefN_compress_into self input out = Ok (length blk, self', blk @ tail) \<and>
    length (blk @ tail) = length out \<and> lz4_block [] [] blk input \<and> CompressorRefN_ok N self'"
  by (rule CompressorRefN_call [OF assms(1,2), of out]) (use assms(3) in \<open>auto simp: encodes_def\<close>)

lemma DictCompressorRefN_into_ok:
  assumes "DictCompressorRefN_ok N dict self" "length input * 110 < 2 ^ 64" "20 + length input * 110 div 100 \<le> length out"
  shows "\<exists>blk tail self'. DictCompressorRefN_compress_into self input out = Ok (length blk, self', blk @ tail) \<and>
    length (blk @ tail) = length out \<and> lz4_block dict [] blk input \<and> DictCompressorRefN_ok N dict self'"
proof (rule DictCompressorRefN_call [OF assms(1,2), of out])
  fix blk tail self'
  assume c: "DictCompressorRefN_compress_into self input out = Ok (length blk, self', blk @ tail)"
    "length (blk @ tail) = length out" "encodes (trimmed_dict dict) input blk" "DictCompressorRefN_ok N dict self'"
  then have "lz4_block dict [] blk input"
    using effective_dict_decodes [of True dict] by (simp add: encodes_def trimmed_dict_eq)
  with c show ?thesis by blast
qed (use assms(3) in simp)

lemma DictCompressorN_into_ok:
  assumes "DictCompressorRefN_ok N dict (as_ref self)" "length input * 110 < 2 ^ 64" "20 + length input * 110 div 100 \<le> length out"
  shows "\<exists>blk tail self'. DictCompressorN_compress_into self input out = Ok (length blk, self', blk @ tail) \<and>
    length (blk @ tail) = length out \<and> lz4_block dict [] blk input \<and> DictCompressorRefN_ok N dict (as_ref self')"
proof -
  obtain blk tail r where r: "DictCompressorRefN_compress_into (as_ref self) input out = Ok (length blk, r, blk @ tail)"
    "length (blk @ tail) = length out" "lz4_block dict [] blk input" "DictCompressorRefN_ok N dict r"
    using DictCompressorRefN_into_ok [OF assms] by blast
  from r(1) obtain self' where "DictCompressorN_compress_into self input out = Ok (length blk, self', blk @ tail)" "r = as_ref self'"
    unfolding DictCompressorN_compress_into_eq by (cases "DictCompressorN_compress_into self input out") auto
  with r show ?thesis by blast
qed

lemma CompressorN_compress_ok:
  assumes "CompressorRefN_ok N (inner self)" "length input * 110 < 2 ^ 64"
  shows "\<exists>blk self'. CompressorN_compress self input = (Ok (blk, self') :: ('e, _) outcome) \<and>
    lz4_block [] [] blk input \<and> CompressorRefN_ok N (inner self')"
proof -
  let ?out = "replicate (20 + length input * 110 div 100) 0 :: bytes"
  obtain blk tail c where "CompressorRefN_compress_into (inner self) input ?out = Ok (length blk, c, blk @ tail)"
    "lz4_block [] [] blk input" "CompressorRefN_ok N c"
    using CompressorRefN_into_ok [OF assms, of ?out] by auto
  then show ?thesis using get_maximum_output_size_eq [OF assms(2), where ?'a = 'e]
    by (intro exI [of _ blk] exI [of _ "self\<lparr>inner := c\<rparr>"]) (simp add: CompressorN_compress_def CompressorRefN_compress_def)
qed

lemma DictCompressorN_compress_ok:
  assumes "DictCompressorRefN_ok N dict (as_ref self)" "length input * 110 < 2 ^ 64"
  shows "\<exists>blk self'. DictCompressorN_compress self input = (Ok (blk, self') :: ('e, _) outcome) \<and>
    lz4_block dict [] blk input \<and> length blk \<le> 20 + length input * 110 div 100 \<and> DictCompressorRefN_ok N dict (as_ref self')"
proof -
  let ?out = "replicate (20 + length input * 110 div 100) 0 :: bytes"
  obtain blk tail c where c: "DictCompressorN_compress_into self input ?out = Ok (length blk, c, blk @ tail)"
    "length blk + length tail = length ?out" "lz4_block dict [] blk input" "DictCompressorRefN_ok N dict (as_ref c)"
    using DictCompressorN_into_ok [OF assms, of ?out] by auto
  have "DictCompressorN_compress self input = (Ok (blk, c) :: ('e, _) outcome)"
    using c(1) get_maximum_output_size_eq [OF assms(2), where ?'a = 'e] by (simp add: DictCompressorN_compress_def)
  moreover from c(2) have "length blk \<le> 20 + length input * 110 div 100" by simp
  ultimately show ?thesis using c(3,4) by blast
qed

lemma new_compressors_ok:
  assumes "valid_entries N"
  shows "\<exists>c. CompressorRefN_new N = (Ok c :: ('e, _) outcome) \<and> CompressorRefN_ok N c"
    "\<exists>c. DictCompressorRefN_new N dict = Ok c \<and> DictCompressorRefN_ok N dict c"
    "\<exists>c. DictCompressorN_new N dict = Ok c \<and> DictCompressorRefN_ok N dict (as_ref c)"
proof -
  show "\<exists>c. CompressorRefN_new N = (Ok c :: ('e, _) outcome) \<and> CompressorRefN_ok N c"
    using assms by (auto simp: CompressorRefN_new_ok plain_ok_def entries_below_replicate)
  obtain p where p: "init_dict (u16_table N) (replicate N 0) (trimmed_dict dict) = Ok (p, trimmed_dict dict)"
    "dict_ok N (replicate N 0) p 1 (trimmed_dict dict)" by (rule new_tables [OF assms])
  with assms show "\<exists>c. DictCompressorRefN_new N dict = Ok c \<and> DictCompressorRefN_ok N dict c"
    "\<exists>c. DictCompressorN_new N dict = Ok c \<and> DictCompressorRefN_ok N dict (as_ref c)"
    by (simp_all add: DictCompressorRefN_new_eq DictCompressorN_new_eq as_ref_def)
qed

section \<open>Properties\<close>

text \<open>
  C4: every call on a compressor that has been used before, any number of times and also after
  calls that failed, succeeds when the buffer has the maximum size, and the block decodes to
  the input of this call.
\<close>

theorem CompressorRefN_every_call:
  assumes "CompressorRefN_reachable N self" "length input * 110 < 2 ^ 64"
    "20 + length input * 110 div 100 \<le> length out"
  shows "\<exists>n self' out'. CompressorRefN_compress_into self input out = Ok (n, self', out') \<and>
    n \<le> 20 + length input * 110 div 100 \<and> decompress (take n out') (length input) = Ok input"
proof (rule CompressorRefN_call [OF CompressorRefN_reachable_ok [OF assms(1)] assms(2), of out])
  fix blk tail self'
  assume c: "CompressorRefN_compress_into self input out = Ok (length blk, self', blk @ tail)" "encodes [] input blk"
  have "length input + 4 \<le> usize_max" using assms(2) by (simp add: usize_max_def)
  with c(2) have "decode_block [] (length input) [] blk = Ok input"
    by (intro decode_block_complete) (auto simp: encodes_def)
  with assms(2) c encodes_bound [OF c(2)] show ?thesis by (simp add: decompress_eq isize_max_def)
qed (use assms(3) in simp)

theorem CompressorRefN_every_call_witness:
  "\<exists>n self' out'. CompressorRefN_compress_into \<lparr>cr_table = replicate 256 0, cr_stream_offset = 0\<rparr> [7, 7] (replicate 22 0) =
     Ok (n, self', out') \<and> n \<le> 22 \<and> decompress (take n out') 2 = Ok [7, 7]"
proof -
  have l: "length ([7, 7] :: bytes) = 2" by simp
  from CompressorRefN_every_call [OF CompressorRefN_reachable_256, of "[7, 7]" "replicate 22 0", unfolded l] show ?thesis by simp
qed

text \<open>
  C24: in every state a compressor reaches, every entry of its table is a position below the
  offset of the stream, or zero while that offset is still zero, so that the next call can tell
  the entries of earlier calls from its own, and the table has its size.
\<close>

theorem CompressorRefN_invariant:
  assumes "CompressorRefN_reachable N self"
  shows "length (cr_table self) = N \<and> (\<forall>x \<in> set (cr_table self). unat x < max 1 (cr_stream_offset self))"
  using CompressorRefN_reachable_ok [OF assms] by (simp add: plain_ok_def entries_below_def)

theorem CompressorRefN_invariant_witness:
  "\<exists>n self' out'. CompressorRefN_compress_into \<lparr>cr_table = replicate 256 0, cr_stream_offset = 0\<rparr> [7, 7] (replicate 22 0) = Ok (n, self', out') \<and>
     length (cr_table self') = 256 \<and> (\<forall>x \<in> set (cr_table self'). unat x < max 1 (cr_stream_offset self'))"
proof -
  have l: "length ([7, 7] :: bytes) * 110 < 2 ^ 64" by simp
  show ?thesis
  proof (rule CompressorRefN_call [OF CompressorRefN_reachable_ok [OF CompressorRefN_reachable_256] l, of "replicate 22 0"])
    fix blk tail self'
    assume c: "CompressorRefN_compress_into \<lparr>cr_table = replicate 256 0, cr_stream_offset = 0\<rparr> [7, 7] (replicate 22 0) =
      Ok (length blk, self', blk @ tail)"
    from CompressorRefN_invariant [OF CompressorRefN_reachable.compressed [OF CompressorRefN_reachable_256 l c]] c
    show ?thesis by blast
  qed simp
qed

text \<open>
  C5: every call on a dictionary compressor in a state it can reach succeeds when the buffer has
  the maximum size, and the decoder with the dictionary the compressor was created with gives
  the input of this call; the dictionary itself never changes.
\<close>

theorem DictCompressorRefN_every_call:
  assumes "DictCompressorRefN_reachable N dict self" "length input * 110 < 2 ^ 64"
    "20 + length input * 110 div 100 \<le> length out" "length input \<le> length buf" "length buf + 4 \<le> usize_max"
  shows "\<exists>n self' out' tail. DictCompressorRefN_compress_into self input out = Ok (n, self', out') \<and>
    n \<le> 20 + length input * 110 div 100 \<and> dc_dict self' = dc_dict self \<and>
    decompress_into_with_dict (take n out') buf dict = Ok (length input, input @ tail)"
proof (rule DictCompressorRefN_call [OF DictCompressorRefN_reachable_ok [OF assms(1)] assms(2), of out])
  fix blk tail self'
  assume c: "DictCompressorRefN_compress_into self input out = Ok (length blk, self', blk @ tail)"
    "encodes (trimmed_dict dict) input blk" "DictCompressorRefN_ok N dict self'"
  obtain tl where "decompress_into_with_dict blk buf dict = Ok (length input, input @ tl)"
    using encodes_decodes [OF c(2) [unfolded trimmed_dict_eq] assms(4,5)] by blast
  with c encodes_bound [OF c(2)] DictCompressorRefN_reachable_ok [OF assms(1)] show ?thesis by simp
qed (use assms(3) in simp)

theorem DictCompressorRefN_every_call_witness:
  "\<exists>self. DictCompressorRefN_new 256 [1, 2, 3, 4] = Ok self \<and>
     (\<exists>n self' out' tail. DictCompressorRefN_compress_into self [7, 7] (replicate 22 0) = Ok (n, self', out') \<and>
       n \<le> 22 \<and> dc_dict self' = dc_dict self \<and>
       decompress_into_with_dict (take n out') [0, 0] [1, 2, 3, 4] = Ok (2, [7, 7] @ tail))"
proof -
  have l: "length ([7, 7] :: bytes) = 2" "length ([0, 0] :: bytes) = 2" by simp_all
  obtain p where "init_dict (u16_table 256) (replicate 256 0) (trimmed_dict [1, 2, 3, 4]) = Ok (p, trimmed_dict [1, 2, 3, 4])"
    by (rule new_tables [OF valid_entries_256])
  then obtain self where self: "DictCompressorRefN_new 256 [1, 2, 3, 4] = Ok self"
    using valid_entries_256 by (simp add: DictCompressorRefN_new_eq)
  from DictCompressorRefN_every_call [OF DictCompressorRefN_reachable.created [OF this], of "[7, 7]" "replicate 22 0" "[0, 0]", unfolded l]
  show ?thesis using self by (auto simp: const_defs)
qed

text \<open>
  The owning dictionary compressor does what the borrowing one does, in every operation and
  on every input, failures included.
\<close>

lemma DictCompressorN_is_ref:
  "DictCompressorRefN_new N dict = obind (DictCompressorN_new N dict) (\<lambda>c. Ok (as_ref c)) \<and>
   DictCompressorRefN_compress_into (as_ref c) input out = out_map as_ref (DictCompressorN_compress_into c input out) \<and>
   DictCompressorRefN_compress (as_ref c) input =
     obind (DictCompressorN_compress c input) (\<lambda>(out, c). Ok (out, as_ref c))"
proof -
  have "DictCompressorRefN_new N dict = obind (DictCompressorN_new N dict) (\<lambda>c. Ok (as_ref c))"
    by (cases "init_dict (u16_table N) (replicate N 0) (trimmed_dict dict)")
      (auto simp: DictCompressorRefN_new_eq DictCompressorN_new_eq as_ref_def)
  moreover have "DictCompressorRefN_compress (as_ref c) input =
      obind (DictCompressorN_compress c input) (\<lambda>(out, c). Ok (out, as_ref c))"
    by (simp only: DictCompressorRefN_compress_def DictCompressorN_compress_def
        DictCompressorN_compress_into_eq unwrap_out_map obind_assoc)
  ultimately show ?thesis using DictCompressorN_compress_into_eq by blast
qed

text \<open>
  C35: the owning compressor without a dictionary wraps the borrowing one: in every reachable state
  its \<open>compress\<close> returns a block that decodes to the input, and never fails.
\<close>

theorem CompressorN_compress_round_trip:
  assumes "CompressorRefN_reachable N (inner self)" "length input * 110 < 2 ^ 64"
  shows "\<exists>blk self'. CompressorN_compress self input = (Ok (blk, self') :: ('e, bytes \<times> CompressorN) outcome) \<and>
    length blk \<le> 20 + length input * 110 div 100 \<and> decompress blk (length input) = Ok input \<and>
    CompressorRefN_reachable N (inner self')"
proof -
  let ?out = "replicate (20 + length input * 110 div 100) 0 :: bytes"
  show ?thesis
  proof (rule CompressorRefN_call [OF CompressorRefN_reachable_ok [OF assms(1)] assms(2), of ?out])
    fix blk tail c
    assume c: "CompressorRefN_compress_into (inner self) input ?out = Ok (length blk, c, blk @ tail)" "encodes [] input blk"
    have "length input + 4 \<le> usize_max" using assms(2) by (simp add: usize_max_def)
    with c(2) have "decode_block [] (length input) [] blk = Ok input"
      by (intro decode_block_complete) (auto simp: encodes_def)
    moreover have "CompressorN_compress self input = (Ok (blk, self\<lparr>inner := c\<rparr>) :: ('e, bytes \<times> CompressorN) outcome)"
      using c(1) get_maximum_output_size_eq [OF assms(2), where ?'a = 'e]
      by (simp add: CompressorN_compress_def CompressorRefN_compress_def)
    moreover have "CompressorRefN_reachable N c"
      using CompressorRefN_reachable.compressed [OF assms(1,2) c(1)] .
    ultimately show ?thesis using encodes_bound [OF c(2)] assms(2) by (simp add: decompress_eq isize_max_def)
  qed simp
qed

theorem CompressorN_compress_round_trip_witness:
  "\<exists>blk self'. CompressorN_compress \<lparr>inner = \<lparr>cr_table = replicate 256 0, cr_stream_offset = 0\<rparr>\<rparr> [7, 7] =
       (Ok (blk, self') :: (CompressError, bytes \<times> CompressorN) outcome) \<and>
     length blk \<le> 22 \<and> decompress blk 2 = Ok [7, 7] \<and> CompressorRefN_reachable 256 (inner self')"
proof -
  let ?c = "\<lparr>inner = \<lparr>cr_table = replicate 256 0, cr_stream_offset = 0\<rparr>\<rparr>"
  have l: "length ([7, 7] :: bytes) = 2" by simp
  have "CompressorRefN_reachable 256 (inner ?c)" using CompressorRefN_reachable_256 by simp
  from CompressorN_compress_round_trip [OF this, of "[7, 7]", where ?'e = CompressError, unfolded l] show ?thesis by simp
qed

end
