(* ===== verification/Error_Text.thy ===== *)
theory Error_Text
  imports Frame_Decoder "HOL-Library.Char_ord"
begin

text \<open>
  The texts of the errors: the \<^verbatim>\<open>Display\<close> impls of \<^verbatim>\<open>crates/core/src/lib.rs\<close> and
  \<^verbatim>\<open>src/frame/mod.rs\<close>.  The texts the standard library gives its own errors are a parameter.
\<close>

section \<open>Numbers\<close>

definition digit :: "nat \<Rightarrow> char" where
  "digit d = (if d < 10 then char_of (48 + d) else char_of (87 + d))"

text \<open>\<^verbatim>\<open>{n}\<close>, and \<^verbatim>\<open>{n:#010x}\<close> of 32 bits\<close>

fun decimal :: "nat \<Rightarrow> string" where
  "decimal n = (if n < 10 then [digit n] else decimal (n div 10) @ [digit (n mod 10)])"

declare decimal.simps [simp del]

definition hex_32 :: "32 word \<Rightarrow> string" where
  "hex_32 w = ''0x'' @ map (\<lambda>i. digit (unat w div 16 ^ (7 - i) mod 16)) [0..<8]"

section \<open>Blocks\<close>

fun DecompressError_text :: "DecompressError \<Rightarrow> string" where
  "DecompressError_text (OutputTooSmall expected actual) =
     ''provided output is too small for the decompressed data, actual '' @ decimal actual @ '', expected '' @ decimal expected"
| "DecompressError_text LiteralOutOfBounds = ''literal is out of bounds of the input''"
| "DecompressError_text ExpectedAnotherByte = ''expected another byte, found none''"
| "DecompressError_text OffsetZero = ''0 is not a valid match offset''"
| "DecompressError_text OffsetOutOfBounds = ''the offset to copy is not contained in the decompressed buffer''"
| "DecompressError_text (DecodedSizeMismatch expected actual) =
     ''decoded size mismatch, expected '' @ decimal expected @ '', got '' @ decimal actual"

fun CompressError_text :: "CompressError \<Rightarrow> string" where
  "CompressError_text CompressOutputTooSmall =
     ''output is too small for the compressed data, use get_maximum_output_size to reserve enough space''"
| "CompressError_text InputTooLarge = ''input or compression stream is too large for this target''"

section \<open>Frames\<close>

fun Error_text :: "(io_kind \<Rightarrow> string \<Rightarrow> string) \<Rightarrow> Error \<Rightarrow> string"
and io_error_text :: "(io_kind \<Rightarrow> string \<Rightarrow> string) \<Rightarrow> io_error \<Rightarrow> string" where
  "Error_text std (CompressionError e) = ''compression error: '' @ CompressError_text e"
| "Error_text std (DecompressionError e) = ''decompression error: '' @ DecompressError_text e"
| "Error_text std (IoError e) = ''I/O error: '' @ io_error_text std e"
| "Error_text std (UnsupportedBlocksize b) = ''unsupported block size: '' @ decimal (unat b)"
| "Error_text std (UnsupportedVersion v) = ''unsupported frame version: '' @ decimal (unat v)"
| "Error_text std WrongMagicNumber = ''wrong magic number''"
| "Error_text std ReservedBitsSet = ''reserved bits set in frame descriptor''"
| "Error_text std InvalidBlockInfo = ''invalid block header''"
| "Error_text std BlockTooBig = ''block larger than frame header allows''"
| "Error_text std HeaderChecksumError = ''frame header checksum mismatch''"
| "Error_text std BlockChecksumError = ''block checksum mismatch''"
| "Error_text std ContentChecksumError = ''content checksum mismatch''"
| "Error_text std (SkippableFrame len) = ''skippable frame ('' @ decimal (unat len) @ '' bytes)''"
| "Error_text std DictionaryRequiresIndependentBlocks = ''dictionary frames can use independent or linked blocks''"
| "Error_text std DictionaryNotSupported = ''frame declares a dictionary but no dictionary was provided''"
| "Error_text std DictionaryRequired = ''decoder has a dictionary but frame does not declare one''"
| "Error_text std (DictIdMismatch expected actual) =
     ''dictionary ID mismatch: frame declares '' @ hex_32 expected @ '', decoder has '' @ hex_32 actual"
| "Error_text std (DecompressedSizeLimit limit actual) =
     ''decompressed size limit exceeded: limit '' @ decimal limit @ '', got '' @ decimal actual"
| "Error_text std (ContentLengthError expected actual) =
     ''content length mismatch: expected '' @ decimal (unat expected) @ '', got '' @ decimal (unat actual)"
| "io_error_text std (Plain kind msg) = std kind msg"
| "io_error_text std (Carries kind e) = Error_text std e"

section \<open>The numbers can be read off\<close>

definition is_digit :: "char \<Rightarrow> bool" where
  "is_digit c \<longleftrightarrow> of_char c \<in> {48 :: nat..57}"

fun value_of :: "string \<Rightarrow> nat" where
  "value_of s = foldl (\<lambda>n c. 10 * n + (of_char c - 48)) 0 s"

lemma of_char_digit: "d < 10 \<Longrightarrow> of_char (digit d) = 48 + d"
  by (simp add: digit_def)

lemma decimal_digits: "c \<in> set (decimal n) \<Longrightarrow> is_digit c"
proof (induction n rule: decimal.induct)
  case (1 n)
  then show ?case by (auto simp: decimal.simps [of n] is_digit_def of_char_digit split: if_splits)
qed

lemma value_of_decimal [simp]: "value_of (decimal n) = n"
proof (induction n rule: decimal.induct)
  case (1 n)
  then show ?case by (simp add: decimal.simps [of n] of_char_digit)
qed

lemma decimal_inj [simp]: "decimal m = decimal n \<longleftrightarrow> m = n"
  by (metis value_of_decimal)

text \<open>A number ends where a character follows that is no digit.\<close>

lemma decimal_append_inj:
  assumes "\<not> is_digit c"
  shows "decimal m @ c # s = decimal n @ c # t \<longleftrightarrow> m = n \<and> s = t"
proof -
  have split: "takeWhile is_digit (decimal k @ c # u) = decimal k" for k u
    using assms decimal_digits [of _ k] by (subst takeWhile_append2) auto
  show ?thesis by (metis split append_same_eq decimal_inj append_eq_append_conv list.inject)
qed

text \<open>The text of a decoding error determines the error.\<close>

lemma DecompressError_text_inj: "DecompressError_text e = DecompressError_text e' \<longleftrightarrow> e = e'"
  by (cases e; cases e') (auto simp: decimal_append_inj is_digit_def)

text \<open>
  A frame whose Dict_ID differs from that of the decoder: the text of the error calls the Dict_ID
  of the decoder the one that the frame declares, and the other way round.
\<close>

lemma dict_id_mismatch_text:
  assumes "in_frame \<noteq> in_decoder"
  shows "map_err (Error_text std) (check_dict_id (Some in_frame) (Some in_decoder)) =
    Err (''dictionary ID mismatch: frame declares '' @ hex_32 in_decoder @ '', decoder has '' @ hex_32 in_frame)"
  using assms by (simp add: check_dict_id_def)

end
