(* ===== verification/Wasm_Binding.thy ===== *)
theory Wasm_Binding
  imports Compressors Frame_Properties Dict_Trainer_Correct Error_Text
begin

text \<open>
  \<^verbatim>\<open>jsr/wasm/src/lib.rs\<close>: the functions and classes that JavaScript calls.  A \<^verbatim>\<open>JsError\<close> is the
  text the code formats, here kept as the error it is formatted from; \<open>JsError_text\<close> gives the text.
  The crate has no code of its own for a pointer width, but the library below it has; here it is
  the one of the other theories, that of a 64-bit target.  The published package is built for wasm32,
  where the library hashes and checks its bounds in other ways, so the lemmas on round trips are
  about a 64-bit build of the binding and not about that package.
\<close>

unbundle bit_operations_syntax

section \<open>Blocks\<close>

datatype JsError =
    Js_decompress DecompressError
  | Js_frame Error
  | Js_io io_error
  | Js_size_mismatch nat nat
  | Js_consumed

fun JsError_text :: "(io_kind \<Rightarrow> string \<Rightarrow> string) \<Rightarrow> JsError \<Rightarrow> string" where
  "JsError_text std (Js_decompress e) = DecompressError_text e"
| "JsError_text std (Js_frame e) = Error_text std e"
| "JsError_text std (Js_io e) = io_error_text std e"
| "JsError_text std (Js_size_mismatch expected got) =
     ''decompressed size mismatch: expected '' @ decimal expected @ '', got '' @ decimal got"
| "JsError_text std Js_consumed = ''DictTrainer already consumed by train()''"

definition validate_exact_size :: "bytes \<Rightarrow> nat \<Rightarrow> (JsError, bytes) outcome" where
  "validate_exact_size out uncompressed_size =
     (if length out = uncompressed_size then Ok out else Err (Js_size_mismatch uncompressed_size (length out)))"

definition compress_bound :: "nat \<Rightarrow> ('e, nat) outcome" where
  "compress_bound input_len = get_maximum_output_size input_len"

definition js_compress :: "bytes \<Rightarrow> ('e, bytes) outcome" where
  "js_compress input = compress input"

definition js_decompress :: "bytes \<Rightarrow> nat \<Rightarrow> (JsError, bytes) outcome" where
  "js_decompress input uncompressed_size =
     obind (map_err Js_decompress (decompress input uncompressed_size)) (\<lambda>out.
     validate_exact_size out uncompressed_size)"

datatype CompressorInner = Plain_compressor CompressorN | Dict_compressor DictCompressorN

record JsCompressor =
  jc_inner :: CompressorInner

definition JsCompressor_new :: "('e, JsCompressor) outcome" where
  "JsCompressor_new = obind (CompressorN_new DEFAULT_NODICT_ENTRIES) (\<lambda>c. Ok \<lparr>jc_inner = Plain_compressor c\<rparr>)"

text \<open>The constructor below returns no error; \<open>unwrap\<close> only changes the type.\<close>

definition JsCompressor_with_dict :: "bytes \<Rightarrow> ('e, JsCompressor) outcome" where
  "JsCompressor_with_dict dict =
     obind (unwrap (DictCompressorN_new DEFAULT_DICT_ENTRIES dict)) (\<lambda>c. Ok \<lparr>jc_inner = Dict_compressor c\<rparr>)"

definition JsCompressor_compress :: "JsCompressor \<Rightarrow> bytes \<Rightarrow> ('e, bytes \<times> JsCompressor) outcome" where
  "JsCompressor_compress self input =
     (case jc_inner self of
        Plain_compressor c \<Rightarrow>
          obind (CompressorN_compress c input) (\<lambda>(out, c). Ok (out, self\<lparr>jc_inner := Plain_compressor c\<rparr>))
      | Dict_compressor c \<Rightarrow>
          obind (DictCompressorN_compress c input) (\<lambda>(out, c). Ok (out, self\<lparr>jc_inner := Dict_compressor c\<rparr>)))"

record JsDecompressor =
  jd_inner :: Decompressor

definition JsDecompressor_new :: JsDecompressor where
  "JsDecompressor_new = \<lparr>jd_inner = Decompressor_new\<rparr>"

definition JsDecompressor_with_dict :: "bytes \<Rightarrow> JsDecompressor" where
  "JsDecompressor_with_dict dict = \<lparr>jd_inner = Decompressor_with_dict dict\<rparr>"

definition JsDecompressor_decompress :: "JsDecompressor \<Rightarrow> bytes \<Rightarrow> nat \<Rightarrow> (JsError, bytes) outcome" where
  "JsDecompressor_decompress self input uncompressed_size =
     obind (map_err Js_decompress (Decompressor_decompress (jd_inner self) input uncompressed_size)) (\<lambda>out.
     validate_exact_size out uncompressed_size)"

section \<open>Frames\<close>

definition FLAG_HAS_DICTIONARY :: "32 word" where "FLAG_HAS_DICTIONARY = push_bit 0 1"
definition FLAG_LINKED_BLOCKS :: "32 word" where "FLAG_LINKED_BLOCKS = push_bit 1 1"
definition FLAG_BLOCK_CHECKSUMS :: "32 word" where "FLAG_BLOCK_CHECKSUMS = push_bit 2 1"
definition FLAG_CONTENT_CHECKSUM :: "32 word" where "FLAG_CONTENT_CHECKSUM = push_bit 3 1"
definition FLAG_CONTENT_SIZE :: "32 word" where "FLAG_CONTENT_SIZE = push_bit 4 1"

text \<open>
  The provided method \<^verbatim>\<open>Write::write_all\<close> over the \<^verbatim>\<open>write\<close> of the encoder: it repeats until all is
  written, and tries again after an interruption.
\<close>

fun encoder_write_all ::
  "nat \<Rightarrow> 'h hasher \<Rightarrow> 'w io_write \<Rightarrow> ('h, 'w) FrameEncoder \<Rightarrow> bytes \<Rightarrow> ('h, 'w) io_step" where
  "encoder_write_all 0 H W self buf = Diverge"
| "encoder_write_all (Suc fuel) H W self buf =
     (if buf = [] then Ok self
      else case FrameEncoder_write H W self buf of
        Ok (n, self) \<Rightarrow>
          if n = 0 then Err (Plain WriteZero ''failed to write whole buffer'', self)
          else if n \<le> length buf then encoder_write_all fuel H W self (drop n buf) else Panic
      | Err (e, self) \<Rightarrow>
          if kind_of e = Interrupted then encoder_write_all fuel H W self buf else Err (e, self)
      | Panic \<Rightarrow> Panic
      | Diverge \<Rightarrow> Diverge)"

definition frame_info_of_flags :: "32 word \<Rightarrow> nat \<Rightarrow> FrameInfo" where
  "frame_info_of_flags flags input_len =
     (let frame_info = FrameInfo_content_checksum
            (FrameInfo_block_checksums FrameInfo_new (flags AND FLAG_BLOCK_CHECKSUMS \<noteq> 0))
            (flags AND FLAG_CONTENT_CHECKSUM \<noteq> 0);
          frame_info = (if flags AND FLAG_LINKED_BLOCKS \<noteq> 0 then FrameInfo_block_mode frame_info Linked else frame_info) in
      if flags AND FLAG_CONTENT_SIZE \<noteq> 0 then FrameInfo_content_size frame_info (Some (word_of_nat input_len)) else frame_info)"

definition compress_frame :: "'h hasher \<Rightarrow> bytes \<Rightarrow> bytes \<Rightarrow> 32 word \<Rightarrow> 32 word \<Rightarrow> (JsError, bytes) outcome" where
  "compress_frame H input dictionary did flags =
     (let frame_info = frame_info_of_flags flags (length input) in
      obind (if flags AND FLAG_HAS_DICTIONARY \<noteq> 0
          then map_err Js_frame (FrameEncoder_with_dictionary H [] dictionary did (Some frame_info))
          else FrameEncoder_with_frame_info H frame_info []) (\<lambda>enc.
      obind (map_err (\<lambda>(e, _). Js_io e) (encoder_write_all (length input + 2) H vec_writer enc input)) (\<lambda>enc.
      map_err Js_frame (finish H vec_writer enc))))"

definition decompress_frame ::
  "'h hasher \<Rightarrow> bytes \<Rightarrow> bytes \<Rightarrow> 32 word \<Rightarrow> bool \<Rightarrow> nat \<Rightarrow> bool \<Rightarrow> (JsError, bytes) outcome" where
  "decompress_frame H input dictionary did has_dictionary max_output has_max_output =
     (let decoder = FrameDecoder_with_options H input
            \<lparr>opt_dictionary = (if has_dictionary then Some (dictionary, did) else None),
             opt_max_output = (if has_max_output then Some max_output else None)\<rparr> in
      obind (map_err (\<lambda>(e, _). Js_io e) (read_to_end (length input + 1) H slice_reader decoder [])) (\<lambda>(_, _, out).
      Ok out))"

section \<open>Training\<close>

record JsDictTrainer =
  jt_inner :: "DictTrainer option"

definition JsDictTrainer_new :: "nat \<Rightarrow> JsDictTrainer" where
  "JsDictTrainer_new max_dict_size = \<lparr>jt_inner = Some (DictTrainer_new max_dict_size)\<rparr>"

definition JsDictTrainer_add_sample :: "JsDictTrainer \<Rightarrow> bytes \<Rightarrow> (JsError, JsDictTrainer) outcome" where
  "JsDictTrainer_add_sample self data =
     (case jt_inner self of
        None \<Rightarrow> Err Js_consumed
      | Some trainer \<Rightarrow> obind (add_sample trainer data) (\<lambda>trainer. Ok (self\<lparr>jt_inner := Some trainer\<rparr>)))"

definition JsDictTrainer_sample_count :: "JsDictTrainer \<Rightarrow> (JsError, nat) outcome" where
  "JsDictTrainer_sample_count self =
     (case jt_inner self of None \<Rightarrow> Err Js_consumed | Some trainer \<Rightarrow> Ok (sample_count trainer))"

text \<open>\<^verbatim>\<open>take\<close> leaves nothing behind, whatever \<^verbatim>\<open>train\<close> returns.\<close>

definition JsDictTrainer_train :: "JsDictTrainer \<Rightarrow> (JsError, bytes \<times> JsDictTrainer) outcome" where
  "JsDictTrainer_train self =
     (case jt_inner self of
        None \<Rightarrow> Err Js_consumed
      | Some trainer \<Rightarrow> obind (train trainer) (\<lambda>dict. Ok (dict, self\<lparr>jt_inner := None\<rparr>)))"

section \<open>Frames round trip\<close>

lemma frame_info_of_flags [simp]:
  "dict_id (frame_info_of_flags flags n) = None"
  "content_size (frame_info_of_flags flags n) = (if flags AND FLAG_CONTENT_SIZE \<noteq> 0 then Some (word_of_nat n) else None)"
  by (simp_all add: frame_info_of_flags_def FrameInfo_content_checksum_def FrameInfo_block_checksums_def FrameInfo_new_def
      FrameInfo_block_mode_def FrameInfo_content_size_def Let_def)

text \<open>One call of \<^verbatim>\<open>write_all\<close> on a new encoder is at most one call of \<^verbatim>\<open>write\<close>.\<close>

abbreviation write_calls :: "bytes \<Rightarrow> enc_call list" where
  "write_calls input \<equiv> (if input = [] then [] else [Write input])"

lemma FrameEncoder_write_length: "FrameEncoder_write H W self buf = Ok (n, self') \<Longrightarrow> n = length buf"
  by (auto simp: FrameEncoder_write_def Let_def obind_Ok_iff split: if_splits)

lemma encoder_write_all_calls:
  assumes "run_calls H W (write_calls input) self = Ok self'" "2 \<le> fuel"
  shows "encoder_write_all fuel H W self input = Ok self'"
proof -
  obtain f where f: "fuel = Suc (Suc f)" using assms(2) by (cases fuel; cases "fuel - 1") auto
  show ?thesis
  proof (cases "input = []")
    case True
    with assms(1) show ?thesis by (simp add: f)
  next
    case False
    with assms(1) obtain n where "FrameEncoder_write H W self input = Ok (n, self')"
      by (cases "FrameEncoder_write H W self input") auto
    with FrameEncoder_write_length [OF this] False show ?thesis by (simp add: f)
  qed
qed

abbreviation flag_dictionary :: "32 word \<Rightarrow> bytes \<Rightarrow> 32 word \<Rightarrow> (bytes \<times> 32 word) option" where
  "flag_dictionary flags dictionary did \<equiv> (if flags AND FLAG_HAS_DICTIONARY \<noteq> 0 then Some (dictionary, did) else None)"

lemma compress_frame_eq:
  assumes "obind (new_encoder H [] (frame_info_of_flags flags (length input)) (flag_dictionary flags dictionary did))
    (run_calls H vec_writer (write_calls input @ [Finish_frame])) = Ok self'"
  shows "compress_frame H input dictionary did flags = Ok (fe_w self')"
proof -
  from assms obtain enc where e: "new_encoder H [] (frame_info_of_flags flags (length input)) (flag_dictionary flags dictionary did) = Ok enc"
    "run_calls H vec_writer (write_calls input @ [Finish_frame]) enc = Ok self'"
    by (auto simp: obind_Ok_iff)
  from e(2) obtain self1 where c: "run_calls H vec_writer (write_calls input) enc = Ok self1" "try_finish H vec_writer self1 = Ok self'"
    by (cases "run_calls H vec_writer (write_calls input) enc"; simp only: run_calls_append)
      (auto simp: obind_Ok_iff map_err_Ok_iff)
  have n: "(if flags AND FLAG_HAS_DICTIONARY \<noteq> 0
          then map_err Js_frame (FrameEncoder_with_dictionary H [] dictionary did (Some (frame_info_of_flags flags (length input))))
          else FrameEncoder_with_frame_info H (frame_info_of_flags flags (length input)) []) = Ok enc"
    using e(1)
    by (auto simp: new_encoder_def FrameEncoder_with_frame_info_def HashTableU32_new_def obind_Ok_iff map_err_Ok_iff split: if_splits)
  show ?thesis
    unfolding compress_frame_def Let_def n obind.simps encoder_write_all_calls [OF c(1) le_add2] map_err.simps
    by (simp add: finish_def c(2))
qed

lemma compress_frame_ok:
  assumes one: "flags AND FLAG_BLOCK_CHECKSUMS \<noteq> 0 \<Longrightarrow> oneshot_consistent H" and len: "length input < 2 ^ 64"
  shows "\<exists>wire. compress_frame H input dictionary did flags = Ok wire \<and>
    frame_stream H (options_dict (encoder_options (flag_dictionary flags dictionary did)))
      (options_dict_id (encoder_options (flag_dictionary flags dictionary did))) wire input"
proof -
  let ?info = "frame_info_of_flags flags (length input)" and ?d = "flag_dictionary flags dictionary did"
  have b: "bytes_of_calls (write_calls input) = input" by simp
  have sz: "size_matches ?info input" using len by (simp add: size_matches_def unsigned_of_nat take_bit_nat_eq_self)
  have "block_checksums ?info \<longleftrightarrow> flags AND FLAG_BLOCK_CHECKSUMS \<noteq> 0"
    by (simp add: frame_info_of_flags_def FrameInfo_content_checksum_def FrameInfo_block_checksums_def
      FrameInfo_block_mode_def FrameInfo_content_size_def Let_def)
  with one have o: "block_checksums ?info \<longrightarrow> oneshot_consistent H" by simp
  have l: "length (bytes_of_calls (write_calls input)) < 2 ^ 64" using len by simp
  have f: "Finish_frame \<notin> set (write_calls input)" by simp
  have r: "case obind (new_encoder H [] ?info ?d) (run_calls H vec_writer (write_calls input @ [Finish_frame])) of
      Ok self' \<Rightarrow> size_matches ?info input \<and>
        (\<exists>b. frame H (options_dict (encoder_options ?d))
          (?info\<lparr>dict_id := options_dict_id (encoder_options ?d), block_size := b\<rparr>) (fe_w self') input)
    | Err e \<Rightarrow> \<exists>n. content_size ?info = Some n \<and> unat n \<noteq> length input \<and>
        e = ContentLengthError n (word_of_nat (length input))
    | _ \<Rightarrow> False"
    using vec.run_one_frame [OF refl o _ l f, of ?d] unfolding b by simp
  then obtain self' where s: "obind (new_encoder H [] ?info ?d) (run_calls H vec_writer (write_calls input @ [Finish_frame])) = Ok self'"
    using len by (auto simp: unsigned_of_nat take_bit_nat_eq_self split: outcome.splits if_splits)
  from r obtain b where "frame H (options_dict (encoder_options ?d))
      (?info\<lparr>dict_id := options_dict_id (encoder_options ?d), block_size := b\<rparr>) (fe_w self') input"
    unfolding s outcome.case by blast
  from frame_stream_one [OF this] compress_frame_eq [OF s] show ?thesis by auto
qed

lemma decompress_frame_eq:
  "decompress_frame H input dictionary did has_dictionary max_output has_max_output = Ok out \<longleftrightarrow>
     frame_stream H (if has_dictionary then dictionary else []) (if has_dictionary then Some did else None) input out \<and>
     length out \<le> (if has_max_output then min max_output usize_max else usize_max)"
  "returns (decompress_frame H input dictionary did has_dictionary max_output has_max_output)"
proof -
  let ?o = "\<lparr>opt_dictionary = (if has_dictionary then Some (dictionary, did) else None),
             opt_max_output = (if has_max_output then Some max_output else None)\<rparr>"
  let ?dec = "FrameDecoder_with_options H input ?o"
  let ?r = "read_to_end (length input + 1) H slice_reader ?dec []"
  have o: "options_dict ?o = (if has_dictionary then dictionary else [])"
    "options_dict_id ?o = (if has_dictionary then Some did else None)"
    "options_limit ?o = (if has_max_output then min max_output usize_max else usize_max)"
    by (simp_all add: options_dict_def options_dict_id_def options_limit_def)
  define r where "r = ?r"
  note idle = slice.read_to_end_idle [OF new_decoder(1) [of H input ?o], where H = H and fuel = "length input + 1" and buf = "[]",
      unfolded new_decoder(2-6) o add_0 append_Nil, OF less_add_one le0, folded r_def]
  show "decompress_frame H input dictionary did has_dictionary max_output has_max_output = Ok out \<longleftrightarrow>
     frame_stream H (if has_dictionary then dictionary else []) (if has_dictionary then Some did else None) input out \<and>
     length out \<le> (if has_max_output then min max_output usize_max else usize_max)"
    unfolding idle(1) [symmetric] decompress_frame_def Let_def r_def [symmetric]
    using idle(2) by (cases r) auto
  show "returns (decompress_frame H input dictionary did has_dictionary max_output has_max_output)"
    unfolding decompress_frame_def Let_def r_def [symmetric] using idle(2) by (cases r) auto
qed

section \<open>Blocks round trip\<close>

text \<open>A compressor and a decompressor of the binding, without or with a dictionary.\<close>

definition js_compressor :: "bytes option \<Rightarrow> ('e, JsCompressor) outcome" where
  "js_compressor dictionary =
     (case dictionary of None \<Rightarrow> JsCompressor_new | Some dict \<Rightarrow> JsCompressor_with_dict dict)"

definition js_decompressor :: "bytes option \<Rightarrow> JsDecompressor" where
  "js_decompressor dictionary =
     (case dictionary of None \<Rightarrow> JsDecompressor_new | Some dict \<Rightarrow> JsDecompressor_with_dict dict)"

text \<open>The blocks of the inputs, compressed one after the other by the same object.\<close>

fun compress_all :: "JsCompressor \<Rightarrow> bytes list \<Rightarrow> ('e, bytes list) outcome" where
  "compress_all self [] = Ok []"
| "compress_all self (input # inputs) =
     obind (JsCompressor_compress self input) (\<lambda>(blk, self).
     obind (compress_all self inputs) (\<lambda>blks. Ok (blk # blks)))"

fun compressor_ok :: "CompressorInner \<Rightarrow> bytes option \<Rightarrow> bool" where
  "compressor_ok (Plain_compressor c) dictionary \<longleftrightarrow>
     dictionary = None \<and> CompressorRefN_ok DEFAULT_NODICT_ENTRIES (inner c)"
| "compressor_ok (Dict_compressor c) dictionary \<longleftrightarrow>
     (\<exists>dict. dictionary = Some dict \<and> DictCompressorRefN_ok DEFAULT_DICT_ENTRIES dict (as_ref c))"

lemma js_compressor_ok: "\<exists>c. js_compressor dictionary = (Ok c :: ('e, _) outcome) \<and> compressor_ok (jc_inner c) dictionary"
proof (cases dictionary)
  case None
  then show ?thesis using new_compressors_ok(1) [OF valid_default_entries(2), where ?'e = 'e]
    by (auto simp: js_compressor_def JsCompressor_new_def CompressorN_new_def)
next
  case (Some dict)
  obtain c where c: "DictCompressorN_new DEFAULT_DICT_ENTRIES dict = Ok c" "DictCompressorRefN_ok DEFAULT_DICT_ENTRIES dict (as_ref c)"
    using new_compressors_ok(3) [OF valid_default_entries(1)] by blast
  then have "js_compressor dictionary = (Ok \<lparr>jc_inner = Dict_compressor c\<rparr> :: ('e, _) outcome)"
    by (simp add: js_compressor_def JsCompressor_with_dict_def Some)
  with c(2) Some show ?thesis by auto
qed

lemma JsCompressor_compress_ok:
  assumes "compressor_ok (jc_inner self) dictionary" "length input * 110 < 2 ^ 64"
  shows "\<exists>blk self'. JsCompressor_compress self input = (Ok (blk, self') :: ('e, _) outcome) \<and>
    compressor_ok (jc_inner self') dictionary \<and> lz4_block (case dictionary of None \<Rightarrow> [] | Some dict \<Rightarrow> dict) [] blk input"
proof (cases "jc_inner self")
  case (Plain_compressor c)
  with assms(1) CompressorN_compress_ok [OF _ assms(2), of DEFAULT_NODICT_ENTRIES c, where ?'e = 'e]
  obtain blk c' where c: "dictionary = None" "CompressorN_compress c input = (Ok (blk, c') :: ('e, _) outcome)"
    "lz4_block [] [] blk input" "CompressorRefN_ok DEFAULT_NODICT_ENTRIES (inner c')" by auto
  then show ?thesis
    by (intro exI [of _ blk] exI [of _ "self\<lparr>jc_inner := Plain_compressor c'\<rparr>"]) (simp add: JsCompressor_compress_def Plain_compressor)
next
  case (Dict_compressor c)
  with assms(1) obtain dict where d: "dictionary = Some dict" "DictCompressorRefN_ok DEFAULT_DICT_ENTRIES dict (as_ref c)" by auto
  from DictCompressorN_compress_ok [OF d(2) assms(2), where ?'e = 'e]
  obtain blk c' where c: "DictCompressorN_compress c input = (Ok (blk, c') :: ('e, _) outcome)" "lz4_block dict [] blk input"
    "DictCompressorRefN_ok DEFAULT_DICT_ENTRIES dict (as_ref c')" by blast
  then have "compressor_ok (Dict_compressor c') dictionary" using d(1) unfolding compressor_ok.simps(2) by blast
  with c(1,2) d(1) show ?thesis
    by (intro exI [of _ blk] exI [of _ "self\<lparr>jc_inner := Dict_compressor c'\<rparr>"])
      (simp add: JsCompressor_compress_def Dict_compressor del: compressor_ok.simps)
qed

lemma JsDecompressor_decompress_eq:
  assumes "n \<le> isize_max"
  shows "JsDecompressor_decompress (js_decompressor dictionary) input n = Ok out \<longleftrightarrow>
     lz4_block (case dictionary of None \<Rightarrow> [] | Some dict \<Rightarrow> dict) [] input out \<and> length out = n"
proof -
  let ?dict = "case dictionary of None \<Rightarrow> [] | Some dict \<Rightarrow> dict"
  have n: "n + 4 \<le> usize_max" "\<not> isize_max < n" using assms by (simp_all add: isize_max_def usize_max_def)
  have "Decompressor_decompress (jd_inner (js_decompressor dictionary)) input n = map_err fst (decode_block ?dict n [] input)"
    by (rule decode_block_cases [of ?dict n "[]" input]; cases dictionary)
      (auto simp: js_decompressor_def JsDecompressor_new_def JsDecompressor_with_dict_def Decompressor_new_def
        Decompressor_with_dict_def Decompressor_decompress_def DecompressorRef_decompress_def
        DecompressorRef_decompress_append_def DecompressorRef_with_dict_def decompress_append_internal_eq n(2))
  then show ?thesis
    using decode_block_sound [of ?dict n "[]" input out] decode_block_complete [OF _ _ n(1), of ?dict "[]" input out]
    by (auto simp: JsDecompressor_decompress_def validate_exact_size_def obind_Ok_iff map_err_Ok_iff split: if_splits)
qed

lemma compress_all_ok:
  assumes "compressor_ok (jc_inner self) dictionary" "\<forall>input \<in> set inputs. length input * 110 < 2 ^ 64"
  shows "\<exists>blks. compress_all self inputs = (Ok blks :: ('e, _) outcome) \<and>
    list_all2 (\<lambda>blk input. JsDecompressor_decompress (js_decompressor dictionary) blk (length input) = Ok input) blks inputs"
  using assms
proof (induction inputs arbitrary: self)
  case (Cons input inputs)
  from JsCompressor_compress_ok [OF Cons.prems(1), of input, where ?'e = 'e] Cons.prems(2)
  obtain blk self' where c: "JsCompressor_compress self input = (Ok (blk, self') :: ('e, _) outcome)"
    "compressor_ok (jc_inner self') dictionary" "lz4_block (case dictionary of None \<Rightarrow> [] | Some dict \<Rightarrow> dict) [] blk input"
    by auto
  have "length input \<le> isize_max" using Cons.prems(2) by (simp add: isize_max_def)
  with c(3) have "JsDecompressor_decompress (js_decompressor dictionary) blk (length input) = Ok input"
    by (simp add: JsDecompressor_decompress_eq)
  with c(1) Cons.IH [OF c(2)] Cons.prems(2) show ?case by auto
qed simp

section \<open>Round trips\<close>

text \<open>
  What \<open>compress_frame\<close> makes of any input, with any flags and any dictionary, \<open>decompress_frame\<close>
  with the same dictionary turns back into the input, as long as the input keeps the limit that is
  asked for; it gives no other output, and never panics.
\<close>

lemma wasm_frame_round_trip:
  assumes "flags AND FLAG_BLOCK_CHECKSUMS \<noteq> 0 \<Longrightarrow> oneshot_consistent H" "length input < 2 ^ 64"
  shows "\<exists>wire. compress_frame H input dictionary did flags = Ok wire \<and>
    (\<forall>max_output has_max_output out.
      (decompress_frame H wire dictionary did (flags AND FLAG_HAS_DICTIONARY \<noteq> 0) max_output has_max_output = Ok out \<longleftrightarrow>
        out = input \<and> (has_max_output \<longrightarrow> length input \<le> max_output)) \<and>
      returns (decompress_frame H wire dictionary did (flags AND FLAG_HAS_DICTIONARY \<noteq> 0) max_output has_max_output))"
proof -
  define dict where "dict = (if flags AND FLAG_HAS_DICTIONARY \<noteq> 0 then dictionary else [])"
  define ident where "ident = (if flags AND FLAG_HAS_DICTIONARY \<noteq> 0 then Some did else None)"
  obtain wire where w: "compress_frame H input dictionary did flags = Ok wire" "frame_stream H dict ident wire input"
    using compress_frame_ok [where flags = flags and H = H and input = input and dictionary = dictionary and did = did] assms
    by (auto simp: encoder_options_def options_dict_def options_dict_id_def dict_def ident_def split: if_splits)
  have len: "length input \<le> usize_max" using assms(2) by (simp add: usize_max_def)
  note eq = decompress_frame_eq(1) [of H wire dictionary did "flags AND FLAG_HAS_DICTIONARY \<noteq> 0", folded dict_def ident_def]
  have unique: "out = input" if "frame_stream H dict ident wire out" "length out \<le> usize_max" for out
    using eq [of 0 False out] eq [of 0 False input] that w(2) len by simp
  have "decompress_frame H wire dictionary did (flags AND FLAG_HAS_DICTIONARY \<noteq> 0) max_output has_max_output = Ok out \<longleftrightarrow>
    out = input \<and> (has_max_output \<longrightarrow> length input \<le> max_output)" for max_output has_max_output out
  proof
    assume "decompress_frame H wire dictionary did (flags AND FLAG_HAS_DICTIONARY \<noteq> 0) max_output has_max_output = Ok out"
    then have "frame_stream H dict ident wire out" "length out \<le> usize_max" "has_max_output \<longrightarrow> length out \<le> max_output"
      unfolding eq by (auto split: if_splits)
    with unique show "out = input \<and> (has_max_output \<longrightarrow> length input \<le> max_output)" by blast
  qed (unfold eq, use w(2) len in auto)
  with w(1) decompress_frame_eq(2) show ?thesis by blast
qed

text \<open>
  One compressor of the binding, without or with a dictionary, gives for any sequence of inputs
  blocks that the decompressor with the same dictionary turns back into the inputs; the size the
  caller passes is checked exactly.
\<close>

lemma wasm_compressor_round_trip:
  assumes "\<forall>input \<in> set inputs. length input * 110 < 2 ^ 64"
  shows "\<exists>blks. obind (js_compressor dictionary) (\<lambda>c. compress_all c inputs) = (Ok blks :: ('e, _) outcome) \<and>
    list_all2 (\<lambda>blk input. JsDecompressor_decompress (js_decompressor dictionary) blk (length input) = Ok input \<and>
      (\<forall>n out. n \<le> isize_max \<longrightarrow> n \<noteq> length input \<longrightarrow>
        JsDecompressor_decompress (js_decompressor dictionary) blk n \<noteq> Ok out)) blks inputs"
proof -
  obtain c where c: "js_compressor dictionary = (Ok c :: ('e, _) outcome)" "compressor_ok (jc_inner c) dictionary"
    using js_compressor_ok by blast
  obtain blks where b: "compress_all c inputs = (Ok blks :: ('e, _) outcome)"
    "list_all2 (\<lambda>blk input. JsDecompressor_decompress (js_decompressor dictionary) blk (length input) = Ok input) blks inputs"
    using compress_all_ok [OF c(2) assms, where ?'e = 'e] by blast
  have "list_all2 (\<lambda>blk input. JsDecompressor_decompress (js_decompressor dictionary) blk (length input) = Ok input \<and>
      (\<forall>n out. n \<le> isize_max \<longrightarrow> n \<noteq> length input \<longrightarrow>
        JsDecompressor_decompress (js_decompressor dictionary) blk n \<noteq> Ok out)) blks inputs"
    using b(2)
  proof (rule list.rel_mono_strong)
    fix blk input assume i: "input \<in> set inputs"
      "JsDecompressor_decompress (js_decompressor dictionary) blk (length input) = Ok input"
    from i(1) assms have "length input \<le> isize_max" by (auto simp: isize_max_def)
    with i(2) show "JsDecompressor_decompress (js_decompressor dictionary) blk (length input) = Ok input \<and>
      (\<forall>n out. n \<le> isize_max \<longrightarrow> n \<noteq> length input \<longrightarrow>
        JsDecompressor_decompress (js_decompressor dictionary) blk n \<noteq> Ok out)"
      using lz4_block_deterministic by (fastforce simp: JsDecompressor_decompress_eq isize_max_def usize_max_def)
  qed
  with b(1) c(1) show ?thesis by auto
qed

end
