(* ===== verification/Validator.thy ===== *)
theory Validator
  imports Decoder_Interface
begin

text \<open>
  \<^verbatim>\<open>crates/decode/src/validate.rs\<close>: validation of a block and of its exact decoded length,
  without output.  The loop takes fuel, one unit per token; \<open>validate_block_internal\<close> gives it
  one unit more than the input has bytes.  The validator accepts a block with length \<open>n\<close>
  exactly when the grammar gives it an output of \<open>n\<close> bytes, so exactly when the decoder fills
  a buffer of \<open>n\<close> bytes from it.
\<close>

section \<open>Model\<close>

record BlockValidation =
  decoded_len :: nat

text \<open>Saturating subtraction is subtraction of naturals.\<close>

definition extension_limit :: "nat \<Rightarrow> nat \<Rightarrow> nat \<Rightarrow> nat" where
  "extension_limit decoded_pos base_length expected = (expected - decoded_pos) - base_length"

definition advance_decoded :: "nat \<Rightarrow> nat \<Rightarrow> nat \<Rightarrow> (DecompressError, nat) outcome" where
  "advance_decoded decoded_pos len expected =
     (case checked_add decoded_pos len of
        None \<Rightarrow> Err LiteralOutOfBounds
      | Some actual \<Rightarrow>
          if expected < actual then Err (DecodedSizeMismatch expected actual) else Ok actual)"

text \<open>One round of the loop: the block ends after its literals, or another token follows.\<close>

datatype validate_step = ValidateEnd nat | ValidateNext nat nat

definition validate_sequence ::
  "bytes \<Rightarrow> nat \<Rightarrow> nat \<Rightarrow> nat \<Rightarrow> nat \<Rightarrow> (DecompressError, validate_step) outcome" where
  "validate_sequence input expected dict_len input_pos decoded_pos =
     (if input_pos < length input then
        let token = input ! input_pos in
        obind (read_literal_length input (input_pos + 1) token (extension_limit decoded_pos 15 expected))
          (\<lambda>(literal_length, input_pos).
        obind (advance_decoded decoded_pos literal_length expected) (\<lambda>decoded_pos.
        case checked_add input_pos literal_length of
          None \<Rightarrow> Err LiteralOutOfBounds
        | Some input_pos \<Rightarrow>
            if length input < input_pos then Err LiteralOutOfBounds
            else if input_pos = length input then Ok (ValidateEnd decoded_pos)
            else
              obind (read_offset input input_pos) (\<lambda>(offset, input_pos).
              let match_start = decoded_pos in
              obind (read_match_length input input_pos token
                  (extension_limit decoded_pos (MINMATCH + 15) expected)) (\<lambda>(match_length, input_pos).
              obind (advance_decoded decoded_pos match_length expected) (\<lambda>decoded_pos.
              if match_start < offset \<and> dict_len < offset - match_start then Err OffsetOutOfBounds
              else Ok (ValidateNext input_pos decoded_pos))))))
      else Err ExpectedAnotherByte)"

fun validate_loop ::
  "nat \<Rightarrow> bytes \<Rightarrow> nat \<Rightarrow> nat \<Rightarrow> nat \<Rightarrow> nat \<Rightarrow> (DecompressError, nat) outcome" where
  "validate_loop 0 input expected dict_len input_pos decoded_pos = Diverge"
| "validate_loop (Suc fuel) input expected dict_len input_pos decoded_pos =
     obind (validate_sequence input expected dict_len input_pos decoded_pos) (\<lambda>r.
     case r of
       ValidateEnd decoded_pos \<Rightarrow> Ok decoded_pos
     | ValidateNext input_pos decoded_pos \<Rightarrow>
         validate_loop fuel input expected dict_len input_pos decoded_pos)"

definition validate_block_internal ::
  "bytes \<Rightarrow> nat \<Rightarrow> nat \<Rightarrow> (DecompressError, BlockValidation) outcome" where
  "validate_block_internal input expected_decoded_len dict_len =
     obind (validate_loop (Suc (length input)) input expected_decoded_len dict_len 0 0) (\<lambda>decoded_pos.
     if decoded_pos \<noteq> expected_decoded_len then Err (DecodedSizeMismatch expected_decoded_len decoded_pos)
     else Ok \<lparr>decoded_len = decoded_pos\<rparr>)"

definition validate_block :: "bytes \<Rightarrow> nat \<Rightarrow> (DecompressError, BlockValidation) outcome" where
  "validate_block input expected_decoded_len = validate_block_internal input expected_decoded_len 0"

definition validate_block_with_dict ::
  "bytes \<Rightarrow> nat \<Rightarrow> bytes \<Rightarrow> (DecompressError, BlockValidation) outcome" where
  "validate_block_with_dict input expected_decoded_len dict =
     validate_block_internal input expected_decoded_len (length dict)"

section \<open>Correctness\<close>

lemma advance_decoded_Ok: "advance_decoded d l n = Ok d' \<longleftrightarrow> d' = d + l \<and> d' \<le> n \<and> d' \<le> usize_max"
  by (auto simp: advance_decoded_def checked_add_def)

lemma advance_decoded_returns [simp]: "returns (advance_decoded d l n)"
  by (auto simp: advance_decoded_def split: option.splits)

lemma agrees_returns: "agrees input r r' \<Longrightarrow> returns r"
  by (induction input r r' rule: agrees.induct) auto

lemma read_offset_returns [simp]: "returns (read_offset input p)"
  by (simp add: read_offset_def Let_def)

lemma read_offset_Ok:
  assumes "read_offset input p = Ok (off, q)"
  shows "q = p + 2 \<and> q \<le> length input \<and> 0 < off \<and>
    (\<exists>b0 b1. drop p input = b0 # b1 # drop q input \<and> off = offset_value b0 b1)"
proof -
  from assms have p: "p + 2 \<le> length input" by (auto simp: read_offset_def split: if_splits)
  then have "drop p input = input ! p # input ! Suc p # drop (p + 2) input" by (simp add: drop_nth_Cons)
  with assms p read_offset_cases [of p input] show ?thesis by (auto split: if_splits)
qed

lemma spec_length_limit:
  assumes "spec_length l1 base nib inp = Ok (v, rest)" "v \<le> base + 15 + l1" "v \<le> base + 15 + l2"
    "v \<le> usize_max" "l2 \<le> usize_max"
  shows "spec_length l2 base nib inp = Ok (v, rest)"
proof -
  obtain e where "base \<le> v" "inp = e @ rest" "len_code nib e (v - base)"
    using spec_length_inv [OF assms(1,2)] by blast
  with spec_length_code [of nib e "v - base" l2 base rest] assms(3-5) show ?thesis by simp
qed

lemma read_literal_length_Ok:
  assumes "p \<le> length input"
  shows "read_literal_length input p t lim = Ok (l, q) \<longleftrightarrow>
    q \<le> length input \<and> spec_length lim 0 (lit_nibble t) (drop p input) = Ok (l, drop q input)"
  using read_literal_length_agrees [OF assms, of t lim] spec_length_returns [of lim 0 "lit_nibble t" "drop p input"]
  by (cases "spec_length lim 0 (lit_nibble t) (drop p input)")
    (auto simp: agrees_Ok agrees_Err dest!: arg_cong [of "drop _ _" _ length])

lemma read_match_length_Ok:
  assumes "p \<le> length input"
  shows "read_match_length input p t lim = Ok (l, q) \<longleftrightarrow>
    q \<le> length input \<and> spec_length lim MINMATCH (match_nibble t) (drop p input) = Ok (l, drop q input)"
  using read_match_length_agrees [OF assms, of t lim] spec_length_returns [of lim MINMATCH "match_nibble t" "drop p input"]
  by (cases "spec_length lim MINMATCH (match_nibble t) (drop p input)")
    (auto simp: agrees_Ok agrees_Err dest!: arg_cong [of "drop _ _" _ length])

text \<open>A round of the validator succeeds exactly when a step of the reference decoder does.\<close>

lemma reader_grows:
  assumes "p \<le> length input"
  shows "read_literal_length input p t lim = Ok (l, q) \<Longrightarrow> p \<le> q \<and> q \<le> length input"
    and "read_match_length input p t lim = Ok (l, q) \<Longrightarrow> p \<le> q \<and> q \<le> length input"
  using assms by (auto simp: read_literal_length_Ok read_match_length_Ok dest!: spec_length_shorter)

lemma reader_returns:
  assumes "p \<le> length input"
  shows "returns (read_literal_length input p t lim)" "returns (read_match_length input p t lim)"
  using read_literal_length_agrees [OF assms] read_match_length_agrees [OF assms] agrees_returns by blast+

lemma validate_sequence_End:
  assumes "validate_sequence input n k p (length h) = Ok (ValidateEnd d)" "n \<le> usize_max"
  shows "\<exists>h'. spec_sequence dict n h (drop p input) = Ok (Finished h') \<and> length h' = d"
proof -
  have p: "p < length input" using assms(1) by (auto simp: validate_sequence_def split: if_splits)
  with assms(1) obtain l q where l: "read_literal_length input (Suc p) (input ! p) (extension_limit (length h) 15 n) = Ok (l, q)"
    and d: "d = length h + l" "d \<le> n" "q + l = length input"
    by (auto simp: validate_sequence_def obind_Ok_iff advance_decoded_Ok checked_add_def Let_def
        split: if_splits option.splits)
  have "spec_length (extension_limit (length h) 15 n) 0 (lit_nibble (input ! p)) (drop (Suc p) input) = Ok (l, drop q input)"
    using l p by (simp add: read_literal_length_Ok)
  then have "spec_length n 0 (lit_nibble (input ! p)) (drop (Suc p) input) = Ok (l, drop q input)"
    by (rule spec_length_limit) (use d assms(2) in \<open>auto simp: extension_limit_def\<close>)
  from spec_FinishedI [OF p this d(3), of h dict] d show ?thesis by auto
qed

lemma validate_sequence_Next:
  assumes "validate_sequence input n (length dict) p (length h) = Ok (ValidateNext p' d)" "n \<le> usize_max"
  shows "p' \<le> length input \<and>
    (\<exists>h'. spec_sequence dict n h (drop p input) = Ok (More h' (drop p' input)) \<and> length h' = d)"
proof -
  define t where "t = input ! p"
  have p: "p < length input" using assms(1) by (auto simp: validate_sequence_def split: if_splits)
  with assms(1) obtain l q where l: "read_literal_length input (Suc p) t (extension_limit (length h) 15 n) = Ok (l, q)"
    and q: "length h + l \<le> n" "q + l < length input"
    and tl: "obind (read_offset input (q + l)) (\<lambda>(offset, input_pos).
        obind (read_match_length input input_pos t (extension_limit (length h + l) (MINMATCH + 15) n))
          (\<lambda>(match_length, input_pos). obind (advance_decoded (length h + l) match_length n) (\<lambda>decoded_pos.
        if length h + l < offset \<and> length dict < offset - (length h + l) then Err OffsetOutOfBounds
        else Ok (ValidateNext input_pos decoded_pos)))) = Ok (ValidateNext p' d)"
    by (auto simp: validate_sequence_def obind_Ok_iff advance_decoded_Ok checked_add_def Let_def t_def
        split: if_splits option.splits)
  from tl obtain off q2 m where off2: "read_offset input (q + l) = Ok (off, q2)"
    and m2: "read_match_length input q2 t (extension_limit (length h + l) (MINMATCH + 15) n) = Ok (m, p')"
    and d: "d = length h + l + m" "d \<le> n"
    and far: "\<not> (length h + l < off \<and> length dict < off - (length h + l))"
    by (auto simp: obind_Ok_iff advance_decoded_Ok split: if_splits)
  have q2: "q2 = q + l + 2" using read_offset_Ok [OF off2] by simp
  note off = off2 [unfolded q2] and m = m2 [unfolded q2]
  have off_le: "off \<le> length dict + (length h + l)" using far by linarith
  have fit: "q + l + 2 \<le> length input" using read_offset_Ok [OF off] by simp
  have "spec_length (extension_limit (length h) 15 n) 0 (lit_nibble t) (drop (Suc p) input) = Ok (l, drop q input)"
    using l p by (simp add: read_literal_length_Ok)
  then have sl: "spec_length n 0 (lit_nibble t) (drop (Suc p) input) = Ok (l, drop q input)"
    by (rule spec_length_limit) (use q assms(2) in \<open>auto simp: extension_limit_def\<close>)
  have sm0: "spec_length (extension_limit (length h + l) (MINMATCH + 15) n) MINMATCH (match_nibble t) (drop (q + l + 2) input) =
      Ok (m, drop p' input)" and p': "p' \<le> length input"
    using m [unfolded read_match_length_Ok [OF fit]] by blast+
  have sm: "spec_length n MINMATCH (match_nibble t) (drop (q + l + 2) input) = Ok (m, drop p' input)"
    by (rule spec_length_limit [OF sm0])
      (use q d assms(2) in \<open>auto simp: extension_limit_def\<close>)
  have "off = le_nat (take 2 (drop (q + l) input))" "off \<noteq> 0"
    using off by (auto simp: read_offset_def Let_def split: if_splits)
  from spec_MoreI [OF p sl [unfolded t_def] fit this off_le sm [unfolded t_def]] d fit p' show ?thesis
    by auto
qed

lemma spec_sequence_validates:
  assumes p: "p \<le> length input" and n: "n \<le> usize_max" "length input \<le> usize_max"
    and r: "spec_sequence dict n h (drop p input) = Ok r"
  shows "case r of
      Finished h' \<Rightarrow> validate_sequence input n (length dict) p (length h) = Ok (ValidateEnd (length h'))
    | More h' rest \<Rightarrow> \<exists>p'. rest = drop p' input \<and> p' \<le> length input \<and>
        validate_sequence input n (length dict) p (length h) = Ok (ValidateNext p' (length h'))"
proof -
  define t where "t = input ! p"
  have pl: "p < length input" using r p by (cases "p = length input") (auto simp: spec_sequence_def)
  have dp: "drop p input = t # drop (Suc p) input" using pl by (simp add: drop_nth_Cons t_def)
  from r obtain l inp2 where "spec_length n 0 (lit_nibble t) (drop (Suc p) input) = Ok (l, inp2)"
    "l \<le> length inp2" "length h + l \<le> n"
    by (auto simp: spec_sequence_def dp obind_Ok_iff map_err_Ok_iff split: if_splits)
  moreover obtain q where "inp2 = drop q input" "q \<le> length input"
    using calculation read_literal_length_agrees [of "Suc p" input t n] pl by (auto simp: agrees_Ok)
  ultimately have l: "spec_length n 0 (lit_nibble t) (drop (Suc p) input) = Ok (l, drop q input)"
    "q + l \<le> length input" "length h + l \<le> n" by auto
  have "spec_length (extension_limit (length h) 15 n) 0 (lit_nibble t) (drop (Suc p) input) = Ok (l, drop q input)"
    by (rule spec_length_limit [OF l(1)]) (use l(3) n in \<open>auto simp: extension_limit_def\<close>)
  then have rl: "read_literal_length input (Suc p) t (extension_limit (length h) 15 n) = Ok (l, q)"
    using pl l(2) by (simp add: read_literal_length_Ok)
  have ad: "advance_decoded (length h) l n = Ok (length h + l)" "checked_add q l = Some (q + l)"
    using l n by (auto simp: advance_decoded_Ok checked_add_def)
  show ?thesis
  proof (cases r)
    case (Finished h')
    then have "h' = h @ drop q input" "q + l = length input"
      using r l by (auto simp: spec_sequence_Finished_iff dp)
    with pl rl ad Finished l show ?thesis
      by (simp add: validate_sequence_def t_def [symmetric])
  next
    case (More h' rest)
    with r l obtain b0 b1 inp3 m where off: "drop (q + l) input = b0 # b1 # inp3" "offset_value b0 b1 \<noteq> 0"
        "offset_value b0 b1 \<le> length dict + (length h + l)"
      and m: "spec_length n MINMATCH (match_nibble t) inp3 = Ok (m, rest)" "length h + l + m \<le> n"
      and h': "length h' = length h + l + m"
      by (auto simp: spec_sequence_More_iff dp add.commute)
    have "length (drop (q + l) input) = Suc (Suc (length inp3))" using off(1) by simp
    then have fit: "q + l + 2 \<le> length input" "q + l < length input" by simp_all
    have "drop 2 (drop (q + l) input) = inp3" using off(1) by simp
    then have inp3: "inp3 = drop (q + l + 2) input" by (simp add: add.commute)
    obtain p' where p': "rest = drop p' input" "p' \<le> length input"
      using m(1) read_match_length_agrees [OF fit(1), of t n] by (auto simp: agrees_Ok inp3)
    have "spec_length (extension_limit (length h + l) (MINMATCH + 15) n) MINMATCH (match_nibble t) (drop (q + l + 2) input) =
        Ok (m, drop p' input)"
      by (rule spec_length_limit [OF m(1) [unfolded inp3 p'(1)]]) (use m(2) n in \<open>auto simp: extension_limit_def\<close>)
    then have rm: "read_match_length input (q + l + 2) t (extension_limit (length h + l) (MINMATCH + 15) n) = Ok (m, p')"
      using fit p'(2) by (simp add: read_match_length_Ok)
    have ro: "read_offset input (q + l) = Ok (offset_value b0 b1, q + l + 2)"
      using read_offset_cases [OF fit(2)] off by simp
    have "advance_decoded (length h + l) m n = Ok (length h + l + m)"
      using m n by (simp add: advance_decoded_Ok)
    with pl rl ad ro rm off(3) fit h' p' More show ?thesis
      by (auto simp: validate_sequence_def t_def [symmetric] Let_def)
  qed
qed


lemma validate_loop_iff:
  assumes "p \<le> length input" "length input - p < fuel" "n \<le> usize_max" "length input \<le> usize_max"
  shows "validate_loop fuel input n (length dict) p (length h) = Ok d \<longleftrightarrow>
    (\<exists>h'. decode_block dict n h (drop p input) = Ok h' \<and> length h' = d)"
  using assms(1,2)
proof (induction fuel arbitrary: p h)
  case (Suc fuel)
  show ?case
  proof (cases "spec_sequence dict n h (drop p input)")
    case (Ok r)
    note V = spec_sequence_validates [OF Suc.prems(1) assms(3,4) Ok]
    show ?thesis
    proof (cases r)
      case (Finished h')
      with Ok V show ?thesis by (auto simp: decode_block_Finished)
    next
      case (More h' rest)
      with V obtain p' where p': "rest = drop p' input" "p' \<le> length input"
        "validate_sequence input n (length dict) p (length h) = Ok (ValidateNext p' (length h'))" by auto
      have sp: "spec_sequence dict n h (drop p input) = Ok (More h' (drop p' input))"
        using Ok More p' by simp
      have "length input - p' < fuel" using spec_sequence_shorter [OF sp] Suc.prems by simp
      with p' Suc.IH [of p' h'] decode_block_More [OF sp] show ?thesis by simp
    qed
  next
    case (Err e)
    then have "decode_block dict n h (drop p input) = Err e" by (subst decode_block.simps) simp
    moreover have "validate_sequence input n (length dict) p (length h) \<noteq> Ok r" for r
      using Err assms(3) validate_sequence_End [of input n "length dict" p h _ dict] validate_sequence_Next [of input n dict p h]
      by (cases r) auto
    ultimately show ?thesis by (auto simp: obind_Ok_iff)
  qed (use spec_sequence_returns [of dict n h "drop p input"] in simp_all)
qed simp

lemma validate_block_internal_iff:
  assumes "n \<le> usize_max" "length input \<le> usize_max"
  shows "validate_block_internal input n (length dict) = Ok v \<longleftrightarrow>
    (\<exists>h. decode_block dict n [] input = Ok h \<and> length h = n \<and> v = \<lparr>decoded_len = n\<rparr>)"
  using validate_loop_iff [of 0 input "Suc (length input)" n dict "[]"] assms
  by (auto simp: validate_block_internal_def obind_Ok_iff simp del: validate_loop.simps)

lemma validate_sequence_returns: "returns (validate_sequence input n k p d)"
proof (cases "p < length input")
  case True
  have tail: "returns (obind (read_offset input q) (\<lambda>(off, p).
      obind (read_match_length input p t lim) (\<lambda>(m, p). obind (advance_decoded d m n) (\<lambda>d'.
      if d < off \<and> k < off - d then Err OffsetOutOfBounds else Ok (ValidateNext p d')))))" for q t lim d
  proof (rule returns_obind [OF read_offset_returns], clarify)
    fix off p assume "read_offset input q = Ok (off, p)"
    then have "p \<le> length input" using read_offset_Ok by blast
    then show "returns (obind (read_match_length input p t lim) (\<lambda>(m, p). obind (advance_decoded d m n) (\<lambda>d'.
        if d < off \<and> k < off - d then Err OffsetOutOfBounds else Ok (ValidateNext p d'))))"
      by (intro returns_obind reader_returns) (auto intro!: returns_obind)
  qed
  from True show ?thesis
    unfolding validate_sequence_def Let_def
    by (auto intro!: returns_obind reader_returns tail split: option.splits)
qed (simp add: validate_sequence_def)

lemma validate_sequence_grows:
  assumes "validate_sequence input n k p d = Ok (ValidateNext p' d')"
  shows "p < p' \<and> p' \<le> length input"
proof -
  have p: "p < length input" using assms by (auto simp: validate_sequence_def split: if_splits)
  with assms obtain l q q2 off t m lim1 lim2 where
    1: "read_literal_length input (Suc p) t lim1 = Ok (l, q)"
    and 2: "read_offset input (q + l) = Ok (off, q2)"
    and 3: "read_match_length input q2 t lim2 = Ok (m, p')"
    by (auto simp: validate_sequence_def obind_Ok_iff checked_add_def Let_def split: if_splits option.splits)
  have "Suc p \<le> q" using reader_grows(1) [OF _ 1] p by simp
  moreover have "q2 = q + l + 2" "q2 \<le> length input" using read_offset_Ok [OF 2] by simp_all
  moreover have "q2 \<le> p'" "p' \<le> length input"
    using reader_grows(2) [OF _ 3] \<open>q2 \<le> length input\<close> by simp_all
  ultimately show ?thesis by linarith
qed

lemma validate_block_internal_returns: "returns (validate_block_internal input n k)"
proof -
  have loop: "returns (validate_loop fuel input n k p d)" if "length input - p < fuel" for fuel p d
    using that
  proof (induction fuel arbitrary: p d)
    case (Suc fuel)
    show ?case
      unfolding validate_loop.simps
    proof (rule returns_obind [OF validate_sequence_returns])
      fix r assume r: "validate_sequence input n k p d = Ok r"
      show "returns (case r of ValidateEnd d \<Rightarrow> Ok d | ValidateNext p d \<Rightarrow> validate_loop fuel input n k p d)"
        using Suc validate_sequence_grows [of input n k p d] r by (cases r) auto
    qed
  qed simp
  show ?thesis
    unfolding validate_block_internal_def by (auto intro!: returns_obind loop simp del: validate_loop.simps)
qed

section \<open>Properties\<close>

text \<open>
  C16: the validator accepts a block with a length exactly when the grammar, with a dictionary
  of the given bytes, gives the block an output of that length.
\<close>

theorem validate_block_with_dict_accepts:
  assumes "n + 4 \<le> usize_max" "length input \<le> usize_max"
  shows "validate_block_with_dict input n dict = Ok v \<longleftrightarrow>
    v = \<lparr>decoded_len = n\<rparr> \<and> (\<exists>h. lz4_block dict [] input h \<and> length h = n)"
proof -
  have "decode_block dict n [] input = Ok h \<longleftrightarrow> lz4_block dict [] input h \<and> length h \<le> n" for h
    using decode_block_sound [of dict n "[]" input h] decode_block_complete [OF _ _ assms(1), of dict "[]" input h]
    by auto
  moreover have "n \<le> usize_max" using assms(1) by simp
  ultimately show ?thesis
    using assms(2) by (auto simp only: validate_block_with_dict_def validate_block_internal_iff)
qed

theorem validate_block_with_dict_accepts_witness:
  "validate_block_with_dict [17, 97, 3, 0, 0] 6 [98, 99] = Ok \<lparr>decoded_len = 6\<rparr>"
proof -
  have "(6 :: nat) + 4 \<le> usize_max" "length ([17, 97, 3, 0, 0] :: bytes) \<le> usize_max"
    by (simp_all add: const_defs)
  from validate_block_with_dict_accepts [OF this, of "[98, 99]"] show ?thesis
    using lz4_block_example by auto
qed

text \<open>
  C17: validation agrees with decoding.  A block is valid for a length exactly when decoding it
  into a buffer of that length fills the buffer.
\<close>

theorem validate_block_iff_decodes:
  assumes "length output \<le> usize_max" "length input \<le> usize_max"
  shows "validate_block_with_dict input (length output) dict = Ok \<lparr>decoded_len = length output\<rparr> \<longleftrightarrow>
    (\<exists>out. decompress_into_with_dict input output dict = Ok (length output, out))"
  using decompress_slice_refines [of dict True dict input "output"] validate_block_internal_iff [OF assms, of dict]
  by (cases rule: decode_block_cases [of dict "length output" "[]" input])
    (auto simp: validate_block_with_dict_def decompress_into_with_dict_def)

theorem validate_block_iff_decodes_witness:
  "validate_block_with_dict [80, 104, 105] (length [0, 0 :: byte]) [] = Ok \<lparr>decoded_len = length [0, 0 :: byte]\<rparr> \<longleftrightarrow>
    (\<exists>out. decompress_into_with_dict [80, 104, 105] [0, 0] [] = Ok (length [0, 0 :: byte], out))"
  by (rule validate_block_iff_decodes) (simp_all add: const_defs)

text \<open>
  C22: validation always ends without a panic.
\<close>

theorem validate_block_returns:
  "returns (validate_block input n) \<and> returns (validate_block_with_dict input n dict)"
  by (simp add: validate_block_def validate_block_with_dict_def validate_block_internal_returns)

end
