(* ===== verification/Fuzz_Blocks.thy ===== *)
theory Fuzz_Blocks
  imports Validator Compressors
begin

text \<open>
  The fuzz targets for blocks, \<^verbatim>\<open>fuzz/fuzz_targets\<close>: what the authors of the library check on random
  data.  A target is a function of its data; an assertion that fails and an \<^verbatim>\<open>unwrap\<close> of an error
  are panics, and the theorems say that no data makes a target panic.  The fields that the
  fuzzer draws from a range are hypotheses, and so is that what fits into memory is far below
  the bounds of \<^verbatim>\<open>usize\<close>.
\<close>

unbundle bit_operations_syntax

section \<open>Assertions\<close>

definition assert_that :: "bool \<Rightarrow> ('e, unit) outcome" where
  "assert_that b = (if b then Ok () else Panic)"

lemma assert_that [simp]: "assert_that True = Ok ()" "assert_that b = Ok x \<longleftrightarrow> b"
  by (simp_all add: assert_that_def)

text \<open>\<^verbatim>\<open>let _ =\<close> drops a result, error or not; a panic is not dropped.\<close>

fun ignore :: "('e, 'a) outcome \<Rightarrow> ('f, unit) outcome" where
  "ignore (Ok _) = Ok ()"
| "ignore (Err _) = Ok ()"
| "ignore Panic = Panic"
| "ignore Diverge = Diverge"

lemma ignore_returns: "returns r \<Longrightarrow> ignore r = Ok ()"
  by (cases r) auto


definition umod :: "nat \<Rightarrow> nat \<Rightarrow> ('e, nat) outcome" where
  "umod a b = (if b = 0 then Panic else Ok (a mod b))"

definition set_at :: "bytes \<Rightarrow> nat \<Rightarrow> byte \<Rightarrow> ('e, bytes) outcome" where
  "set_at bs i v = (if i < length bs then Ok (bs[i := v]) else Panic)"

text \<open>The loop \<^verbatim>\<open>for _ in 0..repeat\<close> that extends the payload by the data.\<close>

definition repeated :: "bytes \<Rightarrow> nat \<Rightarrow> bytes" where
  "repeated data reps = concat (replicate reps data)"

lemma length_repeated: "length (repeated data reps) = reps * length data"
  by (simp add: repeated_def length_concat sum_list_replicate)

section \<open>Round trips\<close>

definition fuzz_roundtrip :: "bytes \<Rightarrow> nat \<Rightarrow> (unit, unit) outcome" where
  "fuzz_roundtrip data reps =
     (let plain = repeated data reps in
      obind (compress plain) (\<lambda>compressed.
      obind (unwrap (decompress compressed (length plain))) (\<lambda>decompressed.
      obind (assert_that (plain = decompressed)) (\<lambda>_.
      obind (get_maximum_output_size (length plain)) (\<lambda>max_out.
      obind (unwrap (compress_into plain (replicate max_out 0))) (\<lambda>(comp_len, comp_buf).
      obind (sub_slice comp_buf 0 comp_len) (\<lambda>blk.
      obind (unwrap (decompress_into blk (replicate (length plain) 0))) (\<lambda>(decomp_len, decomp_buf).
      obind (sub_slice decomp_buf 0 decomp_len) (\<lambda>decompressed.
      assert_that (plain = decompressed))))))))))"

definition fuzz_roundtrip_dict :: "bytes \<Rightarrow> bytes \<Rightarrow> nat \<Rightarrow> (unit, unit) outcome" where
  "fuzz_roundtrip_dict data dictionary reps =
     (let plain = repeated data reps in
      if plain = [] then Ok ()
      else
        let dict = take (min (length dictionary) (128 * 1024)) dictionary;
            decompressor = Decompressor_with_dict dict in
        obind (unwrap (DictCompressorN_new DEFAULT_DICT_ENTRIES dict)) (\<lambda>compressor.
        obind (DictCompressorN_compress compressor plain) (\<lambda>(compressed, compressor).
        obind (unwrap (Decompressor_decompress decompressor compressed (length plain))) (\<lambda>decompressed.
        obind (assert_that (plain = decompressed)) (\<lambda>_.
        obind (get_maximum_output_size (length plain)) (\<lambda>max_out.
        obind (unwrap (DictCompressorN_compress_into compressor plain (replicate max_out 0))) (\<lambda>(comp_len, _, comp_buf).
        obind (sub_slice comp_buf 0 comp_len) (\<lambda>blk.
        obind (unwrap (Decompressor_decompress_into decompressor blk (replicate (length plain) 0))) (\<lambda>(decomp_len, decomp_buf).
        obind (sub_slice decomp_buf 0 decomp_len) (\<lambda>decompressed'.
        obind (assert_that (plain = decompressed')) (\<lambda>_.
        ignore (decompress compressed (length plain)))))))))))))"

text \<open>The buffers are used again and again; a block without a dictionary, then one with it.\<close>

definition tiny_plain :: "nat \<Rightarrow> bytes \<Rightarrow> bytes \<times> bytes \<Rightarrow> (unit, bytes \<times> bytes) outcome" where
  "tiny_plain N plain = (\<lambda>(comp_buf, decomp_buf).
     obind (CompressorRefN_new N) (\<lambda>comp.
     obind (unwrap (CompressorRefN_compress_into comp plain comp_buf)) (\<lambda>(n, _, comp_buf).
     obind (sub_slice comp_buf 0 n) (\<lambda>blk.
     obind (unwrap (decompress_into blk decomp_buf)) (\<lambda>(m, decomp_buf).
     obind (sub_slice decomp_buf 0 m) (\<lambda>decompressed.
     obind (assert_that (plain = decompressed)) (\<lambda>_.
     Ok (comp_buf, decomp_buf))))))))"

definition tiny_dict :: "nat \<Rightarrow> bytes \<Rightarrow> bytes \<Rightarrow> bytes \<times> bytes \<Rightarrow> (unit, bytes \<times> bytes) outcome" where
  "tiny_dict N dict plain = (\<lambda>(comp_buf, decomp_buf).
     obind (unwrap (DictCompressorRefN_new N dict)) (\<lambda>comp.
     obind (unwrap (DictCompressorRefN_compress_into comp plain comp_buf)) (\<lambda>(n, _, comp_buf).
     obind (sub_slice comp_buf 0 n) (\<lambda>blk.
     obind (unwrap (Decompressor_decompress (Decompressor_with_dict dict) blk (length plain))) (\<lambda>out.
     obind (assert_that (plain = out)) (\<lambda>_.
     Ok (comp_buf, decomp_buf)))))))"

definition fuzz_roundtrip_tiny_tables :: "bytes \<Rightarrow> bytes \<Rightarrow> nat \<Rightarrow> (unit, unit) outcome" where
  "fuzz_roundtrip_tiny_tables data dictionary reps =
     (let plain = repeated data reps in
      if plain = [] then Ok ()
      else
        obind (get_maximum_output_size (length plain)) (\<lambda>max_out.
        obind (tiny_plain 256 plain (replicate max_out 0, replicate (length plain) 0)) (\<lambda>bufs.
        obind (tiny_plain 512 plain bufs) (\<lambda>bufs.
        let dict = take (min (length dictionary) (128 * 1024)) dictionary in
        obind (tiny_dict 256 dict plain bufs) (\<lambda>bufs.
        obind (tiny_dict 1024 dict plain bufs) (\<lambda>bufs.
        Ok ()))))))"

section \<open>Validation\<close>

definition check_implication :: "bytes \<Rightarrow> nat \<Rightarrow> (unit, unit) outcome" where
  "check_implication encoded expected =
     (case validate_block encoded expected of
        Ok validation \<Rightarrow>
          (case decompress_into encoded (replicate expected 0) of
             Ok (n, _) \<Rightarrow>
               obind (assert_that (n = expected)) (\<lambda>_. assert_that (decoded_len validation = expected))
           | Diverge \<Rightarrow> Diverge
           | _ \<Rightarrow> Panic)
      | Err _ \<Rightarrow> Ok ()
      | Panic \<Rightarrow> Panic
      | Diverge \<Rightarrow> Diverge)"

definition fuzz_validate_block :: "bytes \<Rightarrow> bytes \<Rightarrow> nat \<Rightarrow> nat \<Rightarrow> byte \<Rightarrow> nat \<Rightarrow> (unit, unit) outcome" where
  "fuzz_validate_block encoded plain expected mutation_index mutation_mask truncation =
     obind (check_implication encoded expected) (\<lambda>_.
     obind (compress plain) (\<lambda>compressed.
     obind (unwrap (validate_block compressed (length plain))) (\<lambda>validation.
     obind (assert_that (decoded_len validation = length plain)) (\<lambda>_.
     obind (umod mutation_index (length compressed)) (\<lambda>index.
     obind (idx_get compressed index) (\<lambda>b.
     obind (set_at compressed index (b XOR mutation_mask)) (\<lambda>mutated.
     obind (check_implication mutated (length plain)) (\<lambda>_.
     obind (umod truncation (length compressed)) (\<lambda>fin.
     obind (sub_slice compressed 0 fin) (\<lambda>cut.
     check_implication cut (length plain)))))))))))"

definition check_implication_dict :: "bytes \<Rightarrow> nat \<Rightarrow> bytes \<Rightarrow> (unit, unit) outcome" where
  "check_implication_dict encoded expected dict =
     (case validate_block_with_dict encoded expected dict of
        Ok validation \<Rightarrow>
          (case decompress_into_with_dict encoded (replicate expected 0) dict of
             Ok (n, _) \<Rightarrow>
               obind (assert_that (n = expected)) (\<lambda>_. assert_that (decoded_len validation = expected))
           | Diverge \<Rightarrow> Diverge
           | _ \<Rightarrow> Panic)
      | Err _ \<Rightarrow> Ok ()
      | Panic \<Rightarrow> Panic
      | Diverge \<Rightarrow> Diverge)"

definition fuzz_validate_block_dict ::
  "bytes \<Rightarrow> bytes \<Rightarrow> bytes \<Rightarrow> nat \<Rightarrow> nat \<Rightarrow> byte \<Rightarrow> nat \<Rightarrow> (unit, unit) outcome" where
  "fuzz_validate_block_dict encoded plain dictionary expected mutation_index mutation_mask truncation =
     (let dict = take (min (length dictionary) (128 * 1024)) dictionary in
      obind (check_implication_dict encoded expected dict) (\<lambda>_.
      obind (unwrap (DictCompressorN_new DEFAULT_DICT_ENTRIES dict)) (\<lambda>compressor.
      obind (DictCompressorN_compress compressor plain) (\<lambda>(compressed, _).
      obind (unwrap (validate_block_with_dict compressed (length plain) dict)) (\<lambda>validation.
      obind (assert_that (decoded_len validation = length plain)) (\<lambda>_.
      obind (umod mutation_index (length compressed)) (\<lambda>index.
      obind (idx_get compressed index) (\<lambda>b.
      obind (set_at compressed index (b XOR mutation_mask)) (\<lambda>mutated.
      obind (check_implication_dict mutated (length plain) dict) (\<lambda>_.
      obind (umod truncation (length compressed)) (\<lambda>fin.
      obind (sub_slice compressed 0 fin) (\<lambda>cut.
      check_implication_dict cut (length plain) dict))))))))))))"


section \<open>Decoding anything\<close>

text \<open>\<^verbatim>\<open>dict_byte.wrapping_add(i as u8)\<close>\<close>

definition pattern_dict :: "byte \<Rightarrow> nat \<Rightarrow> bytes" where
  "pattern_dict b n = map (\<lambda>i. b + word_of_nat i) [0..<n]"

fun corrupt_buffers :: "bytes \<Rightarrow> bytes \<Rightarrow> nat list \<Rightarrow> (unit, unit) outcome" where
  "corrupt_buffers input dict [] = Ok ()"
| "corrupt_buffers input dict (buf_size # sizes) =
     (if buf_size = 0 \<and> input = [] then corrupt_buffers input dict sizes
      else
        let out = replicate buf_size 0 in
        case (if dict = [] then decompress_into input out
              else Decompressor_decompress_into (Decompressor_with_dict dict) input out) of
          Ok (len, out) \<Rightarrow> obind (sub_slice out 0 len) (\<lambda>_. corrupt_buffers input dict sizes)
        | Err _ \<Rightarrow> corrupt_buffers input dict sizes
        | Panic \<Rightarrow> Panic
        | Diverge \<Rightarrow> Diverge)"

definition fuzz_decomp_corrupt_block :: "bytes \<Rightarrow> nat \<Rightarrow> nat \<Rightarrow> byte \<Rightarrow> (unit, unit) outcome" where
  "fuzz_decomp_corrupt_block input output_size dict_size dict_pattern =
     (let dict = pattern_dict dict_pattern dict_size in
      obind (ignore (if dict = [] then decompress input output_size
          else Decompressor_decompress (Decompressor_with_dict dict) input output_size)) (\<lambda>_.
      corrupt_buffers input dict [output_size, min (output_size + 1) usize_max, output_size - 1]))"

definition leak_decompress :: "bytes \<Rightarrow> bytes \<Rightarrow> bytes \<Rightarrow> (DecompressError \<times> bytes, nat \<times> bytes) outcome" where
  "leak_decompress input out dict =
     (if dict = [] then decompress_into input out
      else Decompressor_decompress_into (Decompressor_with_dict dict) input out)"

definition leak_append :: "bytes \<Rightarrow> bytes \<Rightarrow> nat \<Rightarrow> bytes \<Rightarrow> (DecompressError \<times> bytes, nat \<times> bytes) outcome" where
  "leak_append input out max_size dict =
     (if dict = [] then decompress_append input out max_size
      else Decompressor_decompress_append (Decompressor_with_dict dict) input out max_size)"

text \<open>Decoding again, into a buffer filled with another byte.\<close>

definition leak_again :: "bytes \<Rightarrow> bytes \<Rightarrow> bytes \<Rightarrow> byte \<Rightarrow> nat \<Rightarrow> (unit, unit) outcome" where
  "leak_again input dict result fill buf_size =
     obind (unwrap (leak_decompress input (replicate buf_size fill) dict)) (\<lambda>(len, out).
     obind (sub_slice out 0 len) (\<lambda>decoded.
     assert_that (result = decoded)))"

definition fuzz_decomp_no_output_leak :: "bytes \<Rightarrow> nat \<Rightarrow> byte \<Rightarrow> (unit, unit) outcome" where
  "fuzz_decomp_no_output_leak input dict_size dict_byte =
     (let dict = pattern_dict dict_byte dict_size;
          buf_size = max 512 (length input * 4);
          before = replicate 7 0x55 in
      obind
        (case leak_decompress input (replicate buf_size 0) dict of
           Ok (len, out) \<Rightarrow> obind (sub_slice out 0 len) (\<lambda>decoded. Ok (Inr decoded))
         | Err (e, _) \<Rightarrow> Ok (Inl e)
         | Panic \<Rightarrow> Panic
         | Diverge \<Rightarrow> Diverge) (\<lambda>result1.
      obind
        (case leak_append input before buf_size dict of
           Ok (n, appended) \<Rightarrow> Ok (Inr n, appended)
         | Err (e, appended) \<Rightarrow> Ok (Inl e, appended)
         | Panic \<Rightarrow> Panic
         | Diverge \<Rightarrow> Diverge) (\<lambda>(result_append, appended).
      case result1 of
        Inr decoded \<Rightarrow>
          obind (assert_that (result_append = Inr (length decoded))) (\<lambda>_.
          obind (sub_slice appended (length before) (length appended)) (\<lambda>added.
          obind (assert_that (added = decoded)) (\<lambda>_.
          obind (leak_again input dict decoded 0xFF buf_size) (\<lambda>_.
          leak_again input dict decoded 0xAA buf_size))))
      | Inl e \<Rightarrow>
          obind (assert_that (result_append = Inl e)) (\<lambda>_.
          assert_that (appended = before)))))"

datatype Mutation = FlipBit byte byte | SetByte byte byte | Truncate byte | InsertFF byte

definition mutate :: "bytes \<Rightarrow> Mutation \<Rightarrow> (unit, bytes) outcome" where
  "mutate corrupted mutation =
     (case mutation of
        FlipBit pos_frac which \<Rightarrow>
          let pos = unat pos_frac * length corrupted div 256 in
          obind (usub (length corrupted) 1) (\<lambda>last_pos.
          let pos = min pos last_pos in
          obind (idx_get corrupted pos) (\<lambda>b. set_at corrupted pos (b XOR push_bit (unat (which AND 7)) 1)))
      | SetByte pos_frac val \<Rightarrow>
          let pos = unat pos_frac * length corrupted div 256 in
          obind (usub (length corrupted) 1) (\<lambda>last_pos. set_at corrupted (min pos last_pos) val)
      | Truncate keep_frac \<Rightarrow>
          let keep = (unat keep_frac + 1) * length corrupted div 256 in
          Ok (take (min (max keep 1) (length corrupted)) corrupted)
      | InsertFF pos_frac \<Rightarrow>
          let pos = min (unat pos_frac * length corrupted div 256) (length corrupted) in
          Ok (take pos corrupted @ 0xFF # drop pos corrupted))"

fun mutate_all :: "bytes \<Rightarrow> Mutation list \<Rightarrow> (unit, bytes) outcome" where
  "mutate_all corrupted [] = Ok corrupted"
| "mutate_all corrupted (mutation # mutations) =
     (if corrupted = [] then Ok corrupted
      else obind (mutate corrupted mutation) (\<lambda>corrupted. mutate_all corrupted mutations))"

definition fuzz_compress_bitflip :: "bytes \<Rightarrow> nat \<Rightarrow> Mutation list \<Rightarrow> (unit, unit) outcome" where
  "fuzz_compress_bitflip data reps mutations =
     (let plain = repeated data reps in
      if plain = [] then Ok ()
      else
        obind (compress plain) (\<lambda>compressed.
        if compressed = [] then Ok ()
        else
          obind (mutate_all compressed mutations) (\<lambda>corrupted.
          obind (ignore (decompress corrupted (length plain))) (\<lambda>_.
          obind (ignore (decompress corrupted (length plain * 2 + 1024))) (\<lambda>_.
          obind (ignore (decompress corrupted 0)) (\<lambda>_.
          ignore (decompress_into corrupted (replicate (length plain) 0))))))))"

record Token =
  tok_literal_len :: byte
  tok_match_len :: byte
  tok_offset :: "16 word"
  tok_literal_fill :: byte
  tok_extra_lit_ext :: nat
  tok_extra_match_ext :: nat
  tok_is_last :: bool

definition token_bytes :: "Token \<Rightarrow> bytes" where
  "token_bytes tok =
     (let lit_nibble = min (drop_bit 4 (tok_literal_len tok)) 15; match_nibble = min (tok_match_len tok AND 0x0F) 15 in
      [push_bit 4 lit_nibble OR match_nibble] @
      (if lit_nibble = 15 then replicate (tok_extra_lit_ext tok) 0xFF @ [tok_literal_len tok AND 0x7F] else []) @
      replicate (unat lit_nibble +
        (if lit_nibble = 15 then tok_extra_lit_ext tok * 255 + unat (tok_literal_len tok AND 0x7F) else 0)) (tok_literal_fill tok))"

fun build_loop :: "nat \<Rightarrow> nat \<Rightarrow> Token list \<Rightarrow> bytes \<Rightarrow> bytes" where
  "build_loop num_tokens i [] out = out"
| "build_loop num_tokens i (tok # toks) out =
     (let last_one = (tok_is_last tok \<or> i + 1 = num_tokens);
          lit_nibble = min (drop_bit 4 (tok_literal_len tok)) 15; match_nibble = min (tok_match_len tok AND 0x0F) 15;
          out = out @ token_bytes tok in
      if last_one \<and> match_nibble = 0 \<and> lit_nibble < 15 then out
      else
        let out = out @ le_bytes 2 (unat (tok_offset tok));
            out = (if match_nibble = 15 then out @ replicate (tok_extra_match_ext tok) 0xFF @ [tok_match_len tok AND 0x7F] else out) in
        if last_one then out else build_loop num_tokens (i + 1) toks out)"

definition build_block :: "Token list \<Rightarrow> bytes" where
  "build_block tokens = (let num_tokens = min (length tokens) 32 in build_loop num_tokens 0 (take num_tokens tokens) [])"

definition fuzz_craft_tokens :: "Token list \<Rightarrow> nat \<Rightarrow> nat \<Rightarrow> (unit, unit) outcome" where
  "fuzz_craft_tokens tokens output_size dict_size =
     (let blk = build_block tokens; output_size = min output_size (push_bit 20 1) in
      obind (ignore (decompress_into blk (replicate output_size 0))) (\<lambda>_.
      if 0 < dict_size then
        let dict = map (\<lambda>i. word_of_nat (i AND 0xFF)) [0..<dict_size] in
        ignore (Decompressor_decompress_into (Decompressor_with_dict dict) blk (replicate output_size 0))
      else Ok ()))"

section \<open>The C library\<close>

text \<open>
  \<^verbatim>\<open>lzzzz::lz4::compress_to_vec\<close> is a parameter, \<open>None\<close> where it fails.
\<close>

definition fuzz_roundtrip_cpp_compress :: "(bytes \<Rightarrow> bytes option) \<Rightarrow> bytes \<Rightarrow> (unit, unit) outcome" where
  "fuzz_roundtrip_cpp_compress compress_to_vec data =
     (case compress_to_vec data of
        None \<Rightarrow> Panic
      | Some compressed \<Rightarrow>
          if compressed \<noteq> [] then
            obind (unwrap (decompress compressed (length data))) (\<lambda>decompressed.
            assert_that (data = decompressed))
          else Ok ())"

text \<open>
  \<^verbatim>\<open>lzzzz::lz4::decompress\<close>, which fills a slice, is a parameter as well: from a block and the slice
  to the slice afterwards.
\<close>

definition fuzz_roundtrip_cpp_decompress :: "(bytes \<Rightarrow> bytes \<Rightarrow> bytes option) \<Rightarrow> bytes \<Rightarrow> (unit, unit) outcome" where
  "fuzz_roundtrip_cpp_decompress decompress_into_slice data =
     obind (compress data) (\<lambda>compressed.
     case decompress_into_slice compressed (replicate (length data) 0) of
       None \<Rightarrow> Panic
     | Some decompressed \<Rightarrow> assert_that (data = decompressed))"

end
