(* ===== verification/Fuzz_Blocks_Pass.thy ===== *)
theory Fuzz_Blocks_Pass
  imports Fuzz_Blocks
begin

text \<open>
  No fuzz target for blocks panics, whatever the data: the round trips hold, damaged blocks give
  errors, and the decoded bytes do not depend on the buffer they are written to.
\<close>

section \<open>Decoding\<close>

text \<open>The decoding functions, in terms of the two internal ones.\<close>

lemmas decoding_defs = decompress_into_def decompress_into_with_dict_def decompress_append_def
  Decompressor_with_dict_def DecompressorRef_with_dict_def Decompressor_decompress_into_def
  DecompressorRef_decompress_into_def Decompressor_decompress_append_def DecompressorRef_decompress_append_def

lemma slice_cases:
  obtains (Ok) h tail where "decode_block (if use_dict then dict else []) (length out) [] input = Ok h"
      "decompress_slice use_dict input out dict = Ok (length h, h @ tail)" "length h + length tail = length out"
    | (Err) e h tail where "decode_block (if use_dict then dict else []) (length out) [] input = Err (e, h)"
      "decompress_slice use_dict input out dict = Err (e, h @ tail)" "length h + length tail = length out"
  using decompress_slice_refines [of "if use_dict then dict else []" use_dict dict input out, OF refl]
  by (cases rule: decode_block_cases [of "if use_dict then dict else []" "length out" "[]" input]) auto

lemma slice_returns: "returns (decompress_slice use_dict input out dict)"
  by (cases rule: slice_cases [of use_dict dict out input]) auto

lemma slice_decodes:
  assumes "lz4_block (if use_dict then dict else []) [] blk h" "length h \<le> length out" "length out + 4 \<le> usize_max"
  shows "\<exists>tail. decompress_slice use_dict blk out dict = Ok (length h, h @ tail) \<and> length h + length tail = length out"
  using decode_block_complete [OF assms(1) _ assms(3)] assms(2) by (cases rule: slice_cases [of use_dict dict out blk]) auto

lemma append_internal_returns:
  "length out + n \<le> isize_max \<Longrightarrow> returns (decompress_append_internal use_dict input out n dict)"
  by (cases rule: decode_block_cases [of "if use_dict then dict else []" n "[]" input])
    (simp_all add: decompress_append_internal_eq [OF refl])

lemma decompress_returns:
  "n \<le> isize_max \<Longrightarrow> returns (decompress input n)"
  "n \<le> isize_max \<Longrightarrow> returns (Decompressor_decompress (Decompressor_with_dict dict) input n)"
  using append_internal_returns
  by (auto simp: decompress_def Decompressor_decompress_def DecompressorRef_decompress_def decoding_defs intro!: returns_obind)

lemma decompress_decodes:
  assumes "length h \<le> isize_max"
  shows "lz4_block [] [] blk h \<Longrightarrow> decompress blk (length h) = Ok h"
    "lz4_block dict [] blk h \<Longrightarrow> Decompressor_decompress (Decompressor_with_dict dict) blk (length h) = Ok h"
proof -
  have "length h + 4 \<le> usize_max" using assms by (simp add: isize_max_def usize_max_def)
  from decode_block_complete [OF _ _ this, of "[]" "[]" blk h] decode_block_complete [OF _ _ this, of dict "[]" blk h]
  show "lz4_block [] [] blk h \<Longrightarrow> decompress blk (length h) = Ok h"
    "lz4_block dict [] blk h \<Longrightarrow> Decompressor_decompress (Decompressor_with_dict dict) blk (length h) = Ok h"
    using assms by (simp_all add: decompress_eq Decompressor_decompress_def DecompressorRef_decompress_def decoding_defs
        decompress_append_internal_eq)
qed

lemma fits_usize: "length h * 110 < 2 ^ 64 \<Longrightarrow> length h + 4 \<le> usize_max"
  by (simp add: usize_max_def)

lemma fits_vec: "length h * 110 < 2 ^ 64 \<Longrightarrow> length h \<le> isize_max"
  by (simp add: isize_max_def)

section \<open>Round trips\<close>

lemma fuzz_roundtrip_passes:
  assumes "length (repeated data reps) * 110 < 2 ^ 64"
  shows "fuzz_roundtrip data reps = Ok ()"
proof -
  define p where "p = repeated data reps"
  define m where "m = 20 + length p * 110 div 100"
  note len = assms [folded p_def]
  note max = get_maximum_output_size_eq [OF len, where ?'a = unit, folded m_def]
  let ?out = "replicate m 0 :: bytes"
  note fits = fits_usize [OF len]
  obtain blk where c: "compress p = (Ok blk :: (unit, _) outcome)" "lz4_block [] [] blk p"
    using compress_ok [OF len, where ?'e = unit] by (auto simp: encodes_def)
  obtain b tail where i: "compress_into p ?out = Ok (length b, b @ tail)" "lz4_block [] [] b p"
    using compress_into_ok [OF _ len, of ?out] by (auto simp: encodes_def m_def)
  obtain t where d: "decompress_into b (replicate (length p) 0) = Ok (length p, p @ t)"
    using slice_decodes [of False "[]" b p "replicate (length p) 0"] i(2) fits by (auto simp: decoding_defs)
  show ?thesis
    by (simp add: fuzz_roundtrip_def Let_def c(1) decompress_decodes(1) [OF fits_vec [OF len] c(2)] p_def [symmetric] max
        i(1) d sub_slice_def)
qed

lemma fuzz_roundtrip_dict_passes:
  assumes "length (repeated data reps) * 110 < 2 ^ 64"
  shows "fuzz_roundtrip_dict data dictionary reps = Ok ()"
proof -
  define p where "p = repeated data reps"
  define m where "m = 20 + length p * 110 div 100"
  note len = assms [folded p_def]
  note max = get_maximum_output_size_eq [OF len, where ?'a = unit, folded m_def]
  let ?out = "replicate m 0 :: bytes"
  define dict where "dict = take (min (length dictionary) (128 * 1024)) dictionary"
  note fits = fits_usize [OF len]
  obtain c where n: "DictCompressorN_new DEFAULT_DICT_ENTRIES dict = Ok c" "DictCompressorRefN_ok DEFAULT_DICT_ENTRIES dict (as_ref c)"
    using new_compressors_ok(3) [OF valid_default_entries(1)] by blast
  obtain blk c2 where c: "DictCompressorN_compress c p = (Ok (blk, c2) :: (unit, _) outcome)" "lz4_block dict [] blk p"
    "DictCompressorRefN_ok DEFAULT_DICT_ENTRIES dict (as_ref c2)"
    using DictCompressorN_compress_ok [OF n(2) len, where ?'e = unit] by blast
  obtain b tail c3 where i: "DictCompressorN_compress_into c2 p ?out = Ok (length b, c3, b @ tail)" "lz4_block dict [] b p"
    using DictCompressorN_into_ok [OF c(3) len, of ?out] by (auto simp: m_def)
  obtain t where d: "Decompressor_decompress_into (Decompressor_with_dict dict) b (replicate (length p) 0) = Ok (length p, p @ t)"
    using slice_decodes [of True dict b p "replicate (length p) 0"] i(2) fits by (auto simp: decoding_defs)
  have "ignore (decompress blk (length p)) = (Ok () :: (unit, unit) outcome)"
    by (rule ignore_returns [OF decompress_returns(1) [OF fits_vec [OF len]]])
  then show ?thesis
    unfolding fuzz_roundtrip_dict_def Let_def dict_def [symmetric] p_def [symmetric]
    by (simp add: n(1) c(1) decompress_decodes(2) [OF fits_vec [OF len] c(2)] max i(1) d sub_slice_def)
qed

lemma tiny_plain_passes:
  assumes "length p * 110 < 2 ^ 64" "valid_entries N" "length (fst bufs) = 20 + length p * 110 div 100" "length (snd bufs) = length p"
  shows "\<exists>bufs'. tiny_plain N p bufs = Ok bufs' \<and> length (fst bufs') = length (fst bufs) \<and> length (snd bufs') = length p"
proof -
  obtain cb db where b: "bufs = (cb, db)" by (cases bufs)
  obtain c where n: "CompressorRefN_new N = (Ok c :: (unit, _) outcome)" "CompressorRefN_ok N c"
    using new_compressors_ok(1) [OF assms(2), where ?'e = unit] by blast
  obtain blk tail c2 where i: "CompressorRefN_compress_into c p cb = Ok (length blk, c2, blk @ tail)" "length (blk @ tail) = length cb"
    "lz4_block [] [] blk p"
    using CompressorRefN_into_ok [OF n(2) assms(1), of cb] assms(3) b by auto
  obtain t where d: "decompress_into blk db = Ok (length p, p @ t)" "length p + length t = length db"
    using slice_decodes [of False "[]" blk p db] i(3) fits_usize [OF assms(1)] assms(4) b by (auto simp: decoding_defs)
  show ?thesis
    using assms(4) d(2) i(2) by (simp add: tiny_plain_def b n(1) i(1) d(1) sub_slice_def)
qed

lemma tiny_dict_passes:
  assumes "length p * 110 < 2 ^ 64" "valid_entries N" "length (fst bufs) = 20 + length p * 110 div 100"
  shows "\<exists>bufs'. tiny_dict N dict p bufs = Ok bufs' \<and> length (fst bufs') = length (fst bufs)"
proof -
  obtain cb db where b: "bufs = (cb, db)" by (cases bufs)
  obtain c where n: "DictCompressorRefN_new N dict = Ok c" "DictCompressorRefN_ok N dict c"
    using new_compressors_ok(2) [OF assms(2)] by blast
  obtain blk tail c2 where i: "DictCompressorRefN_compress_into c p cb = Ok (length blk, c2, blk @ tail)" "length (blk @ tail) = length cb"
    "lz4_block dict [] blk p"
    using DictCompressorRefN_into_ok [OF n(2) assms(1), of cb] assms(3) b by auto
  show ?thesis
    using i(2) by (simp add: tiny_dict_def b n(1) i(1) decompress_decodes(2) [OF fits_vec [OF assms(1)] i(3)] sub_slice_def)
qed

lemma valid_entries_tiny: "valid_entries 256" "valid_entries 512" "valid_entries 1024"
  by (simp_all add: valid_entries_def MIN_ENTRIES_def ilog2.simps [of "numeral _"] ilog2.simps [of "Suc 0"])

lemma fuzz_roundtrip_tiny_tables_passes:
  assumes "length (repeated data reps) * 110 < 2 ^ 64"
  shows "fuzz_roundtrip_tiny_tables data dictionary reps = Ok ()"
proof -
  let ?p = "repeated data reps" and ?n = "20 + length (repeated data reps) * 110 div 100" and ?dict = "take (min (length dictionary) (128 * 1024)) dictionary"
  obtain b1 where b1: "tiny_plain 256 ?p (replicate ?n 0, replicate (length ?p) 0) = Ok b1" "length (fst b1) = ?n" "length (snd b1) = length ?p"
    using tiny_plain_passes [OF assms valid_entries_tiny(1), of "(replicate ?n 0, replicate (length ?p) 0)"] by auto
  obtain b2 where b2: "tiny_plain 512 ?p b1 = Ok b2" "length (fst b2) = ?n"
    using tiny_plain_passes [OF assms valid_entries_tiny(2) b1(2,3)] b1(2) by auto
  obtain b3 where b3: "tiny_dict 256 ?dict ?p b2 = Ok b3" "length (fst b3) = ?n"
    using tiny_dict_passes [OF assms valid_entries_tiny(1) b2(2), of ?dict] b2(2) by auto
  obtain b4 where b4: "tiny_dict 1024 ?dict ?p b3 = Ok b4"
    using tiny_dict_passes [OF assms valid_entries_tiny(3) b3(2), of ?dict] by auto
  show ?thesis
    unfolding fuzz_roundtrip_tiny_tables_def Let_def get_maximum_output_size_eq [OF assms] obind.simps b1(1) b2(1) b3(1) b4 by simp
qed


section \<open>Validation\<close>

lemma valid_decodes:
  assumes "validate_block_internal input n (length dict) = Ok v" "n \<le> usize_max" "length input \<le> usize_max"
    "dict = (if use_dict then d else [])"
  shows "decoded_len v = n \<and> (\<exists>out. decompress_slice use_dict input (replicate n 0) d = Ok (n, out))"
  using validate_block_internal_iff [OF assms(2,3), of dict v] assms(1,4)
  by (cases rule: slice_cases [of use_dict d "replicate n 0" input]) auto

lemma check_implication_passes:
  assumes "n \<le> usize_max" "length input \<le> usize_max"
  shows "check_implication input n = Ok ()" "check_implication_dict input n dict = Ok ()"
proof -
  show "check_implication input n = Ok ()"
    using valid_decodes [of input n "[]" _ False "[]"] assms validate_block_internal_returns [of input n 0]
    by (cases "validate_block_internal input n 0") (fastforce simp: check_implication_def validate_block_def decoding_defs)+
  show "check_implication_dict input n dict = Ok ()"
    using valid_decodes [of input n dict _ True dict] assms validate_block_internal_returns [of input n "length dict"]
    by (cases "validate_block_internal input n (length dict)")
      (fastforce simp: check_implication_dict_def validate_block_with_dict_def decoding_defs)+
qed

lemma block_validates:
  assumes "lz4_block dict [] blk h" "length h + 4 \<le> usize_max" "length blk \<le> usize_max"
  shows "validate_block_internal blk (length h) (length dict) = Ok \<lparr>decoded_len = length h\<rparr>"
  using validate_block_internal_iff [of "length h" blk dict] decode_block_complete [OF assms(1) le_refl assms(2)] assms(2,3)
  by auto

lemma block_bound_usize: "length blk \<le> 20 + n * 110 div 100 \<Longrightarrow> n * 110 < 2 ^ 64 \<Longrightarrow> length blk \<le> usize_max"
  by (simp add: usize_max_def)

text \<open>A damaged and a shortened block.\<close>

lemma damaged_block:
  assumes "blk \<noteq> []"
  shows "umod k (length blk) = Ok (k mod length blk)" "idx_get blk (k mod length blk) = Ok (blk ! (k mod length blk))"
    "set_at blk (k mod length blk) v = Ok (blk[k mod length blk := v])"
    "sub_slice blk 0 (k mod length blk) = Ok (take (k mod length blk) blk)"
  using assms by (simp_all add: umod_def idx_get_def set_at_def sub_slice_def less_imp_le)

lemma fuzz_validate_block_passes:
  assumes "length plain * 110 < 2 ^ 64" "length encoded \<le> usize_max" "expected \<le> usize_max"
  shows "fuzz_validate_block encoded plain expected mutation_index mutation_mask truncation = Ok ()"
proof -
  note fits = fits_usize [OF assms(1)]
  obtain blk where c: "compress plain = (Ok blk :: (unit, _) outcome)" "encodes [] plain blk"
    using compress_ok [OF assms(1), where ?'e = unit] by blast
  have len: "length blk \<le> usize_max" by (rule block_bound_usize [OF encodes_bound [OF c(2)] assms(1)])
  have b: "lz4_block [] [] blk plain" using c(2) by (simp add: encodes_def)
  have v: "validate_block blk (length plain) = Ok \<lparr>decoded_len = length plain\<rparr>"
    using block_validates [OF b fits len] by (simp add: validate_block_def)
  have usize: "length plain \<le> usize_max" using fits by simp
  show ?thesis
    unfolding fuzz_validate_block_def check_implication_passes(1) [OF assms(3,2)] obind.simps c(1) v unwrap.simps
      damaged_block [OF lz4_block_nonempty [OF b]]
    using len by (simp add: check_implication_passes(1) [OF usize])
qed

lemma fuzz_validate_block_dict_passes:
  assumes "length plain * 110 < 2 ^ 64" "length encoded \<le> usize_max" "expected \<le> usize_max"
  shows "fuzz_validate_block_dict encoded plain dictionary expected mutation_index mutation_mask truncation = Ok ()"
proof -
  define dict where "dict = take (min (length dictionary) (128 * 1024)) dictionary"
  note fits = fits_usize [OF assms(1)]
  obtain c where n: "DictCompressorN_new DEFAULT_DICT_ENTRIES dict = Ok c" "DictCompressorRefN_ok DEFAULT_DICT_ENTRIES dict (as_ref c)"
    using new_compressors_ok(3) [OF valid_default_entries(1)] by blast
  obtain blk c2 where c: "DictCompressorN_compress c plain = (Ok (blk, c2) :: (unit, _) outcome)" "lz4_block dict [] blk plain"
    "length blk \<le> 20 + length plain * 110 div 100"
    using DictCompressorN_compress_ok [OF n(2) assms(1), where ?'e = unit] by blast
  have len: "length blk \<le> usize_max" by (rule block_bound_usize [OF c(3) assms(1)])
  have v: "validate_block_with_dict blk (length plain) dict = Ok \<lparr>decoded_len = length plain\<rparr>"
    using block_validates [OF c(2) fits len] by (simp add: validate_block_with_dict_def)
  have usize: "length plain \<le> usize_max" using fits by simp
  show ?thesis
    unfolding fuzz_validate_block_dict_def Let_def dict_def [symmetric] check_implication_passes(2) [OF assms(3,2)]
      obind.simps n(1) unwrap.simps c(1) prod.case v damaged_block [OF lz4_block_nonempty [OF c(2)]]
    using len by (simp add: check_implication_passes(2) [OF usize])
qed

section \<open>Decoding anything\<close>

lemma corrupt_buffers_pass: "corrupt_buffers input dict sizes = Ok ()"
proof (induction sizes)
  case (Cons n sizes)
  let ?r = "if dict = [] then decompress_into input (replicate n 0)
      else Decompressor_decompress_into (Decompressor_with_dict dict) input (replicate n 0)"
  have "?r = decompress_slice (dict \<noteq> []) input (replicate n 0) dict" by (simp add: decoding_defs)
  then show ?case using Cons
    by (cases rule: slice_cases [of "dict \<noteq> []" dict "replicate n 0" input]) (auto simp: sub_slice_def)
qed simp

lemma fuzz_decomp_corrupt_block_passes:
  "output_size \<le> isize_max \<Longrightarrow> fuzz_decomp_corrupt_block input output_size dict_size dict_pattern = Ok ()"
  by (simp add: fuzz_decomp_corrupt_block_def Let_def corrupt_buffers_pass ignore_returns decompress_returns)

lemma leak_decompress_eq: "leak_decompress input out dict = decompress_slice (dict \<noteq> []) input out dict"
  by (simp add: leak_decompress_def decoding_defs)

lemma leak_append_eq:
  "length out + n \<le> isize_max \<Longrightarrow> leak_append input out n dict = (case decode_block dict n [] input of
     Ok h \<Rightarrow> Ok (length h, out @ h) | Err (e, h) \<Rightarrow> Err (e, out) | Panic \<Rightarrow> Panic | Diverge \<Rightarrow> Diverge)"
  by (simp add: leak_append_def decoding_defs decompress_append_internal_eq)

lemma leak_again_passes:
  assumes "decode_block dict n [] input = Ok h"
  shows "leak_again input dict h fill n = Ok ()"
proof -
  have d: "(if dict \<noteq> [] then dict else []) = dict" by simp
  show ?thesis
    using assms by (cases rule: slice_cases [of "dict \<noteq> []" dict "replicate n fill" input, unfolded d length_replicate])
      (auto simp: leak_again_def leak_decompress_eq sub_slice_def)
qed

lemma fuzz_decomp_no_output_leak_passes:
  assumes "length input < 2 ^ 60"
  shows "fuzz_decomp_no_output_leak input dict_size dict_byte = Ok ()"
proof -
  define dict where "dict = pattern_dict dict_byte dict_size"
  define n where "n = max 512 (length input * 4)"
  have d: "(if dict \<noteq> [] then dict else []) = dict" by simp
  have "length (replicate 7 (0x55 :: byte)) + n \<le> isize_max" using assms by (simp add: n_def isize_max_def)
  note append = leak_append_eq [OF this]
  show ?thesis
  proof (cases rule: slice_cases [of "dict \<noteq> []" dict "replicate n 0" input, unfolded d length_replicate])
    case (1 h tail)
    then show ?thesis
      unfolding fuzz_decomp_no_output_leak_def Let_def dict_def [symmetric] n_def [symmetric] leak_decompress_eq append
      by (simp add: sub_slice_def leak_again_passes)
  next
    case (2 e h tail)
    then show ?thesis
      unfolding fuzz_decomp_no_output_leak_def Let_def dict_def [symmetric] n_def [symmetric] leak_decompress_eq append
      by simp
  qed
qed

lemma mutate_Ok:
  assumes "corrupted \<noteq> []"
  shows "\<exists>bs. mutate corrupted mutation = Ok bs"
proof -
  have "min i (length corrupted - Suc 0) < length corrupted" for i using assms by (simp add: min_less_iff_disj)
  then show ?thesis using assms by (cases mutation) (auto simp: mutate_def Let_def usub_def idx_get_def set_at_def Suc_le_eq)
qed

lemma mutate_all_Ok: "\<exists>bs. mutate_all corrupted mutations = Ok bs"
proof (induction mutations arbitrary: corrupted)
  case (Cons mutation mutations)
  then show ?case using mutate_Ok [of corrupted mutation] by (cases "corrupted = []") auto
qed simp

lemma fuzz_compress_bitflip_passes:
  assumes "length (repeated data reps) * 110 < 2 ^ 64"
  shows "fuzz_compress_bitflip data reps mutations = Ok ()"
proof -
  have n: "length (repeated data reps) \<le> isize_max" "length (repeated data reps) * 2 + 1024 \<le> isize_max"
    using assms by (simp_all add: isize_max_def)
  obtain blk where c: "compress (repeated data reps) = (Ok blk :: (unit, _) outcome)"
    using compress_ok [OF assms, where ?'e = unit] by blast
  obtain bs where m: "mutate_all blk mutations = Ok bs" using mutate_all_Ok by blast
  show ?thesis
    by (simp add: fuzz_compress_bitflip_def Let_def c m n ignore_returns decompress_returns decompress_into_def slice_returns)
qed

lemma fuzz_craft_tokens_passes: "fuzz_craft_tokens tokens output_size dict_size = Ok ()"
  by (simp add: fuzz_craft_tokens_def Let_def ignore_returns slice_returns decoding_defs)

text \<open>Whatever other encoder wrote it: a block of the data is decoded to the data.\<close>

lemma fuzz_roundtrip_cpp_compress_passes:
  assumes "\<exists>blk. compress_to_vec data = Some blk \<and> lz4_block [] [] blk data" "length data \<le> isize_max"
  shows "fuzz_roundtrip_cpp_compress compress_to_vec data = Ok ()"
  using assms decompress_decodes(1) [OF assms(2)] by (auto simp: fuzz_roundtrip_cpp_compress_def)

lemma fuzz_roundtrip_cpp_decompress_passes:
  assumes c: "\<And>blk h out. ending_block (length h) [] [] blk h \<Longrightarrow> length out = length h \<Longrightarrow> length h < 2 ^ 31 \<Longrightarrow> length blk < 2 ^ 31 \<Longrightarrow>
      decompress_into_slice blk out = Some h"
    and len: "20 + length data * 110 div 100 < 2 ^ 31"
  shows "fuzz_roundtrip_cpp_decompress decompress_into_slice data = Ok ()"
proof -
  have n: "length data * 110 < 2 ^ 64" "length data < 2 ^ 31" using len by simp_all
  obtain blk where blk: "compress data = (Ok blk :: (unit, bytes) outcome)" "encodes [] data blk"
    using compress_ok [OF n(1)] by blast
  have e: "ending_block (length data) [] [] blk data" using blk(2) by (simp add: encodes_def)
  have l: "length blk < 2 ^ 31" using encodes_bound [OF blk(2)] len by linarith
  have "decompress_into_slice blk (replicate (length data) 0) = Some data" by (rule c [OF e _ n(2) l]) simp
  then show ?thesis by (simp add: fuzz_roundtrip_cpp_decompress_def blk(1))
qed

section \<open>Properties\<close>

text \<open>
  C37: the fuzz targets that compress and decompress pass on all data: the round trips of the
  one-shot functions and of the compressors, with tables of any of the sizes and with
  dictionaries, and decoding what a damaged block has become.
\<close>

theorem fuzz_round_trip_targets_pass:
  assumes "length (repeated data reps) * 110 < 2 ^ 64"
  shows "fuzz_roundtrip data reps = Ok () \<and> fuzz_roundtrip_dict data dictionary reps = Ok () \<and>
    fuzz_roundtrip_tiny_tables data dictionary reps = Ok () \<and> fuzz_compress_bitflip data reps mutations = Ok ()"
  by (intro conjI fuzz_roundtrip_passes fuzz_roundtrip_dict_passes fuzz_roundtrip_tiny_tables_passes
      fuzz_compress_bitflip_passes assms)

theorem fuzz_round_trip_targets_pass_witness:
  "fuzz_roundtrip_dict [1, 2, 3, 4] [3, 4, 5, 6] 4 = Ok () \<and> fuzz_compress_bitflip [1, 2, 3, 4] 4 [FlipBit 9 3, InsertFF 255] = Ok ()"
  using fuzz_round_trip_targets_pass [of "[1, 2, 3, 4]" 4 "[3, 4, 5, 6]" "[FlipBit 9 3, InsertFF 255]"]
  by (simp add: length_repeated)

text \<open>
  C38: the fuzz targets that decode and validate arbitrary blocks pass on all data: validation
  accepts what compression makes and implies that decoding fills the buffer, nothing panics on
  damaged or crafted blocks, and neither results nor errors depend on the contents of the buffer.
\<close>

theorem fuzz_decoding_targets_pass:
  assumes "length plain * 110 < 2 ^ 64" "length encoded < 2 ^ 60" "expected < 2 ^ 60"
  shows "fuzz_validate_block encoded plain expected mutation_index mutation_mask truncation = Ok () \<and>
    fuzz_validate_block_dict encoded plain dictionary expected mutation_index mutation_mask truncation = Ok () \<and>
    fuzz_decomp_corrupt_block encoded expected dict_size b = Ok () \<and>
    fuzz_decomp_no_output_leak encoded dict_size b = Ok () \<and>
    fuzz_craft_tokens tokens expected dict_size = Ok ()"
proof -
  have "length encoded \<le> usize_max" "expected \<le> usize_max" "expected \<le> isize_max"
    using assms by (simp_all add: usize_max_def isize_max_def)
  with assms show ?thesis
    by (intro conjI fuzz_validate_block_passes fuzz_validate_block_dict_passes fuzz_decomp_corrupt_block_passes
        fuzz_decomp_no_output_leak_passes fuzz_craft_tokens_passes)
qed

theorem fuzz_decoding_targets_pass_witness:
  "fuzz_validate_block [80, 104] [1, 2, 3] 9 1 255 2 = Ok () \<and> fuzz_decomp_no_output_leak [80, 104] 5 7 = Ok ()"
  using fuzz_decoding_targets_pass [of "[1, 2, 3]" "[80, 104]" 9 1 255 2 "[]" 5 7 "[]"] by (simp add: usize_max_def)

text \<open>
  C40: the library and the C library read each other's blocks: decompress gives back what any encoder
  of the block format has made, and a decoder that may insist on the end rules of the format and
  on sizes of at most 31 bits gives back what compress has made.
\<close>

theorem fuzz_c_library_targets_pass:
  assumes "\<exists>blk. compress_to_vec data = Some blk \<and> lz4_block [] [] blk data"
    and "\<forall>blk h out. ending_block (length h) [] [] blk h \<and> length out = length h \<and> length h < 2 ^ 31 \<and> length blk < 2 ^ 31 \<longrightarrow>
      decompress_into_slice blk out = Some h"
    and "20 + length data * 110 div 100 < 2 ^ 31"
  shows "fuzz_roundtrip_cpp_compress compress_to_vec data = Ok () \<and>
    fuzz_roundtrip_cpp_decompress decompress_into_slice data = Ok ()"
proof -
  have "length data \<le> isize_max" using assms(3) by (simp add: isize_max_def)
  then show ?thesis
    using assms by (intro conjI fuzz_roundtrip_cpp_compress_passes fuzz_roundtrip_cpp_decompress_passes) blast+
qed

theorem fuzz_c_library_targets_pass_witness:
  "fuzz_roundtrip_cpp_compress (\<lambda>_. Some [48, 1, 2, 3]) [1, 2, 3] = Ok () \<and>
   fuzz_roundtrip_cpp_decompress (\<lambda>blk out. case decode_block [] (length out) [] blk of Ok h \<Rightarrow> Some h | _ \<Rightarrow> None) [1, 2, 3] = Ok ()"
proof -
  let ?dec = "\<lambda>blk (out :: bytes). case decode_block [] (length out) [] blk of Ok h \<Rightarrow> Some h | _ \<Rightarrow> None"
  have "lz4_block [] [] (48 # [] @ [1, 2, 3]) ([] @ [1, 2, 3])"
    by (rule lz4_block.intros(1)) (simp add: lit_nibble_def len_code_def)
  then have b: "\<exists>blk. Some [48, 1, 2, 3] = Some blk \<and> lz4_block [] [] blk [1, 2, 3]" by simp
  have d: "\<forall>blk h out. ending_block (length h) [] [] blk h \<and> length out = length h \<and> length h < 2 ^ 31 \<and> length blk < 2 ^ 31 \<longrightarrow>
      ?dec blk out = Some h"
  proof (intro allI impI, elim conjE)
    fix blk h out :: bytes
    assume "ending_block (length h) [] [] blk h" "length out = length h" "length h < 2 ^ 31"
    then have "decode_block [] (length out) [] blk = Ok h"
      by (intro decode_block_complete [OF ending_block_lz4]) (simp_all add: usize_max_def)
    then show "?dec blk out = Some h" by simp
  qed
  show ?thesis using fuzz_c_library_targets_pass [of "\<lambda>_. Some [48, 1, 2, 3]" "[1, 2, 3]" ?dec, OF b d] by simp
qed

end
