(* ===== verification/Fuzz_Frames.thy ===== *)
theory Fuzz_Frames
  imports Frame_Reuse Wasm_Binding Fuzz_Blocks_Pass
begin

text \<open>
  The fuzz targets for frames and for reused decoders, \<^verbatim>\<open>fuzz/fuzz_targets\<close>, and that no data makes
  them panic.  The hash is a parameter, and so is what the standard library chooses: the
  lengths of the buffers that \<^verbatim>\<open>read_to_end\<close> reads with and the text of an \<^verbatim>\<open>io::Error\<close>.
\<close>

unbundle bit_operations_syntax

section \<open>Data and chunks\<close>

definition MAX_DATA_SIZE :: nat where "MAX_DATA_SIZE = 64 * 1024"

text \<open>The sample again and again until there are enough bytes; each round adds at least one.\<close>

fun fill_data :: "nat \<Rightarrow> bytes \<Rightarrow> nat \<Rightarrow> bytes \<Rightarrow> ('e, bytes) outcome" where
  "fill_data 0 sample data_size data = Diverge"
| "fill_data (Suc fuel) sample data_size data =
     (if length data < data_size then fill_data fuel sample data_size (data @ sample) else Ok data)"

definition sample_data :: "bytes \<Rightarrow> nat \<Rightarrow> ('e, bytes) outcome" where
  "sample_data sample data_size =
     obind (fill_data (data_size + 1) sample data_size []) (\<lambda>data. Ok (take data_size data))"

text \<open>\<^verbatim>\<open>data.chunks(n)\<close>\<close>

function chunks_of :: "nat \<Rightarrow> bytes \<Rightarrow> bytes list" where
  "chunks_of n xs = (if n = 0 \<or> xs = [] then [] else take n xs # chunks_of n (drop n xs))"
  by pat_completeness auto
termination by (relation "measure (\<lambda>(n, xs). length xs)") auto

declare chunks_of.simps [simp del]

definition data_chunks :: "nat \<Rightarrow> bytes \<Rightarrow> ('e, bytes list) outcome" where
  "data_chunks n xs = (if n = 0 then Panic else Ok (chunks_of n xs))"

lemma concat_chunks_of: "0 < n \<Longrightarrow> concat (chunks_of n xs) = xs"
  by (induction n xs rule: chunks_of.induct) (subst chunks_of.simps, simp)

fun for_each :: "('a \<Rightarrow> (unit, unit) outcome) \<Rightarrow> 'a list \<Rightarrow> (unit, unit) outcome" where
  "for_each f [] = Ok ()"
| "for_each f (x # xs) = obind (f x) (\<lambda>_. for_each f xs)"

lemma for_each_Ok: "(\<And>x. x \<in> set xs \<Longrightarrow> f x = Ok ()) \<Longrightarrow> for_each f xs = Ok ()"
  by (induction xs) auto

section \<open>Round trips of frames\<close>

definition frame_configs :: "FrameInfo list" where
  "frame_configs =
     concat (map (\<lambda>bm. concat (map (\<lambda>bs. map (\<lambda>check_sum.
       FrameInfo_new\<lparr>block_mode := bm, block_size := bs, block_checksums := check_sum, content_checksum := check_sum\<rparr>)
       [True, False]) [Max64KB, Max256KB, Max1MB, Max4MB])) [Independent, Linked])"

text \<open>Each chunk is written and flushed.\<close>

fun flush_chunks :: "'h hasher \<Rightarrow> ('h, bytes) FrameEncoder \<Rightarrow> bytes list \<Rightarrow> (unit, ('h, bytes) FrameEncoder) outcome" where
  "flush_chunks H enc [] = Ok enc"
| "flush_chunks H enc (part # chunks) =
     obind (unwrap (FrameEncoder_write H vec_writer enc part)) (\<lambda>(_, enc).
     obind (unwrap (FrameEncoder_flush H vec_writer enc)) (\<lambda>enc.
     flush_chunks H enc chunks))"

text \<open>The loop that reads into the next part of the buffer until nothing comes.\<close>

fun read_parts :: "nat \<Rightarrow> nat \<Rightarrow> 'h hasher \<Rightarrow> ('h, bytes) FrameDecoder \<Rightarrow> nat \<Rightarrow> bytes \<Rightarrow> nat \<Rightarrow> (unit, bytes) outcome" where
  "read_parts 0 read_fuel H dec chunk_size out pos = Diverge"
| "read_parts (Suc fuel) read_fuel H dec chunk_size out pos =
     obind (sub_slice out pos (pos + chunk_size)) (\<lambda>_.
     obind (unwrap (FrameDecoder_read read_fuel H slice_reader dec chunk_size)) (\<lambda>(bs, dec).
     let out = blit out pos bs in
     if bs = [] then Ok (take pos out)
     else read_parts fuel read_fuel H dec chunk_size out (pos + length bs)))"

definition roundtrip_frame_config :: "'h hasher \<Rightarrow> bytes \<Rightarrow> nat \<Rightarrow> FrameInfo \<Rightarrow> (unit, unit) outcome" where
  "roundtrip_frame_config H data chunk_size fi =
     obind (FrameEncoder_with_frame_info H fi []) (\<lambda>enc.
     obind (data_chunks chunk_size data) (\<lambda>chunks.
     obind (flush_chunks H enc chunks) (\<lambda>enc.
     obind (unwrap (finish H vec_writer enc)) (\<lambda>compressed.
     let decompressed = replicate (length data + chunk_size) 0; dec = FrameDecoder_new H compressed in
     obind (read_parts (length data + 1) (length compressed + 2) H dec chunk_size decompressed 0) (\<lambda>decompressed.
     assert_that (data = decompressed))))))"

definition fuzz_roundtrip_frame :: "'h hasher \<Rightarrow> bytes \<Rightarrow> nat \<Rightarrow> nat \<Rightarrow> (unit, unit) outcome" where
  "fuzz_roundtrip_frame H sample data_size_seed chunk_size_seed =
     (if sample = [] then Ok ()
      else
        let chunk_size = max (chunk_size_seed mod MAX_DATA_SIZE) 64; data_size = data_size_seed mod MAX_DATA_SIZE in
        obind (sample_data sample data_size) (\<lambda>data.
        for_each (roundtrip_frame_config H data chunk_size) frame_configs))"

fun write_chunks :: "'h hasher \<Rightarrow> ('h, bytes) FrameEncoder \<Rightarrow> bytes list \<Rightarrow> (unit, ('h, bytes) FrameEncoder) outcome" where
  "write_chunks H enc [] = Ok enc"
| "write_chunks H enc (part # chunks) =
     obind (unwrap (encoder_write_all (length part + 2) H vec_writer enc part)) (\<lambda>enc.
     write_chunks H enc chunks)"

definition fuzz_roundtrip_frame_dict :: "'h hasher \<Rightarrow> bytes \<Rightarrow> bytes \<Rightarrow> nat \<Rightarrow> nat \<Rightarrow> (unit, unit) outcome" where
  "fuzz_roundtrip_frame_dict H sample dictionary data_size_seed chunk_size_seed =
     (if sample = [] then Ok ()
      else
        let chunk_size = max (chunk_size_seed mod MAX_DATA_SIZE) 64; data_size = data_size_seed mod MAX_DATA_SIZE in
        obind (sample_data sample data_size) (\<lambda>data.
        let dict = take (min (length dictionary) (64 * 1024)) dictionary in
        if dict = [] then Ok ()
        else
          let did = 0x12345678 in
          obind (unwrap (FrameEncoder_with_dictionary H [] dict did None)) (\<lambda>enc.
          obind (data_chunks chunk_size data) (\<lambda>chunks.
          obind (write_chunks H enc chunks) (\<lambda>enc.
          obind (unwrap (finish H vec_writer enc)) (\<lambda>compressed.
          let read_all = (\<lambda>dec. read_to_end (length compressed + 1) H slice_reader dec []) in
          obind (unwrap (read_all (FrameDecoder_with_dictionary H compressed dict did))) (\<lambda>(_, _, decompressed).
          obind (assert_that (data = decompressed)) (\<lambda>_.
          let wrong_dict = map (\<lambda>b. b + 1) dict in
          obind (ignore (read_all (FrameDecoder_with_dictionary H compressed wrong_dict did))) (\<lambda>_.
          ignore (read_all (FrameDecoder_new H compressed)))))))))))"

section \<open>Damaged frames\<close>

definition lz4rip_frame_decompress :: "'h hasher \<Rightarrow> bytes \<Rightarrow> (Error, bytes) outcome" where
  "lz4rip_frame_decompress H input =
     obind (map_err (\<lambda>(e, _). Error_of_io e) (read_to_end (length input + 1) H slice_reader (FrameDecoder_new H input) []))
       (\<lambda>(_, _, out). Ok out)"

definition fuzz_decomp_corrupt_frame :: "'h hasher \<Rightarrow> bytes \<Rightarrow> (unit, unit) outcome" where
  "fuzz_decomp_corrupt_frame H data =
     (let try_frame = (\<lambda>buffer. ignore (lz4rip_frame_decompress H buffer));
          len = le_bytes 4 (length data) in
      obind (try_frame data) (\<lambda>_.
      obind (for_each (\<lambda>start. try_frame (start @ data)) [[], [0x04, 0x22, 0x4d, 0x18]]) (\<lambda>_.
      for_each (\<lambda>start.
        obind (try_frame (start @ data)) (\<lambda>_.
        try_frame (start @ len @ data @ len @ data)))
        [[0x04, 0x22, 0x4d, 0x18, 0x60, 0x40, 0x82], [0x04, 0x22, 0x4d, 0x18, 0x40, 0x40, 0xC0]])))"

section \<open>Reused decoders\<close>

definition LIMIT :: nat where "LIMIT = push_bit 20 1"
definition BLOCK_CAPACITY :: nat where "BLOCK_CAPACITY = push_bit 16 1"
definition DICT :: bytes where
  "DICT = map of_char ''level=INFO service=ingest event= message=lz4rip decoder reuse''"
definition DICT_ID :: "32 word" where "DICT_ID = 0x0D1C7001"

text \<open>A header: an empty frame without its end.\<close>

definition reuse_header :: "'h hasher \<Rightarrow> BlockMode \<Rightarrow> bool \<Rightarrow> bytes option \<Rightarrow> (unit, bytes) outcome" where
  "reuse_header H mode checksums dict =
     (let info = FrameInfo_content_checksum (FrameInfo_block_checksums (FrameInfo_block_size
            (FrameInfo_block_mode FrameInfo_new mode) Max64KB) checksums) checksums in
      obind (case dict of
          Some dict \<Rightarrow> unwrap (FrameEncoder_with_dictionary H [] dict DICT_ID (Some info))
        | None \<Rightarrow> FrameEncoder_with_frame_info H info []) (\<lambda>encoder.
      obind (unwrap (finish H vec_writer encoder)) (\<lambda>frame.
      let trailer = (if checksums then 8 else 4) in
      obind (usub (length frame) trailer) (\<lambda>n. sub_slice frame 0 n))))"

fun reuse_headers :: "'h hasher \<Rightarrow> (BlockMode \<times> bool \<times> bytes option) list \<Rightarrow> bytes list \<Rightarrow> (unit, bytes list) outcome" where
  "reuse_headers H [] headers = Ok headers"
| "reuse_headers H ((mode, checksums, dict) # configs) headers =
     obind (reuse_header H mode checksums dict) (\<lambda>h. reuse_headers H configs (headers @ [h]))"

definition HEADERS :: "'h hasher \<Rightarrow> (unit, bytes list) outcome" where
  "HEADERS H =
     reuse_headers H
       (concat (map (\<lambda>mode. concat (map (\<lambda>checksums. map (\<lambda>dict. (mode, checksums, dict)) [None, Some DICT])
         [False, True])) [Independent, Linked])) [[]]"

definition new_frame_decoder :: "'h hasher \<Rightarrow> bytes \<Rightarrow> bool \<Rightarrow> ('h, bytes) FrameDecoder" where
  "new_frame_decoder H input dict =
     (if dict then FrameDecoder_with_dictionary H input DICT DICT_ID else FrameDecoder_new H input)"

text \<open>
  \<^verbatim>\<open>take(limit).read_to_end(&mut output)\<close>: reads with buffers whose lengths, of at least one byte,
  the standard library chooses from what the reads before have given, one by one.
\<close>

fun read_limited ::
  "nat \<Rightarrow> nat \<Rightarrow> (bytes list \<Rightarrow> nat) \<Rightarrow> 'h hasher \<Rightarrow> ('h, bytes) FrameDecoder \<Rightarrow> nat \<Rightarrow> bytes list \<Rightarrow>
   (unit, (bytes list \<times> io_error option) \<times> ('h, bytes) FrameDecoder) outcome" where
  "read_limited 0 read_fuel plan H decoder limit parts = Diverge"
| "read_limited (Suc fuel) read_fuel plan H decoder limit parts =
     (if limit = 0 then Ok ((parts, None), decoder)
      else
        case FrameDecoder_read read_fuel H slice_reader decoder (min (plan parts) limit) of
          Ok (bs, decoder) \<Rightarrow>
            if bs = [] then Ok ((parts, None), decoder)
            else read_limited fuel read_fuel plan H decoder (limit - length bs) (parts @ [bs])
        | Err (e, decoder) \<Rightarrow>
            if kind_of e = Interrupted then read_limited fuel read_fuel plan H decoder limit parts
            else Ok ((parts, Some e), decoder)
        | Panic \<Rightarrow> Panic
        | Diverge \<Rightarrow> Diverge)"

definition read_frames ::
  "(bytes list \<Rightarrow> nat) \<Rightarrow> (io_error \<Rightarrow> string) \<Rightarrow> 'h hasher \<Rightarrow> ('h, bytes) FrameDecoder \<Rightarrow>
   (unit, (bytes \<times> string option) \<times> ('h, bytes) FrameDecoder) outcome" where
  "read_frames plan to_string H decoder =
     obind (read_limited (LIMIT + 1) (length (fd_r decoder) + 2) plan H decoder LIMIT []) (\<lambda>((parts, result), decoder).
     Ok ((concat parts, map_option to_string result), decoder))"

fun reuse_frames ::
  "(bytes list \<Rightarrow> nat) \<Rightarrow> (io_error \<Rightarrow> string) \<Rightarrow> 'h hasher \<Rightarrow> bool \<Rightarrow> ('h, bytes) FrameDecoder \<Rightarrow> bytes list \<Rightarrow> (unit, unit) outcome" where
  "reuse_frames plan to_string H dict reused [] = Ok ()"
| "reuse_frames plan to_string H dict reused (input # inputs) =
     obind (read_frames plan to_string H (new_frame_decoder H input dict)) (\<lambda>(expected, _).
     obind (read_frames plan to_string H (reused\<lparr>fd_r := input\<rparr>)) (\<lambda>(actual, reused).
     obind (assert_that (actual = expected)) (\<lambda>_.
     reuse_frames plan to_string H dict
       (if length (fst actual) = LIMIT then new_frame_decoder H [] dict else reused) inputs)))"

text \<open>A block decompressor keeps nothing between blocks; its caller's buffer is dirty.\<close>

definition reuse_decode_block :: "Decompressor \<Rightarrow> bytes \<Rightarrow> bytes \<Rightarrow> (unit, (DecompressError + bytes) \<times> bytes) outcome" where
  "reuse_decode_block decompressor input out =
     (case Decompressor_decompress_into decompressor input out of
        Ok (len, out) \<Rightarrow> obind (sub_slice out 0 len) (\<lambda>decoded. Ok (Inr decoded, out))
      | Err (e, out) \<Rightarrow> Ok (Inl e, out)
      | Panic \<Rightarrow> Panic
      | Diverge \<Rightarrow> Diverge)"

fun reuse_blocks :: "Decompressor \<Rightarrow> bytes \<Rightarrow> bytes list \<Rightarrow> (unit, unit) outcome" where
  "reuse_blocks decompressor out [] = Ok ()"
| "reuse_blocks decompressor out (input # inputs) =
     obind (reuse_decode_block decompressor input (replicate BLOCK_CAPACITY 0)) (\<lambda>(expected, _).
     obind (reuse_decode_block decompressor input out) (\<lambda>(actual, out).
     obind (assert_that (actual = expected)) (\<lambda>_.
     reuse_blocks decompressor out inputs)))"

definition fuzz_decoder_reuse ::
  "(bytes list \<Rightarrow> nat) \<Rightarrow> (io_error \<Rightarrow> string) \<Rightarrow> 'h hasher \<Rightarrow> bytes \<Rightarrow> (unit, unit) outcome" where
  "fuzz_decoder_reuse plan to_string H data =
     (case data of
        selector # split # rest \<Rightarrow>
          let n = unat split * length rest div 255 in
          obind (sub_slice rest 0 n) (\<lambda>first.
          obind (sub_slice rest n (length rest)) (\<lambda>second.
          obind (HEADERS H) (\<lambda>headers.
          obind (obind (umod (unat (selector AND 0xF)) (length headers)) (idx_get headers)) (\<lambda>h1.
          obind (obind (umod (unat (drop_bit 4 selector)) (length headers)) (idx_get headers)) (\<lambda>h2.
          let frames = [h1 @ first, h2 @ second, h1 @ first, h2 @ second] in
          obind (for_each (\<lambda>dict. reuse_frames plan to_string H dict (new_frame_decoder H [] dict) frames) [False, True]) (\<lambda>_.
          for_each (\<lambda>decompressor. reuse_blocks decompressor (replicate BLOCK_CAPACITY 0xA5) [first, second, first, second])
            [Decompressor_new, Decompressor_with_dict DICT]))))))
      | _ \<Rightarrow> Ok ())"

end
