(* ===== verification/Fuzz_Frames_Pass.thy ===== *)
theory Fuzz_Frames_Pass
  imports Fuzz_Frames
begin

text \<open>
  The fuzz targets for frames pass: round trips through the frame encoder and decoder, damaged
  frames, and decoders that are used again.
\<close>

section \<open>Data and chunks\<close>

lemma fill_data_ok:
  assumes "sample \<noteq> []" "n \<le> length data + fuel"
  shows "\<exists>d. fill_data (Suc fuel) sample n data = Ok d \<and> n \<le> length d"
  using assms(2)
proof (induction fuel arbitrary: data)
  case (Suc fuel)
  have "0 < length sample" using assms(1) by simp
  with Suc.prems have "n \<le> length (data @ sample) + fuel" unfolding length_append by linarith
  from Suc.IH [OF this] show ?case by (cases "length data < n") (simp_all only: fill_data.simps if_True if_False, auto)
qed simp

lemma sample_data_ok:
  assumes "sample \<noteq> []"
  shows "\<exists>data. sample_data sample n = (Ok data :: ('e, bytes) outcome) \<and> length data = n"
proof -
  obtain d where "fill_data (Suc n) sample n [] = (Ok d :: ('e, bytes) outcome)" "n \<le> length d"
    using fill_data_ok [OF assms, of n "[]" n] by auto
  then show ?thesis by (simp add: sample_data_def del: fill_data.simps)
qed

section \<open>Round trips of frames\<close>

text \<open>A frame that the encoder has written with some calls and finished.\<close>

lemma frame_written:
  assumes "block_checksums info \<Longrightarrow> oneshot_consistent H" "dictionary = None \<Longrightarrow> dict_id info = None" "content_size info = None"
    "length (bytes_of_calls cs) < 2 ^ 64"
  obtains enc enc' wire where "new_encoder H [] info dictionary = Ok enc" "run_calls H vec_writer cs enc = Ok enc'"
    "finish H vec_writer enc' = Ok wire"
    "frame_stream H (options_dict (encoder_options dictionary)) (options_dict_id (encoder_options dictionary)) wire (bytes_of_calls cs)"
proof (rule vec.run_to_end [of "[]" info H dictionary cs])
  fix self' assume r: "obind (new_encoder H [] info dictionary) (run_calls H vec_writer (cs @ [Finish_frame])) = Ok self'"
    and f: "frame_stream H (options_dict (encoder_options dictionary)) (options_dict_id (encoder_options dictionary)) (fe_w self') (bytes_of_calls cs)"
  from r obtain enc where enc: "new_encoder H [] info dictionary = Ok enc" "run_calls H vec_writer (cs @ [Finish_frame]) enc = Ok self'"
    by (auto simp: obind_Ok_iff)
  from enc(2) obtain enc' where e: "run_calls H vec_writer cs enc = Ok enc'" "try_finish H vec_writer enc' = Ok self'"
    by (cases "run_calls H vec_writer cs enc"; simp only: run_calls_append) (auto simp: obind_Ok_iff map_err_Ok_iff)
  with enc(1) f that [of enc enc' "fe_w self'"] show thesis by (simp add: finish_def)
qed (use assms in \<open>auto simp: size_matches_def\<close>)

abbreviation flush_calls :: "bytes list \<Rightarrow> enc_call list" where
  "flush_calls parts \<equiv> concat (map (\<lambda>part. [Write part, Flush]) parts)"

lemma bytes_of_flush_calls: "bytes_of_calls (flush_calls parts) = concat parts"
  by (induction parts) auto

lemma flush_chunks_calls: "run_calls H vec_writer (flush_calls parts) enc = Ok enc' \<Longrightarrow> flush_chunks H enc parts = Ok enc'"
proof (induction parts arbitrary: enc)
  case (Cons part parts)
  then show ?case by (force simp: obind_Ok_iff map_err_Ok_iff)
qed simp

lemma bytes_of_write_calls: "bytes_of_calls (concat (map write_calls parts)) = concat parts"
  by (induction parts) auto

lemma write_chunks_calls:
  "run_calls H vec_writer (concat (map write_calls parts)) enc = Ok enc' \<Longrightarrow> write_chunks H enc parts = Ok enc'"
proof (induction parts arbitrary: enc)
  case (Cons part parts)
  have "concat (map write_calls (part # parts)) = write_calls part @ concat (map write_calls parts)" by simp
  with Cons.prems obtain enc1 where e: "run_calls H vec_writer (write_calls part) enc = Ok enc1"
    "run_calls H vec_writer (concat (map write_calls parts)) enc1 = Ok enc'"
    by (simp only: run_calls_append obind_Ok_iff) blast
  with encoder_write_all_calls [OF e(1), of "length part + 2"] Cons.IH [OF e(2)] show ?case by simp
qed simp

text \<open>Reading part after part gives all of the content.\<close>

lemma read_parts_ok:
  fixes dec :: "('h, bytes) FrameDecoder"
  assumes "holds dec c st" "length (fd_r dec) + 1 < read_fuel" "stands_for (\<lambda>r. r) H dec c st x"
    "fd_bytes_output dec + length x \<le> out_limit dec + length c"
    and "0 < n" "pos + length x + n \<le> length out" "length x < fuel"
  shows "read_parts fuel read_fuel H dec n out pos = Ok (take pos out @ x)"
  using assms
proof (induction fuel arbitrary: dec c st x out pos)
  case 0
  then show ?case by simp
next
  case (Suc fuel)
  have w: "sub_slice out pos (pos + n) = (Ok (take n (drop pos out)) :: (unit, bytes) outcome)"
    using Suc.prems(6) by (simp add: sub_slice_def)
  show ?case
  proof (cases rule: slice.FrameDecoder_read_ok [OF Suc.prems(1,2), of H n])
    case (2 e self')
    with Suc.prems(3,4) show ?thesis by fastforce
  next
    case (1 bs d st' self')
    from 1(7) Suc.prems(3) obtain y where y: "x = bs @ y" "stands_for (\<lambda>r. r) H self' d st' y" by auto
    show ?thesis
    proof (cases "bs = []")
      case True
      with 1(8) Suc.prems(5) y have "x = []" by (simp add: stands_for_nothing decodes_nothing)
      with True 1(1) w show ?thesis by simp
    next
      case False
      have f: "length (fd_r self') + 1 < read_fuel" using 1(5) Suc.prems(2) by simp
      have lim: "fd_bytes_output self' + length y \<le> out_limit self' + length d"
        using 1(4,6) Suc.prems(4) y(1) by (simp add: same_settings_def out_limit_def)
      have len: "pos + length bs \<le> length out" "pos \<le> length out" using Suc.prems(6) y(1) by simp_all
      have "0 < length bs" using False by simp
      moreover have "length x = length bs + length y" by (simp add: y(1))
      ultimately have fuel: "length y < fuel" using Suc.prems(7) by linarith
      have "read_parts fuel read_fuel H self' n (blit out pos bs) (pos + length bs) = Ok (take (pos + length bs) (blit out pos bs) @ y)"
        using Suc.prems(5,6) y(1) len(1) fuel by (intro Suc.IH [OF 1(3) f y(2) lim]) simp_all
      with 1(1) w False y(1) show ?thesis by (simp add: Let_def take_blit [OF len(2)])
    qed
  qed
qed

lemma FrameDecoder_new_options:
  "FrameDecoder_new H r = FrameDecoder_with_options H r default_options"
  by (simp add: FrameDecoder_with_options_def default_options_def)

lemma roundtrip_frame_config_passes:
  assumes one: "oneshot_consistent H" and info: "dict_id info = None" "content_size info = None" and n: "0 < n"
    and len: "length data < 2 ^ 63"
  shows "roundtrip_frame_config H data n info = Ok ()"
proof -
  have b: "bytes_of_calls (flush_calls (chunks_of n data)) = data" by (simp only: bytes_of_flush_calls concat_chunks_of [OF n])
  obtain enc enc' wire where e: "new_encoder H [] info None = Ok enc" "run_calls H vec_writer (flush_calls (chunks_of n data)) enc = Ok enc'"
    "finish H vec_writer enc' = Ok wire" "frame_stream H (options_dict (encoder_options None)) (options_dict_id (encoder_options None)) wire data"
    by (rule frame_written [of info H None "flush_calls (chunks_of n data)", unfolded b]) (use one info len in auto)
  have f: "frame_stream H [] None wire data" using e(4) by (simp add: encoder_options_def options_dict_def options_dict_id_def)
  let ?dec = "FrameDecoder_with_options H wire default_options"
  have "read_parts (length data + 1) (length wire + 2) H ?dec n (replicate (length data + n) 0) 0 =
      Ok (take 0 (replicate (length data + n) 0) @ data)"
    using f n len by (intro read_parts_ok [OF new_decoder(1)])
      (simp_all add: new_decoder(2-6) stands_for_nothing decodes_Idle usize_max_def)
  moreover have "FrameEncoder_with_frame_info H info [] = (Ok enc :: (unit, _) outcome)"
    using e(1) by (auto simp: new_encoder_def FrameEncoder_with_frame_info_def HashTableU32_new_def obind_Ok_iff split: if_splits)
  ultimately show ?thesis
    using n flush_chunks_calls [OF e(2)] e(3)
    by (simp add: roundtrip_frame_config_def data_chunks_def Let_def FrameDecoder_new_options)
qed

lemma fuzz_roundtrip_frame_passes:
  assumes "oneshot_consistent H"
  shows "fuzz_roundtrip_frame H sample data_size_seed chunk_size_seed = Ok ()"
proof (cases "sample = []")
  case False
  let ?n = "data_size_seed mod MAX_DATA_SIZE"
  obtain data where d: "sample_data sample ?n = (Ok data :: (unit, _) outcome)" "length data = ?n"
    using sample_data_ok [OF False, where ?'e = unit] by blast
  have "?n < MAX_DATA_SIZE" by (simp add: MAX_DATA_SIZE_def)
  with d(2) have "length data < 2 ^ 63" by (simp add: MAX_DATA_SIZE_def)
  then have "roundtrip_frame_config H data (max (chunk_size_seed mod MAX_DATA_SIZE) 64) info = Ok ()" if "info \<in> set frame_configs" for info
    using that assms by (intro roundtrip_frame_config_passes) (auto simp: frame_configs_def FrameInfo_new_def)
  then show ?thesis by (simp add: fuzz_roundtrip_frame_def False Let_def d(1) for_each_Ok)
qed (simp add: fuzz_roundtrip_frame_def)

lemma read_to_end_returns: "length r < fuel \<Longrightarrow> returns (read_to_end fuel H slice_reader (FrameDecoder_with_options H r options) buf)"
  using slice.read_to_end_idle(2) [OF new_decoder(1) [of H r options], where H = H and fuel = fuel and buf = buf]
  by (cases "read_to_end fuel H slice_reader (FrameDecoder_with_options H r options) buf") (auto simp: new_decoder(2-6))

lemma fuzz_roundtrip_frame_dict_passes: "fuzz_roundtrip_frame_dict H sample dictionary data_size_seed chunk_size_seed = Ok ()"
proof -
  define dict where "dict = take (min (length dictionary) (64 * 1024)) dictionary"
  define n where "n = max (chunk_size_seed mod MAX_DATA_SIZE) 64"
  define size where "size = data_size_seed mod MAX_DATA_SIZE"
  show ?thesis
  proof (cases "sample = [] \<or> dict = []")
    case True
    show ?thesis
    proof (cases "sample = []")
      case False
      obtain data where "sample_data sample size = (Ok data :: (unit, _) outcome)"
        using sample_data_ok [OF False, where ?'e = unit] by blast
      with True False show ?thesis
        unfolding fuzz_roundtrip_frame_dict_def Let_def dict_def [symmetric] n_def [symmetric] size_def [symmetric] by simp
    qed (simp add: fuzz_roundtrip_frame_dict_def)
  next
    case ne: False
    then obtain data where d: "sample_data sample size = (Ok data :: (unit, _) outcome)" "length data = size"
      using sample_data_ok [of sample size, where ?'e = unit] by blast
    have "size < MAX_DATA_SIZE" by (simp add: size_def MAX_DATA_SIZE_def)
    then have len: "length data < 2 ^ 63" using d(2) by (simp add: MAX_DATA_SIZE_def)
    have n: "0 < n" by (simp add: n_def)
    have b: "bytes_of_calls (concat (map write_calls (chunks_of n data))) = data"
      by (simp only: bytes_of_write_calls concat_chunks_of [OF n])
    define did where "did = (0x12345678 :: 32 word)"
    obtain enc enc' wire where e: "new_encoder H [] FrameInfo_new (Some (dict, did)) = Ok enc"
      "run_calls H vec_writer (concat (map write_calls (chunks_of n data))) enc = Ok enc'"
      "finish H vec_writer enc' = Ok wire"
      "frame_stream H (options_dict (encoder_options (Some (dict, did)))) (options_dict_id (encoder_options (Some (dict, did)))) wire data"
      by (rule frame_written [of FrameInfo_new H "Some (dict, did)" "concat (map write_calls (chunks_of n data))", unfolded b])
        (use len in \<open>auto simp: FrameInfo_new_def\<close>)
    let ?o = "encoder_options (Some (dict, did))"
    have "length data \<le> options_limit ?o" using len by (simp add: encoder_options_def options_limit_def usize_max_def)
    with e(4) slice.read_to_end_idle(1) [OF new_decoder(1) [of H wire ?o], where H = H and fuel = "length wire + 1" and buf = "[]" and c = data]
    obtain dec where r: "read_to_end (length wire + 1) H slice_reader (FrameDecoder_with_dictionary H wire dict did) [] = Ok (length data, dec, data)"
      by (auto simp: new_decoder(2-6) FrameDecoder_with_dictionary_def encoder_options_def)
    have with_dict: "FrameEncoder_with_dictionary H [] dict did None = Ok enc"
      using e(1) by (simp add: new_encoder_def FrameEncoder_with_dictionary_def)
    have rets: "returns (read_to_end (Suc (length wire)) H slice_reader (FrameDecoder_with_dictionary H wire d did) [])"
      "returns (read_to_end (Suc (length wire)) H slice_reader (FrameDecoder_new H wire) [])" for d
      by (simp_all add: FrameDecoder_with_dictionary_def FrameDecoder_new_options read_to_end_returns)
    show ?thesis
      unfolding fuzz_roundtrip_frame_dict_def Let_def dict_def [symmetric] n_def [symmetric] size_def [symmetric] did_def [symmetric]
      using ne n d(1) write_chunks_calls [OF e(2)] e(3) r rets
      by (simp add: data_chunks_def with_dict ignore_returns)
  qed
qed

section \<open>Damaged frames\<close>

lemma frame_decompress_returns: "returns (lz4rip_frame_decompress H input)"
  unfolding lz4rip_frame_decompress_def
  by (intro returns_obind) (auto simp: FrameDecoder_new_options intro: read_to_end_returns)

lemma fuzz_decomp_corrupt_frame_passes: "fuzz_decomp_corrupt_frame H data = Ok ()"
  by (simp add: fuzz_decomp_corrupt_frame_def Let_def ignore_returns frame_decompress_returns)

section \<open>Reused decoders\<close>

text \<open>An empty frame is its header and its end.\<close>

lemma finish_empty:
  assumes enc: "new_encoder H [] info dictionary = Ok enc" and i: "block_size info \<noteq> Auto" "content_size info = None"
  shows "finish H vec_writer enc = Ok (header_bytes H (fe_frame_info enc) @ end_of_frame H (fe_frame_info enc) (with_seed H 0))"
    "fe_frame_info enc = info\<lparr>dict_id := (case dictionary of None \<Rightarrow> dict_id info | Some (_, did) \<Rightarrow> Some did)\<rparr>"
proof -
  have e: "fe_w enc = []" "fe_src_start enc = 0" "fe_src_end enc = 0" "fe_content_len enc = 0" "\<not> fe_is_frame_open enc" "\<not> fe_failed enc"
    "\<not> fe_data_to_frame_written enc" "fe_hasher enc = with_seed H 0"
    "fe_frame_info enc = info\<lparr>dict_id := (case dictionary of None \<Rightarrow> dict_id info | Some (_, did) \<Rightarrow> Some did)\<rparr>"
    using enc by (auto simp: new_encoder_def FrameEncoder_with_dictionary_def FrameEncoder_with_frame_info_def HashTableU32_new_def
        obind_Ok_iff split: option.splits if_splits)
  then show "fe_frame_info enc = info\<lparr>dict_id := (case dictionary of None \<Rightarrow> dict_id info | Some (_, did) \<Rightarrow> Some did)\<rparr>" by simp
  let ?i = "fe_frame_info enc"
  have b: "block_size ?i \<noteq> Auto" "content_size ?i = None" using e(9) i by simp_all
  have "FrameInfo_write_size ?i \<le> length (replicate MAX_FRAME_INFO_SIZE (0 :: byte))" by (simp add: FrameInfo_write_size_def)
  from FrameInfo_write_eq [OF this, of H] b(1) obtain tail where fw:
    "FrameInfo_write H ?i (replicate MAX_FRAME_INFO_SIZE 0) = Ok (length (header_bytes H ?i), header_bytes H ?i @ tail)"
    using length_header_bytes [of H ?i] by auto
  show "finish H vec_writer enc = Ok (header_bytes H ?i @ end_of_frame H ?i (with_seed H 0))"
    using b e(1-8) fw
    by (simp add: finish_def try_finish_def FrameEncoder_flush_def begin_frame_def end_frame_def vec_writer_def w_all_def lift_def Let_def
        writer.BlockInfo_write_end [OF vec.writer_axioms, simplified] end_of_frame_def)
qed

lemma reuse_header_ok:
  fixes H :: "'h hasher"
  shows "\<exists>h. reuse_header H mode checksums dict = Ok h \<and> length h \<le> 19"
proof -
  define info where "info = FrameInfo_content_checksum (FrameInfo_block_checksums (FrameInfo_block_size
            (FrameInfo_block_mode FrameInfo_new mode) Max64KB) checksums) checksums"
  have i: "block_size info = Max64KB" "content_size info = None" "content_checksum info = checksums" "dict_id info = None"
    by (simp_all add: info_def FrameInfo_content_checksum_def FrameInfo_block_checksums_def FrameInfo_block_size_def
        FrameInfo_block_mode_def FrameInfo_new_def)
  let ?d = "map_option (\<lambda>dict. (dict, DICT_ID)) dict"
  obtain enc :: "('h, bytes) FrameEncoder" where enc: "new_encoder H [] info ?d = Ok enc"
    by (rule frame_written [of "info\<lparr>block_checksums := False\<rparr>" H ?d "[]"])
      (use i in \<open>auto simp: new_encoder_def FrameEncoder_with_dictionary_def FrameEncoder_with_frame_info_def HashTableU32_new_def
        obind_Ok_iff split: option.splits if_splits\<close>)
  let ?i = "fe_frame_info enc"
  have f: "finish H vec_writer enc = Ok (header_bytes H ?i @ end_of_frame H ?i (with_seed H 0))" "content_checksum ?i = checksums"
    using finish_empty [OF enc] i by simp_all
  then have e: "length (end_of_frame H ?i (with_seed H 0)) = (if checksums then 8 else 4)" by (simp add: end_of_frame_def)
  have "(case dict of Some dict \<Rightarrow> unwrap (FrameEncoder_with_dictionary H [] dict DICT_ID (Some info))
      | None \<Rightarrow> FrameEncoder_with_frame_info H info []) = (Ok enc :: (unit, _) outcome)"
    using enc by (auto simp: new_encoder_def FrameEncoder_with_frame_info_def HashTableU32_new_def obind_Ok_iff
        split: option.splits if_splits)
  then have "reuse_header H mode checksums dict = Ok (header_bytes H ?i)"
    unfolding reuse_header_def Let_def info_def [symmetric]
    by (simp add: f(1) e usub_def sub_slice_def)
  moreover have "length (header_bytes H ?i) \<le> 19" by (simp add: length_header_bytes FrameInfo_write_size_def)
  ultimately show ?thesis by simp
qed

lemma reuse_headers_ok:
  "\<forall>h\<in>set headers. length h \<le> 19 \<Longrightarrow>
    \<exists>hs. reuse_headers H configs headers = Ok hs \<and> length hs = length headers + length configs \<and> (\<forall>h\<in>set hs. length h \<le> 19)"
proof (induction configs arbitrary: headers)
  case (Cons config configs)
  obtain mode checksums dict where c: "config = (mode, checksums, dict)" by (cases config)
  obtain h where h: "reuse_header H mode checksums dict = Ok h" "length h \<le> 19" using reuse_header_ok by blast
  have "\<forall>x\<in>set (headers @ [h]). length x \<le> 19" using Cons.prems h(2) by simp
  from Cons.IH [OF this] h(1) show ?case by (auto simp: c)
qed simp

lemma HEADERS_ok: "\<exists>hs. HEADERS H = Ok hs \<and> hs \<noteq> [] \<and> (\<forall>h\<in>set hs. length h \<le> 19)"
  unfolding HEADERS_def
  using reuse_headers_ok [of "[[]]" H "concat (map (\<lambda>mode. concat (map (\<lambda>checksums. map (\<lambda>dict. (mode, checksums, dict)) [None, Some DICT])
         [False, True])) [Independent, Linked])"] by force

text \<open>Reads with any buffers of two decoders that agree.\<close>

lemma read_limited_agree:
  fixes s t :: "('h, bytes) FrameDecoder"
  assumes "both (\<lambda>r. r) N M s t" "holds s c st" "length (fd_r s) + 1 < read_fuel" "limit < fuel" and plan: "\<And>parts. 0 < plan parts"
  shows "\<exists>res s' t'. read_limited fuel read_fuel plan H s limit parts = Ok (res, s') \<and>
    read_limited fuel read_fuel plan H t limit parts = Ok (res, t') \<and>
    (length (concat (fst res)) = length (concat parts) + limit \<or> at_stage s' Idle \<and> same_settings s s' \<and> spent N s')"
  using assms(1-4)
proof (induction fuel arbitrary: s t c st limit parts)
  case 0
  then show ?case by simp
next
  case (Suc fuel)
  let ?n = "min (plan parts) limit"
  note A = slice.FrameDecoder_read_agree [OF Suc.prems(1,3), of H ?n]
  show ?case
  proof (cases "limit = 0")
    case True
    then show ?thesis by simp
  next
    case limit: False
    then have n: "0 < ?n" using plan [of parts] by simp
    show ?thesis
    proof (cases rule: slice.FrameDecoder_read_ok [OF Suc.prems(2,3), of H ?n])
      case (2 e s')
      from A 2(1) obtain t' where t': "FrameDecoder_read read_fuel H slice_reader t ?n = Err (e, t')" "abandoned N M s' t'"
        by (cases "FrameDecoder_read read_fuel H slice_reader t ?n") auto
      with 2(1,4) limit show ?thesis by (simp add: failed_ok_def abandoned_def del: at_stage.simps)
    next
      case (1 bs d st' s')
      from A 1(1) obtain t' where t': "FrameDecoder_read read_fuel H slice_reader t ?n = Ok (bs, t')" "both (\<lambda>r. r) N M s' t'"
        by (cases "FrameDecoder_read read_fuel H slice_reader t ?n") auto
      show ?thesis
      proof (cases "bs = []")
        case True
        with 1(8) n have "d = []" "st' = Idle" by auto
        with 1(3) have "at_stage s' Idle" using holds_nothing by blast
        with True 1(1,4) t' limit budget_spent [of "\<lambda>r. r" N s'] show ?thesis by (simp add: both_def del: at_stage.simps)
      next
        case False
        then have l: "0 < length bs" "length bs \<le> limit" using 1(2) by simp_all
        have f: "length (fd_r s') + 1 < read_fuel" using 1(5) Suc.prems(3) by simp
        have "limit - length bs < fuel" using l Suc.prems(4) by linarith
        from Suc.IH [OF t'(2) 1(3) f this, of "parts @ [bs]"] obtain res s2 t2 where
          r: "read_limited fuel read_fuel plan H s' (limit - length bs) (parts @ [bs]) = Ok (res, s2)"
          "read_limited fuel read_fuel plan H t' (limit - length bs) (parts @ [bs]) = Ok (res, t2)"
          "length (concat (fst res)) = length (concat (parts @ [bs])) + (limit - length bs) \<or> at_stage s2 Idle \<and> same_settings s' s2 \<and> spent N s2"
          by blast
        moreover have "length (concat (parts @ [bs])) + (limit - length bs) = length (concat parts) + limit" using l(2) by simp
        ultimately show ?thesis
          using 1(1) t'(1) False limit same_settings_trans [OF 1(4)] by (auto simp del: at_stage.simps)
      qed
    qed
  qed
qed

abbreviation reuse_options :: "bool \<Rightarrow> FrameDecoderOptions" where
  "reuse_options dict \<equiv> \<lparr>opt_dictionary = (if dict then Some (DICT, DICT_ID) else None), opt_max_output = None\<rparr>"

lemma new_frame_decoder_eq: "new_frame_decoder H input dict = FrameDecoder_with_options H input (reuse_options dict)"
  by (simp add: new_frame_decoder_def FrameDecoder_with_dictionary_def FrameDecoder_new_options default_options_def)

lemma new_frame_decoder_reader: "(FrameDecoder_with_options H input options)\<lparr>fd_r := input\<rparr> = FrameDecoder_with_options H input options"
proof -
  have "self\<lparr>fd_r := fd_r self\<rparr> = self" for self :: "('a, 'b) FrameDecoder" by simp
  from this [of "FrameDecoder_with_options H input options"] show ?thesis by (simp add: new_decoder(2))
qed

lemma reusable_mono: "reusable options N self \<Longrightarrow> N \<le> M \<Longrightarrow> M \<le> usize_max \<Longrightarrow> reusable options M self"
  by (auto simp: reusable_def spent_def simp del: at_stage.simps)

lemma reuse_frames_pass:
  assumes plan: "\<And>parts. 0 < plan parts"
  shows "reusable (reuse_options dict) N reused \<Longrightarrow> N + 4194304 * (\<Sum>input\<leftarrow>inputs. length input) \<le> usize_max \<Longrightarrow>
    reuse_frames plan to_string H dict reused inputs = Ok ()"
proof (induction inputs arbitrary: reused N)
  case (Cons input inputs)
  let ?o = "reuse_options dict" and ?N = "N + 4194304 * length input"
  let ?s = "reused\<lparr>fd_r := input\<rparr>" and ?t = "new_frame_decoder H input dict"
  have new: "reusable ?o 0 (new_frame_decoder H r dict)" for r
    unfolding new_frame_decoder_eq by (rule reusable_new) simp
  have b: "?N \<le> usize_max" "0 + 4194304 * length input \<le> usize_max" using Cons.prems(2) by simp_all
  have "?t\<lparr>fd_r := input\<rparr> = ?t" by (simp add: new_frame_decoder_eq new_frame_decoder_reader)
  with reusable_both [where rest = "\<lambda>r. r", OF Cons.prems(1) new b, of input]
  have B: "both (\<lambda>r. r) ?N (0 + 4194304 * length input) ?s ?t" by simp
  have h: "holds ?s [] Idle" using Cons.prems(1) by (simp add: reusable_def holds_def)
  have f: "length (fd_r ?s) + 1 < length input + 2" by simp
  obtain res s' t' where r: "read_limited (LIMIT + 1) (length input + 2) plan H ?s LIMIT [] = Ok (res, s')"
    "read_limited (LIMIT + 1) (length input + 2) plan H ?t LIMIT [] = Ok (res, t')"
    "length (concat (fst res)) = LIMIT \<or> at_stage s' Idle \<and> same_settings ?s s' \<and> spent ?N s'"
    using read_limited_agree [OF B h f, of LIMIT "LIMIT + 1" plan H "[]"] plan by auto
  obtain parts e where res: "res = (parts, e)" by fastforce
  define out where "out = concat parts"
  have "fd_r ?t = input" by (simp add: new_frame_decoder_eq new_decoder(2))
  then have read: "read_frames plan to_string H ?s = Ok ((out, map_option to_string e), s')"
    "read_frames plan to_string H ?t = Ok ((out, map_option to_string e), t')"
    using r(1,2) by (simp_all add: read_frames_def res out_def)
  have "reusable ?o ?N (if length out = LIMIT then new_frame_decoder H [] dict else s')"
  proof (cases "length out = LIMIT")
    case True
    then show ?thesis using reusable_mono [OF new _ b(1)] by simp
  next
    case False
    with r(3) res out_def have "at_stage s' Idle" "same_settings ?s s'" "spent ?N s'" by simp_all
    with False Cons.prems(1) show ?thesis by (simp add: reusable_def same_settings_def del: at_stage.simps)
  qed
  from Cons.IH [OF this] Cons.prems(2) show ?case by (simp add: read)
qed simp

text \<open>Blocks are decoded the same into a dirty buffer.\<close>

lemma reuse_decode_block_clean:
  assumes len: "length buf' = length buf"
  obtains r out1 out2 where "reuse_decode_block (Decompressor_with_dict dict) input buf = Ok (r, out1)"
    "reuse_decode_block (Decompressor_with_dict dict) input buf' = Ok (r, out2)" "length out1 = length buf"
proof (cases rule: slice_cases [of True dict buf input])
  case (Ok h tail)
  with len that show thesis
    by (cases rule: slice_cases [of True dict buf' input]) (auto simp: reuse_decode_block_def decoding_defs sub_slice_def)
next
  case (Err e h tail)
  with len that show thesis
    by (cases rule: slice_cases [of True dict buf' input]) (auto simp: reuse_decode_block_def decoding_defs)
qed

lemma reuse_blocks_pass:
  "length out = BLOCK_CAPACITY \<Longrightarrow> reuse_blocks (Decompressor_with_dict dict) out inputs = Ok ()"
proof (induction inputs arbitrary: out)
  case (Cons input inputs)
  have len: "length (replicate BLOCK_CAPACITY (0 :: byte)) = length out" using Cons.prems by simp
  obtain r out1 out2 where "reuse_decode_block (Decompressor_with_dict dict) input out = Ok (r, out1)"
    "reuse_decode_block (Decompressor_with_dict dict) input (replicate BLOCK_CAPACITY 0) = Ok (r, out2)" "length out1 = length out"
    by (rule reuse_decode_block_clean [OF len])
  with Cons.IH [of out1] Cons.prems show ?case by simp
qed simp

lemma fuzz_decoder_reuse_passes:
  assumes plan: "\<And>parts. 0 < plan parts" and len: "length data < 2 ^ 32"
  shows "fuzz_decoder_reuse plan to_string H data = Ok ()"
proof (cases "2 \<le> length data")
  case False
  then show ?thesis by (cases data; cases "tl data") (auto simp: fuzz_decoder_reuse_def)
next
  case True
  then obtain selector split rest where data: "data = selector # split # rest" by (cases data; cases "tl data") auto
  define n where "n = unat split * length rest div 255"
  have "n \<le> 255 * length rest div 255" unfolding n_def by (intro div_le_mono mult_right_mono) simp_all
  then have n: "n \<le> length rest" by simp
  obtain hs where hs: "HEADERS H = Ok hs" "hs \<noteq> []" "\<forall>h\<in>set hs. length h \<le> 19" using HEADERS_ok by blast
  define i where "i = unat (selector AND 0xF) mod length hs"
  define j where "j = unat (drop_bit 4 selector) mod length hs"
  have ij: "i < length hs" "j < length hs" using hs(2) by (simp_all add: i_def j_def)
  then have l: "length (hs ! i) \<le> 19" "length (hs ! j) \<le> 19" using hs(3) by simp_all
  define frames where "frames = [hs ! i @ take n rest, hs ! j @ drop n rest, hs ! i @ take n rest, hs ! j @ drop n rest]"
  have "(\<Sum>input\<leftarrow>frames. length input) \<le> 2 * length rest + 76" using l n by (simp add: frames_def)
  then have "0 + 4194304 * (\<Sum>input\<leftarrow>frames. length input) \<le> usize_max" using len by (simp add: data usize_max_def)
  note F = reuse_frames_pass [OF plan _ this]
  have "reuse_frames plan to_string H dict (new_frame_decoder H [] dict) frames = Ok ()" for dict
    by (rule F) (simp add: new_frame_decoder_eq reusable_new)
  then have "for_each (\<lambda>dict. reuse_frames plan to_string H dict (new_frame_decoder H [] dict) frames) [False, True] = Ok ()"
    by simp
  moreover have new: "Decompressor_new = Decompressor_with_dict []" by (simp add: Decompressor_new_def Decompressor_with_dict_def)
  have "for_each (\<lambda>decompressor. reuse_blocks decompressor (replicate BLOCK_CAPACITY 0xA5) [take n rest, drop n rest, take n rest, drop n rest])
      [Decompressor_new, Decompressor_with_dict DICT] = Ok ()"
    unfolding new by (simp add: reuse_blocks_pass del: reuse_blocks.simps)
  moreover have "obind (umod (unat (selector AND 0xF)) (length hs)) (idx_get hs) = (Ok (hs ! i) :: (unit, bytes) outcome)"
    "obind (umod (unat (drop_bit 4 selector)) (length hs)) (idx_get hs) = (Ok (hs ! j) :: (unit, bytes) outcome)"
    using ij hs(2) by (simp_all add: umod_def idx_get_def i_def j_def)
  moreover have "sub_slice rest 0 n = (Ok (take n rest) :: (unit, bytes) outcome)"
    "sub_slice rest n (length rest) = (Ok (drop n rest) :: (unit, bytes) outcome)"
    using n by (simp_all add: sub_slice_def)
  ultimately show ?thesis
    unfolding fuzz_decoder_reuse_def data list.case Let_def n_def [symmetric]
    by (simp only: obind.simps hs(1) frames_def [symmetric])
qed

section \<open>Properties\<close>

text \<open>
  C39: the fuzz targets for frames pass on all data: round trips with every block mode, block size
  and checksum setting and with dictionaries, frames with arbitrary contents, and decoders that
  are used again after whole and damaged frames, whatever the buffers that read_to_end chooses.
\<close>

theorem fuzz_frame_targets_pass:
  assumes "oneshot_consistent H" "\<forall>parts. 0 < plan parts" "length data < 2 ^ 32"
  shows "fuzz_roundtrip_frame H sample data_size_seed chunk_size_seed = Ok () \<and>
    fuzz_roundtrip_frame_dict H sample dictionary data_size_seed chunk_size_seed = Ok () \<and>
    fuzz_decomp_corrupt_frame H data = Ok () \<and> fuzz_decoder_reuse plan to_string H data = Ok ()"
  using assms
  by (intro conjI fuzz_roundtrip_frame_passes fuzz_roundtrip_frame_dict_passes fuzz_decomp_corrupt_frame_passes
      fuzz_decoder_reuse_passes) simp_all

theorem fuzz_frame_targets_pass_witness:
  "fuzz_roundtrip_frame zero_hash [1, 2, 3] 100000 70 = Ok () \<and> fuzz_decoder_reuse (\<lambda>_. 32) (\<lambda>_. '''') zero_hash [33, 128, 4, 34, 77, 24] = Ok ()"
  using fuzz_frame_targets_pass [OF zero_hash_consistent, of "\<lambda>_. 32" "[33, 128, 4, 34, 77, 24]" "[1, 2, 3]" 100000 70 "[]" "\<lambda>_. ''''"]
  by simp

end
