(* ===== verification/Spec2Isabelle.thy ===== *)
theory Spec2Isabelle
  imports Dict_Trainer_Correct Fuzz_Frames_Pass
begin

text \<open>
  Verification of the LZ4 library lz4rip.

  \<^bold>\<open>The program.\<close> \<^verbatim>\<open>crates/core\<close> holds the constants of the block format, the error types,
  a copy for small slices and the output sink.  \<^verbatim>\<open>crates/decode\<close> decodes and validates blocks,
  \<^verbatim>\<open>crates/encode\<close> encodes them and trains dictionaries, \<^verbatim>\<open>src/frame\<close> reads and writes the
  frame format around the blocks, and \<^verbatim>\<open>jsr/wasm\<close> offers all of it to JavaScript.  \<^verbatim>\<open>fuzz\<close>
  states what the authors expect of the whole: no data makes one of its targets panic.

  \<^bold>\<open>Foundations.\<close>
  \<^item> \<open>Prelude\<close>: outcomes of fallible code (\<open>Ok\<close>, \<open>Err\<close>, \<open>Panic\<close>, \<open>Diverge\<close>), slices with
    bounds checks, fixed-width arithmetic, little-endian bytes.
  \<^item> \<open>Periodic\<close>: the meaning of an overlapping match, \<open>match_expand\<close>, and the relation
    \<open>extends_match\<close> that the loops of the copy routines keep.
  \<^item> \<open>Core_Crate\<close>: \<^verbatim>\<open>crates/core/src\<close>; the trait \<^verbatim>\<open>Sink\<close> as the locale \<open>sink\<close>,
    interpreted by \<open>SliceSink\<close>.
  \<^item> \<open>Block_Format\<close>: the abstract specification of blocks: the grammar \<open>lz4_block\<close> with its
    meaning and the reference decoder \<open>decode_block\<close>, which accepts exactly the grammar; and
    \<open>ending_block\<close>, the stricter grammar with the rules for the end of a block that encoders keep.

  \<^bold>\<open>Decoding blocks, \<^verbatim>\<open>crates/decode/src\<close>.\<close>
  \<^item> \<open>Copy_Primitives\<close>, \<open>Copy_Correct\<close>: \<^verbatim>\<open>primitives.rs\<close>; each match copy interprets the locale
    \<open>match_copier\<close>.
  \<^item> \<open>Decoder\<close>, \<open>Decoder_Correct\<close>, \<open>Decoder_Interface\<close>: \<^verbatim>\<open>decompress.rs\<close> and \<^verbatim>\<open>out.rs\<close>.
    Every token of the fast loop and of the general path is one step of the reference decoder, so
    each interface function refines it, on damaged input too.
  \<^item> \<open>Validator\<close>: \<^verbatim>\<open>validate.rs\<close>; valid means that the decoder fills a buffer of that length.

  \<^bold>\<open>Encoding blocks, \<^verbatim>\<open>crates/encode/src\<close>.\<close>
  \<^item> \<open>Hash_Table\<close>: \<^verbatim>\<open>hashtable.rs\<close>: counting equal bytes, and the two tables, which interpret one
    locale over a record of operations.
  \<^item> \<open>Encoder\<close>: \<^verbatim>\<open>compress.rs\<close>.  \<open>Encoder_Write\<close> shows what the writing functions append,
    \<open>Encoder_Match\<close> that a hit of the search is a match, \<open>Encoder_Correct\<close> and \<open>Encoder_Dict\<close> that
    the two compression loops keep an invariant: what is written so far encodes what is consumed.
    \<open>Encoder_Interface\<close> has the one-shot functions, \<open>Encoder_Reuse\<close> and \<open>Compressors\<close> (with
    \<^verbatim>\<open>compressor.rs\<close>) the reusable compressors, whose reachable states are inductive predicates.
  \<^item> \<open>Dict_Trainer\<close>, \<open>Dict_Trainer_Correct\<close>: \<^verbatim>\<open>dict.rs\<close>: which samples stay, that training ends,
    that the selection is greedy (\<open>greedy\<close> states the rules of the choice, \<open>exhausted\<close> when nothing is
    left to choose), and the sizes for which it panics.

  \<^bold>\<open>Frames, \<^verbatim>\<open>src/frame\<close>.\<close>
  \<^item> \<open>Frame_Header\<close>, \<open>Frame_Header_Correct\<close>: \<^verbatim>\<open>mod.rs\<close> and \<^verbatim>\<open>header.rs\<close>; the reader accepts exactly
    what the writer writes.
  \<^item> \<open>Frame_Format\<close>: the abstract specification of frames (\<open>frame\<close>, \<open>frame_stream\<close>), and \<open>decodes\<close>,
    what is left to decode at every stage of a stream.
  \<^item> \<open>Frame_Encoder\<close>, \<open>Frame_Encoder_Correct\<close>, \<open>Frame_Encoder_Failure\<close>: \<^verbatim>\<open>compress.rs\<close>.  The buffer
    of the encoder always continues the content of the frame, with the window the table refers to;
    every call keeps this, and a failed call disables the encoder.
  \<^item> \<open>Frame_Decoder\<close>, \<open>Frame_Decoder_Correct\<close>, \<open>Frame_Reading\<close>: \<^verbatim>\<open>decompress.rs\<close>.  Reading a block moves
    the decoder from one stage to the next; the reading methods repeat this.
  \<^item> \<open>Frame_Stream\<close>, \<open>Frame_Properties\<close>: whole streams, and the two sides together.
  \<^item> \<open>Frame_Reuse\<close>: a decoder that is used again decodes as a new one.  Two runs are compared step by
    step: they agree on all that can still be read, and differ in stale bytes of buffers and in
    how much they have given out.
  \<^item> \<open>Error_Text\<close>: the texts of all errors.
  \<^item> \<open>Wasm_Binding\<close>: \<^verbatim>\<open>jsr/wasm/src/lib.rs\<close>, with its round trips for a 64-bit build.  The published
    package is built for wasm32 and not covered.

  \<^bold>\<open>Fuzz targets, \<^verbatim>\<open>fuzz/fuzz_targets\<close>.\<close>
  \<^item> \<open>Fuzz_Blocks\<close>, \<open>Fuzz_Frames\<close>: each target as a function of its data, where an assertion that fails
    and an \<^verbatim>\<open>unwrap\<close> of an error are panics.
  \<^item> \<open>Fuzz_Blocks_Pass\<close>, \<open>Fuzz_Frames_Pass\<close>: every target passes.  The ranges the fuzzer draws a field
    from, and lengths far above any memory, are hypotheses.

  \<^bold>\<open>Parameters.\<close> The hash of the frames (the crate twox-hash) is a record of functions,
  \<open>hasher\<close>.  The encoder writes to any \<open>io_write\<close> that satisfies the locale \<open>writer\<close> (it takes all
  bytes, in order), the decoder reads from any \<open>io_read\<close> that satisfies the locale \<open>reader\<close> (it gives
  a prefix of what is left, not empty before the end); a vector and a slice interpret them.  The
  one law about the hash, \<open>oneshot_consistent\<close>, is that hashing at once and by parts agree; only
  block checksums need it.  For the fuzz targets the two functions of the C library are
  parameters: its encoder makes blocks of the grammar, its decoder reads blocks that keep the end
  rules; and so are the lengths of the buffers that \<^verbatim>\<open>read_to_end\<close> chooses and the text of an
  \<^verbatim>\<open>io::Error\<close>.

  \<^bold>\<open>Conventions.\<close> The target is 64-bit, little-endian and without AVX; the functions the code has for
  32-bit targets are modelled beside the others.  A \<^verbatim>\<open>usize\<close> is a natural number, and where the code
  relies on its width the width is written out.  A \<^verbatim>\<open>debug_assert\<close> that fails is a panic, and so is an
  arithmetic overflow.  Memory never runs out, but a vector whose room is asked for by the caller
  (\<^verbatim>\<open>reserve_exact\<close> in the vector interface of the decoder) cannot exceed \<^verbatim>\<open>isize::MAX\<close> bytes: beyond that
  the model panics as the code does.

  \<^bold>\<open>Fuel.\<close> The loops over tokens take one unit more than the input has bytes, as each round consumes
  the token byte.  The loop of the frame encoder over its input takes \<open>2 n + 2\<close> for \<open>n\<close> bytes: a round
  writes a block or consumes bytes.  The reading loops of the frame decoder take one more than the
  reader has bytes left, as every block has a header; the selection loop of the trainer one more
  than the size of the dictionary, as each segment has bytes.  The reading loops of the fuzz
  targets take one more than the bytes they can read, as each round reads a byte or is the last.  The theorems show that
  this is enough for every input.

  \<^bold>\<open>Not modelled.\<close> \<^verbatim>\<open>Debug\<close> impls; the capacities of vectors, which are reserved
  and compared in debug assertions; getters that return a field; the re-exports of \<^verbatim>\<open>src/lib.rs\<close>;
  the library as the WebAssembly package has it: a wasm32 build takes the 32-bit hash, its own threshold
  for moving the stream and paths that refuse long streams;
  benchmarks and examples, which time the library beside the C library, draw charts with floating
  point and read and write files, and the tests, which run the library on fixed data: they hold
  no logic of the library.
\<close>

end
